(* ===== verification/Prelude.thy ===== *)
theory Prelude
  imports Main "HOL-Library.Word" "HOL-Library.Type_Length"
begin

text \<open>
  Shared vocabulary of the development: the machine integer types of the C++ code, the faults
  that end or break a run (failed \<open>assert\<close>, access outside a vector, null pointer, uncaught
  exception), the result type and its sequencing, reads and writes of a byte vector, and the
  generic lemmas on lists and words the components use.
\<close>

section \<open>Machine integers\<close>

type_synonym u8 = "8 word"
type_synonym u32 = "32 word"
type_synonym u64 = "64 word"
type_synonym size_t = "64 word"

text \<open>\<open>std::numeric_limits<std::size_t>::max()\<close>.\<close>

definition SIZE_T_MAX :: nat where "SIZE_T_MAX = 2 ^ 64 - 1"

named_theorems rbind_simps \<open>laws of the sequencing of fallible steps\<close>
named_theorems size_arith \<open>arithmetic of size_t values that stay in range\<close>
named_theorems mem_simps \<open>reads and writes of byte vectors\<close>

lemma unat_add_small [size_arith]:
  "unat (a :: 'a::len word) + unat b < 2 ^ LENGTH('a) \<Longrightarrow> unat (a + b) = unat a + unat b"
  by (simp add: unat_word_ariths)

lemma unat_sub_le [size_arith]:
  "unat b \<le> unat a \<Longrightarrow> unat (a - b) = unat a - unat (b :: 'a::len word)"
  by (simp add: unat_sub_if')

lemma unat_of_nat_small [size_arith]:
  "n < 2 ^ LENGTH('a) \<Longrightarrow> unat (of_nat n :: 'a::len word) = n"
  by (simp add: unat_of_nat)

lemma of_nat_size_inj:
  assumes "a < 2 ^ 63" "b < 2 ^ 63"
  shows "(of_nat a :: size_t) = of_nat b \<longleftrightarrow> a = b"
proof -
  have "unat (of_nat a :: size_t) = a" "unat (of_nat b :: size_t) = b"
    using assms by (simp_all add: unat_of_nat_small)
  then show ?thesis by metis
qed

lemma unat_ucast_size: "unat (ucast (n :: u32) :: size_t) = unat n"
proof -
  have "unat n < 2 ^ 64" using unsigned_less [of n, where 'a = nat] by (simp add: less_trans)
  then show ?thesis by (simp add: unsigned_ucast_eq take_bit_nat_eq_self)
qed

section \<open>Faults and results\<close>

text \<open>
  What ends the process or makes its behaviour undefined: a failed \<open>assert\<close>, an access outside
  a \<open>std::vector\<close> or block of memory, a \<open>std::copy\<close> whose target starts inside its source, a null
  pointer that is dereferenced, a use of freed memory, a remainder by zero, a number that does not fit its
  type where the language leaves the result open, and the exceptions \<open>std::length_error\<close>,
  \<open>std::future_error\<close>, \<open>std::system_error\<close>, \<open>std::bad_alloc\<close>, \<open>std::out_of_range\<close>,
  \<open>std::invalid_argument\<close> and \<open>std::bad_cast\<close>.
\<close>

datatype fault =
    AssertFailed
  | OutOfBounds
  | OverlappingCopy
  | NullDeref
  | UseAfterFree
  | DivByZero
  | LengthError
  | FutureError
  | SystemError
  | BadAlloc
  | UndefinedValue
  | OutOfRange
  | InvalidArgument
  | BadCast

type_synonym 'a res = "fault + 'a"

fun rbind :: "'a res \<Rightarrow> ('a \<Rightarrow> 'b res) \<Rightarrow> 'b res" where
  "rbind (Inl e) f = Inl e"
| "rbind (Inr x) f = f x"

lemma rbind_eq_Inr [rbind_simps]: "rbind m f = Inr y \<longleftrightarrow> (\<exists>x. m = Inr x \<and> f x = Inr y)"
  by (cases m) auto

lemma rbind_eq_Inl [rbind_simps]:
  "rbind m f = Inl e \<longleftrightarrow> m = Inl e \<or> (\<exists>x. m = Inr x \<and> f x = Inl e)"
  by (cases m) auto

lemma rbind_assoc: "rbind (rbind m f) g = rbind m (\<lambda>x. rbind (f x) g)"
  by (cases m) auto

lemma rbind_Inr_right [simp]: "rbind m Inr = m"
  by (cases m) auto

lemma rbind_cong [fundef_cong]:
  "m = m' \<Longrightarrow> (\<And>x. m' = Inr x \<Longrightarrow> f x = f' x) \<Longrightarrow> rbind m f = rbind m' f'"
  by (cases m') auto

fun is_ok :: "'a res \<Rightarrow> bool" where
  "is_ok (Inl e) = False"
| "is_ok (Inr x) = True"

lemma is_ok_iff: "is_ok m \<longleftrightarrow> (\<exists>x. m = Inr x)"
  by (cases m) auto

text \<open>A test of the value of a run, for evaluating closed runs.\<close>

fun ok_with :: "('a \<Rightarrow> bool) \<Rightarrow> 'a res \<Rightarrow> bool" where
  "ok_with P (Inl e) = False"
| "ok_with P (Inr x) = P x"

lemma ok_with_iff: "ok_with P m \<longleftrightarrow> (\<exists>x. m = Inr x \<and> P x)"
  by (cases m) auto

definition check :: "bool \<Rightarrow> fault \<Rightarrow> unit res" where
  "check b e = (if b then Inr () else Inl e)"

lemma check_True [simp]: "check True e = Inr ()"
  by (simp add: check_def)

lemma check_False [simp]: "check False e = Inl e"
  by (simp add: check_def)

lemma check_Inr [simp]: "check b e = Inr x \<longleftrightarrow> b"
  by (simp add: check_def)

lemma check_Inl [simp]: "check b e = Inl e' \<longleftrightarrow> \<not> b \<and> e' = e"
  by (auto simp: check_def)

text \<open>A loop whose body may fault: \<open>for (auto x : xs) body(x)\<close>.\<close>

fun rfold :: "('a \<Rightarrow> 's \<Rightarrow> 's res) \<Rightarrow> 'a list \<Rightarrow> 's \<Rightarrow> 's res" where
  "rfold f [] s = Inr s"
| "rfold f (x # xs) s = rbind (f x s) (rfold f xs)"

lemma rfold_Nil_fun [simp]: "rfold f [] = Inr"
  by (rule ext) simp

lemma rfold_single [simp]: "rfold f [x] = f x"
  by (rule ext) simp

lemma rfold_append: "rfold f (xs @ ys) s = rbind (rfold f xs s) (rfold f ys)"
proof (induction xs arbitrary: s)
  case (Cons x xs)
  have "rfold f (xs @ ys) = (\<lambda>s. rbind (rfold f xs s) (rfold f ys))"
    by (rule ext) (rule Cons.IH)
  then show ?case by (simp add: rbind_assoc)
qed simp

lemma rfold_pure: "(\<And>x s. f x s = Inr (g x s)) \<Longrightarrow> rfold f xs s = Inr (fold g xs s)"
  by (induction xs arbitrary: s) auto

lemma rfold_inv:
  assumes "\<And>x s s'. x \<in> set xs \<Longrightarrow> P s \<Longrightarrow> f x s = Inr s' \<Longrightarrow> P s'"
    and "P s" and "rfold f xs s = Inr s'"
  shows "P s'"
  using assms by (induction xs arbitrary: s) (auto simp: rbind_simps)

text \<open>What every round of a loop establishes holds after a loop of at least one round.\<close>

lemma rfold_establishes:
  assumes "\<And>x s s'. f x s = Inr s' \<Longrightarrow> P s'" and "xs \<noteq> []" and "rfold f xs s = Inr s'"
  shows "P s'"
proof -
  obtain ys y where "xs = ys @ [y]" using assms(2) by (metis rev_exhaust)
  with assms(3) obtain t where "f y t = Inr s'" by (auto simp: rfold_append rbind_simps)
  then show ?thesis by (rule assms(1))
qed

section \<open>Byte vectors\<close>

text \<open>
  \<open>memcpy\<close> out of a vector and into it, and \<open>std::copy\<close> inside one vector. A range that leaves
  the vector is a fault. For \<open>std::copy\<close> a target that starts strictly inside the source range is
  a fault too: the standard leaves that undefined, and the element loop and \<open>memmove\<close> give
  different results there. A target equal to the source leaves the vector as it is in both.
\<close>

definition mem_read :: "nat \<Rightarrow> nat \<Rightarrow> 'a list \<Rightarrow> 'a list res" where
  "mem_read i n v = (if i + n \<le> length v then Inr (take n (drop i v)) else Inl OutOfBounds)"

definition poke :: "nat \<Rightarrow> 'a list \<Rightarrow> 'a list \<Rightarrow> 'a list" where
  "poke i xs v = take i v @ xs @ drop (i + length xs) v"

definition mem_write :: "nat \<Rightarrow> 'a list \<Rightarrow> 'a list \<Rightarrow> 'a list res" where
  "mem_write i xs v = (if i + length xs \<le> length v then Inr (poke i xs v) else Inl OutOfBounds)"

definition std_copy :: "nat \<Rightarrow> nat \<Rightarrow> nat \<Rightarrow> 'a list \<Rightarrow> 'a list res" where
  "std_copy s e d v =
     (if \<not> (s \<le> e \<and> e \<le> length v \<and> d + (e - s) \<le> length v) then Inl OutOfBounds
      else if s < d \<and> d < e then Inl OverlappingCopy
      else Inr (poke d (take (e - s) (drop s v)) v))"

definition vec_resize :: "nat \<Rightarrow> u8 list \<Rightarrow> u8 list" where
  "vec_resize n v = take n v @ replicate (n - length v) 0"

lemma length_poke [mem_simps]: "i + length xs \<le> length v \<Longrightarrow> length (poke i xs v) = length v"
  by (simp add: poke_def)

lemma take_poke [mem_simps]: "i \<le> length v \<Longrightarrow> take i (poke i xs v) = take i v"
  by (simp add: poke_def)

lemma window_poke [mem_simps]:
  "i \<le> length v \<Longrightarrow> n = length xs \<Longrightarrow> take n (drop i (poke i xs v)) = xs"
  by (simp add: poke_def)

lemma length_vec_resize [mem_simps]: "length (vec_resize n v) = n"
  by (simp add: vec_resize_def)

lemma drop_poke_front:
  "j \<le> i \<Longrightarrow> i \<le> length v \<Longrightarrow> drop j (poke i xs v) = drop j (take i v) @ xs @ drop (i + length xs) v"
  by (simp add: poke_def min_def)

lemma take_drop_shift: "take n (drop i v) = drop i (take (i + n) v)"
  by (simp add: take_drop add.commute)

section \<open>Labelled transition systems\<close>

text \<open>A run records its events in order; an invariant may speak of the events so far.\<close>

inductive lts_run :: "('s \<Rightarrow> 'e \<Rightarrow> 's \<Rightarrow> bool) \<Rightarrow> 's \<Rightarrow> 'e list \<Rightarrow> 's \<Rightarrow> bool" for step where
  lts_nil: "lts_run step s [] s"
| lts_snoc: "lts_run step s es t \<Longrightarrow> step t e u \<Longrightarrow> lts_run step s (es @ [e]) u"

lemma lts_one: "step s e t \<Longrightarrow> lts_run step s [e] t"
  using lts_snoc [OF lts_nil, of step s e t] by simp

lemma lts_append: "lts_run step t fs u \<Longrightarrow> lts_run step s es t \<Longrightarrow> lts_run step s (es @ fs) u"
  by (induction rule: lts_run.induct) (auto simp flip: append_assoc intro: lts_run.intros)

locale trace_invariant =
  fixes step :: "'s \<Rightarrow> 'e \<Rightarrow> 's \<Rightarrow> bool"
    and init :: "'s \<Rightarrow> bool"
    and inv :: "'e list \<Rightarrow> 's \<Rightarrow> bool"
  assumes inv_init: "init s \<Longrightarrow> inv [] s"
    and inv_step: "inv es s \<Longrightarrow> step s e s' \<Longrightarrow> inv (es @ [e]) s'"
begin

lemma inv_run: "lts_run step s es s' \<Longrightarrow> init s \<Longrightarrow> inv es s'"
  by (induction rule: lts_run.induct) (auto intro: inv_init inv_step)

text \<open>The invariant holds at every point of a run, not only at its end.\<close>

lemma lts_prefix:
  "lts_run step s es u \<Longrightarrow> es = fs @ gs \<Longrightarrow> \<exists>t. lts_run step s fs t"
proof (induction arbitrary: gs rule: lts_run.induct)
  case (lts_nil s)
  then show ?case by (auto intro: lts_run.lts_nil)
next
  case (lts_snoc s es t e u)
  show ?case
  proof (cases gs rule: rev_cases)
    case Nil
    with lts_snoc show ?thesis by (auto intro: lts_run.lts_snoc)
  next
    case (snoc hs x)
    with lts_snoc show ?thesis by auto
  qed
qed

lemma inv_everywhere:
  "lts_run step s (fs @ gs) u \<Longrightarrow> init s \<Longrightarrow> \<exists>t. lts_run step s fs t \<and> inv fs t"
  using lts_prefix inv_run by blast

end

end
