(* ===== verification/ByteOrder.thy ===== *)
theory ByteOrder
  imports Prelude
begin

text \<open>
  \<^verbatim>\<open>Buffer/ByteOrder.h\<close>: the host's byte order as the code detects it, the byte swap and the
  conversions between host and network order. A value in memory is the list of its bytes at
  rising addresses, which depends on the host; \<open>hton\<close> makes that list big-endian on every host.
\<close>

section \<open>Memory images of integers\<close>

datatype endian = LittleEndian | BigEndian

definition sizeof :: "'a::len itself \<Rightarrow> nat" where
  "sizeof t = LENGTH('a) div 8"

lemma sizeof_u8 [simp]: "sizeof TYPE(8) = 1"
  by (simp add: sizeof_def)

lemma sizeof_u32 [simp]: "sizeof TYPE(32) = 4"
  by (simp add: sizeof_def)

lemma sizeof_u64 [simp]: "sizeof TYPE(64) = 8"
  by (simp add: sizeof_def)

definition le_bytes :: "'a::len word \<Rightarrow> u8 list" where
  "le_bytes w = map (\<lambda>k. ucast (drop_bit (8 * k) w)) [0..<sizeof TYPE('a)]"

fun of_le_bytes :: "u8 list \<Rightarrow> 'a::len word" where
  "of_le_bytes [] = 0"
| "of_le_bytes (b # bs) = or (ucast b) (push_bit 8 (of_le_bytes bs))"

fun mem_of :: "endian \<Rightarrow> 'a::len word \<Rightarrow> u8 list" where
  "mem_of LittleEndian w = le_bytes w"
| "mem_of BigEndian w = rev (le_bytes w)"

fun of_mem :: "endian \<Rightarrow> u8 list \<Rightarrow> 'a::len word" where
  "of_mem LittleEndian bs = of_le_bytes bs"
| "of_mem BigEndian bs = of_le_bytes (rev bs)"

section \<open>The functions of the header\<close>

definition IsLittleEndian :: "endian \<Rightarrow> bool" where
  "IsLittleEndian h = (hd (mem_of h (0x12345678 :: u32)) = 0x78)"

text \<open>\<open>dest.u8[k] = source.u8[sizeof(T) - k - 1]\<close> for every \<open>k\<close>.\<close>

definition swap_endian :: "endian \<Rightarrow> 'a::len word \<Rightarrow> 'a word" where
  "swap_endian h u =
     (let source = mem_of h u;
          dest = map (\<lambda>k. source ! (sizeof TYPE('a) - k - 1)) [0..<sizeof TYPE('a)]
      in of_mem h dest)"

definition ntoh :: "endian \<Rightarrow> 'a::len word \<Rightarrow> 'a word" where
  "ntoh h u = (if IsLittleEndian h then swap_endian h u else u)"

definition hton :: "endian \<Rightarrow> 'a::len word \<Rightarrow> 'a word" where
  "hton h u = (if IsLittleEndian h then swap_endian h u else u)"

section \<open>Lemmas\<close>

text \<open>The network image of a value, the reference for both directions.\<close>

definition be_bytes :: "'a::len word \<Rightarrow> u8 list" where
  "be_bytes w = rev (le_bytes w)"

definition of_be_bytes :: "u8 list \<Rightarrow> 'a::len word" where
  "of_be_bytes bs = of_le_bytes (rev bs)"

lemma length_le_bytes [simp]: "length (le_bytes (w :: 'a::len word)) = sizeof TYPE('a)"
  by (simp add: le_bytes_def)

lemma length_be_bytes [simp]: "length (be_bytes (w :: 'a::len word)) = sizeof TYPE('a)"
  by (simp add: be_bytes_def)

lemma length_mem_of [simp]: "length (mem_of h (w :: 'a::len word)) = sizeof TYPE('a)"
  by (cases h) simp_all

lemma bit_of_le_bytes:
  "bit (of_le_bytes bs :: 'a::len word) n \<longleftrightarrow>
     n < LENGTH('a) \<and> n div 8 < length bs \<and> bit (bs ! (n div 8)) (n mod 8)"
proof (induction bs arbitrary: n)
  case Nil
  then show ?case by simp
next
  case (Cons b bs)
  show ?case
  proof (cases "n < 8")
    case True
    then show ?thesis by (auto simp: bit_simps)
  next
    case False
    then have d: "n div 8 = Suc ((n - 8) div 8)" and m: "n mod 8 = (n - 8) mod 8"
      by (simp_all add: le_div_geq le_mod_geq)
    have nb: "\<not> bit b n" using False by (simp add: impossible_bit)
    show ?thesis
      using False nb by (simp add: bit_simps Cons.IH d m) auto
  qed
qed

lemma bit_le_bytes_nth:
  "k < sizeof TYPE('a) \<Longrightarrow> j < 8 \<Longrightarrow>
     bit (le_bytes (w :: 'a::len word) ! k) j \<longleftrightarrow> bit w (8 * k + j)"
  by (simp add: le_bytes_def bit_simps)

definition whole_bytes :: "'a::len itself \<Rightarrow> bool" where
  "whole_bytes t = (8 dvd LENGTH('a))"

lemma whole_bytes_inst [simp]:
  "whole_bytes TYPE(8)" "whole_bytes TYPE(32)" "whole_bytes TYPE(64)"
  by (simp_all add: whole_bytes_def)

lemma of_le_le_bytes [simp]:
  assumes "whole_bytes TYPE('a::len)"
  shows "of_le_bytes (le_bytes (w :: 'a word)) = w"
proof (rule bit_word_eqI)
  fix n assume n: "n < LENGTH('a)"
  from assms obtain m where m: "LENGTH('a) = 8 * m"
    by (auto simp: whole_bytes_def)
  with n have k: "n div 8 < sizeof TYPE('a)" by (simp add: sizeof_def)
  show "bit (of_le_bytes (le_bytes w) :: 'a word) n = bit w n"
    using n k by (simp add: bit_of_le_bytes bit_le_bytes_nth)
qed

lemma le_of_le_bytes [simp]:
  assumes "length bs = sizeof TYPE('a::len)"
  shows "le_bytes (of_le_bytes bs :: 'a word) = bs"
proof (rule nth_equalityI)
  show "length (le_bytes (of_le_bytes bs :: 'a word)) = length bs"
    using assms by simp
next
  fix k assume k: "k < length (le_bytes (of_le_bytes bs :: 'a word))"
  show "le_bytes (of_le_bytes bs :: 'a word) ! k = bs ! k"
  proof (rule bit_word_eqI)
    fix j :: nat assume j: "j < LENGTH(8)"
    from k j have "8 * k + j < LENGTH('a)" by (simp add: sizeof_def)
    then show "bit (le_bytes (of_le_bytes bs :: 'a word) ! k) j = bit (bs ! k) j"
      using k j assms by (simp add: bit_le_bytes_nth bit_of_le_bytes)
  qed
qed

lemma of_mem_mem_of [simp]:
  "whole_bytes TYPE('a::len) \<Longrightarrow> of_mem h (mem_of h (w :: 'a word)) = w"
  by (cases h) simp_all

lemma mem_of_of_mem [simp]:
  "length bs = sizeof TYPE('a::len) \<Longrightarrow> mem_of h (of_mem h bs :: 'a word) = bs"
  by (cases h) simp_all

lemma swap_source: "length bs = n \<Longrightarrow> map (\<lambda>k. bs ! (n - Suc k)) [0..<n] = rev bs"
  by (auto intro!: nth_equalityI simp: rev_nth)

lemma mem_of_swap_endian [simp]:
  "mem_of h (swap_endian h (u :: 'a::len word)) = rev (mem_of h u)"
  by (simp add: swap_endian_def Let_def swap_source)

lemma swap_endian_of_mem:
  assumes "length bs = sizeof TYPE('a::len)"
  shows "swap_endian h (of_mem h bs :: 'a word) = of_mem h (rev bs)"
  using assms by (simp add: swap_endian_def Let_def swap_source)

lemma IsLittleEndian_iff [simp]: "IsLittleEndian h \<longleftrightarrow> h = LittleEndian"
  by (cases h; simp add: IsLittleEndian_def; code_simp)

lemma mem_of_hton [simp]: "mem_of h (hton h u) = be_bytes u"
  by (cases h) (simp_all add: hton_def be_bytes_def del: mem_of.simps, simp_all)

lemma ntoh_of_mem:
  "length bs = sizeof TYPE('a::len) \<Longrightarrow> ntoh h (of_mem h bs :: 'a word) = of_be_bytes bs"
  by (cases h) (simp_all add: ntoh_def of_be_bytes_def swap_endian_of_mem del: of_mem.simps, simp_all)

lemma of_be_be_bytes [simp]:
  "whole_bytes TYPE('a::len) \<Longrightarrow> of_be_bytes (be_bytes (w :: 'a word)) = w"
  by (simp add: be_bytes_def of_be_bytes_def)

lemma be_of_be_bytes [simp]:
  "length bs = sizeof TYPE('a::len) \<Longrightarrow> be_bytes (of_be_bytes bs :: 'a word) = bs"
  by (simp add: be_bytes_def of_be_bytes_def)

lemma be_bytes_inject:
  "whole_bytes TYPE('a::len) \<Longrightarrow> be_bytes (v :: 'a word) = be_bytes w \<longleftrightarrow> v = w"
  by (metis of_be_be_bytes)

end
