(* ===== verification/Buffer.thy ===== *)
theory Buffer
  imports ByteOrder
begin

text \<open>
  \<^verbatim>\<open>Buffer/Buffer.h\<close> and \<^verbatim>\<open>Buffer/Buffer.cpp\<close>: the byte buffer with a read and a write index
  over one vector, and eight reserved bytes at its front for a length prefix. Indices are
  \<open>size_t\<close> values; pointers into the vector are offsets. The abstraction \<open>readable\<close> is the list of
  bytes between the indices, and the locale \<open>byte_stream\<close> states what the message layer relies on.
\<close>

section \<open>State and operations\<close>

definition DEFAULT_BUFFER_SIZE :: size_t where
  "DEFAULT_BUFFER_SIZE = 4096"

definition IDX_BEGIN :: size_t where
  "IDX_BEGIN = 8"

text \<open>\<open>std::vector<char>::max_size()\<close>.\<close>

definition vec_max :: nat where
  "vec_max = 2 ^ 63 - 1"

record Buffer =
  vec :: "u8 list"
  read_idx :: size_t
  write_idx :: size_t

definition vec_size :: "Buffer \<Rightarrow> size_t" where
  "vec_size b = of_nat (length (vec b))"

definition Buffer_new :: "size_t \<Rightarrow> Buffer res" where
  "Buffer_new buffer_size =
     (if unat (buffer_size + IDX_BEGIN) \<le> vec_max
      then Inr \<lparr>vec = replicate (unat (buffer_size + IDX_BEGIN)) 0,
                read_idx = IDX_BEGIN, write_idx = IDX_BEGIN\<rparr>
      else Inl LengthError)"

text \<open>The move constructor: the new buffer, and the old one with its vector taken.\<close>

definition Buffer_move :: "Buffer \<Rightarrow> Buffer \<times> Buffer" where
  "Buffer_move old = (old, old\<lparr>vec := []\<rparr>)"

definition ReadableSize :: "Buffer \<Rightarrow> size_t" where
  "ReadableSize b = write_idx b - read_idx b"

definition WritableSize :: "Buffer \<Rightarrow> size_t" where
  "WritableSize b = vec_size b - write_idx b"

definition AddWriteIndex :: "size_t \<Rightarrow> Buffer \<Rightarrow> Buffer" where
  "AddWriteIndex index b = b\<lparr>write_idx := write_idx b + index\<rparr>"

definition AddReadIndex :: "size_t \<Rightarrow> Buffer \<Rightarrow> Buffer" where
  "AddReadIndex index b =
     (if index > ReadableSize b
      then b\<lparr>read_idx := read_idx b + ReadableSize b\<rparr>
      else b\<lparr>read_idx := read_idx b + index\<rparr>)"

definition WriteBegin :: "Buffer \<Rightarrow> nat" where
  "WriteBegin b = unat (write_idx b)"

definition ReadBegin :: "Buffer \<Rightarrow> nat" where
  "ReadBegin b = unat (read_idx b)"

definition AdjustBuffer :: "Buffer \<Rightarrow> Buffer res" where
  "AdjustBuffer b =
     (let readable_length = ReadableSize b in
      rbind (std_copy (unat (read_idx b)) (unat (write_idx b)) (unat IDX_BEGIN) (vec b))
        (\<lambda>v. Inr (b\<lparr>vec := v, read_idx := IDX_BEGIN, write_idx := IDX_BEGIN + readable_length\<rparr>)))"

definition Reset :: "Buffer \<Rightarrow> Buffer" where
  "Reset b = b\<lparr>read_idx := IDX_BEGIN, write_idx := IDX_BEGIN\<rparr>"

definition ReadAllAsString :: "Buffer \<Rightarrow> (u8 list \<times> Buffer) res" where
  "ReadAllAsString b =
     rbind (mem_read (ReadBegin b) (unat (ReadableSize b)) (vec b))
       (\<lambda>result. Inr (result, AddReadIndex (ReadableSize b) b))"

definition ReSize :: "size_t \<Rightarrow> Buffer \<Rightarrow> Buffer res" where
  "ReSize new_size b =
     (if unat (new_size + IDX_BEGIN) \<le> vec_max
      then Inr (b\<lparr>vec := vec_resize (unat (new_size + IDX_BEGIN)) (vec b)\<rparr>)
      else Inl LengthError)"

definition Swap :: "size_t \<Rightarrow> size_t \<Rightarrow> size_t \<times> size_t" where
  "Swap lhs rhs = (let temp = rhs; rhs = lhs; lhs = temp in (lhs, rhs))"

fun SwapBuffer :: "Buffer \<Rightarrow> Buffer option \<Rightarrow> Buffer \<times> Buffer option" where
  "SwapBuffer b None = (b, None)"
| "SwapBuffer b (Some c) =
     (let (rb, rc) = Swap (read_idx b) (read_idx c);
          (wb, wc) = Swap (write_idx b) (write_idx c)
      in (b\<lparr>vec := vec c, read_idx := rb, write_idx := wb\<rparr>,
          Some (c\<lparr>vec := vec b, read_idx := rc, write_idx := wc\<rparr>)))"

definition DropAllData :: "Buffer \<Rightarrow> Buffer" where
  "DropAllData b = AddReadIndex (ReadableSize b) b"

text \<open>The data is given as the list of bytes the pointer and the length name.\<close>

definition AppendData :: "u8 list \<Rightarrow> Buffer \<Rightarrow> Buffer res" where
  "AppendData data b =
     (let len = of_nat (length data) in
      rbind (AdjustBuffer b) (\<lambda>b.
      rbind (if len > WritableSize b
             then let remain = len - WritableSize b in ReSize (vec_size b + remain) b
             else Inr b) (\<lambda>b.
      rbind (mem_write (WriteBegin b) data (vec b)) (\<lambda>v.
      Inr (AddWriteIndex len (b\<lparr>vec := v\<rparr>))))))"

definition PreAppendData :: "u8 list \<Rightarrow> Buffer \<Rightarrow> Buffer res" where
  "PreAppendData data b =
     (let len = of_nat (length data) in
      rbind (check (read_idx b \<ge> len) AssertFailed) (\<lambda>_.
      let b = b\<lparr>read_idx := read_idx b - len\<rparr> in
      rbind (mem_write (unat (read_idx b)) data (vec b)) (\<lambda>v. Inr (b\<lparr>vec := v\<rparr>))))"

definition AppendNumber :: "endian \<Rightarrow> 'a::len word \<Rightarrow> Buffer \<Rightarrow> Buffer res" where
  "AppendNumber h number b = (let n = hton h number in AppendData (mem_of h n) b)"

definition PreAppendNumber :: "endian \<Rightarrow> 'a::len word \<Rightarrow> Buffer \<Rightarrow> Buffer res" where
  "PreAppendNumber h number b = (let n = hton h number in PreAppendData (mem_of h n) b)"

definition PeekNumber :: "endian \<Rightarrow> Buffer \<Rightarrow> ('a::len word) res" where
  "PeekNumber h b =
     rbind (check (ReadableSize b \<ge> of_nat (sizeof TYPE('a))) AssertFailed) (\<lambda>_.
     rbind (mem_read (ReadBegin b) (sizeof TYPE('a)) (vec b)) (\<lambda>bs.
     Inr (ntoh h (of_mem h bs))))"

definition ReadNumber :: "endian \<Rightarrow> Buffer \<Rightarrow> ('a::len word \<times> Buffer) res" where
  "ReadNumber h b =
     rbind (PeekNumber h b) (\<lambda>result :: 'a word.
     Inr (result, AddReadIndex (of_nat (sizeof TYPE('a))) b))"

text \<open>Code equations that compare sizes as words, so that closed runs evaluate.\<close>

lemma le_vec_max_word: "unat n \<le> vec_max \<longleftrightarrow> n \<le> (0x7FFFFFFFFFFFFFFF :: size_t)"
  by (simp add: word_le_nat_alt vec_max_def)

lemma Buffer_new_code [code]:
  "Buffer_new buffer_size =
     (if buffer_size + IDX_BEGIN \<le> 0x7FFFFFFFFFFFFFFF
      then Inr \<lparr>vec = replicate (unat (buffer_size + IDX_BEGIN)) 0,
                read_idx = IDX_BEGIN, write_idx = IDX_BEGIN\<rparr>
      else Inl LengthError)"
  by (simp add: Buffer_new_def le_vec_max_word)

lemma ReSize_code [code]:
  "ReSize new_size b =
     (if new_size + IDX_BEGIN \<le> 0x7FFFFFFFFFFFFFFF
      then Inr (b\<lparr>vec := vec_resize (unat (new_size + IDX_BEGIN)) (vec b)\<rparr>)
      else Inl LengthError)"
  by (simp add: ReSize_def le_vec_max_word)

section \<open>Invariant and abstraction\<close>

text \<open>
  \<open>buf_inv\<close> holds in every buffer the class can produce through its own operations with an honest
  \<open>AddWriteIndex\<close>; \<open>buf_std\<close> adds that the reserved front bytes are free, which only
  \<open>PreAppendData\<close> gives up.
\<close>

definition buf_inv :: "Buffer \<Rightarrow> bool" where
  "buf_inv b \<longleftrightarrow> unat (read_idx b) \<le> unat (write_idx b) \<and> unat (write_idx b) \<le> length (vec b) \<and>
     8 \<le> length (vec b) \<and> length (vec b) \<le> vec_max"

definition buf_std :: "Buffer \<Rightarrow> bool" where
  "buf_std b \<longleftrightarrow> buf_inv b \<and> 8 \<le> unat (read_idx b)"

definition readable :: "Buffer \<Rightarrow> u8 list" where
  "readable b = take (unat (write_idx b) - unat (read_idx b)) (drop (unat (read_idx b)) (vec b))"

lemma vec_max_less: "n \<le> vec_max \<Longrightarrow> n < 2 ^ 63"
  unfolding vec_max_def by (erule order.strict_trans1) simp

lemma buf_inv_length: "buf_inv b \<Longrightarrow> length (vec b) < 2 ^ 63"
  using vec_max_less by (simp add: buf_inv_def)

lemma buf_std_inv [simp]: "buf_std b \<Longrightarrow> buf_inv b"
  by (simp add: buf_std_def)

lemma length_readable: "buf_inv b \<Longrightarrow> length (readable b) = unat (write_idx b) - unat (read_idx b)"
  by (auto simp: readable_def buf_inv_def)

lemma unat_ReadableSize: "buf_inv b \<Longrightarrow> unat (ReadableSize b) = length (readable b)"
  by (simp add: ReadableSize_def length_readable size_arith buf_inv_def)

lemma unat_vec_size: "buf_inv b \<Longrightarrow> unat (vec_size b) = length (vec b)"
  using vec_max_less [of "length (vec b)"] by (simp add: vec_size_def buf_inv_def size_arith)

lemma unat_WritableSize: "buf_inv b \<Longrightarrow> unat (WritableSize b) = length (vec b) - unat (write_idx b)"
  by (simp add: WritableSize_def size_arith unat_vec_size) (simp add: buf_inv_def size_arith unat_vec_size)

lemma unat_IDX_BEGIN [simp]: "unat IDX_BEGIN = 8"
  by (simp add: IDX_BEGIN_def)

lemma readable_bound: "buf_inv b \<Longrightarrow> length (readable b) \<le> vec_max"
  by (simp add: length_readable) (auto simp: buf_inv_def)

section \<open>Effect of the operations on the readable bytes\<close>

named_theorems buf_simps \<open>what the buffer operations do to the readable bytes\<close>

lemma AdjustBuffer_std:
  assumes "buf_std b"
  obtains b' where "AdjustBuffer b = Inr b'" "buf_std b'" "readable b' = readable b"
    "read_idx b' = IDX_BEGIN" "length (vec b') = length (vec b)"
    "unat (write_idx b') = 8 + length (readable b)"
proof -
  let ?r = "unat (read_idx b)" and ?w = "unat (write_idx b)"
  let ?v = "poke 8 (take (?w - ?r) (drop ?r (vec b))) (vec b)"
  let ?b = "b\<lparr>vec := ?v, read_idx := IDX_BEGIN, write_idx := IDX_BEGIN + ReadableSize b\<rparr>"
  have i: "8 \<le> ?r" "?r \<le> ?w" "?w \<le> length (vec b)" "length (vec b) \<le> vec_max" "buf_inv b"
    using assms by (auto simp: buf_std_def buf_inv_def)
  have eq: "AdjustBuffer b = Inr ?b"
    using i by (simp add: AdjustBuffer_def std_copy_def Let_def)
  have len: "length (take (?w - ?r) (drop ?r (vec b))) = ?w - ?r" using i by simp
  have lv: "length ?v = length (vec b)" using i len by (intro length_poke) simp
  have rs: "unat (ReadableSize b) = ?w - ?r" using i by (simp add: unat_ReadableSize length_readable)
  have w: "unat (IDX_BEGIN + ReadableSize b) = 8 + (?w - ?r)"
    using i vec_max_less [OF i(4)] rs by (simp add: unat_add_small)
  have rd: "readable ?b = readable b"
    using i len by (simp add: readable_def w window_poke del: length_take length_drop)
  show ?thesis
    by (rule that [OF eq]) (use i lv w rd in \<open>auto simp: buf_std_def buf_inv_def length_readable\<close>)
qed

lemma AddReadIndex_std:
  assumes "buf_inv b"
  shows "buf_inv (AddReadIndex n b)" "readable (AddReadIndex n b) = drop (unat n) (readable b)"
    "buf_std b \<Longrightarrow> buf_std (AddReadIndex n b)"
proof -
  let ?m = "if n > ReadableSize b then ReadableSize b else n"
  have e: "AddReadIndex n b = b\<lparr>read_idx := read_idx b + ?m\<rparr>" by (simp add: AddReadIndex_def)
  have rs: "unat (ReadableSize b) = unat (write_idx b) - unat (read_idx b)"
    using assms by (simp add: unat_ReadableSize length_readable)
  then have m: "unat ?m = min (unat n) (unat (write_idx b) - unat (read_idx b))"
    by (simp add: word_less_nat_alt min_def)
  have sum: "unat (read_idx b + ?m) = unat (read_idx b) + unat ?m"
    by (rule unat_add_small) (use assms m vec_max_less [of "length (vec b)"] in \<open>auto simp: buf_inv_def\<close>)
  show inv: "buf_inv (AddReadIndex n b)"
    using assms by (auto simp: e buf_inv_def sum m simp del: if_split)
  show "readable (AddReadIndex n b) = drop (unat n) (readable b)"
    unfolding e readable_def using sum m assms
    by (auto simp: buf_inv_def drop_take add.commute min_def simp del: if_split)
  show "buf_std b \<Longrightarrow> buf_std (AddReadIndex n b)"
    using inv by (simp add: buf_std_def e sum del: if_split)
qed

lemma ReSize_grow:
  assumes "buf_std b" "unat n + 8 \<le> vec_max" "length (vec b) \<le> unat n + 8"
  obtains b' where "ReSize n b = Inr b'" "buf_std b'" "readable b' = readable b"
    "write_idx b' = write_idx b" "length (vec b') = unat n + 8"
proof -
  have n: "unat (n + IDX_BEGIN) = unat n + 8"
    using vec_max_less [OF assms(2)] by (simp add: unat_add_small)
  have e: "ReSize n b = Inr (b\<lparr>vec := vec_resize (unat n + 8) (vec b)\<rparr>)"
    using assms by (simp add: ReSize_def n)
  show ?thesis
    by (rule that [OF e]) (use assms in \<open>auto simp: buf_std_def buf_inv_def readable_def vec_resize_def\<close>)
qed

lemma write_step:
  assumes "buf_inv b" "unat (write_idx b) + length xs \<le> length (vec b)"
  defines "b' \<equiv> AddWriteIndex (of_nat (length xs)) (b\<lparr>vec := poke (unat (write_idx b)) xs (vec b)\<rparr>)"
  shows "buf_inv b'" "readable b' = readable b @ xs" "buf_std b \<Longrightarrow> buf_std b'"
proof -
  let ?r = "unat (read_idx b)" and ?w = "unat (write_idx b)"
  have i: "?r \<le> ?w" "?w + length xs \<le> length (vec b)" "length (vec b) < 2 ^ 63"
    using assms buf_inv_length [of b] by (auto simp: buf_inv_def)
  have len: "unat (of_nat (length xs) :: size_t) = length xs"
    using i by (simp add: unat_of_nat_small)
  have w: "unat (write_idx b + of_nat (length xs)) = ?w + length xs"
    using i len by (simp add: unat_add_small)
  show "buf_inv b'"
    using i w assms(1) by (simp add: b'_def AddWriteIndex_def buf_inv_def length_poke)
  then show "buf_std b \<Longrightarrow> buf_std b'"
    by (simp add: b'_def AddWriteIndex_def buf_std_def)
  have "drop ?r (poke ?w xs (vec b)) = drop ?r (take ?w (vec b)) @ xs @ drop (?w + length xs) (vec b)"
    using i by (simp add: drop_poke_front)
  then show "readable b' = readable b @ xs"
    using i by (simp add: b'_def AddWriteIndex_def readable_def w take_drop_shift)
qed

text \<open>What \<open>AppendData\<close> may add: the vector stays below its maximal size.\<close>

definition fits :: "nat \<Rightarrow> Buffer \<Rightarrow> bool" where
  "fits n b \<longleftrightarrow> length (readable b) + n + 16 \<le> vec_max"

lemma AppendData_std:
  assumes "buf_std b" "fits (length xs) b"
  obtains b' where "AppendData xs b = Inr b'" "buf_std b'" "readable b' = readable b @ xs"
proof -
  let ?n = "length xs" and ?len = "of_nat (length xs) :: size_t"
  obtain a where a: "AdjustBuffer b = Inr a" "buf_std a" "readable a = readable b"
    "length (vec a) = length (vec b)" "unat (write_idx a) = 8 + length (readable b)"
    using AdjustBuffer_std [OF assms(1)] by metis
  have cap: "length (readable b) + ?n + 16 < 2 ^ 63"
    using assms(2) vec_max_less by (simp add: fits_def)
  then have len: "unat ?len = ?n" by (simp add: unat_of_nat_small)
  have ai: "buf_inv a" and vs: "length (vec a) \<le> vec_max" "8 + length (readable b) \<le> length (vec a)"
    using a by (auto simp: buf_std_def buf_inv_def)
  have ws: "unat (WritableSize a) = length (vec a) - (8 + length (readable b))"
    using unat_WritableSize [OF ai] a by simp
  have "\<exists>c. (if ?len > WritableSize a then let remain = ?len - WritableSize a in ReSize (vec_size a + remain) a
             else Inr a) = Inr c \<and> buf_std c \<and> readable c = readable b \<and>
             unat (write_idx c) + ?n \<le> length (vec c)"
  proof (cases "?len > WritableSize a")
    case False
    then show ?thesis using a ws len vs by (auto simp: word_less_nat_alt)
  next
    case True
    then have rem: "unat (?len - WritableSize a) = ?n - (length (vec a) - (8 + length (readable b)))"
      using len ws by (simp add: unat_sub_le word_less_nat_alt)
    have sz: "unat (vec_size a + (?len - WritableSize a)) = length (readable b) + ?n + 8"
      using rem True len ws cap vs vec_max_less [OF vs(1)] unat_vec_size [OF ai]
      by (subst unat_add_small) (simp_all add: word_less_nat_alt)
    let ?m = "vec_size a + (?len - WritableSize a)"
    have p: "unat ?m + 8 \<le> vec_max" "length (vec a) \<le> unat ?m + 8"
      using assms(2) sz True len ws by (simp_all add: fits_def word_less_nat_alt)
    obtain c where "ReSize (vec_size a + (?len - WritableSize a)) a = Inr c" "buf_std c"
      "readable c = readable a" "write_idx c = write_idx a" "length (vec c) = length (readable b) + ?n + 8 + 8"
      using ReSize_grow [OF a(2) p] sz by metis
    then show ?thesis using True a by (simp add: Let_def)
  qed
  then obtain c where c: "(if ?len > WritableSize a then let remain = ?len - WritableSize a in ReSize (vec_size a + remain) a
             else Inr a) = Inr c" "buf_std c" "readable c = readable b" "unat (write_idx c) + ?n \<le> length (vec c)"
    by blast
  let ?b' = "AddWriteIndex ?len (c\<lparr>vec := poke (unat (write_idx c)) xs (vec c)\<rparr>)"
  have "AppendData xs b = Inr ?b'"
    using c by (simp add: AppendData_def a(1) mem_write_def WriteBegin_def Let_def)
  then show ?thesis
    using that write_step [OF buf_std_inv [OF c(2)] c(4)] c(2,3) by metis
qed

lemma PreAppendData_ok:
  assumes "buf_inv b" "length xs \<le> unat (read_idx b)"
  obtains b' where "PreAppendData xs b = Inr b'" "buf_inv b'" "readable b' = xs @ readable b"
proof -
  let ?len = "of_nat (length xs) :: size_t" and ?r = "unat (read_idx b)" and ?w = "unat (write_idx b)"
  have i: "?r \<le> ?w" "?w \<le> length (vec b)" "length (vec b) \<le> vec_max"
    using assms(1) by (auto simp: buf_inv_def)
  have len: "unat ?len = length xs"
    using i assms(2) vec_max_less [OF i(3)] by (simp add: unat_of_nat_small)
  have r: "unat (read_idx b - ?len) = ?r - length xs"
    using len assms(2) by (simp add: unat_sub_le)
  let ?v = "poke (?r - length xs) xs (vec b)"
  let ?b = "b\<lparr>read_idx := read_idx b - ?len, vec := ?v\<rparr>"
  have e: "PreAppendData xs b = Inr ?b"
    using i assms(2) len r by (simp add: PreAppendData_def Let_def mem_write_def word_le_nat_alt)
  have v: "drop (?r - length xs) ?v = xs @ drop ?r (vec b)"
    using i assms(2) by (simp add: poke_def)
  have n: "?w - (?r - length xs) = length xs + (?w - ?r)" using i assms(2) by simp
  have "readable ?b = xs @ readable b" by (simp add: readable_def r v n)
  moreover have "buf_inv ?b"
    using assms i by (auto simp: buf_inv_def r length_poke)
  ultimately show ?thesis using that e by blast
qed

lemma AppendData_read_idx: "AppendData xs b = Inr b' \<Longrightarrow> read_idx b' = IDX_BEGIN"
  by (auto simp: AppendData_def AdjustBuffer_def ReSize_def AddWriteIndex_def Let_def rbind_simps
      split: if_splits)

lemma PreAppendData_read_idx:
  "PreAppendData xs b = Inr b' \<Longrightarrow> read_idx b' = read_idx b - of_nat (length xs)"
  by (auto simp: PreAppendData_def Let_def rbind_simps)

lemma PreAppendData_assert:
  "length xs < 2 ^ 64 \<Longrightarrow> unat (read_idx b) < length xs \<Longrightarrow> PreAppendData xs b = Inl AssertFailed"
  by (simp add: PreAppendData_def Let_def word_le_nat_alt unat_of_nat_small check_def)

lemma read_window: "buf_inv b \<Longrightarrow> n \<le> length (readable b) \<Longrightarrow>
    mem_read (ReadBegin b) n (vec b) = Inr (take n (readable b))"
  by (simp add: length_readable) (auto simp: mem_read_def ReadBegin_def readable_def buf_inv_def min_absorb1)

lemma AppendNumber_eq: "AppendNumber h w = AppendData (be_bytes w)"
  by (rule ext) (simp add: AppendNumber_def)

lemma PreAppendNumber_eq: "PreAppendNumber h w = PreAppendData (be_bytes w)"
  by (rule ext) (simp add: PreAppendNumber_def)

definition small_type :: "'a::len itself \<Rightarrow> bool" where
  "small_type t \<longleftrightarrow> whole_bytes t \<and> sizeof t < 2 ^ 63"

lemma small_type_inst [simp]: "small_type TYPE(8)" "small_type TYPE(32)" "small_type TYPE(64)"
  by (simp_all add: small_type_def)

lemma PeekNumber_eq:
  assumes "buf_inv b" "small_type TYPE('a::len)"
  shows "(PeekNumber h b :: 'a word res) =
    (if sizeof TYPE('a) \<le> length (readable b)
     then Inr (of_be_bytes (take (sizeof TYPE('a)) (readable b))) else Inl AssertFailed)"
proof (cases "sizeof TYPE('a) \<le> length (readable b)")
  case True
  then have "length (take (sizeof TYPE('a)) (readable b)) = sizeof TYPE('a)" by simp
  then show ?thesis using True assms
    by (simp add: PeekNumber_def read_window word_le_nat_alt unat_ReadableSize unat_of_nat_small
        small_type_def ntoh_of_mem)
next
  case False
  then show ?thesis using assms
    by (simp add: PeekNumber_def word_le_nat_alt unat_ReadableSize unat_of_nat_small small_type_def)
qed

lemma ReadNumber_eq:
  assumes "buf_inv b" "small_type TYPE('a::len)"
  shows "(ReadNumber h b :: ('a word \<times> Buffer) res) =
    (if sizeof TYPE('a) \<le> length (readable b)
     then Inr (of_be_bytes (take (sizeof TYPE('a)) (readable b)),
               AddReadIndex (of_nat (sizeof TYPE('a))) b)
     else Inl AssertFailed)"
  using assms by (simp add: ReadNumber_def PeekNumber_eq)

section \<open>The interface the message layer uses\<close>

text \<open>
  A byte source is read at the front: peeking looks at the first bytes and skipping drops them.
  A byte stream can also be appended to; \<open>room n b\<close> says that \<open>n\<close> more bytes can be appended.
\<close>

locale byte_source =
  fixes bytes :: "'a \<Rightarrow> u8 list"
    and inv :: "'a \<Rightarrow> bool"
    and peek :: "nat \<Rightarrow> 'a \<Rightarrow> u8 list res"
    and skip :: "nat \<Rightarrow> 'a \<Rightarrow> 'a"
  assumes peek_eq: "inv b \<Longrightarrow> n < 2 ^ 63 \<Longrightarrow>
      peek n b = (if n \<le> length (bytes b) then Inr (take n (bytes b)) else Inl AssertFailed)"
    and skip_bytes: "inv b \<Longrightarrow> n < 2 ^ 63 \<Longrightarrow> bytes (skip n b) = drop n (bytes b)"
    and skip_inv: "inv b \<Longrightarrow> inv (skip n b)"
begin

definition take_front :: "nat \<Rightarrow> 'a \<Rightarrow> (u8 list \<times> 'a) res" where
  "take_front n b = rbind (peek n b) (\<lambda>xs. Inr (xs, skip n b))"

lemma take_front_eq:
  "inv b \<Longrightarrow> n < 2 ^ 63 \<Longrightarrow>
     take_front n b = (if n \<le> length (bytes b) then Inr (take n (bytes b), skip n b) else Inl AssertFailed)"
  by (simp add: take_front_def peek_eq)

text \<open>Reading splits the bytes: what was taken, then what is left.\<close>

lemma take_front_split:
  assumes "inv b" "n < 2 ^ 63" "take_front n b = Inr (xs, b')"
  shows "bytes b = xs @ bytes b'" "length xs = n" "inv b'"
  using assms by (auto simp: take_front_eq skip_bytes skip_inv split: if_splits)

lemma take_front_prefix:
  assumes "inv b" "length xs < 2 ^ 63" "bytes b = xs @ rest"
  shows "take_front (length xs) b = Inr (xs, skip (length xs) b)" "bytes (skip (length xs) b) = rest"
  using assms by (simp_all add: take_front_eq skip_bytes)

end

locale byte_stream = byte_source +
  fixes room :: "nat \<Rightarrow> 'a \<Rightarrow> bool"
    and append :: "u8 list \<Rightarrow> 'a \<Rightarrow> 'a res"
  assumes append_ok: "inv b \<Longrightarrow> room (length xs) b \<Longrightarrow>
      \<exists>b'. append xs b = Inr b' \<and> inv b' \<and> bytes b' = bytes b @ xs"
    and room_append: "inv b \<Longrightarrow> room (length xs + n) b \<Longrightarrow> append xs b = Inr b' \<Longrightarrow> room n b'"
    and room_mono: "room (m + n) b \<Longrightarrow> room m b"
begin

text \<open>Appending several chunks appends their concatenation.\<close>

lemma append_chunks:
  "inv b \<Longrightarrow> room (length (concat xss)) b \<Longrightarrow>
     \<exists>b'. rfold append xss b = Inr b' \<and> inv b' \<and> bytes b' = bytes b @ concat xss"
proof (induction xss arbitrary: b)
  case Nil
  then show ?case by simp
next
  case (Cons xs xss)
  from Cons.prems(2) have r: "room (length xs + length (concat xss)) b" by simp
  obtain c where c: "append xs b = Inr c" "inv c" "bytes c = bytes b @ xs"
    using append_ok [OF Cons.prems(1) room_mono [OF r]] by blast
  have "room (length (concat xss)) c"
    using room_append [OF Cons.prems(1) r c(1)] .
  from Cons.IH [OF c(2) this] show ?case using c by simp
qed

text \<open>A chunk appended to an empty stream is what is read back first.\<close>

lemma append_take_front:
  assumes "inv b" "bytes b = []" "room (length xs) b" "length xs < 2 ^ 63"
  shows "\<exists>b'. rbind (append xs b) (take_front (length xs)) = Inr (xs, b') \<and> bytes b' = []"
proof -
  obtain c where c: "append xs b = Inr c" "inv c" "bytes c = xs @ []"
    using append_ok [OF assms(1,3)] assms(2) by auto
  show ?thesis
    using take_front_prefix [OF c(2) assms(4) c(3)] c(1) by simp
qed

end

text \<open>The peek of the class: the \<open>assert\<close> and the \<open>memcpy\<close> of \<open>PeekNumber\<close>, at a byte count.\<close>

definition peek_bytes :: "nat \<Rightarrow> Buffer \<Rightarrow> u8 list res" where
  "peek_bytes n b =
     rbind (check (ReadableSize b \<ge> of_nat n) AssertFailed) (\<lambda>_. mem_read (ReadBegin b) n (vec b))"

lemma PeekNumber_peek_bytes:
  "(PeekNumber h b :: 'a::len word res) =
     rbind (peek_bytes (sizeof TYPE('a)) b) (\<lambda>bs. Inr (ntoh h (of_mem h bs)))"
  by (simp add: PeekNumber_def peek_bytes_def rbind_assoc)

interpretation bsource: byte_source readable buf_inv peek_bytes "\<lambda>n. AddReadIndex (of_nat n)"
proof unfold_locales
  fix b n assume "buf_inv b" "n < (2 :: nat) ^ 63"
  then show "peek_bytes n b = (if n \<le> length (readable b) then Inr (take n (readable b)) else Inl AssertFailed)"
    by (simp add: peek_bytes_def read_window word_le_nat_alt unat_ReadableSize unat_of_nat_small)
next
  fix b n assume "buf_inv b" "n < (2 :: nat) ^ 63"
  then show "readable (AddReadIndex (of_nat n) b) = drop n (readable b)"
    by (simp add: AddReadIndex_std unat_of_nat_small)
qed (simp add: AddReadIndex_std)

interpretation bstream: byte_stream readable buf_std peek_bytes "\<lambda>n. AddReadIndex (of_nat n)" fits AppendData
proof unfold_locales
  fix b and xs :: "u8 list" assume "buf_std b" "fits (length xs) b"
  then show "\<exists>b'. AppendData xs b = Inr b' \<and> buf_std b' \<and> readable b' = readable b @ xs"
    by (rule AppendData_std) blast
next
  fix b n b' and xs :: "u8 list"
  assume a: "buf_std b" "fits (length xs + n) b" "AppendData xs b = Inr b'"
  then have "fits (length xs) b" by (simp add: fits_def)
  with a show "fits n b'" by (auto simp: fits_def elim!: AppendData_std [of b xs])
qed (auto simp: fits_def AddReadIndex_std bsource.peek_eq unat_of_nat_small)

section \<open>Sequences of operations\<close>

text \<open>
  A call on a buffer and what it returns; \<open>OpAddWrite\<close> is the pair \<open>memcpy\<close> to \<open>WriteBegin()\<close> and
  \<open>AddWriteIndex\<close> with which a reader of a socket fills the writable part, and \<open>OpSwap None\<close> is
  \<open>SwapBuffer\<close> of a null pointer.
\<close>

datatype num = N8 u8 | N32 u32 | N64 u64

datatype num_kind = K8 | K32 | K64

datatype buf_op =
    OpAddRead size_t
  | OpAddWrite "u8 list"
  | OpDrop
  | OpReset
  | OpAdjust
  | OpReSize size_t
  | OpAppend "u8 list"
  | OpPreAppend "u8 list"
  | OpAppendNumber num
  | OpPreAppendNumber num
  | OpPeekNumber num_kind
  | OpReadNumber num_kind
  | OpReadAll
  | OpSwap "nat option"

datatype buf_out = NoOut | Bytes "u8 list" | Number num

definition fill_from_socket :: "u8 list \<Rightarrow> Buffer \<Rightarrow> Buffer res" where
  "fill_from_socket data b =
     rbind (mem_write (WriteBegin b) data (vec b)) (\<lambda>v.
     Inr (AddWriteIndex (of_nat (length data)) (b\<lparr>vec := v\<rparr>)))"

definition no_out :: "Buffer res \<Rightarrow> (buf_out \<times> Buffer) res" where
  "no_out m = rbind m (\<lambda>b. Inr (NoOut, b))"

fun append_num :: "endian \<Rightarrow> num \<Rightarrow> Buffer \<Rightarrow> Buffer res" where
  "append_num h (N8 w) b = AppendNumber h w b"
| "append_num h (N32 w) b = AppendNumber h w b"
| "append_num h (N64 w) b = AppendNumber h w b"

fun pre_append_num :: "endian \<Rightarrow> num \<Rightarrow> Buffer \<Rightarrow> Buffer res" where
  "pre_append_num h (N8 w) b = PreAppendNumber h w b"
| "pre_append_num h (N32 w) b = PreAppendNumber h w b"
| "pre_append_num h (N64 w) b = PreAppendNumber h w b"

fun peek_num :: "endian \<Rightarrow> num_kind \<Rightarrow> Buffer \<Rightarrow> num res" where
  "peek_num h K8 b = rbind (PeekNumber h b) (\<lambda>w. Inr (N8 w))"
| "peek_num h K32 b = rbind (PeekNumber h b) (\<lambda>w. Inr (N32 w))"
| "peek_num h K64 b = rbind (PeekNumber h b) (\<lambda>w. Inr (N64 w))"

fun read_num :: "endian \<Rightarrow> num_kind \<Rightarrow> Buffer \<Rightarrow> (num \<times> Buffer) res" where
  "read_num h K8 b = rbind (ReadNumber h b) (\<lambda>(w, b'). Inr (N8 w, b'))"
| "read_num h K32 b = rbind (ReadNumber h b) (\<lambda>(w, b'). Inr (N32 w, b'))"
| "read_num h K64 b = rbind (ReadNumber h b) (\<lambda>(w, b'). Inr (N64 w, b'))"

fun buf_op_step :: "endian \<Rightarrow> buf_op \<Rightarrow> Buffer \<Rightarrow> (buf_out \<times> Buffer) res" where
  "buf_op_step h (OpAddRead n) b = Inr (NoOut, AddReadIndex n b)"
| "buf_op_step h (OpAddWrite xs) b = no_out (fill_from_socket xs b)"
| "buf_op_step h OpDrop b = Inr (NoOut, DropAllData b)"
| "buf_op_step h OpReset b = Inr (NoOut, Reset b)"
| "buf_op_step h OpAdjust b = no_out (AdjustBuffer b)"
| "buf_op_step h (OpReSize n) b = no_out (ReSize n b)"
| "buf_op_step h (OpAppend xs) b = no_out (AppendData xs b)"
| "buf_op_step h (OpPreAppend xs) b = no_out (PreAppendData xs b)"
| "buf_op_step h (OpAppendNumber w) b = no_out (append_num h w b)"
| "buf_op_step h (OpPreAppendNumber w) b = no_out (pre_append_num h w b)"
| "buf_op_step h (OpPeekNumber k) b = rbind (peek_num h k b) (\<lambda>w. Inr (Number w, b))"
| "buf_op_step h (OpReadNumber k) b = rbind (read_num h k b) (\<lambda>(w, b'). Inr (Number w, b'))"
| "buf_op_step h OpReadAll b = rbind (ReadAllAsString b) (\<lambda>(xs, b'). Inr (Bytes xs, b'))"
| "buf_op_step h (OpSwap j) b = Inr (NoOut, fst (SwapBuffer b None))"

text \<open>
  A client of several buffers names the buffer of each call by its place in a list; only
  \<open>SwapBuffer\<close> touches a second one. A place that is not in the list is no buffer (\<open>NullDeref\<close>).
\<close>

fun bufs_step :: "endian \<Rightarrow> nat \<times> buf_op \<Rightarrow> Buffer list \<Rightarrow> (buf_out \<times> Buffer list) res" where
  "bufs_step h (i, OpSwap (Some j)) bs =
     rbind (check (i < length bs \<and> j < length bs) NullDeref) (\<lambda>_.
     case SwapBuffer (bs ! i) (Some (bs ! j)) of
       (b, Some c) \<Rightarrow> Inr (NoOut, bs[i := b, j := c])
     | (b, None) \<Rightarrow> Inr (NoOut, bs[i := b]))"
| "bufs_step h (i, x) bs =
     rbind (check (i < length bs) NullDeref) (\<lambda>_.
     rbind (buf_op_step h x (bs ! i)) (\<lambda>(out, b). Inr (out, bs[i := b])))"

fun add_out :: "buf_out \<Rightarrow> (buf_out list \<times> 's) res \<Rightarrow> (buf_out list \<times> 's) res" where
  "add_out out (Inl e) = Inl e"
| "add_out out (Inr (outs, s)) = Inr (out # outs, s)"

fun then_out :: "(buf_out \<times> 's) res \<Rightarrow> ('s \<Rightarrow> (buf_out list \<times> 's) res) \<Rightarrow> (buf_out list \<times> 's) res" where
  "then_out (Inl e) f = Inl e"
| "then_out (Inr (out, s)) f = add_out out (f s)"

fun bufs_run :: "endian \<Rightarrow> (nat \<times> buf_op) list \<Rightarrow> Buffer list \<Rightarrow> (buf_out list \<times> Buffer list) res" where
  "bufs_run h [] bs = Inr ([], bs)"
| "bufs_run h (x # xs) bs = then_out (bufs_step h x bs) (bufs_run h xs)"

lemma add_out_Inr: "add_out out r = Inr (outs, s) \<longleftrightarrow> (\<exists>outs'. r = Inr (outs', s) \<and> outs = out # outs')"
  by (cases "(out, r)" rule: add_out.cases) auto

lemma then_out_Inr:
  "then_out r f = Inr (outs, s) \<longleftrightarrow>
     (\<exists>out t outs'. r = Inr (out, t) \<and> f t = Inr (outs', s) \<and> outs = out # outs')"
  by (cases "(r, f)" rule: then_out.cases) (auto simp: add_out_Inr)

text \<open>
  What a client has to respect: data of at most \<open>2 ^ 62\<close> bytes, and a \<open>ReSize\<close> whose size does
  not wrap when the reserved bytes are added and does not cut bytes written before.
\<close>

definition data_allowed :: "u8 list \<Rightarrow> bool" where
  "data_allowed xs \<longleftrightarrow> length xs \<le> 2 ^ 62"

definition size_allowed :: "size_t \<Rightarrow> Buffer \<Rightarrow> bool" where
  "size_allowed n b \<longleftrightarrow> unat n + 8 < 2 ^ 64 \<and> unat (write_idx b) \<le> unat n + 8"

lemma data_allowed_code [code]: "data_allowed xs \<longleftrightarrow> int (length xs) \<le> 4611686018427387904"
  by (simp add: data_allowed_def)

lemma size_allowed_code [code]:
  "size_allowed n b \<longleftrightarrow> n < 0xFFFFFFFFFFFFFFF8 \<and> write_idx b \<le> n + 8"
proof (cases "unat n + 8 < 2 ^ 64")
  case True
  then have "unat (n + 8) = unat n + 8" by (simp add: unat_add_small)
  with True show ?thesis by (simp add: size_allowed_def word_less_nat_alt word_le_nat_alt)
qed (simp add: size_allowed_def word_less_nat_alt)

fun op_allowed :: "buf_op \<Rightarrow> Buffer \<Rightarrow> bool" where
  "op_allowed (OpAppend xs) b = data_allowed xs"
| "op_allowed (OpAddWrite xs) b = data_allowed xs"
| "op_allowed (OpPreAppend xs) b = data_allowed xs"
| "op_allowed (OpReSize n) b = size_allowed n b"
| "op_allowed _ b = True"

fun if_done :: "('a \<times> 's) res \<Rightarrow> ('s \<Rightarrow> bool) \<Rightarrow> bool" where
  "if_done (Inl e) P = True"
| "if_done (Inr (out, s)) P = P s"

fun call_allowed :: "nat \<times> buf_op \<Rightarrow> Buffer list \<Rightarrow> bool" where
  "call_allowed (i, x) bs = (i < length bs \<longrightarrow> op_allowed x (bs ! i))"

fun run_allowed :: "endian \<Rightarrow> (nat \<times> buf_op) list \<Rightarrow> Buffer list \<Rightarrow> bool" where
  "run_allowed h [] bs = True"
| "run_allowed h (x # xs) bs =
     (call_allowed x bs \<and> if_done (bufs_step h x bs) (run_allowed h xs))"

lemma fill_from_socket_std:
  assumes "buf_std b" "length xs \<le> unat (WritableSize b)"
  obtains b' where "fill_from_socket xs b = Inr b'" "buf_std b'" "readable b' = readable b @ xs"
    "length (vec b') = length (vec b)" "read_idx b' = read_idx b"
proof -
  have i: "buf_inv b" using assms by simp
  then have "unat (write_idx b) \<le> length (vec b)" by (simp add: buf_inv_def)
  with assms(2) have w: "unat (write_idx b) + length xs \<le> length (vec b)"
    by (simp add: unat_WritableSize [OF i])
  show ?thesis
    by (rule that [OF _ write_step(3) [OF i w assms(1)] write_step(2) [OF i w]])
       (use w in \<open>simp_all add: fill_from_socket_def mem_write_def WriteBegin_def AddWriteIndex_def length_poke\<close>)
qed

lemma fill_from_socket_inv:
  assumes "buf_inv b" "fill_from_socket xs b = Inr b'"
  shows "buf_inv b'" "readable b' = readable b @ xs"
proof -
  have w: "unat (write_idx b) + length xs \<le> length (vec b)"
    using assms(2) by (auto simp: fill_from_socket_def mem_write_def WriteBegin_def split: if_splits)
  have "b' = AddWriteIndex (of_nat (length xs)) (b\<lparr>vec := poke (unat (write_idx b)) xs (vec b)\<rparr>)"
    using assms(2) by (auto simp: fill_from_socket_def mem_write_def WriteBegin_def split: if_splits)
  with write_step [OF assms(1) w] show "buf_inv b'" "readable b' = readable b @ xs" by simp_all
qed

lemma AdjustBuffer_inv:
  assumes "buf_inv b" "AdjustBuffer b = Inr b'"
  shows "buf_std b'" "readable b' = readable b" "length (vec b') = length (vec b)"
proof -
  let ?r = "unat (read_idx b)" and ?w = "unat (write_idx b)"
  let ?xs = "take (?w - ?r) (drop ?r (vec b))"
  have i: "?r \<le> ?w" "?w \<le> length (vec b)" "8 \<le> length (vec b)" "length (vec b) \<le> vec_max"
    using assms(1) by (auto simp: buf_inv_def)
  have c: "8 + (?w - ?r) \<le> length (vec b)" and
    b': "b' = b\<lparr>vec := poke 8 ?xs (vec b), read_idx := IDX_BEGIN, write_idx := IDX_BEGIN + ReadableSize b\<rparr>"
    using assms(2) i by (auto simp: AdjustBuffer_def std_copy_def Let_def rbind_simps split: if_splits)
  have len: "length ?xs = ?w - ?r" using i by simp
  have rs: "unat (ReadableSize b) = ?w - ?r"
    using assms(1) by (simp add: unat_ReadableSize length_readable)
  have w: "unat (IDX_BEGIN + ReadableSize b) = 8 + (?w - ?r)"
    using c i vec_max_less [OF i(4)] rs by (simp add: unat_add_small)
  have lp: "length (poke 8 ?xs (vec b)) = length (vec b)"
    using c len by (intro length_poke) simp
  show "buf_std b'" using c i by (simp add: b' buf_std_def buf_inv_def w lp)
  show "readable b' = readable b"
    using i len by (simp add: b' readable_def w window_poke del: length_take length_drop)
  show "length (vec b') = length (vec b)" by (simp add: b' lp)
qed

lemma AppendData_inv:
  assumes "buf_inv b" "length xs \<le> 2 ^ 62" "AppendData xs b = Inr b'"
  shows "buf_std b'" "readable b' = readable b @ xs"
proof -
  let ?len = "of_nat (length xs) :: size_t"
  obtain a c v where a: "AdjustBuffer b = Inr a"
    and c: "(if ?len > WritableSize a then ReSize (vec_size a + (?len - WritableSize a)) a else Inr a) = Inr c"
    and w: "mem_write (WriteBegin c) xs (vec c) = Inr v"
    and b0: "Inr (AddWriteIndex ?len (c\<lparr>vec := v\<rparr>)) = (Inr b' :: Buffer res)"
    using assms(3) unfolding AppendData_def Let_def rbind_eq_Inr by blast
  from w b0 have b': "b' = AddWriteIndex ?len (c\<lparr>vec := poke (WriteBegin c) xs (vec c)\<rparr>)"
    by (simp add: mem_write_def split: if_splits)
  note as = AdjustBuffer_inv [OF assms(1) a]
  have ai: "buf_inv a" using as(1) by simp
  have la: "length (vec a) \<le> vec_max" "unat (write_idx a) \<le> length (vec a)"
    using ai by (auto simp: buf_inv_def)
  have len: "unat ?len = length xs"
    using assms(2) by (simp add: unat_of_nat_small)
  have cs: "buf_std c \<and> readable c = readable b"
  proof (cases "?len > WritableSize a")
    case True
    let ?m = "vec_size a + (?len - WritableSize a)"
    have d: "unat (?len - WritableSize a) = length xs - unat (WritableSize a)"
      using True len by (simp add: unat_sub_le word_less_nat_alt)
    have m: "unat ?m = length (vec a) + (length xs - unat (WritableSize a))"
      using d assms(2) vec_max_less [OF la(1)] unat_vec_size [OF ai]
      by (subst unat_add_small) simp_all
    have m8: "unat (?m + IDX_BEGIN) = unat ?m + 8"
      using m assms(2) vec_max_less [OF la(1)] by (subst unat_add_small) simp_all
    have r: "ReSize ?m a = Inr c" using c True by simp
    then have "unat ?m + 8 \<le> vec_max" by (simp add: ReSize_def m8 split: if_splits)
    then show ?thesis
      using ReSize_grow [OF as(1), of ?m] r m as(2) by auto
  qed (use as c in auto)
  have "unat (write_idx c) + length xs \<le> length (vec c)"
    using w by (auto simp: mem_write_def WriteBegin_def split: if_splits)
  from write_step [OF _ this] cs show "buf_std b'" "readable b' = readable b @ xs"
    by (simp_all add: b' WriteBegin_def)
qed

lemma PreAppendData_inv:
  assumes "buf_inv b" "length xs \<le> 2 ^ 62" "PreAppendData xs b = Inr b'"
  shows "buf_inv b'" "readable b' = xs @ readable b"
proof -
  have l: "length xs \<le> unat (read_idx b)"
    using assms(2,3)
    by (auto simp: PreAppendData_def Let_def rbind_simps word_le_nat_alt unat_of_nat_small)
  show "buf_inv b'" "readable b' = xs @ readable b"
    by (rule PreAppendData_ok [OF assms(1) l], use assms(3) in simp)+
qed

lemma DropAllData_inv: "buf_inv b \<Longrightarrow> buf_inv (DropAllData b) \<and> readable (DropAllData b) = []"
  by (simp add: DropAllData_def AddReadIndex_std unat_ReadableSize)

lemma Reset_inv: "buf_inv b \<Longrightarrow> buf_inv (Reset b) \<and> readable (Reset b) = []"
  by (simp add: Reset_def buf_inv_def readable_def)

lemma Buffer_new_std:
  assumes "Buffer_new n = Inr b"
  shows "buf_inv b \<longleftrightarrow> 8 \<le> unat (n + IDX_BEGIN)" "readable b = []" "read_idx b = IDX_BEGIN"
    "write_idx b = IDX_BEGIN" "length (vec b) = unat (n + IDX_BEGIN)"
  using assms by (auto simp: Buffer_new_def buf_inv_def readable_def split: if_splits)

lemma Buffer_new_ok:
  assumes "unat n + 8 \<le> vec_max"
  obtains b where "Buffer_new n = Inr b" "buf_std b" "readable b = []" "length (vec b) = unat n + 8"
    "read_idx b = IDX_BEGIN" "write_idx b = IDX_BEGIN"
proof -
  have n: "unat (n + IDX_BEGIN) = unat n + 8"
    using vec_max_less [OF assms] by (simp add: unat_add_small)
  obtain b where b: "Buffer_new n = Inr b" using assms by (simp add: Buffer_new_def n)
  from Buffer_new_std [OF b] n show ?thesis by (intro that [OF b]) (simp_all add: buf_std_def)
qed

lemma ReSize_inv:
  assumes "buf_inv b" "unat n + 8 < 2 ^ 64" "unat (write_idx b) \<le> unat n + 8" "ReSize n b = Inr b'"
  shows "buf_inv b'" "readable b' = readable b"
proof -
  have n: "unat (n + IDX_BEGIN) = unat n + 8" using assms(2) by (simp add: unat_add_small)
  have b': "b' = b\<lparr>vec := vec_resize (unat n + 8) (vec b)\<rparr>" "unat n + 8 \<le> vec_max"
    using assms(4) by (auto simp: ReSize_def n split: if_splits)
  with assms(1,3) show "buf_inv b'" "readable b' = readable b"
    by (auto simp: buf_inv_def readable_def length_vec_resize)
       (auto simp: vec_resize_def take_drop_shift)
qed

lemma ReadAll_inv:
  assumes "buf_inv b" "ReadAllAsString b = Inr (xs, b')"
  shows "buf_inv b'" "xs = readable b" "readable b' = []"
proof -
  have "mem_read (ReadBegin b) (unat (ReadableSize b)) (vec b) = Inr (readable b)"
    using read_window [OF assms(1), of "length (readable b)"] by (simp add: unat_ReadableSize [OF assms(1)])
  then have "xs = readable b" "b' = AddReadIndex (ReadableSize b) b"
    using assms(2) by (auto simp: ReadAllAsString_def)
  then show "buf_inv b'" "xs = readable b" "readable b' = []"
    using assms(1) by (simp_all add: AddReadIndex_std unat_ReadableSize)
qed

lemma length_be_bytes_small: "length (be_bytes (w :: u8)) = 1" "length (be_bytes (x :: u32)) = 4"
  "length (be_bytes (y :: u64)) = 8"
  by (simp_all add: sizeof_def)

section \<open>The byte queue a buffer implements\<close>

fun num_bytes :: "num \<Rightarrow> u8 list" where
  "num_bytes (N8 w) = be_bytes w"
| "num_bytes (N32 w) = be_bytes w"
| "num_bytes (N64 w) = be_bytes w"

fun kind_size :: "num_kind \<Rightarrow> nat" where
  "kind_size K8 = 1"
| "kind_size K32 = 4"
| "kind_size K64 = 8"

fun num_of_bytes :: "num_kind \<Rightarrow> u8 list \<Rightarrow> num" where
  "num_of_bytes K8 xs = N8 (of_be_bytes xs)"
| "num_of_bytes K32 xs = N32 (of_be_bytes xs)"
| "num_of_bytes K64 xs = N64 (of_be_bytes xs)"

fun byte_queue_step :: "buf_op \<Rightarrow> u8 list \<Rightarrow> buf_out \<times> u8 list" where
  "byte_queue_step (OpAddRead n) q = (NoOut, drop (unat n) q)"
| "byte_queue_step (OpAddWrite xs) q = (NoOut, q @ xs)"
| "byte_queue_step OpDrop q = (NoOut, [])"
| "byte_queue_step OpReset q = (NoOut, [])"
| "byte_queue_step OpAdjust q = (NoOut, q)"
| "byte_queue_step (OpReSize n) q = (NoOut, q)"
| "byte_queue_step (OpAppend xs) q = (NoOut, q @ xs)"
| "byte_queue_step (OpPreAppend xs) q = (NoOut, xs @ q)"
| "byte_queue_step (OpAppendNumber w) q = (NoOut, q @ num_bytes w)"
| "byte_queue_step (OpPreAppendNumber w) q = (NoOut, num_bytes w @ q)"
| "byte_queue_step (OpPeekNumber k) q = (Number (num_of_bytes k (take (kind_size k) q)), q)"
| "byte_queue_step (OpReadNumber k) q =
     (Number (num_of_bytes k (take (kind_size k) q)), drop (kind_size k) q)"
| "byte_queue_step OpReadAll q = (Bytes q, [])"
| "byte_queue_step (OpSwap j) q = (NoOut, q)"

fun queues_step :: "nat \<times> buf_op \<Rightarrow> u8 list list \<Rightarrow> buf_out \<times> u8 list list" where
  "queues_step (i, OpSwap (Some j)) qs = (NoOut, qs[i := qs ! j, j := qs ! i])"
| "queues_step (i, x) qs = (let (out, q) = byte_queue_step x (qs ! i) in (out, qs[i := q]))"

fun queues_run :: "(nat \<times> buf_op) list \<Rightarrow> u8 list list \<Rightarrow> buf_out list \<times> u8 list list" where
  "queues_run [] qs = ([], qs)"
| "queues_run (x # xs) qs =
     (let (out, rs) = queues_step x qs; (outs, ts) = queues_run xs rs in (out # outs, ts))"

lemma append_num_inv:
  assumes "buf_inv b" "append_num h w b = Inr b'"
  shows "buf_inv b' \<and> readable b' = readable b @ num_bytes w"
  using assms AppendData_inv [of b "num_bytes w" b']
  by (cases w) (auto simp: AppendNumber_eq length_be_bytes_small)

lemma pre_append_num_inv:
  assumes "buf_inv b" "pre_append_num h w b = Inr b'"
  shows "buf_inv b' \<and> readable b' = num_bytes w @ readable b"
  using assms PreAppendData_inv [of b "num_bytes w" b']
  by (cases w) (auto simp: PreAppendNumber_eq length_be_bytes_small)

lemma peek_num_eq:
  "buf_inv b \<Longrightarrow> peek_num h k b =
     (if kind_size k \<le> length (readable b) then Inr (num_of_bytes k (take (kind_size k) (readable b)))
      else Inl AssertFailed)"
  by (cases k) (simp_all add: PeekNumber_eq sizeof_def)

lemma read_num_eq:
  "buf_inv b \<Longrightarrow> read_num h k b =
     (if kind_size k \<le> length (readable b)
      then Inr (num_of_bytes k (take (kind_size k) (readable b)), AddReadIndex (of_nat (kind_size k)) b)
      else Inl AssertFailed)"
  by (cases k) (simp_all add: ReadNumber_eq sizeof_def)

text \<open>A faultless call keeps the invariant, and does to the readable bytes what the queue does.\<close>

lemma buf_op_step_refines:
  assumes "buf_inv b" "op_allowed x b" "buf_op_step h x b = Inr (out, b')"
  shows "buf_inv b' \<and> (out, readable b') = byte_queue_step x (readable b)"
proof (cases x)
  case (OpAddRead n)
  with assms show ?thesis by (auto simp: AddReadIndex_std)
next
  case (OpAddWrite xs)
  with assms show ?thesis by (auto simp: no_out_def rbind_simps dest: fill_from_socket_inv)
next
  case OpDrop
  with assms show ?thesis by (auto simp: DropAllData_inv)
next
  case OpReset
  with assms show ?thesis by (auto simp: Reset_inv)
next
  case OpAdjust
  with assms show ?thesis by (auto simp: no_out_def rbind_simps dest: AdjustBuffer_inv)
next
  case (OpReSize n)
  with assms show ?thesis by (auto simp: no_out_def rbind_simps size_allowed_def dest: ReSize_inv)
next
  case (OpAppend xs)
  with assms AppendData_inv [of b xs b'] show ?thesis by (auto simp: data_allowed_def no_out_def rbind_simps)
next
  case (OpPreAppend xs)
  with assms PreAppendData_inv [of b xs b'] show ?thesis by (auto simp: data_allowed_def no_out_def rbind_simps)
next
  case (OpAppendNumber w)
  with assms append_num_inv [of b h w b'] show ?thesis by (auto simp: no_out_def rbind_simps)
next
  case (OpPreAppendNumber w)
  with assms pre_append_num_inv [of b h w b'] show ?thesis by (auto simp: no_out_def rbind_simps)
next
  case (OpPeekNumber k)
  with assms show ?thesis by (auto simp: rbind_simps peek_num_eq split: if_splits)
next
  case (OpReadNumber k)
  have "unat (of_nat (kind_size k) :: size_t) = kind_size k" by (cases k) simp_all
  with OpReadNumber assms show ?thesis
    by (auto simp: rbind_simps read_num_eq AddReadIndex_std split: if_splits)
next
  case OpReadAll
  with assms show ?thesis by (auto simp: rbind_simps dest: ReadAll_inv)
next
  case (OpSwap j)
  with assms show ?thesis by simp
qed

lemma SwapBuffer_Some: "SwapBuffer b (Some c) = (c, Some b)"
  by (simp add: Swap_def Let_def)

lemma bufs_step_swap:
  "bufs_step h (i, OpSwap (Some j)) bs =
     (if i < length bs \<and> j < length bs then Inr (NoOut, bs[i := bs ! j, j := bs ! i]) else Inl NullDeref)"
  by (simp only: bufs_step.simps SwapBuffer_Some) (simp add: check_def)

lemma bufs_step_refines:
  assumes "list_all buf_inv bs" "i < length bs \<Longrightarrow> op_allowed x (bs ! i)" "bufs_step h (i, x) bs = Inr (out, cs)"
  shows "list_all buf_inv cs \<and> (out, map readable cs) = queues_step (i, x) (map readable bs)"
proof (cases "\<exists>j. x = OpSwap (Some j)")
  case True
  then obtain j where x: "x = OpSwap (Some j)" by blast
  then have "i < length bs" "j < length bs" "out = NoOut" "cs = bs[i := bs ! j, j := bs ! i]"
    using assms(3) unfolding x bufs_step_swap by (auto split: if_splits)
  with assms(1) x show ?thesis
    by (auto simp: map_update list_all_length nth_list_update)
next
  case False
  then have u: "bufs_step h (i, x) bs = rbind (check (i < length bs) NullDeref) (\<lambda>_.
      rbind (buf_op_step h x (bs ! i)) (\<lambda>(out, b). Inr (out, bs[i := b])))"
    "queues_step (i, x) (map readable bs) =
      (let (out, q) = byte_queue_step x (map readable bs ! i) in (out, (map readable bs)[i := q]))"
    by (cases x; simp; metis bufs_step.simps(15) queues_step.simps(15) not_None_eq)+
  obtain b where b: "i < length bs" "buf_op_step h x (bs ! i) = Inr (out, b)" "cs = bs[i := b]"
    using assms(3) by (auto simp: u(1) rbind_simps)
  have "buf_inv (bs ! i)" using assms(1) b(1) by (simp add: list_all_length)
  from buf_op_step_refines [OF this assms(2) [OF b(1)] b(2)]
  have "buf_inv b" "byte_queue_step x (readable (bs ! i)) = (out, readable b)" by simp_all
  with assms(1) b show ?thesis
    by (auto simp: u(2) map_update list_all_length nth_list_update)
qed

lemma bufs_run_refines:
  "list_all buf_inv bs \<Longrightarrow> run_allowed h ops bs \<Longrightarrow> bufs_run h ops bs = Inr (outs, cs) \<Longrightarrow>
     list_all buf_inv cs \<and> (outs, map readable cs) = queues_run ops (map readable bs)"
proof (induction ops arbitrary: bs outs)
  case (Cons x ops)
  obtain i y where x: "x = (i, y)" by (cases x)
  from Cons.prems(3) obtain out ds outs' where r: "bufs_step h (i, y) bs = Inr (out, ds)"
    "bufs_run h ops ds = Inr (outs', cs)" "outs = out # outs'"
    by (auto simp: then_out_Inr x)
  from Cons.prems(2) r(1) have al: "i < length bs \<Longrightarrow> op_allowed y (bs ! i)" "run_allowed h ops ds"
    by (simp_all add: x)
  note st = bufs_step_refines [OF Cons.prems(1) al(1) r(1)]
  from st Cons.IH [OF _ al(2) r(2)] show ?case
    by (auto simp: x r(3) Let_def split: prod.split)
qed simp

section \<open>Properties\<close>


definition example_ops :: "(nat \<times> buf_op) list" where
  "example_ops =
     [(0, OpAppend [1, 2, 3]), (0, OpAddRead 1), (0, OpPreAppend [9]), (1, OpAppendNumber (N32 7)),
      (1, OpReSize 6), (0, OpSwap (Some 1)), (0, OpReadNumber K32), (1, OpReadAll)]"

definition zero_buffer :: "nat \<Rightarrow> Buffer" where
  "zero_buffer n = \<lparr>vec = replicate (n + 8) 0, read_idx = 8, write_idx = 8\<rparr>"

lemma example_ops_allowed: "run_allowed LittleEndian example_ops [zero_buffer 2, zero_buffer 4]"
  by code_simp

lemma example_ops_run: "is_ok (bufs_run LittleEndian example_ops [zero_buffer 2, zero_buffer 4])"
  by code_simp

lemma example_ops_queues:
  "queues_run example_ops [[], []] =
     ([NoOut, NoOut, NoOut, NoOut, NoOut, NoOut, Number (N32 7), Bytes [9, 2, 3]], [[], []])"
  by code_simp


text \<open>
  round trip. A number written by a host of either byte order into a buffer with room is read
  back unchanged by a host of either byte order, and reading it uses up exactly its bytes.
\<close>

theorem number_roundtrip:
  fixes w :: "'a::len word"
  assumes "buf_std b" "readable b = []" "small_type TYPE('a)" "fits (sizeof TYPE('a)) b"
  shows "\<exists>b1 b2. AppendNumber h1 w b = Inr b1 \<and> ReadNumber h2 b1 = Inr (w, b2) \<and> readable b2 = []"
proof -
  obtain b1 where b1: "AppendNumber h1 w b = Inr b1" "buf_std b1" "readable b1 = be_bytes w"
    using AppendData_std [of b "be_bytes w"] assms by (auto simp: AppendNumber_eq)
  have "sizeof TYPE('a) < 2 ^ 63" "whole_bytes TYPE('a)" using assms(3) by (auto simp: small_type_def)
  with b1 assms(3) show ?thesis
    by (auto simp: ReadNumber_eq AddReadIndex_std unat_of_nat_small)
qed

theorem number_roundtrip_witness:
  "\<exists>b b1 b2. AppendNumber LittleEndian (0xCAFE :: u32) b = Inr b1 \<and>
     ReadNumber BigEndian b1 = Inr (0xCAFE :: u32, b2) \<and> readable b2 = []"
proof -
  obtain b where b: "buf_std b" "readable b = []"
    by (rule Buffer_new_ok [of 64]) (auto simp: vec_max_def)
  have "small_type TYPE(32)" "fits (sizeof TYPE(32)) b" using b by (simp_all add: fits_def vec_max_def)
  from number_roundtrip [OF b this, of LittleEndian "0xCAFE" BigEndian] show ?thesis by blast
qed

text \<open>
  error. Once a length prefix has moved the read index into the reserved front bytes and data
  lies beyond them, the next \<open>AppendData\<close> cannot move the data back: its \<open>std::copy\<close> has a target
  inside its source, or runs past the end of the vector when the vector has no slack.
\<close>

theorem append_after_prefix_faults:
  assumes "buf_inv b" "unat (read_idx b) < 8" "8 < unat (write_idx b)"
  shows "AppendData xs b =
    Inl (if 8 + length (readable b) \<le> length (vec b) then OverlappingCopy else OutOfBounds)"
  using assms by (auto simp: AppendData_def AdjustBuffer_def std_copy_def Let_def length_readable buf_inv_def)

theorem append_after_prefix_faults_witness:
  "\<exists>b. rbind (Buffer_new 64) (\<lambda>b. rbind (AppendData [1] b) (PreAppendData [7])) = Inr b \<and>
     AppendData [2] b = Inl OverlappingCopy"
proof -
  let ?P = "\<lambda>b. unat (read_idx b) < 8 \<and> 8 < unat (write_idx b) \<and> unat (write_idx b) < 20 \<and>
      length (vec b) = 72"
  have "ok_with ?P (rbind (Buffer_new 64) (\<lambda>b. rbind (AppendData [1] b) (PreAppendData [7])))"
    by code_simp
  then obtain b where b: "rbind (Buffer_new 64) (\<lambda>b. rbind (AppendData [1] b) (PreAppendData [7])) = Inr b"
    "?P b" unfolding ok_with_iff by blast
  then have i: "buf_inv b" by (simp add: buf_inv_def vec_max_def)
  then show ?thesis
    using append_after_prefix_faults [OF i, of "[2]"] b by (auto simp: length_readable)
qed

end
