(* ===== verification/Logging.thy ===== *)
theory Logging
  imports Prelude
begin

text \<open>
  \<^verbatim>\<open>Utils/FormatUtils.h\<close>, \<^verbatim>\<open>Utils/Logger.h\<close> and \<^verbatim>\<open>Utils/Logger.cpp\<close>: decimal conversion,
  \<open>VectorToString\<close>, \<open>string_format\<close> over the conversions the program uses, and the logger, which
  collects a line and prints it when it is destroyed.
\<close>

section \<open>Decimal conversion (std::to_string)\<close>

definition digit :: "nat \<Rightarrow> char" where
  "digit n = char_of (48 + n mod 10)"

fun dec_nat :: "nat \<Rightarrow> string" where
  "dec_nat n = (if n < 10 then [digit n] else dec_nat (n div 10) @ [digit n])"

declare dec_nat.simps [simp del]

definition dec_int :: "int \<Rightarrow> string" where
  "dec_int i = (if i < 0 then ''-'' @ dec_nat (nat (- i)) else dec_nat (nat i))"

definition to_string_i32 :: "u32 \<Rightarrow> string" where
  "to_string_i32 w = dec_int (sint w)"

definition to_string_u32 :: "u32 \<Rightarrow> string" where
  "to_string_u32 w = dec_nat (unat w)"

definition to_string_i64 :: "u64 \<Rightarrow> string" where
  "to_string_i64 w = dec_int (sint w)"

definition to_string_u64 :: "u64 \<Rightarrow> string" where
  "to_string_u64 w = dec_nat (unat w)"

section \<open>VectorToString\<close>

definition VectorToString :: "('a \<Rightarrow> string) \<Rightarrow> 'a list \<Rightarrow> string" where
  "VectorToString to_str v =
     (if v = [] then []
      else foldl (\<lambda>rst t. rst @ '', '' @ to_str t) (to_str (hd v)) (tl v))"

section \<open>string_format\<close>

text \<open>
  The arguments of the program's format strings: an \<open>int\<close> for \<open>%d\<close> (an unsigned 32-bit argument is
  read as signed there), a \<open>size_t\<close> for \<open>%zu\<close> and a C string for \<open>%s\<close>, printed up to its first NUL.
  A conversion without a matching argument is undefined in C and is \<open>None\<close> here.
\<close>

datatype fmt_arg = ArgInt u32 | ArgSize u64 | ArgStr string

definition c_str :: "string \<Rightarrow> string" where
  "c_str s = takeWhile (\<lambda>c. of_char c \<noteq> (0 :: nat)) s"

fun format_out :: "string \<Rightarrow> fmt_arg list \<Rightarrow> string option" where
  "format_out [] args = Some []"
| "format_out (c # cs) args =
     (if c \<noteq> CHR ''%'' then map_option ((#) c) (format_out cs args)
      else case (cs, args) of
        (CHR ''d'' # cs', ArgInt w # args') \<Rightarrow> map_option ((@) (to_string_i32 w)) (format_out cs' args')
      | (CHR ''s'' # cs', ArgStr s # args') \<Rightarrow> map_option ((@) (c_str s)) (format_out cs' args')
      | (CHR ''z'' # CHR ''u'' # cs', ArgSize w # args') \<Rightarrow>
          map_option ((@) (to_string_u64 w)) (format_out cs' args')
      | _ \<Rightarrow> None)"

text \<open>\<open>snprintf(p, n, ...)\<close>: what it stores at \<open>p\<close> (the terminating NUL included) and its result.\<close>

definition snprintf :: "nat \<Rightarrow> string \<Rightarrow> fmt_arg list \<Rightarrow> (string \<times> nat) option" where
  "snprintf n fmt args =
     map_option (\<lambda>out. (if n = 0 then [] else take (n - 1) out @ [CHR 0x00], length out))
       (format_out fmt args)"

definition string_format :: "string \<Rightarrow> fmt_arg list \<Rightarrow> string option" where
  "string_format fmt args =
     (case snprintf 0 fmt args of
        None \<Rightarrow> None
      | Some (_, sz) \<Rightarrow>
          let rst = replicate sz (CHR 0x00) in
          map_option (\<lambda>(stored, _). take sz (poke 0 stored rst)) (snprintf (sz + 1) fmt args))"

section \<open>The logger\<close>

datatype LOG_LEVEL = INFO | MAX_LEVEL

text \<open>\<open>LogLevelName\<close> has \<open>MAX_LEVEL\<close> entries, so that \<open>MAX_LEVEL\<close> itself is out of its range.\<close>

fun LogLevelName :: "LOG_LEVEL \<Rightarrow> string res" where
  "LogLevelName INFO = Inr ''INFO ''"
| "LogLevelName MAX_LEVEL = Inl OutOfBounds"

record Logger =
  level :: LOG_LEVEL
  file_name :: string
  line_num :: u32
  log_buffer :: string

definition Logger_new :: "LOG_LEVEL \<Rightarrow> string \<Rightarrow> u32 \<Rightarrow> Logger" where
  "Logger_new lv file line = \<lparr>level = lv, file_name = file, line_num = line, log_buffer = []\<rparr>"

definition log_str :: "string \<Rightarrow> Logger \<Rightarrow> Logger" where
  "log_str str l = l\<lparr>log_buffer := log_buffer l @ str\<rparr>"

definition log_i32 :: "u32 \<Rightarrow> Logger \<Rightarrow> Logger" where
  "log_i32 n = log_str (to_string_i32 n)"

definition log_u32 :: "u32 \<Rightarrow> Logger \<Rightarrow> Logger" where
  "log_u32 n = log_str (to_string_u32 n)"

definition log_i64 :: "u64 \<Rightarrow> Logger \<Rightarrow> Logger" where
  "log_i64 n = log_str (to_string_i64 n)"

definition log_u64 :: "u64 \<Rightarrow> Logger \<Rightarrow> Logger" where
  "log_u64 n = log_str (to_string_u64 n)"

definition log_vec :: "('a \<Rightarrow> string) \<Rightarrow> 'a list \<Rightarrow> Logger \<Rightarrow> Logger" where
  "log_vec to_str v = log_str (VectorToString to_str v)"

text \<open>The destructor prints one line; the current time is an argument.\<close>

definition Logger_destroy :: "string \<Rightarrow> Logger \<Rightarrow> string option res" where
  "Logger_destroy time l =
     rbind (LogLevelName (level l)) (\<lambda>name.
     Inr (format_out ''%s %s - %s - %s:%d%s''
       [ArgStr time, ArgStr name, ArgStr (log_buffer l), ArgStr (file_name l), ArgInt (line_num l),
        ArgStr [CHR 0x0A]]))"

text \<open>The \<open>FILENAME\<close> macro: what follows the last separator, or the whole path.\<close>

definition FILENAME :: "string \<Rightarrow> string" where
  "FILENAME path =
     (if CHR ''/'' \<in> set path then rev (takeWhile (\<lambda>c. c \<noteq> CHR ''/'') (rev path)) else path)"

definition LOG_INFO :: "string \<Rightarrow> u32 \<Rightarrow> Logger" where
  "LOG_INFO path line = Logger_new INFO (FILENAME path) line"

section \<open>Lemmas\<close>

lemma length_poke_full: "length xs = Suc (length v) \<Longrightarrow> take (length v) (poke 0 xs v) = take (length v) xs"
  by (simp add: poke_def)

fun undec :: "nat \<Rightarrow> string \<Rightarrow> nat" where
  "undec acc [] = acc"
| "undec acc (c # cs) = undec (10 * acc + (of_char c - 48)) cs"

lemma undec_append: "undec acc (xs @ ys) = undec (undec acc xs) ys"
  by (induction xs arbitrary: acc) auto

lemma of_char_digit: "of_char (digit n) = (48 + n mod 10 :: nat)"
proof -
  have "n mod 10 < 10" by simp
  then have "48 + n mod 10 < 256" by linarith
  then show ?thesis by (simp add: digit_def)
qed

lemma undec_dec_nat: "undec 0 (dec_nat n) = n"
proof (induction n rule: dec_nat.induct)
  case (1 n)
  show ?case
  proof (cases "n < 10")
    case True
    then show ?thesis by (subst dec_nat.simps) (simp add: of_char_digit)
  next
    case False
    with 1 show ?thesis by (subst dec_nat.simps) (simp add: undec_append of_char_digit)
  qed
qed

lemma dec_nat_digits: "c \<in> set (dec_nat n) \<Longrightarrow> 48 \<le> (of_char c :: nat) \<and> (of_char c :: nat) \<le> 57"
proof (induction n rule: dec_nat.induct)
  case (1 n)
  have "n mod 10 \<le> 9" by simp
  then show ?case using 1 by (subst (asm) dec_nat.simps) (auto simp: of_char_digit split: if_splits)
qed

lemma foldl_join: "foldl (\<lambda>rst t. rst @ g t) acc xs = acc @ concat (map g xs)"
  by (induction xs arbitrary: acc) auto

section \<open>Properties\<close>

text \<open>
  \<open>string_format\<close> sizes its result with a first \<open>snprintf\<close> and fills it with a second: the string
  it returns is the whole formatted text, never truncated, without the terminating NUL.
\<close>

theorem string_format_complete: "string_format fmt args = format_out fmt args"
proof (cases "format_out fmt args")
  case None
  then show ?thesis by (simp add: string_format_def snprintf_def)
next
  case (Some out)
  have "take (length out) (poke 0 (out @ [CHR 0x00]) (replicate (length out) (CHR 0x00))) = out"
    using length_poke_full [of "out @ [CHR 0x00]" "replicate (length out) (CHR 0x00)"] by simp
  then show ?thesis using Some by (simp add: string_format_def snprintf_def)
qed

text \<open>
  the decimal text of a number determines it, signed or unsigned, at both widths: reading the
  digits of \<open>to_string\<close> back gives the number.
\<close>

theorem to_string_injective:
  "(to_string_u32 a = to_string_u32 b \<longleftrightarrow> a = b) \<and> (to_string_u64 c = to_string_u64 d \<longleftrightarrow> c = d) \<and>
   (to_string_i32 a = to_string_i32 b \<longleftrightarrow> a = b) \<and> (to_string_i64 c = to_string_i64 d \<longleftrightarrow> c = d)"
proof -
  have n: "dec_nat m = dec_nat n \<longleftrightarrow> m = n" for m n by (metis undec_dec_nat)
  have ne: "dec_nat m \<noteq> CHR ''-'' # s" for m s
    using dec_nat_digits [of "CHR ''-''" m] by auto
  have i: "dec_int j = dec_int k \<longleftrightarrow> j = k" for j k
    using ne [symmetric] by (auto simp: dec_int_def n ne)
  have w: "unat x = unat y \<longleftrightarrow> x = y" "sint x = sint y \<longleftrightarrow> x = y" for x y :: "'a::len word"
    by (auto intro: unsigned_word_eqI signed_word_eqI)
  show ?thesis
    by (simp add: to_string_u32_def to_string_u64_def to_string_i32_def to_string_i64_def n i w)
qed

text \<open>
  \<open>VectorToString\<close> joins the texts of the elements with a comma and a space between neighbours
  and nothing at either end.
\<close>

theorem VectorToString_joins:
  "VectorToString f [] = [] \<and> VectorToString f [x] = f x \<and>
   VectorToString f (x # y # ys) = f x @ '', '' @ VectorToString f (y # ys)"
  by (simp add: VectorToString_def foldl_join)

end
