(* ===== verification/MessageTypes.thy ===== *)
theory MessageTypes
  imports Buffer Logging
begin

text \<open>
  The data of \<^verbatim>\<open>Message/\<close>: the enum classes with their underlying bytes, the fields of
  \<open>BaseMessage\<close>, the four message classes derived from it with their constructors, the checked
  downcast and the debug texts.
\<close>

section \<open>Enum classes\<close>

text \<open>
  \<open>enum class MessageType : uint8_t\<close>. Its underlying type is fixed, so that every byte is a value
  of it (a cast from a received number makes any of them); the enumerators name seven of them. Two
  values compare as their bytes.
\<close>

datatype MessageType = MessageType (type_byte: u8)

abbreviation TYTE_MIN :: MessageType where "TYTE_MIN \<equiv> MessageType 0"
abbreviation DEFAULT :: MessageType where "DEFAULT \<equiv> MessageType 1"
abbreviation CONTROL :: MessageType where "CONTROL \<equiv> MessageType 2"
abbreviation PING :: MessageType where "PING \<equiv> MessageType 3"
abbreviation ENTER_ROOM :: MessageType where "ENTER_ROOM \<equiv> MessageType 4"
abbreviation GAME_START :: MessageType where "GAME_START \<equiv> MessageType 5"
abbreviation TYPE_MAX :: MessageType where "TYPE_MAX \<equiv> MessageType 6"

instantiation MessageType :: linorder
begin

definition less_eq_MessageType :: "MessageType \<Rightarrow> MessageType \<Rightarrow> bool" where
  "a \<le> b \<longleftrightarrow> type_byte a \<le> type_byte b"

definition less_MessageType :: "MessageType \<Rightarrow> MessageType \<Rightarrow> bool" where
  "a < b \<longleftrightarrow> type_byte a < type_byte b"

instance
  by intro_classes (auto simp: less_eq_MessageType_def less_MessageType_def intro: MessageType.expand)

end

definition MessageTypeToString :: "MessageType \<Rightarrow> string" where
  "MessageTypeToString t =
     (case map_of [(DEFAULT, ''NONE''), (PING, ''PING''), (ENTER_ROOM, ''ENTER_ROOM''),
                   (GAME_START, ''GAME_START''), (CONTROL, ''CONTROL'')] t of
        None \<Rightarrow> ''UNKNOWN'' | Some s \<Rightarrow> s)"

text \<open>\<open>ControlMessage::MoveDirection : uint8_t\<close>.\<close>

datatype MoveDirection = MoveDirection (dir_byte: u8)

abbreviation DIR_NONE :: MoveDirection where "DIR_NONE \<equiv> MoveDirection 0"
abbreviation DIR_UP :: MoveDirection where "DIR_UP \<equiv> MoveDirection 1"
abbreviation DIR_DOWN :: MoveDirection where "DIR_DOWN \<equiv> MoveDirection 2"
abbreviation DIR_LEFT :: MoveDirection where "DIR_LEFT \<equiv> MoveDirection 3"
abbreviation DIR_RIGHT :: MoveDirection where "DIR_RIGHT \<equiv> MoveDirection 4"

definition ControlTypeToString :: "MoveDirection \<Rightarrow> string" where
  "ControlTypeToString t =
     (case map_of [(DIR_NONE, ''NONE''), (DIR_UP, ''UP''), (DIR_DOWN, ''DOWN''),
                   (DIR_LEFT, ''LEFT''), (DIR_RIGHT, ''RIGHT'')] t of
        None \<Rightarrow> ''UNKNOWN'' | Some s \<Rightarrow> s)"

section \<open>Message objects\<close>

type_synonym ROLE_ID = u32

definition MAX_PACK_SIZE :: u32 where "MAX_PACK_SIZE = 4 * 1024"
definition HEADER_SIZE_NO_LENGTH :: u32 where "HEADER_SIZE_NO_LENGTH = 4 + 4 + 4 + 1 + 4"
definition MAGIC :: u32 where "MAGIC = 0x11000011"

record BaseMessage =
  magic :: u32
  message_unique_id :: u32
  role_id :: ROLE_ID
  version :: u8
  message_type :: MessageType

definition BaseMessage_new :: BaseMessage where
  "BaseMessage_new =
     \<lparr>magic = MAGIC, message_unique_id = 0, role_id = 0, version = 0, message_type = DEFAULT\<rparr>"

text \<open>The move constructor copies every field.\<close>

definition BaseMessage_move :: "BaseMessage \<Rightarrow> BaseMessage" where
  "BaseMessage_move old =
     \<lparr>magic = magic old, message_unique_id = message_unique_id old, role_id = role_id old,
      version = version old, message_type = message_type old\<rparr>"

text \<open>An object of \<open>BaseMessage\<close> or of a class derived from it, with the fields of its class.\<close>

datatype Message =
    BaseMsg BaseMessage
  | ControlMessage BaseMessage (tick: u32) (move_direction: MoveDirection)
  | PingMessage BaseMessage (timestamp: u64)
  | EnterRoomMessage BaseMessage (room_id: u32) (result: u32)
  | GameStartMessage BaseMessage (timestamp: u64)

fun base :: "Message \<Rightarrow> BaseMessage" where
  "base (BaseMsg b) = b"
| "base (ControlMessage b t d) = b"
| "base (PingMessage b t) = b"
| "base (EnterRoomMessage b r e) = b"
| "base (GameStartMessage b t) = b"

fun map_base :: "(BaseMessage \<Rightarrow> BaseMessage) \<Rightarrow> Message \<Rightarrow> Message" where
  "map_base f (BaseMsg b) = BaseMsg (f b)"
| "map_base f (ControlMessage b t d) = ControlMessage (f b) t d"
| "map_base f (PingMessage b t) = PingMessage (f b) t"
| "map_base f (EnterRoomMessage b r e) = EnterRoomMessage (f b) r e"
| "map_base f (GameStartMessage b t) = GameStartMessage (f b) t"

lemma base_map_base [simp]: "base (map_base f m) = f (base m)"
  by (cases m) simp_all

definition ControlMessage_new :: Message where
  "ControlMessage_new =
     ControlMessage (BaseMessage_new\<lparr>version := 1, message_type := CONTROL\<rparr>) 0x12345678 DIR_NONE"

definition PingMessage_new :: Message where
  "PingMessage_new = PingMessage (BaseMessage_new\<lparr>version := 1, message_type := PING\<rparr>) 0"

definition EnterRoomMessage_new :: Message where
  "EnterRoomMessage_new = EnterRoomMessage (BaseMessage_new\<lparr>message_type := ENTER_ROOM\<rparr>) 0 0"

definition GameStartMessage_new :: Message where
  "GameStartMessage_new = GameStartMessage (BaseMessage_new\<lparr>version := 1, message_type := GAME_START\<rparr>) 0"

text \<open>
  \<open>DECODE_CONSTRUCTOR\<close>: the base fields are moved in, the others stay indeterminate until the body
  is decoded; the arguments stand for what happens to be in memory.
\<close>

definition ControlMessage_of_base :: "u32 \<Rightarrow> MoveDirection \<Rightarrow> BaseMessage \<Rightarrow> Message" where
  "ControlMessage_of_base t d b = ControlMessage (BaseMessage_move b) t d"

definition PingMessage_of_base :: "u64 \<Rightarrow> BaseMessage \<Rightarrow> Message" where
  "PingMessage_of_base t b = PingMessage (BaseMessage_move b) t"

definition EnterRoomMessage_of_base :: "u32 \<Rightarrow> u32 \<Rightarrow> BaseMessage \<Rightarrow> Message" where
  "EnterRoomMessage_of_base r e b = EnterRoomMessage (BaseMessage_move b) r e"

definition GameStartMessage_of_base :: "u64 \<Rightarrow> BaseMessage \<Rightarrow> Message" where
  "GameStartMessage_of_base t b = GameStartMessage (BaseMessage_move b) t"

text \<open>\<open>CastBaseMsgTo<T>\<close>: a dynamic cast, null when the object is of another class.\<close>

datatype msg_class = CBase | CControl | CPing | CEnterRoom | CGameStart

fun class_of :: "Message \<Rightarrow> msg_class" where
  "class_of (BaseMsg b) = CBase"
| "class_of (ControlMessage b t d) = CControl"
| "class_of (PingMessage b t) = CPing"
| "class_of (EnterRoomMessage b r e) = CEnterRoom"
| "class_of (GameStartMessage b t) = CGameStart"

definition CastBaseMsgTo :: "msg_class \<Rightarrow> Message \<Rightarrow> Message option" where
  "CastBaseMsgTo c m = (if class_of m = c \<or> c = CBase then Some m else None)"

section \<open>Debug texts\<close>

definition int_of_u8 :: "u8 \<Rightarrow> u32" where
  "int_of_u8 v = ucast v"

definition BaseMessage_DebugMessage :: "BaseMessage \<Rightarrow> string \<Rightarrow> string option" where
  "BaseMessage_DebugMessage m body =
     (if body = []
      then string_format ''[ version: %d, role_id: %d, message_type: %s ]''
             [ArgInt (int_of_u8 (version m)), ArgInt (role_id m), ArgStr (MessageTypeToString (message_type m))]
      else string_format ''[ version: %d, role_id: %d, message_type: %s ] - %s''
             [ArgInt (int_of_u8 (version m)), ArgInt (role_id m), ArgStr (MessageTypeToString (message_type m)),
              ArgStr body])"

text \<open>The virtual \<open>DebugMessage\<close>; the derived classes ignore their argument.\<close>

fun DebugMessage :: "Message \<Rightarrow> string \<Rightarrow> string option" where
  "DebugMessage (BaseMsg b) body = BaseMessage_DebugMessage b body"
| "DebugMessage (ControlMessage b t d) body =
     Option.bind (string_format ''tick : %d, move_direction : %s'' [ArgInt t, ArgStr (ControlTypeToString d)])
       (BaseMessage_DebugMessage b)"
| "DebugMessage (PingMessage b t) body =
     Option.bind (string_format ''timestamp: %zu'' [ArgSize t]) (BaseMessage_DebugMessage b)"
| "DebugMessage (EnterRoomMessage b r e) body =
     Option.bind (string_format ''room_id: %d'' [ArgInt r]) (BaseMessage_DebugMessage b)"
| "DebugMessage (GameStartMessage b t) body =
     Option.bind (string_format ''timestamp: %zu'' [ArgSize t]) (BaseMessage_DebugMessage b)"

section \<open>Lemmas\<close>

lemma BaseMessage_move_id [simp]: "BaseMessage_move b = b"
  by (simp add: BaseMessage_move_def)

lemma MAGIC_value [simp]: "MAGIC = 0x11000011"
  by (simp add: MAGIC_def)

lemma HEADER_SIZE_value [simp]: "HEADER_SIZE_NO_LENGTH = 17"
  by (simp add: HEADER_SIZE_NO_LENGTH_def)

lemma MAX_PACK_SIZE_value [simp]: "MAX_PACK_SIZE = 4096"
  by (simp add: MAX_PACK_SIZE_def)

text \<open>The types a header may carry.\<close>

definition valid_type :: "MessageType \<Rightarrow> bool" where
  "valid_type t \<longleftrightarrow> \<not> (t \<le> TYTE_MIN \<or> t \<ge> TYPE_MAX)"

lemma valid_type_iff: "valid_type t \<longleftrightarrow> t \<in> {DEFAULT, CONTROL, PING, ENTER_ROOM, GAME_START}"
proof (cases t)
  case (MessageType w)
  have "w \<noteq> 0 \<and> w < 6 \<longleftrightarrow> w = 1 \<or> w = 2 \<or> w = 3 \<or> w = 4 \<or> w = (5 :: u8)"
    by (simp add: word_unat_eq_iff word_less_nat_alt) arith
  then show ?thesis
    by (simp add: valid_type_def MessageType less_eq_MessageType_def not_le)
qed

text \<open>The message types of the four derived classes, as their constructors set them.\<close>

fun type_of_class :: "msg_class \<Rightarrow> MessageType" where
  "type_of_class CBase = DEFAULT"
| "type_of_class CControl = CONTROL"
| "type_of_class CPing = PING"
| "type_of_class CEnterRoom = ENTER_ROOM"
| "type_of_class CGameStart = GAME_START"

definition well_typed :: "Message \<Rightarrow> bool" where
  "well_typed m \<longleftrightarrow> message_type (base m) = type_of_class (class_of m) \<and> magic (base m) = MAGIC"

lemma well_typed_new [simp]:
  "well_typed ControlMessage_new" "well_typed PingMessage_new"
  "well_typed EnterRoomMessage_new" "well_typed GameStartMessage_new" "well_typed (BaseMsg BaseMessage_new)"
  by (simp_all add: well_typed_def ControlMessage_new_def PingMessage_new_def EnterRoomMessage_new_def
      GameStartMessage_new_def BaseMessage_new_def)

end
