(* ===== verification/Codec.thy ===== *)
theory Codec
  imports MessageTypes
begin

text \<open>
  \<^verbatim>\<open>Message/BaseMessage.cpp\<close>, the body codecs of the message classes and
  \<^verbatim>\<open>Message/Messages.cpp\<close>: encoding a message into a buffer, decoding the header and the body, and
  \<open>TransmitMessage\<close>. \<open>frame\<close> and \<open>parse_header\<close> describe the same on plain byte lists, and the
  lemmas show that the buffer operations compute them on hosts of either byte order.
\<close>

section \<open>Encoding\<close>

definition enum_to_num :: "u8 \<Rightarrow> u32" where
  "enum_to_num e = ucast e"

fun EncodeData :: "endian \<Rightarrow> Message \<Rightarrow> Buffer \<Rightarrow> Buffer res" where
  "EncodeData h (BaseMsg b) buffer = Inr buffer"
| "EncodeData h (ControlMessage b t d) buffer =
     rbind (AppendNumber h t buffer) (AppendNumber h (enum_to_num (dir_byte d)))"
| "EncodeData h (PingMessage b t) buffer = AppendNumber h t buffer"
| "EncodeData h (EnterRoomMessage b r e) buffer = rbind (AppendNumber h r buffer) (AppendNumber h e)"
| "EncodeData h (GameStartMessage b t) buffer = AppendNumber h t buffer"

definition EncodeMessage :: "endian \<Rightarrow> Message \<Rightarrow> Buffer \<Rightarrow> Buffer res" where
  "EncodeMessage h m buffer =
     (let old_size = ReadableSize buffer in
      rbind (AppendNumber h (magic (base m)) buffer) (\<lambda>buffer.
      rbind (AppendNumber h (message_unique_id (base m)) buffer) (\<lambda>buffer.
      rbind (AppendNumber h (role_id (base m)) buffer) (\<lambda>buffer.
      rbind (AppendNumber h (version (base m)) buffer) (\<lambda>buffer.
      rbind (AppendNumber h (enum_to_num (type_byte (message_type (base m)))) buffer) (\<lambda>buffer.
      rbind (EncodeData h m buffer) (\<lambda>buffer.
      PreAppendNumber h (ucast (ReadableSize buffer - old_size) :: u32) buffer)))))))"

section \<open>Decoding\<close>

text \<open>
  The message object and the buffer after the call, the returned pair, and what was stored through
  \<open>body_size\<close>.
\<close>

record header_result =
  hr_msg :: BaseMessage
  hr_buffer :: Buffer
  hr_ok :: bool
  hr_length :: u32
  hr_body_size :: "u32 option"

definition DecodeMessageHeader :: "endian \<Rightarrow> BaseMessage \<Rightarrow> Buffer \<Rightarrow> header_result res" where
  "DecodeMessageHeader h m buffer =
     (let old_size = (ucast (ReadableSize buffer) :: u32) in
      if old_size < of_nat (sizeof TYPE(32))
      then Inr \<lparr>hr_msg = m, hr_buffer = buffer, hr_ok = True, hr_length = 0, hr_body_size = None\<rparr>
      else
      rbind (PeekNumber h buffer) (\<lambda>pack_size :: u32.
      if pack_size > MAX_PACK_SIZE
      then Inr \<lparr>hr_msg = m, hr_buffer = buffer, hr_ok = False, hr_length = 0, hr_body_size = None\<rparr>
      else if ReadableSize buffer < ucast pack_size + of_nat (sizeof TYPE(32))
      then Inr \<lparr>hr_msg = m, hr_buffer = buffer, hr_ok = True, hr_length = 0, hr_body_size = None\<rparr>
      else
      let buffer = AddReadIndex (of_nat (sizeof TYPE(32))) buffer in
      rbind (PeekNumber h buffer) (\<lambda>mag :: u32.
      let m = m\<lparr>magic := mag\<rparr> in
      if mag \<noteq> MAGIC
      then Inr \<lparr>hr_msg = m, hr_buffer = buffer, hr_ok = False, hr_length = 0, hr_body_size = None\<rparr>
      else
      let buffer = AddReadIndex (of_nat (sizeof TYPE(32))) buffer in
      rbind (ReadNumber h buffer) (\<lambda>(uid :: u32, buffer).
      rbind (ReadNumber h buffer) (\<lambda>(role :: u32, buffer).
      rbind (ReadNumber h buffer) (\<lambda>(ver :: u8, buffer).
      rbind (ReadNumber h buffer) (\<lambda>(ty :: u32, buffer).
      let m = m\<lparr>message_unique_id := uid, role_id := role, version := ver,
                message_type := MessageType (ucast ty)\<rparr> in
      if message_type m \<le> TYTE_MIN \<or> message_type m \<ge> TYPE_MAX
      then Inr \<lparr>hr_msg = m, hr_buffer = buffer, hr_ok = False, hr_length = 0, hr_body_size = None\<rparr>
      else Inr \<lparr>hr_msg = m, hr_buffer = buffer, hr_ok = True,
                hr_length = ucast ((ucast old_size :: size_t) - ReadableSize buffer),
                hr_body_size = Some (pack_size - HEADER_SIZE_NO_LENGTH)\<rparr>)))))))"

text \<open>The virtual \<open>DecodeMessageBody\<close>, on the object it fills.\<close>

fun DecodeMessageBody :: "endian \<Rightarrow> Message \<Rightarrow> Buffer \<Rightarrow> (Message \<times> Buffer) res" where
  "DecodeMessageBody h (BaseMsg b) buffer = Inr (BaseMsg b, buffer)"
| "DecodeMessageBody h (ControlMessage b t d) buffer =
     rbind (ReadNumber h buffer) (\<lambda>(t :: u32, buffer).
     rbind (ReadNumber h buffer) (\<lambda>(d :: u32, buffer).
     Inr (ControlMessage b t (MoveDirection (ucast d)), buffer)))"
| "DecodeMessageBody h (PingMessage b t) buffer =
     rbind (ReadNumber h buffer) (\<lambda>(t :: u64, buffer). Inr (PingMessage b t, buffer))"
| "DecodeMessageBody h (EnterRoomMessage b r e) buffer =
     rbind (ReadNumber h buffer) (\<lambda>(r :: u32, buffer).
     rbind (ReadNumber h buffer) (\<lambda>(e :: u32, buffer). Inr (EnterRoomMessage b r e, buffer)))"
| "DecodeMessageBody h (GameStartMessage b t) buffer =
     rbind (ReadNumber h buffer) (\<lambda>(t :: u64, buffer). Inr (GameStartMessage b t, buffer))"

record BaseMsgWithBuffer =
  body_buffer :: Buffer
  base_message :: BaseMessage

text \<open>\<open>TransmitMessage\<close>: \<open>None\<close> is the null pointer; the fields before decoding are indeterminate.\<close>

definition TransmitMessage :: "endian \<Rightarrow> BaseMsgWithBuffer \<Rightarrow> Message option res" where
  "TransmitMessage h p =
     (let b = base_message p;
          decode = (\<lambda>m. rbind (DecodeMessageBody h m (body_buffer p)) (\<lambda>(m, buffer). Inr (Some m)))
      in if message_type b = CONTROL then decode (ControlMessage_of_base 0 (MoveDirection 0) b)
         else if message_type b = PING then decode (PingMessage_of_base 0 b)
         else if message_type b = ENTER_ROOM then decode (EnterRoomMessage_of_base 0 0 b)
         else if message_type b = GAME_START then decode (GameStartMessage_of_base 0 b)
         else Inr None)"

section \<open>The wire format on byte lists\<close>

fun body_bytes :: "Message \<Rightarrow> u8 list" where
  "body_bytes (BaseMsg b) = []"
| "body_bytes (ControlMessage b t d) = be_bytes t @ be_bytes (enum_to_num (dir_byte d))"
| "body_bytes (PingMessage b t) = be_bytes t"
| "body_bytes (EnterRoomMessage b r e) = be_bytes r @ be_bytes e"
| "body_bytes (GameStartMessage b t) = be_bytes t"

definition header_bytes :: "BaseMessage \<Rightarrow> u8 list" where
  "header_bytes b = be_bytes (magic b) @ be_bytes (message_unique_id b) @ be_bytes (role_id b) @
     be_bytes (version b) @ be_bytes (enum_to_num (type_byte (message_type b)))"

definition frame :: "Message \<Rightarrow> u8 list" where
  "frame m = be_bytes (of_nat (17 + length (body_bytes m)) :: u32) @ header_bytes (base m) @ body_bytes m"

lemma length_header_bytes [simp]: "length (header_bytes b) = 17"
  by (simp add: header_bytes_def)

lemma length_body_bytes [simp]: "length (body_bytes m) = (if class_of m = CBase then 0 else 8)"
  by (cases m) simp_all

lemma length_frame: "length (frame m) = 21 + length (body_bytes m)"
  by (simp add: frame_def)

subsection \<open>Encoding computes the frame\<close>

text \<open>The chunks \<open>EncodeMessage\<close> appends, one \<open>AppendData\<close> each.\<close>

fun body_chunks :: "Message \<Rightarrow> u8 list list" where
  "body_chunks (BaseMsg b) = []"
| "body_chunks (ControlMessage b t d) = [be_bytes t, be_bytes (enum_to_num (dir_byte d))]"
| "body_chunks (PingMessage b t) = [be_bytes t]"
| "body_chunks (EnterRoomMessage b r e) = [be_bytes r, be_bytes e]"
| "body_chunks (GameStartMessage b t) = [be_bytes t]"

definition header_chunks :: "BaseMessage \<Rightarrow> u8 list list" where
  "header_chunks b = [be_bytes (magic b), be_bytes (message_unique_id b), be_bytes (role_id b),
     be_bytes (version b), be_bytes (enum_to_num (type_byte (message_type b)))]"

lemma concat_chunks [simp]:
  "concat (body_chunks m) = body_bytes m" "concat (header_chunks b) = header_bytes b"
  by (cases m) (simp_all add: header_chunks_def header_bytes_def)

lemma EncodeData_chunks: "EncodeData h m = rfold AppendData (body_chunks m)"
  by (rule ext, cases m) (simp_all add: AppendNumber_eq)

lemma EncodeMessage_chunks:
  "EncodeMessage h m b =
     rbind (rfold AppendData (header_chunks (base m) @ body_chunks m) b)
       (\<lambda>b'. PreAppendData (be_bytes (ucast (ReadableSize b' - ReadableSize b) :: u32)) b')"
  by (simp add: EncodeMessage_def EncodeData_chunks header_chunks_def AppendNumber_eq PreAppendNumber_eq
      Let_def rbind_assoc)

lemma EncodeMessage_read_idx:
  assumes "EncodeMessage h m b = Inr b'"
  shows "unat (read_idx b') = 4"
proof -
  let ?cs = "header_chunks (base m) @ body_chunks m"
  obtain c where c: "rfold AppendData ?cs b = Inr c"
    "PreAppendData (be_bytes (ucast (ReadableSize c - ReadableSize b) :: u32)) c = Inr b'"
    using assms by (auto simp: EncodeMessage_chunks rbind_simps)
  have "read_idx c = IDX_BEGIN"
    by (rule rfold_establishes [OF AppendData_read_idx _ c(1)]) (simp_all add: header_chunks_def)
  with PreAppendData_read_idx [OF c(2)] show ?thesis by (simp add: IDX_BEGIN_def)
qed

lemma EncodeMessage_host: "EncodeMessage h m b = EncodeMessage h' m b"
  by (simp add: EncodeMessage_chunks)

text \<open>
  On a buffer that already holds bytes the length prefix is put before all of them: the frame is
  contiguous only when the buffer was empty.
\<close>

lemma EncodeMessage_std:
  assumes "buf_std b" "fits 25 b"
  obtains b' where "EncodeMessage h m b = Inr b'" "buf_inv b'"
    "readable b' = be_bytes (of_nat (17 + length (body_bytes m)) :: u32) @ readable b @
       header_bytes (base m) @ body_bytes m"
proof -
  let ?n = "17 + length (body_bytes m)" and ?cs = "header_chunks (base m) @ body_chunks m"
  have n: "?n \<le> 25" by simp
  have f: "fits (length (concat ?cs)) b" using assms(2) n by (auto simp: fits_def)
  obtain c where c: "rfold AppendData ?cs b = Inr c" "buf_std c"
    "readable c = readable b @ header_bytes (base m) @ body_bytes m"
    using bstream.append_chunks [OF assms(1) f] by auto
  have rd: "unat (ReadableSize c) = unat (ReadableSize b) + ?n"
    using c assms(1) by (simp add: unat_ReadableSize)
  have "unat (ReadableSize c - ReadableSize b) = ?n"
    using rd by (simp add: unat_sub_le)
  then have len: "(ucast (ReadableSize c - ReadableSize b) :: u32) = of_nat ?n"
    by (metis of_nat_unat)
  have "length (be_bytes (of_nat ?n :: u32)) \<le> unat (read_idx c)"
    using c(2) by (simp add: buf_std_def)
  from PreAppendData_ok [OF buf_std_inv [OF c(2)] this] obtain d where
    "PreAppendData (be_bytes (of_nat ?n :: u32)) c = Inr d" "buf_inv d"
    "readable d = be_bytes (of_nat ?n :: u32) @ readable c" by blast
  then show ?thesis
    using c by (intro that [of d]) (simp_all add: EncodeMessage_chunks len del: length_body_bytes)
qed

lemma EncodeMessage_empty:
  assumes "buf_std b" "readable b = []"
  obtains b' where "EncodeMessage h m b = Inr b'" "buf_inv b'" "readable b' = frame m"
proof -
  have "fits 25 b" using assms(2) by (simp add: fits_def vec_max_def)
  from EncodeMessage_std [OF assms(1) this] assms(2) that show ?thesis
    by (metis append_Nil frame_def)
qed

subsection \<open>Header decoding computes the parse\<close>

datatype parsed = NeedMore | Malformed nat | Crashes | Parsed BaseMessage u32

definition parse_header :: "u8 list \<Rightarrow> parsed" where
  "parse_header bs =
     (let n = (of_be_bytes (take 4 bs) :: u32);
          mag = (of_be_bytes (take 4 (drop 4 bs)) :: u32);
          b = \<lparr>magic = mag, message_unique_id = of_be_bytes (take 4 (drop 8 bs)),
               role_id = of_be_bytes (take 4 (drop 12 bs)), version = of_be_bytes (take 1 (drop 16 bs)),
               message_type = MessageType (ucast (of_be_bytes (take 4 (drop 17 bs)) :: u32))\<rparr>
      in if length bs < 4 then NeedMore
         else if n > MAX_PACK_SIZE then Malformed 0
         else if length bs < unat n + 4 then NeedMore
         else if length bs < 8 then Crashes
         else if mag \<noteq> MAGIC then Malformed 4
         else if length bs < 21 then Crashes
         else if \<not> valid_type (message_type b) then Malformed 21
         else Parsed b (n - HEADER_SIZE_NO_LENGTH))"

text \<open>\<open>c\<close> is \<open>b\<close> with its first \<open>k\<close> readable bytes consumed.\<close>

definition advanced :: "nat \<Rightarrow> Buffer \<Rightarrow> Buffer \<Rightarrow> bool" where
  "advanced k b c \<longleftrightarrow> buf_inv c \<and> readable c = drop k (readable b) \<and> (buf_std b \<longrightarrow> buf_std c) \<and>
     vec c = vec b \<and> write_idx c = write_idx b"

lemma advanced_refl [simp]: "buf_inv b \<Longrightarrow> advanced 0 b b"
  by (simp add: advanced_def)

lemma AddReadIndex_advanced: "buf_inv b \<Longrightarrow> advanced (unat n) b (AddReadIndex n b)"
  by (auto simp: advanced_def AddReadIndex_std) (simp_all add: AddReadIndex_def)

lemma AddReadIndex_trans:
  "advanced k b c \<Longrightarrow> l = k + unat n \<Longrightarrow> advanced l b (AddReadIndex n c)"
  using AddReadIndex_advanced [of c n] by (auto simp: advanced_def add.commute)

lemma advanced_ReadableSize:
  "advanced k b c \<Longrightarrow> unat (ReadableSize c) = length (readable b) - k"
  by (simp add: advanced_def unat_ReadableSize)

lemma advanced_Peek:
  assumes "advanced k b c" "small_type TYPE('a::len)"
  shows "(PeekNumber h c :: 'a word res) =
    (if k + sizeof TYPE('a) \<le> length (readable b) \<or> sizeof TYPE('a) = 0
     then Inr (of_be_bytes (take (sizeof TYPE('a)) (drop k (readable b)))) else Inl AssertFailed)"
  using assms by (auto simp: advanced_def PeekNumber_eq)

lemma advanced_Read:
  assumes "advanced k b c" "small_type TYPE('a::len)"
  shows "(ReadNumber h c :: ('a word \<times> Buffer) res) =
    (if k + sizeof TYPE('a) \<le> length (readable b) \<or> sizeof TYPE('a) = 0
     then Inr (of_be_bytes (take (sizeof TYPE('a)) (drop k (readable b))),
               AddReadIndex (of_nat (sizeof TYPE('a))) c) else Inl AssertFailed)"
  using assms by (auto simp: advanced_def ReadNumber_eq)

fun header_outcome :: "BaseMessage \<Rightarrow> Buffer \<Rightarrow> parsed \<Rightarrow> header_result res \<Rightarrow> bool" where
  "header_outcome m b NeedMore r =
     (r = Inr \<lparr>hr_msg = m, hr_buffer = b, hr_ok = True, hr_length = 0, hr_body_size = None\<rparr>)"
| "header_outcome m b (Malformed k) r =
     (\<exists>m' b'. r = Inr \<lparr>hr_msg = m', hr_buffer = b', hr_ok = False, hr_length = 0, hr_body_size = None\<rparr> \<and>
        advanced k b b')"
| "header_outcome m b Crashes r = (r = Inl AssertFailed)"
| "header_outcome m b (Parsed bm n) r =
     (\<exists>b'. r = Inr \<lparr>hr_msg = bm, hr_buffer = b', hr_ok = True, hr_length = 21, hr_body_size = Some n\<rparr> \<and>
        advanced 21 b b' \<and> 21 \<le> length (readable b))"

lemma header_after_magic:
  fixes m :: BaseMessage
  assumes "advanced 8 b c" "8 \<le> length (readable b)" "length (readable b) < 2 ^ 32"
  defines "bs \<equiv> readable b" and "old \<equiv> (ucast (ReadableSize b) :: u32)"
  defines "m' \<equiv> m\<lparr>message_unique_id := of_be_bytes (take 4 (drop 8 bs)),
     role_id := of_be_bytes (take 4 (drop 12 bs)), version := of_be_bytes (take 1 (drop 16 bs)),
     message_type := MessageType (ucast (of_be_bytes (take 4 (drop 17 bs)) :: u32))\<rparr>"
  assumes "buf_inv b"
  shows "header_outcome m0 b
     (if length bs < 21 then Crashes else if \<not> valid_type (message_type m') then Malformed 21
      else Parsed m' (n - HEADER_SIZE_NO_LENGTH))
     (rbind (ReadNumber h c) (\<lambda>(uid :: u32, buffer).
      rbind (ReadNumber h buffer) (\<lambda>(role :: u32, buffer).
      rbind (ReadNumber h buffer) (\<lambda>(ver :: u8, buffer).
      rbind (ReadNumber h buffer) (\<lambda>(ty :: u32, buffer).
      let m = m\<lparr>message_unique_id := uid, role_id := role, version := ver,
                message_type := MessageType (ucast ty)\<rparr> in
      if message_type m \<le> TYTE_MIN \<or> message_type m \<ge> TYPE_MAX
      then Inr \<lparr>hr_msg = m, hr_buffer = buffer, hr_ok = False, hr_length = 0, hr_body_size = None\<rparr>
      else Inr \<lparr>hr_msg = m, hr_buffer = buffer, hr_ok = True,
                hr_length = ucast ((ucast old :: size_t) - ReadableSize buffer),
                hr_body_size = Some (n - HEADER_SIZE_NO_LENGTH)\<rparr>)))))"
proof (cases "length bs < 21")
  case True
  have a12: "advanced 12 b (AddReadIndex 4 c)"
    by (rule AddReadIndex_trans [OF assms(1)]) simp
  have a16: "advanced 16 b (AddReadIndex 4 (AddReadIndex 4 c))"
    by (rule AddReadIndex_trans [OF a12]) simp
  have a17: "advanced 17 b (AddReadIndex 1 (AddReadIndex 4 (AddReadIndex 4 c)))"
    by (rule AddReadIndex_trans [OF a16]) simp
  show ?thesis
    using True assms(1,2) a12 a16 a17 by (simp add: advanced_Read bs_def)
next
  case False
  have a12: "advanced 12 b (AddReadIndex 4 c)"
    by (rule AddReadIndex_trans [OF assms(1)]) simp
  have a16: "advanced 16 b (AddReadIndex 4 (AddReadIndex 4 c))"
    by (rule AddReadIndex_trans [OF a12]) simp
  have a17: "advanced 17 b (AddReadIndex 1 (AddReadIndex 4 (AddReadIndex 4 c)))"
    by (rule AddReadIndex_trans [OF a16]) simp
  let ?d = "AddReadIndex 4 (AddReadIndex 1 (AddReadIndex 4 (AddReadIndex 4 c)))"
  have a21: "advanced 21 b ?d"
    by (rule AddReadIndex_trans [OF a17]) simp
  have o: "unat (ucast old :: size_t) = length bs"
    using assms(3,7) by (simp add: old_def bs_def unsigned_ucast_eq unsigned_take_bit_eq take_bit_nat_eq_self unat_ReadableSize)
  have "unat ((ucast old :: size_t) - ReadableSize ?d) = 21"
    using False o advanced_ReadableSize [OF a21] by (simp add: unat_sub_le bs_def)
  then have l: "(ucast ((ucast old :: size_t) - ReadableSize ?d) :: u32) = 21"
    by (metis of_nat_unat of_nat_numeral)
  show ?thesis
    using False assms(1,2) a12 a16 a17 a21 l
    by (simp add: advanced_Read bs_def [symmetric] m'_def valid_type_def)
qed

lemma DecodeMessageHeader_parse:
  assumes "buf_inv b" "length (readable b) < 2 ^ 32"
  shows "header_outcome m b (parse_header (readable b)) (DecodeMessageHeader h m b)"
proof -
  let ?bs = "readable b" and ?n = "of_be_bytes (take 4 (readable b)) :: u32"
  let ?mag = "of_be_bytes (take 4 (drop 4 (readable b))) :: u32"
  have rs: "unat (ReadableSize b) = length ?bs" by (simp add: unat_ReadableSize assms(1))
  have old: "unat (ucast (ReadableSize b) :: u32) = length ?bs"
    using assms(2) rs by (simp add: unsigned_ucast_eq take_bit_nat_eq_self)
  have pk: "4 \<le> length ?bs \<Longrightarrow> PeekNumber h b = Inr ?n"
    by (simp add: PeekNumber_eq assms(1))
  have a4: "advanced 4 b (AddReadIndex 4 b)"
    by (rule AddReadIndex_trans [OF advanced_refl]) (simp_all add: assms(1))
  have a8: "advanced 8 b (AddReadIndex 4 (AddReadIndex 4 b))"
    by (rule AddReadIndex_trans [OF a4]) simp
  show ?thesis
  proof (cases "length ?bs < 4")
    case True
    then show ?thesis using old
      by (simp add: parse_header_def DecodeMessageHeader_def word_less_nat_alt)
  next
    case f4: False
    show ?thesis
    proof (cases "?n > 4096")
      case True
      then show ?thesis using old f4 pk assms(1)
        by (simp add: parse_header_def DecodeMessageHeader_def word_less_nat_alt)
    next
      case small: False
      have n4: "unat (ucast ?n + 4 :: size_t) = unat ?n + 4"
        using small by (subst unat_add_small)
          (simp_all add: unsigned_ucast_eq take_bit_nat_eq_self word_less_nat_alt)
      show ?thesis
      proof (cases "length ?bs < unat ?n + 4")
        case True
        then show ?thesis using old f4 pk small n4 rs
          by (simp add: parse_header_def DecodeMessageHeader_def word_less_nat_alt)
      next
        case full: False
        have go: "\<not> ucast (ReadableSize b) < (4 :: u32)" "\<not> ?n > 4096"
          "\<not> ReadableSize b < (ucast ?n + 4 :: size_t)"
          using old f4 small full n4 rs by (auto simp: word_less_nat_alt)
        show ?thesis
        proof (cases "8 \<le> length ?bs \<and> ?mag = MAGIC")
          case False
          then show ?thesis using f4 pk full go a4
            by (auto simp: parse_header_def DecodeMessageHeader_def advanced_Peek Let_def)
        next
          case True
          then have "length ?bs \<ge> 8" by simp
          from header_after_magic [OF a8 this assms(2) assms(1), of m "m\<lparr>magic := MAGIC\<rparr>" ?n h]
          show ?thesis using f4 pk full go a4 True
            by (cases m) (simp add: parse_header_def DecodeMessageHeader_def advanced_Peek Let_def
                split del: if_split cong: if_cong)
        qed
      qed
    qed
  qed
qed

subsection \<open>Frames and bodies are parsed back\<close>

lemma enum_roundtrip [simp]: "ucast (enum_to_num e) = e"
  by (rule bit_word_eqI) (simp add: enum_to_num_def bit_simps)

lemma MessageType_enum [simp]: "MessageType (ucast (enum_to_num (type_byte t))) = t"
  by simp

lemma unat_of_nat_body: "unat (of_nat (17 + length (body_bytes m)) :: u32) = 17 + length (body_bytes m)"
  by (rule unat_of_nat_small) simp

lemma parse_frame:
  assumes "magic (base m) = MAGIC" "valid_type (message_type (base m))"
  shows "parse_header (frame m @ rest) = Parsed (base m) (of_nat (length (body_bytes m)))"
proof -
  let ?n = "of_nat (17 + length (body_bytes m)) :: u32"
  let ?bs = "frame m @ rest"
  have n: "\<not> ?n > MAX_PACK_SIZE" "unat ?n = 17 + length (body_bytes m)"
    "?n - HEADER_SIZE_NO_LENGTH = of_nat (length (body_bytes m))"
    using unat_of_nat_body [of m] by (simp_all add: word_less_nat_alt)
  have t: "take 4 ?bs = be_bytes ?n"
    "take 4 (drop 4 ?bs) = be_bytes (magic (base m))"
    "take 4 (drop 8 ?bs) = be_bytes (message_unique_id (base m))"
    "take 4 (drop 12 ?bs) = be_bytes (role_id (base m))"
    "take 1 (drop 16 ?bs) = be_bytes (version (base m))"
    "take 4 (drop 17 ?bs) = be_bytes (enum_to_num (type_byte (message_type (base m))))"
    by (simp_all add: frame_def header_bytes_def)
  have l: "length ?bs = 21 + length (body_bytes m) + length rest"
    by (simp add: length_frame del: length_body_bytes)
  show ?thesis
    unfolding parse_header_def Let_def t l
    using assms n by (simp del: length_body_bytes of_nat_add)
qed

lemma parse_frame_incomplete:
  assumes "length bs < length (frame m)" "bs = take (length bs) (frame m)"
  shows "parse_header bs = NeedMore"
proof (cases "length bs < 4")
  case True
  then show ?thesis by (simp add: parse_header_def)
next
  case False
  let ?n = "of_nat (17 + length (body_bytes m)) :: u32"
  have "take 4 bs = take 4 (frame m)"
    using False assms(2) by (metis min.absorb2 not_less take_take min.commute)
  also have "\<dots> = be_bytes ?n" by (simp add: frame_def)
  finally have "of_be_bytes (take 4 bs) = ?n" by simp
  moreover have "\<not> ?n > MAX_PACK_SIZE" "unat ?n = 17 + length (body_bytes m)"
    using unat_of_nat_body [of m] by (simp_all add: word_less_nat_alt)
  ultimately show ?thesis
    using False assms(1) by (simp add: parse_header_def length_frame del: length_body_bytes of_nat_add)
qed

text \<open>What a body of each message type decodes to.\<close>

definition decode_body :: "BaseMessage \<Rightarrow> u8 list \<Rightarrow> Message option res" where
  "decode_body b bs =
     (if message_type b \<notin> {CONTROL, PING, ENTER_ROOM, GAME_START} then Inr None
      else if length bs < 8 then Inl AssertFailed
      else Inr (Some (
        if message_type b = CONTROL then ControlMessage b (of_be_bytes (take 4 bs))
             (MoveDirection (ucast (of_be_bytes (take 4 (drop 4 bs)) :: u32)))
        else if message_type b = PING then PingMessage b (of_be_bytes (take 8 bs))
        else if message_type b = ENTER_ROOM then EnterRoomMessage b (of_be_bytes (take 4 bs))
             (of_be_bytes (take 4 (drop 4 bs)))
        else GameStartMessage b (of_be_bytes (take 8 bs)))))"

lemma TransmitMessage_decode_body:
  assumes "buf_inv (body_buffer p)"
  shows "TransmitMessage h p = decode_body (base_message p) (readable (body_buffer p))"
  using assms
  by (auto simp: TransmitMessage_def decode_body_def Let_def ReadNumber_eq AddReadIndex_std
      ControlMessage_of_base_def PingMessage_of_base_def EnterRoomMessage_of_base_def
      GameStartMessage_of_base_def)

lemma decode_body_bytes:
  assumes "well_typed m" "class_of m \<noteq> CBase"
  shows "decode_body (base m) (body_bytes m @ rest) = Inr (Some m)"
  using assms by (cases m) (simp_all add: decode_body_def well_typed_def)

lemma decode_body_well_typed:
  "decode_body b bs = Inr (Some m) \<Longrightarrow> magic b = MAGIC \<Longrightarrow>
     well_typed m \<and> base m = b \<and> class_of m \<noteq> CBase"
  by (auto simp: decode_body_def well_typed_def split: if_splits)

lemma well_typed_valid: "well_typed m \<Longrightarrow> valid_type (message_type (base m)) \<and> magic (base m) = MAGIC"
  by (cases m) (simp_all add: well_typed_def valid_type_iff)

section \<open>The encoding test of TestMain.cpp\<close>

definition TINY_BUFFER_DEFAULT_BUFFER_SIZE :: size_t where
  "TINY_BUFFER_DEFAULT_BUFFER_SIZE = 64"

definition TinyBuffer_new :: "Buffer res" where
  "TinyBuffer_new = Buffer_new TINY_BUFFER_DEFAULT_BUFFER_SIZE"

text \<open>\<open>EncodeTest\<close> up to its printing: the decoded message, or nothing for another type.\<close>

definition EncodeTest_message :: Message where
  "EncodeTest_message =
     ControlMessage (base ControlMessage_new\<lparr>role_id := 101010\<rparr>) 1234 DIR_DOWN"

definition EncodeTest :: "endian \<Rightarrow> Message option res" where
  "EncodeTest h =
     rbind (Buffer_new DEFAULT_BUFFER_SIZE) (\<lambda>buffer.
     rbind (EncodeMessage h EncodeTest_message buffer) (\<lambda>buffer.
     rbind (DecodeMessageHeader h BaseMessage_new buffer) (\<lambda>r.
     if message_type (hr_msg r) = CONTROL
     then rbind (DecodeMessageBody h (ControlMessage_of_base 0 (MoveDirection 0) (hr_msg r)) (hr_buffer r))
            (\<lambda>(new_message, buffer).
          rbind (check (ReadableSize buffer = 0) AssertFailed) (\<lambda>_. Inr (Some new_message)))
     else Inr None)))"

lemma TinyBuffer_std:
  obtains b where "TinyBuffer_new = Inr b" "buf_std b" "readable b = []"
  using Buffer_new_ok [of TINY_BUFFER_DEFAULT_BUFFER_SIZE]
  by (auto simp: TinyBuffer_new_def TINY_BUFFER_DEFAULT_BUFFER_SIZE_def vec_max_def)

text \<open>A message encoded into a fresh \<open>TinyBuffer\<close>, and the bytes its owner sends.\<close>

lemma tiny_buffer_frame:
  obtains t b where "TinyBuffer_new = Inr t" "EncodeMessage h m t = Inr b"
    "mem_read (ReadBegin b) (unat (ReadableSize b)) (vec b) = Inr (frame m)"
proof -
  obtain t where t: "TinyBuffer_new = Inr t" "buf_std t" "readable t = []" by (rule TinyBuffer_std)
  obtain b where b: "EncodeMessage h m t = Inr b" "buf_inv b" "readable b = frame m"
    by (rule EncodeMessage_empty [OF t(2,3)])
  have "mem_read (ReadBegin b) (unat (ReadableSize b)) (vec b) = Inr (frame m)"
    using read_window [OF b(2), of "length (frame m)"] b(2,3) by (simp add: unat_ReadableSize)
  with t(1) b(1) that show ?thesis by blast
qed

lemma buffer_holding:
  assumes "length xs \<le> 4096"
  obtains b where "buf_std b" "readable b = xs"
proof -
  obtain b0 where b0: "TinyBuffer_new = Inr b0" "buf_std b0" "readable b0 = []" by (rule TinyBuffer_std)
  have "fits (length xs) b0" using assms b0(3) by (simp add: fits_def vec_max_def)
  from AppendData_std [OF b0(2) this] b0(3) that show ?thesis by (metis append_Nil)
qed

lemma DefaultBuffer_std:
  obtains b where "Buffer_new DEFAULT_BUFFER_SIZE = Inr b" "buf_std b" "readable b = []"
    "length (vec b) = 4104" "read_idx b = IDX_BEGIN" "write_idx b = IDX_BEGIN"
  using Buffer_new_ok [of DEFAULT_BUFFER_SIZE] by (auto simp: DEFAULT_BUFFER_SIZE_def vec_max_def)

lemma header_of_frame:
  assumes "buf_inv b" "readable b = frame m @ rest" "length rest < 2 ^ 31" "well_typed m"
  obtains b' where "DecodeMessageHeader h m0 b =
      Inr \<lparr>hr_msg = base m, hr_buffer = b', hr_ok = True, hr_length = 21,
           hr_body_size = Some (of_nat (length (body_bytes m)))\<rparr>"
    "advanced 21 b b'" "readable b' = body_bytes m @ rest"
proof -
  have "length (readable b) < 2 ^ 32" using assms(2,3) by (simp add: length_frame)
  from DecodeMessageHeader_parse [OF assms(1) this, of m0 h] well_typed_valid [OF assms(4)]
  obtain b' where b': "DecodeMessageHeader h m0 b =
      Inr \<lparr>hr_msg = base m, hr_buffer = b', hr_ok = True, hr_length = 21,
           hr_body_size = Some (of_nat (length (body_bytes m)))\<rparr>" "advanced 21 b b'"
    by (auto simp: assms(2) parse_frame simp del: length_body_bytes)
  then have "readable b' = body_bytes m @ rest"
    by (simp add: advanced_def assms(2) frame_def)
  with b' that show ?thesis by blast
qed

section \<open>Properties\<close>

text \<open>
  functional. On a fresh buffer \<open>EncodeMessage\<close> succeeds for every message of every class and
  leaves exactly the frame of the message: the big-endian length of what follows, the header fields
  in their order and the body, the same on hosts of either byte order.
\<close>

theorem encode_message_frame:
  "\<exists>b b'. TinyBuffer_new = Inr b \<and> EncodeMessage h m b = Inr b' \<and> buf_inv b' \<and> readable b' = frame m"
proof -
  obtain b where b: "TinyBuffer_new = Inr b" "buf_std b" "readable b = []" by (rule TinyBuffer_std)
  obtain b' where "EncodeMessage h m b = Inr b'" "buf_inv b'" "readable b' = frame m"
    by (rule EncodeMessage_empty [OF b(2,3)])
  with b(1) show ?thesis by blast
qed

text \<open>
  C2: round trip. What one host encodes another host decodes: the header comes back with every
  field, the reported lengths are those of the header and the body, and \<open>TransmitMessage\<close> on the body
  bytes rebuilds the message object, for every message of a derived class that carries its type.
\<close>

theorem message_roundtrip:
  assumes "well_typed m" and "class_of m \<noteq> CBase"
  shows "\<exists>b b' r. TinyBuffer_new = Inr b \<and> EncodeMessage h1 m b = Inr b' \<and>
    DecodeMessageHeader h2 BaseMessage_new b' = Inr r \<and> hr_ok r \<and> hr_msg r = base m \<and>
    hr_length r = 21 \<and> hr_body_size r = Some 8 \<and>
    TransmitMessage h2 \<lparr>body_buffer = hr_buffer r, base_message = hr_msg r\<rparr> = Inr (Some m)"
proof -
  obtain b where b: "TinyBuffer_new = Inr b" "buf_std b" "readable b = []" by (rule TinyBuffer_std)
  obtain b' where b': "EncodeMessage h1 m b = Inr b'" "buf_inv b'" "readable b' = frame m @ []"
    using EncodeMessage_empty [OF b(2,3)] by (metis append_Nil2)
  obtain c where c: "DecodeMessageHeader h2 BaseMessage_new b' =
      Inr \<lparr>hr_msg = base m, hr_buffer = c, hr_ok = True, hr_length = 21,
           hr_body_size = Some (of_nat (length (body_bytes m)))\<rparr>"
    "advanced 21 b' c" "readable c = body_bytes m @ []"
    using header_of_frame [OF b'(2,3) _ assms(1)] by (metis list.size(3) zero_less_numeral zero_less_power)
  have "TransmitMessage h2 \<lparr>body_buffer = c, base_message = base m\<rparr> = Inr (Some m)"
    using c(2,3) decode_body_bytes [OF assms, of "[]"]
    by (simp add: TransmitMessage_decode_body advanced_def)
  with b b' c assms(2) show ?thesis by auto
qed

theorem message_roundtrip_witness:
  "\<exists>b b' r. TinyBuffer_new = Inr b \<and> EncodeMessage LittleEndian EncodeTest_message b = Inr b' \<and>
    DecodeMessageHeader BigEndian BaseMessage_new b' = Inr r \<and> hr_ok r \<and>
    hr_msg r = base EncodeTest_message \<and> hr_length r = 21 \<and> hr_body_size r = Some 8 \<and>
    TransmitMessage BigEndian \<lparr>body_buffer = hr_buffer r, base_message = hr_msg r\<rparr> =
      Inr (Some EncodeTest_message)"
  by (rule message_roundtrip)
     (simp_all add: EncodeTest_message_def well_typed_def ControlMessage_new_def BaseMessage_new_def)



text \<open>
  error. A pack whose announced length is smaller than its header reaches the asserts of the
  decoder: when the announced bytes have arrived, but fewer than a header's 21, and the magic number
  (if already there) is right, the process aborts. Four zero bytes are enough.
\<close>

theorem undersized_pack_aborts:
  assumes "buf_inv b" and "4 \<le> length (readable b)" and "length (readable b) < 21"
    and "unat (of_be_bytes (take 4 (readable b)) :: u32) + 4 \<le> length (readable b)"
    and "8 \<le> length (readable b) \<longrightarrow> of_be_bytes (take 4 (drop 4 (readable b))) = MAGIC"
  shows "DecodeMessageHeader h m b = Inl AssertFailed"
proof -
  have "unat (of_be_bytes (take 4 (readable b)) :: u32) \<le> 4096" using assms(3,4) by linarith
  then have "parse_header (readable b) = Crashes"
    using assms by (simp add: parse_header_def word_less_nat_alt Let_def)
  moreover have "length (readable b) < 2 ^ 32" using assms(3) by simp
  ultimately show ?thesis
    using DecodeMessageHeader_parse [OF assms(1), of m h] by simp
qed

theorem undersized_pack_aborts_witness:
  "\<exists>b. readable b = [0, 0, 0, 0] \<and> DecodeMessageHeader LittleEndian BaseMessage_new b = Inl AssertFailed"
proof -
  obtain b where b: "buf_std b" "readable b = [0, 0, 0, 0]"
    by (rule buffer_holding [of "[0, 0, 0, 0]"]) simp_all
  have "DecodeMessageHeader LittleEndian BaseMessage_new b = Inl AssertFailed"
    by (rule undersized_pack_aborts) (use b in \<open>simp_all add: of_be_bytes_def\<close>)
  with b show ?thesis by blast
qed

text \<open>
  error. \<open>TransmitMessage\<close> on any header and body: a type without a class of its own gives the
  null pointer (\<open>DEFAULT\<close> passes the header check and is one of them), a body of fewer than eight
  bytes trips an assert, and otherwise the object has the class of its type and the header's fields.
\<close>

theorem transmit_message_cases:
  assumes "buf_inv (body_buffer p)" and "valid_type (message_type (base_message p))"
  shows "TransmitMessage h p =
    (if message_type (base_message p) = DEFAULT then Inr None
     else if length (readable (body_buffer p)) < 8 then Inl AssertFailed
     else decode_body (base_message p) (readable (body_buffer p))) \<and>
    (\<forall>m. TransmitMessage h p = Inr (Some m) \<longrightarrow>
       base m = base_message p \<and> message_type (base m) = type_of_class (class_of m))"
  using assms
  by (auto simp: TransmitMessage_decode_body decode_body_def valid_type_iff)

theorem transmit_message_cases_witness:
  "\<exists>b. buf_inv b \<and> valid_type (message_type BaseMessage_new) \<and>
     TransmitMessage LittleEndian \<lparr>body_buffer = b, base_message = BaseMessage_new\<rparr> = Inr None"
proof -
  obtain b where b: "TinyBuffer_new = Inr b" "buf_std b" "readable b = []" by (rule TinyBuffer_std)
  have v: "valid_type (message_type BaseMessage_new)" by (simp add: valid_type_iff BaseMessage_new_def)
  from transmit_message_cases [of "\<lparr>body_buffer = b, base_message = BaseMessage_new\<rparr>" LittleEndian] buf_std_inv [OF b(2)] v
  show ?thesis by (auto simp: BaseMessage_new_def)
qed

text \<open>
  error. Encoding into a buffer that still holds bytes does not give a frame: the length prefix
  is put in front of the old bytes, away from its header; and once a frame lies in the buffer unread,
  encoding a second message faults.
\<close>

theorem encode_into_used_buffer:
  assumes "buf_std b" and "fits 25 b" and "readable b \<noteq> []" and "EncodeMessage h m b = Inr b'"
  shows "readable b' = take 4 (frame m) @ readable b @ drop 4 (frame m) \<and>
    (\<exists>e \<in> {OverlappingCopy, OutOfBounds}. EncodeMessage h m' b' = Inl e)"
proof
  obtain c where c: "EncodeMessage h m b = Inr c" "buf_inv c" "readable c = be_bytes (of_nat (17 + length (body_bytes m)) :: u32) @ readable b @
       header_bytes (base m) @ body_bytes m"
    by (rule EncodeMessage_std [OF assms(1,2)])
  with assms(4) show "readable b' = take 4 (frame m) @ readable b @ drop 4 (frame m)"
    by (simp add: frame_def)
  have i: "buf_inv b'" "21 \<le> length (readable b')" using c assms(4) by simp_all
  then have "AdjustBuffer b' = Inl OverlappingCopy \<or> AdjustBuffer b' = Inl OutOfBounds"
    using EncodeMessage_read_idx [OF assms(4)]
    by (auto simp: AdjustBuffer_def std_copy_def Let_def length_readable buf_inv_def)
  then show "\<exists>e \<in> {OverlappingCopy, OutOfBounds}. EncodeMessage h m' b' = Inl e"
    by (auto simp: EncodeMessage_chunks header_chunks_def AppendData_def Let_def)
qed

theorem encode_into_used_buffer_witness:
  "\<exists>b b'. readable b = [7] \<and> EncodeMessage LittleEndian PingMessage_new b = Inr b' \<and>
     readable b' = take 4 (frame PingMessage_new) @ [7] @ drop 4 (frame PingMessage_new)"
proof -
  obtain b where b: "buf_std b" "readable b = [7]"
    by (rule buffer_holding [of "[7]"]) simp_all
  then have f: "fits 25 b" by (simp add: fits_def vec_max_def)
  obtain b' where b': "EncodeMessage LittleEndian PingMessage_new b = Inr b'"
    by (rule EncodeMessage_std [OF b(1) f])
  from encode_into_used_buffer [OF b(1) f _ b'] b b' show ?thesis by auto
qed

text \<open>
  the encoding test of \<^verbatim>\<open>TestMain.cpp\<close> passes on every host: no assert fails and the message it
  decodes is the one it encoded.
\<close>

theorem EncodeTest_passes: "EncodeTest h = Inr (Some EncodeTest_message)"
proof -
  let ?m = EncodeTest_message
  have wt: "well_typed ?m"
    by (simp add: EncodeTest_message_def well_typed_def ControlMessage_new_def BaseMessage_new_def)
  obtain b where b: "Buffer_new DEFAULT_BUFFER_SIZE = Inr b" "buf_std b" "readable b = []"
    by (rule DefaultBuffer_std)
  obtain b' where b': "EncodeMessage h ?m b = Inr b'" "buf_inv b'" "readable b' = frame ?m @ []"
    using EncodeMessage_empty [OF b(2,3)] by (metis append_Nil2)
  obtain c where c: "DecodeMessageHeader h BaseMessage_new b' =
      Inr \<lparr>hr_msg = base ?m, hr_buffer = c, hr_ok = True, hr_length = 21,
           hr_body_size = Some (of_nat (length (body_bytes ?m)))\<rparr>"
    "advanced 21 b' c" "readable c = body_bytes ?m @ []"
    using header_of_frame [OF b'(2,3) _ wt] by (metis list.size(3) zero_less_numeral zero_less_power)
  let ?d = "AddReadIndex 4 (AddReadIndex 4 c)"
  have ci: "buf_inv c" using c(2) by (simp add: advanced_def)
  have "unat (ReadableSize ?d) = 0"
    using c(3) ci by (simp add: unat_ReadableSize AddReadIndex_std EncodeTest_message_def)
  then have z: "ReadableSize ?d = 0" by (simp add: unat_eq_0)
  have ty: "message_type (base ?m) = CONTROL"
    by (simp add: EncodeTest_message_def ControlMessage_new_def)
  have body: "body_bytes ?m = be_bytes (1234 :: u32) @ be_bytes (enum_to_num 2)"
    by (simp add: EncodeTest_message_def)
  have "EncodeTest h = Inr (Some (ControlMessage (base ?m) 1234 DIR_DOWN))"
    using b b' c(1,3) ci z ty
    by (simp add: EncodeTest_def ControlMessage_of_base_def ReadNumber_eq AddReadIndex_std body)
  then show ?thesis by (simp add: EncodeTest_message_def)
qed

end
