(* ===== verification/TcpConnection.thy ===== *)
theory TcpConnection
  imports Buffer
begin

text \<open>
  \<^verbatim>\<open>Network/TcpConnection.h\<close> and \<^verbatim>\<open>Network/TcpConnection.cpp\<close>: one socket with its receive buffer.
  The socket itself is the operating system's: what a read or a write attempt on it yields is an input
  of the steps. The composed operation behind \<open>asio::async_write\<close> is modelled from
  \<^verbatim>\<open>Third/asio/asio/impl/write.hpp\<close>, because the memory of the bytes to send has to outlive it.
\<close>

section \<open>The connection and its receiving side\<close>

text \<open>The error codes the connection tells apart; every other one is \<open>OtherError\<close>.\<close>

datatype error_code = Success | Eof | ConnectionReset | OtherError nat

text \<open>
  \<open>reading\<close> is the size of the buffer handed to the read that is outstanding, if one is. The two
  functions the owner may register act on its state; the fields say whether they are set.
\<close>

record TcpConnection =
  recv_buffer :: Buffer
  tcp_name :: string
  has_new_data_func :: bool
  has_conn_close_func :: bool
  reading :: "size_t option"

definition TcpConnection_new :: "TcpConnection res" where
  "TcpConnection_new =
     rbind (Buffer_new DEFAULT_BUFFER_SIZE) (\<lambda>b.
     Inr \<lparr>recv_buffer = b, tcp_name = '''', has_new_data_func = False, has_conn_close_func = False,
          reading = None\<rparr>)"

text \<open>The move constructor takes only the socket over: buffer, name and functions are fresh.\<close>

definition TcpConnection_move :: "TcpConnection \<Rightarrow> TcpConnection res" where
  "TcpConnection_move other =
     rbind TcpConnection_new (\<lambda>c. Inr (c\<lparr>reading := reading other\<rparr>))"

definition SetOnNewDataFunc :: "bool \<Rightarrow> TcpConnection \<Rightarrow> TcpConnection" where
  "SetOnNewDataFunc f c = c\<lparr>has_new_data_func := f\<rparr>"

definition SetOnConnCloseFunc :: "bool \<Rightarrow> TcpConnection \<Rightarrow> TcpConnection" where
  "SetOnConnCloseFunc f c = c\<lparr>has_conn_close_func := f\<rparr>"

definition SetConnectionName :: "string \<Rightarrow> TcpConnection \<Rightarrow> TcpConnection" where
  "SetConnectionName n c = c\<lparr>tcp_name := n\<rparr>"

definition Tcp_GetConnectionName :: "TcpConnection \<Rightarrow> string" where
  "Tcp_GetConnectionName c = tcp_name c"

definition AsyncWaitData :: "TcpConnection \<Rightarrow> TcpConnection" where
  "AsyncWaitData c = c\<lparr>reading := Some (WritableSize (recv_buffer c))\<rparr>"

type_synonym 's new_data_func = "Buffer \<Rightarrow> 's \<Rightarrow> (Buffer \<times> 's) res"
type_synonym 's conn_close_func = "'s \<Rightarrow> 's res"

text \<open>
  The completion handler of the read: \<open>data\<close> are the bytes the socket has put at \<open>WriteBegin\<close>, and
  none when \<open>ec\<close> is an error.
\<close>

definition on_read :: "'s new_data_func \<Rightarrow> 's conn_close_func \<Rightarrow> error_code \<Rightarrow> u8 list \<Rightarrow>
    TcpConnection \<Rightarrow> 's \<Rightarrow> (TcpConnection \<times> 's) res" where
  "on_read on_new_data on_conn_close ec data c s =
     (let c = c\<lparr>reading := None\<rparr> in
      if ec \<noteq> Success
      then if Eof = ec \<or> ConnectionReset = ec
           then if has_conn_close_func c then rbind (on_conn_close s) (\<lambda>s. Inr (c, s)) else Inr (c, s)
           else Inr (c, s)
      else
      rbind (fill_from_socket data (recv_buffer c)) (\<lambda>b.
      rbind (if WritableSize b = 0 then AdjustBuffer b else Inr b) (\<lambda>b.
      rbind (if has_new_data_func c then on_new_data b s else Inr (b, s)) (\<lambda>(b, s).
      Inr (AsyncWaitData (c\<lparr>recv_buffer := b\<rparr>), s)))))"

text \<open>
  A completed read on a socket whose kernel queue holds \<open>q\<close>: an outstanding read of no room completes
  at once with no bytes (asio treats it as a no-op), another one takes at most \<open>n\<close> bytes, what has
  arrived by then. With an empty queue and room the read stays outstanding.
\<close>

definition read_completes :: "'s new_data_func \<Rightarrow> 's conn_close_func \<Rightarrow> nat \<Rightarrow> u8 list \<times> TcpConnection \<times> 's \<Rightarrow>
    (u8 list \<times> TcpConnection \<times> 's) res" where
  "read_completes f g n = (\<lambda>(q, c, s).
     case reading c of
       None \<Rightarrow> Inr (q, c, s)
     | Some room \<Rightarrow>
         let k = min n (unat room) in
         if room \<noteq> 0 \<and> (q = [] \<or> n = 0) then Inr (q, c, s)
         else rbind (on_read f g Success (take k q) c s) (\<lambda>(c, s). Inr (drop k q, c, s)))"

section \<open>The sending side\<close>

text \<open>
  The composed write: how many bytes there are and how many have been written. \<open>prepare\<close> is the range
  of the next \<open>async_write_some\<close>, as offset and length.
\<close>

definition default_max_transfer_size :: size_t where
  "default_max_transfer_size = 65536"

record write_op =
  total_size :: size_t
  total_consumed :: size_t

definition transfer_all :: "error_code \<Rightarrow> size_t \<Rightarrow> size_t" where
  "transfer_all err n = (if err \<noteq> Success then 0 else default_max_transfer_size)"

definition buffers_empty :: "write_op \<Rightarrow> bool" where
  "buffers_empty w \<longleftrightarrow> total_consumed w \<ge> total_size w"

definition prepare :: "size_t \<Rightarrow> write_op \<Rightarrow> nat \<times> nat" where
  "prepare max_size w =
     (let offset = min (total_consumed w) (total_size w)
      in (unat offset, unat (min (total_size w - offset) max_size)))"

definition consume :: "size_t \<Rightarrow> write_op \<Rightarrow> write_op" where
  "consume n w = w\<lparr>total_consumed := total_consumed w + n\<rparr>"

datatype write_next = WriteSome write_op size_t | Complete error_code size_t

text \<open>\<open>write_op::operator()\<close>: entered by the initiating call, and by each completion.\<close>

definition write_op_start :: "size_t \<Rightarrow> write_next" where
  "write_op_start len =
     (let w = \<lparr>total_size = len, total_consumed = 0\<rparr>
      in WriteSome w (transfer_all Success (total_consumed w)))"

definition write_op_resume :: "error_code \<Rightarrow> size_t \<Rightarrow> write_op \<Rightarrow> write_next" where
  "write_op_resume ec bytes_transferred w =
     (let w = consume bytes_transferred w in
      if (ec = Success \<and> bytes_transferred = 0) \<or> buffers_empty w then Complete ec (total_consumed w)
      else
      let max_size = transfer_all ec (total_consumed w) in
      if max_size = 0 then Complete ec (total_consumed w) else WriteSome w max_size)"

text \<open>The completion handler of \<open>AsyncSendData\<close>: what it prints, if anything.\<close>

definition on_write :: "size_t \<Rightarrow> error_code \<Rightarrow> size_t \<Rightarrow> error_code option" where
  "on_write len ec write_length = (if len \<noteq> write_length then Some ec else None)"

text \<open>
  A send under way: the bytes at the caller's pointer and whether that memory still exists, and what
  the composed write does next. The socket has its sends under way, what the peer will receive, and
  what has been printed.
\<close>

record send =
  send_data :: "u8 list"
  send_alive :: bool
  send_next :: write_next

record Socket =
  sends :: "send list"
  wire :: "u8 list"
  printed :: "error_code list"

definition Socket_new :: Socket where
  "Socket_new = \<lparr>sends = [], wire = [], printed = []\<rparr>"

text \<open>An attempt of the operating system to send: it takes some bytes, fails, or would block.\<close>

datatype attempt = Takes nat | Fails error_code | WouldBlock

text \<open>One attempt of a send. A finished send calls its handler and is gone.\<close>

definition try_send :: "attempt \<Rightarrow> send \<Rightarrow> Socket \<Rightarrow> (send option \<times> Socket) res" where
  "try_send a d sock =
     (case send_next d of
        Complete ec n \<Rightarrow> Inr (None, sock)
      | WriteSome w max_size \<Rightarrow>
          rbind (check (send_alive d) UseAfterFree) (\<lambda>_.
          let (offset, len) = prepare max_size w;
              finish = (\<lambda>next sock. case next of
                  WriteSome w' m \<Rightarrow> (Some (d\<lparr>send_next := next\<rparr>), sock)
                | Complete ec n \<Rightarrow> (None, sock\<lparr>printed := printed sock @
                    (case on_write (total_size w) ec n of None \<Rightarrow> [] | Some e \<Rightarrow> [e])\<rparr>))
          in case a of
               WouldBlock \<Rightarrow> Inr (Some d, sock)
             | Fails ec \<Rightarrow> Inr (finish (write_op_resume ec 0 w) sock)
             | Takes n \<Rightarrow>
                 let n = min n len in
                 rbind (mem_read offset n (send_data d)) (\<lambda>bs.
                 Inr (finish (write_op_resume Success (of_nat n) w) (sock\<lparr>wire := wire sock @ bs\<rparr>)))))"

text \<open>\<open>AsyncSendData\<close>: the first attempt is made inside the call, while the caller's memory exists.\<close>

definition AsyncSendData :: "attempt \<Rightarrow> u8 list \<Rightarrow> Socket \<Rightarrow> Socket res" where
  "AsyncSendData a data sock =
     (let d = \<lparr>send_data = data, send_alive = True, send_next = write_op_start (of_nat (length data))\<rparr>
      in rbind (try_send a d sock) (\<lambda>(d, sock).
         Inr (sock\<lparr>sends := sends sock @ (case d of None \<Rightarrow> [] | Some d \<Rightarrow> [d])\<rparr>)))"

text \<open>
  The caller's buffer is a local variable: it is gone when the calling function returns. A later
  attempt of the \<open>i\<close>-th send under way is made by the event loop.
\<close>

definition caller_returns :: "Socket \<Rightarrow> Socket" where
  "caller_returns sock = sock\<lparr>sends := map (\<lambda>d. d\<lparr>send_alive := False\<rparr>) (sends sock)\<rparr>"

definition resume_send :: "attempt \<Rightarrow> nat \<Rightarrow> Socket \<Rightarrow> Socket res" where
  "resume_send a i sock =
     (if i < length (sends sock)
      then rbind (try_send a (sends sock ! i) sock) (\<lambda>(d, sock').
           Inr (sock'\<lparr>sends := take i (sends sock) @ (case d of None \<Rightarrow> [] | Some d \<Rightarrow> [d]) @
             drop (Suc i) (sends sock)\<rparr>))
      else Inr sock)"

section \<open>What a send leaves on the wire\<close>

text \<open>
  A send of \<open>data\<close> of which \<open>k\<close> bytes have been written, before its next attempt.
\<close>

definition sending :: "u8 list \<Rightarrow> nat \<Rightarrow> bool \<Rightarrow> send" where
  "sending data k alive =
     \<lparr>send_data = data, send_alive = alive,
      send_next = WriteSome \<lparr>total_size = of_nat (length data), total_consumed = of_nat k\<rparr>
        default_max_transfer_size\<rparr>"

lemma max_transfer_value [simp]: "default_max_transfer_size = 65536"
  by (simp add: default_max_transfer_size_def)

lemma prepare_sending:
  assumes "k \<le> n" "n < 2 ^ 63"
  shows "prepare 65536 \<lparr>total_size = of_nat n, total_consumed = of_nat k\<rparr> = (k, min (n - k) 65536)"
proof -
  have u: "unat (of_nat k :: size_t) = k" "unat (of_nat n :: size_t) = n"
    using assms by (simp_all add: unat_of_nat_small)
  then have m: "min (of_nat k) (of_nat n) = (of_nat k :: size_t)"
    using assms(1) by (simp add: min_def word_le_nat_alt)
  have "unat (of_nat n - of_nat k :: size_t) = n - k"
    using assms(1) u by (simp add: unat_sub_le)
  then show ?thesis using assms(1) by (simp add: prepare_def m u Let_def min_def word_le_nat_alt)
qed

lemma resume_sending:
  assumes "k + j \<le> n" "n < 2 ^ 63"
  shows "write_op_resume Success (of_nat j) \<lparr>total_size = of_nat n, total_consumed = of_nat k\<rparr> =
    (if j = 0 \<or> k + j = n then Complete Success (of_nat (k + j))
     else WriteSome \<lparr>total_size = of_nat n, total_consumed = of_nat (k + j)\<rparr> default_max_transfer_size)"
proof -
  have u: "unat (of_nat j :: size_t) = j" "unat (of_nat n :: size_t) = n"
    "unat (of_nat (k + j) :: size_t) = k + j"
    using assms by (simp_all add: unat_of_nat_small del: of_nat_add)
  have z: "(of_nat j :: size_t) = 0 \<longleftrightarrow> j = 0"
    using of_nat_size_inj [of j 0] assms by simp
  have c: "(of_nat n :: size_t) \<le> of_nat k + of_nat j \<longleftrightarrow> k + j = n"
    using u assms(1) by (auto simp: word_le_nat_alt simp flip: of_nat_add)
  show ?thesis
    by (simp add: write_op_resume_def consume_def buffers_empty_def transfer_all_def Let_def z c)
qed

lemma try_send_takes:
  fixes m :: nat
  assumes "k \<le> length data" "length data < 2 ^ 63"
  defines "j \<equiv> min m (min (length data - k) 65536)"
  shows "try_send (Takes m) (sending data k True) sock =
    Inr (if j = 0 \<or> k + j = length data
      then (None, sock\<lparr>wire := wire sock @ take j (drop k data),
              printed := printed sock @ (if k + j = length data then [] else [Success])\<rparr>)
      else (Some (sending data (k + j) True), sock\<lparr>wire := wire sock @ take j (drop k data)\<rparr>))"
proof -
  have j: "k + j \<le> length data" using assms by auto
  have e: "(of_nat (length data) :: size_t) = of_nat (k + j) \<longleftrightarrow> length data = k + j"
    using j assms(2) by (intro of_nat_size_inj) simp_all
  have r: "mem_read k j data = Inr (take j (drop k data))"
    using j by (simp add: mem_read_def)
  note red = try_send_def sending_def prepare_sending [OF assms(1,2)] j_def [symmetric] r on_write_def Let_def
  note res = resume_sending [OF j assms(2)]
  consider "j = 0" | "j \<noteq> 0" "k + j = length data" | "j \<noteq> 0" "k + j \<noteq> length data" by blast
  then show ?thesis
  proof cases
    case 1
    with e res r show ?thesis by (simp add: red)
  next
    case 2
    with res show ?thesis by (simp add: red del: of_nat_add)
  next
    case 3
    with res show ?thesis by (simp add: red del: of_nat_add)
  qed
qed

text \<open>What an attempt that does not fail can take.\<close>

fun taken :: "attempt \<Rightarrow> nat" where
  "taken (Takes m) = min m 65536"
| "taken WouldBlock = 0"
| "taken (Fails ec) = 0"

fun live :: "attempt \<Rightarrow> bool" where
  "live (Takes m) = (m > 0)"
| "live WouldBlock = True"
| "live (Fails ec) = False"

lemma try_send_live:
  assumes "k < length data" "length data < 2 ^ 63" "live a"
  shows "try_send a (sending data k True) sock =
    (let l = min (length data) (k + taken a) in
     Inr (if l = length data then None else Some (sending data l True),
          sock\<lparr>wire := wire sock @ take (l - k) (drop k data)\<rparr>))"
proof (cases a)
  case (Takes m)
  let ?j = "min m (min (length data - k) 65536)"
  have l: "min (length data) (k + taken a) = k + ?j" using assms(1) Takes by auto
  have "?j \<noteq> 0" using assms Takes by simp
  then show ?thesis
    using try_send_takes [of k data m sock] assms(1,2) unfolding l by (simp add: Takes Let_def)
next
  case WouldBlock
  have "sock\<lparr>wire := wire sock\<rparr> = sock" by simp
  then show ?thesis using assms(1,2) WouldBlock
    by (simp add: try_send_def sending_def prepare_sending Let_def)
next
  case (Fails ec)
  with assms(3) show ?thesis by simp
qed

lemma resume_send_only:
  "sends sock = [d] \<Longrightarrow> resume_send a 0 sock =
     rbind (try_send a d sock) (\<lambda>(d, sock'). Inr (sock'\<lparr>sends := (case d of None \<Rightarrow> [] | Some d \<Rightarrow> [d])\<rparr>))"
  by (simp add: resume_send_def)

text \<open>A single send under way, driven by the attempts the event loop makes.\<close>

lemma drive_send:
  assumes "length data < 2 ^ 63" "\<forall>a \<in> set as. live a"
  shows "k < length data \<Longrightarrow>
    rfold (\<lambda>a. resume_send a 0) as \<lparr>sends = [sending data k True], wire = pre @ take k data, printed = ps\<rparr> =
    (let l = min (length data) (k + sum_list (map taken as)) in
     Inr \<lparr>sends = (if l = length data then [] else [sending data l True]), wire = pre @ take l data,
          printed = ps\<rparr>)"
  using assms(2)
proof (induction as arbitrary: k)
  case Nil
  then show ?case by simp
next
  case (Cons a as)
  let ?l = "min (length data) (k + taken a)"
  let ?s = "\<lparr>sends = (if ?l = length data then [] else [sending data ?l True]), wire = pre @ take ?l data,
    printed = ps\<rparr>"
  have "take ?l data = take k data @ take (?l - k) (drop k data)"
    using Cons.prems(1) by (metis le_add_diff_inverse take_add min.boundedI nat_less_le le_add1)
  then have step: "resume_send a 0 \<lparr>sends = [sending data k True], wire = pre @ take k data, printed = ps\<rparr> = Inr ?s"
    using try_send_live [OF Cons.prems(1) assms(1), of a] Cons.prems(2)
    by (simp add: resume_send_only Let_def)
  show ?case
  proof (cases "?l = length data")
    case True
    have idle: "rfold (\<lambda>a. resume_send a 0) bs \<lparr>sends = [], wire = w, printed = ps\<rparr> =
        Inr \<lparr>sends = [], wire = w, printed = ps\<rparr>" for bs w
      by (induction bs) (simp_all add: resume_send_def)
    have "min (length data) (k + sum_list (map taken (a # as))) = length data" using True by simp
    then show ?thesis using step idle True by (simp add: Let_def del: list.map sum_list.Cons)
  next
    case False
    then have "?l = k + taken a" "?l < length data" by simp_all
    then show ?thesis using step Cons.IH [of ?l] Cons.prems(2) False by (simp add: add.assoc)
  qed
qed

lemma AsyncSendData_live:
  assumes "data \<noteq> []" "length data < 2 ^ 63" "live a"
  shows "AsyncSendData a data sock =
    (let l = min (length data) (taken a) in
     Inr (sock\<lparr>sends := sends sock @ (if l = length data then [] else [sending data l True]),
                wire := wire sock @ take l data\<rparr>))"
proof -
  have d: "\<lparr>send_data = data, send_alive = True, send_next = write_op_start (of_nat (length data))\<rparr> =
      sending data 0 True"
    by (simp add: sending_def write_op_start_def transfer_all_def Let_def)
  show ?thesis
    using try_send_live [of 0 data a sock] assms by (simp add: AsyncSendData_def d Let_def)
qed

lemma resume_dangling:
  assumes "sends sock ! i = sending data k False" "i < length (sends sock)"
  shows "resume_send a i sock = Inl UseAfterFree"
  using assms by (simp add: resume_send_def try_send_def sending_def)

section \<open>Properties\<close>

text \<open>
  C13: functional. As long as the caller's memory exists, the composed write behind \<open>AsyncSendData\<close>
  sends the bytes in order and each once, whatever the attempts of the socket take (they may be short
  or block): after any attempts the peer has been sent a prefix of the data, as long as the sum of what
  the attempts took; the send is over exactly when all of it is sent; and nothing is printed.
\<close>

theorem composed_write_sends_in_order:
  assumes "data \<noteq> []" "length data < 2 ^ 63" "\<forall>a \<in> set (a0 # as). live a"
  shows "let l = min (length data) (sum_list (map taken (a0 # as)))
    in rbind (AsyncSendData a0 data Socket_new) (rfold (\<lambda>a. resume_send a 0) as) =
       Inr \<lparr>sends = (if l = length data then [] else [sending data l True]), wire = take l data, printed = []\<rparr>"
proof (cases "taken a0 < length data")
  case True
  then have s: "AsyncSendData a0 data Socket_new =
      Inr \<lparr>sends = [sending data (taken a0) True], wire = [] @ take (taken a0) data, printed = []\<rparr>"
    using AsyncSendData_live [of data a0 Socket_new] assms by (simp add: Socket_new_def Let_def)
  have "\<forall>a \<in> set as. live a" using assms(3) by simp
  from drive_send [OF assms(2) this True, of "[]" "[]"] show ?thesis
    unfolding s by simp
next
  case False
  then have s: "AsyncSendData a0 data Socket_new = Inr \<lparr>sends = [], wire = data, printed = []\<rparr>"
    using AsyncSendData_live [of data a0 Socket_new] assms by (simp add: Socket_new_def Let_def)
  have idle: "rfold (\<lambda>a. resume_send a 0) bs \<lparr>sends = [], wire = w, printed = ps\<rparr> =
      Inr \<lparr>sends = [], wire = w, printed = ps\<rparr>" for bs w ps
    by (induction bs) (simp_all add: resume_send_def)
  show ?thesis using False unfolding s by (simp add: idle Let_def)
qed

theorem composed_write_sends_in_order_witness:
  "rbind (AsyncSendData (Takes 2) [1, 2, 3] Socket_new) (rfold (\<lambda>a. resume_send a 0) [WouldBlock, Takes 5]) =
     Inr \<lparr>sends = [], wire = [1, 2, 3], printed = []\<rparr>"
  using composed_write_sends_in_order [of "[1, 2, 3]" "Takes 2" "[WouldBlock, Takes 5]"] by simp



end
