(* ===== verification/GameConnection.thy ===== *)
theory GameConnection
  imports Codec TcpConnection
begin

text \<open>
  \<^verbatim>\<open>Network/GameConnection.h\<close> and \<^verbatim>\<open>Network/GameConnection.cpp\<close>: cutting the received bytes into
  messages. The functions registered at a connection act on a state of type \<open>'s\<close> that belongs to the
  owner of the connection. The locale \<open>message_sink\<close> is what \<open>OnNewData\<close> relies on in the function
  that takes the messages; inside it \<open>OnNewData\<close> is shown to deliver the frames of a byte stream.
\<close>

section \<open>State and operations\<close>

record GameConnection =
  connection_name :: string
  conn_role_id :: ROLE_ID
  recving_data :: bool
  has_register_func :: bool
  has_new_msg_func :: bool
  has_close_func :: bool

text \<open>
  The constructor sets both functions of the connection below and takes its name over: the
  \<open>TcpConnection\<close> afterwards and the new object.
\<close>

definition GameConnection_new :: "TcpConnection \<Rightarrow> TcpConnection \<times> GameConnection" where
  "GameConnection_new connection =
     (SetOnNewDataFunc True (SetOnConnCloseFunc True connection),
      \<lparr>connection_name = Tcp_GetConnectionName connection, conn_role_id = 0, recving_data = False,
       has_register_func = False, has_new_msg_func = False, has_close_func = False\<rparr>)"

definition GetConnectionName :: "GameConnection \<Rightarrow> string" where
  "GetConnectionName c = connection_name c"

definition GetRoleId :: "GameConnection \<Rightarrow> ROLE_ID" where
  "GetRoleId c = conn_role_id c"

definition SetOnNewMsgWithBufferFunc :: "bool \<Rightarrow> GameConnection \<Rightarrow> GameConnection" where
  "SetOnNewMsgWithBufferFunc f c = c\<lparr>has_new_msg_func := f\<rparr>"

definition SetRegisterFunc :: "bool \<Rightarrow> GameConnection \<Rightarrow> GameConnection" where
  "SetRegisterFunc f c = c\<lparr>has_register_func := f\<rparr>"

definition SetOnGameConnCloseFunc :: "bool \<Rightarrow> GameConnection \<Rightarrow> GameConnection" where
  "SetOnGameConnCloseFunc f c = c\<lparr>has_close_func := f\<rparr>"

definition StartRecvData :: "GameConnection \<Rightarrow> TcpConnection \<Rightarrow> GameConnection \<times> TcpConnection" where
  "StartRecvData c connection =
     (if \<not> recving_data c then (c\<lparr>recving_data := True\<rparr>, AsyncWaitData connection) else (c, connection))"

definition Game_AsyncSendData :: "attempt \<Rightarrow> u8 list \<Rightarrow> Socket \<Rightarrow> Socket res" where
  "Game_AsyncSendData a data sock = AsyncSendData a data sock"

text \<open>
  The functions an owner may register, as their effect on its state: the one that is told the role of
  the connection, and the one that takes a message with its body.
\<close>

type_synonym 's register_func = "ROLE_ID \<Rightarrow> 's \<Rightarrow> 's res"
type_synonym 's new_msg_func = "BaseMsgWithBuffer \<Rightarrow> 's \<Rightarrow> 's res"

lemma ReadableSize_AddReadIndex:
  "ReadableSize (AddReadIndex n b) = ReadableSize b - (if n > ReadableSize b then ReadableSize b else n)"
  by (simp add: AddReadIndex_def ReadableSize_def)

lemma AddReadIndex_shrinks: "unat (ReadableSize (AddReadIndex n b)) \<le> unat (ReadableSize b)"
  by (auto simp: ReadableSize_AddReadIndex unat_sub_le word_less_nat_alt)

lemma ReadNumber_shrinks:
  "ReadNumber h b = Inr (w, b') \<Longrightarrow> unat (ReadableSize b') \<le> unat (ReadableSize b)"
  by (auto simp: ReadNumber_def rbind_simps AddReadIndex_shrinks)

lemma PeekNumber_size:
  "PeekNumber h b = Inr (w :: u32) \<Longrightarrow> unat (ReadableSize (AddReadIndex 4 b)) < unat (ReadableSize b)"
  by (auto simp: PeekNumber_def rbind_simps ReadableSize_AddReadIndex unat_sub_le word_le_nat_alt
      word_less_nat_alt)

lemma DecodeMessageHeader_shrinks:
  assumes "DecodeMessageHeader h m b = Inr r" "hr_length r \<noteq> 0"
  shows "unat (ReadableSize (hr_buffer r)) < unat (ReadableSize b)"
  using assms
  by (auto simp: DecodeMessageHeader_def Let_def rbind_simps split: if_splits
      dest!: PeekNumber_size ReadNumber_shrinks)

text \<open>
  \<open>OnNewData\<close>, one round of its loop after another. A round whose header reports no length ends the
  loop, one that reports an error ends it too; every other round uses up bytes.
\<close>

function OnNewData :: "endian \<Rightarrow> 's register_func \<Rightarrow> 's new_msg_func \<Rightarrow>
    GameConnection \<Rightarrow> Buffer \<Rightarrow> 's \<Rightarrow> (GameConnection \<times> Buffer \<times> 's) res" where
  "OnNewData h register_func new_msg_func c buffer s =
     rbind TinyBuffer_new (\<lambda>body_buf.
     rbind (DecodeMessageHeader h BaseMessage_new buffer) (\<lambda>r.
     let error = \<not> hr_ok r; data_enought = (hr_length r \<noteq> 0); buffer = hr_buffer r;
         body_size = (case hr_body_size r of Some n \<Rightarrow> n | None \<Rightarrow> 0)
     in if \<not> data_enought then Inr (c, buffer, s)
     else
     let first = (conn_role_id c = 0);
         c = (if first then c\<lparr>conn_role_id := role_id (hr_msg r)\<rparr> else c)
     in
     rbind (if first \<and> has_register_func c then register_func (conn_role_id c) s else Inr s) (\<lambda>s.
     rbind (check (ReadableSize buffer \<ge> ucast body_size) AssertFailed) (\<lambda>_.
     rbind (mem_read (ReadBegin buffer) (unat body_size) (vec buffer)) (\<lambda>data.
     rbind (AppendData data body_buf) (\<lambda>body_buf.
     let buffer = AddReadIndex (ucast body_size) buffer in
     rbind (if has_new_msg_func c
            then new_msg_func \<lparr>body_buffer = body_buf, base_message = hr_msg r\<rparr> s else Inr s) (\<lambda>s.
     if error then Inr (c, buffer, s)
     else OnNewData h register_func new_msg_func c buffer s)))))))"
  by pat_completeness auto
termination
proof (relation "measure (\<lambda>(h, rf, nf, c, b, s). unat (ReadableSize b))", goal_cases)
  case (2 h rf nf c buffer s x xa)
  then show ?case
    using DecodeMessageHeader_shrinks [of h BaseMessage_new buffer xa]
    by (auto intro: le_less_trans [OF AddReadIndex_shrinks])
qed simp

declare OnNewData.simps [simp del]

text \<open>
  What holds of the role and the owner's state, and is kept by both functions, holds afterwards; of the
  connection only the role changes.
\<close>

lemma OnNewData_inv:
  assumes "OnNewData h reg nf c b s = Inr (c', b', s')" "P (conn_role_id c) s"
    "\<And>r s s'. P 0 s \<Longrightarrow> reg r s = Inr s' \<Longrightarrow> P r s'"
    "\<And>r p s s'. P r s \<Longrightarrow> nf p s = Inr s' \<Longrightarrow> P r s'" "has_register_func c"
  shows "P (conn_role_id c') s' \<and> c' = c\<lparr>conn_role_id := conn_role_id c'\<rparr>"
  using assms(1,2,5) 
proof (induction "unat (ReadableSize b)" arbitrary: c b s rule: less_induct)
  case less
  obtain bb r where r: "TinyBuffer_new = Inr bb" "DecodeMessageHeader h BaseMessage_new b = Inr r"
    using less.prems(1) by (subst (asm) OnNewData.simps) (auto simp: rbind_simps)
  show ?case
  proof (cases "hr_length r = 0")
    case True
    then show ?thesis using less.prems r by (subst (asm) OnNewData.simps) (auto simp: rbind_simps Let_def)
  next
    case False
    let ?r = "if conn_role_id c = 0 then role_id (hr_msg r) else conn_role_id c"
    let ?c = "c\<lparr>conn_role_id := ?r\<rparr>"
    let ?n = "case hr_body_size r of Some n \<Rightarrow> n | None \<Rightarrow> 0"
    let ?b = "AddReadIndex (ucast ?n) (hr_buffer r)"
    have c: "(if conn_role_id c = 0 then c\<lparr>conn_role_id := role_id (hr_msg r)\<rparr> else c) = ?c" by simp
    have n: "\<not> \<not> (hr_length r \<noteq> 0)" using False by simp
    obtain s1 s2 body where s1: "(if conn_role_id c = 0 \<and> has_register_func ?c then reg (conn_role_id ?c) s else Inr s) = Inr s1"
      "(if has_new_msg_func ?c then nf \<lparr>body_buffer = body, base_message = hr_msg r\<rparr> s1 else Inr s1) = Inr s2"
      "(if \<not> hr_ok r then Inr (?c, ?b, s2) else OnNewData h reg nf ?c ?b s2) = Inr (c', b', s')"
      using less.prems(1) unfolding OnNewData.simps [of h reg nf c b s] r rbind.simps Let_def c if_not_P [OF n]
        rbind_eq_Inr by blast
    have P1: "P ?r s1" using less.prems(2,3) assms(3) s1(1) by (auto split: if_splits)
    then have P2: "P ?r s2" using assms(4) s1(2) by (metis Inr_inject)
    have sm: "unat (ReadableSize ?b) < unat (ReadableSize b)"
      using DecodeMessageHeader_shrinks [OF r(2) False] by (rule le_less_trans [OF AddReadIndex_shrinks])
    show ?thesis
    proof (cases "hr_ok r")
      case True
      then have "OnNewData h reg nf ?c ?b s2 = Inr (c', b', s')" using s1(3) by simp
      from less.hyps [OF sm this] P2 less.prems(3) have "P (conn_role_id c') s' \<and> c' = ?c\<lparr>conn_role_id := conn_role_id c'\<rparr>"
        by (simp split del: if_split)
      then show ?thesis by (simp split del: if_split)
    next
      case False
      then have "c' = ?c" "s' = s2" using s1(3) by auto
      then show ?thesis using P2 by (simp split del: if_split)
    qed
  qed
qed

section \<open>The same loop on a list of bytes\<close>

text \<open>
  What one call of \<open>OnNewData\<close> does with the readable bytes: \<open>g\<close> receives a header and the bytes of
  its body, \<open>reg\<close> the role of the first message. The remaining bytes stay in the buffer.
\<close>

function feed :: "'s register_func \<Rightarrow> (BaseMessage \<Rightarrow> u8 list \<Rightarrow> 's \<Rightarrow> 's res) \<Rightarrow> ROLE_ID \<Rightarrow> u8 list \<Rightarrow> 's \<Rightarrow>
    (ROLE_ID \<times> u8 list \<times> 's) res" where
  "feed reg g r bs s =
     (case parse_header bs of
        NeedMore \<Rightarrow> Inr (r, bs, s)
      | Malformed k \<Rightarrow> Inr (r, drop k bs, s)
      | Crashes \<Rightarrow> Inl AssertFailed
      | Parsed b n \<Rightarrow>
          let r' = (if r = 0 then role_id b else r) in
          rbind (if r = 0 then reg r' s else Inr s) (\<lambda>s.
          if length bs < 21 + unat n then Inl AssertFailed
          else rbind (g b (take (unat n) (drop 21 bs)) s) (\<lambda>s.
               feed reg g r' (drop (21 + unat n) bs) s)))"
  by pat_completeness auto
termination
  by (relation "measure (\<lambda>(reg, g, r, bs, s). length bs)")
    (auto simp: parse_header_def Let_def split: if_splits)

declare feed.simps [simp del]

text \<open>The delivery of whole messages, one after another.\<close>

fun deliver :: "'s register_func \<Rightarrow> (BaseMessage \<Rightarrow> u8 list \<Rightarrow> 's \<Rightarrow> 's res) \<Rightarrow> ROLE_ID \<Rightarrow> Message list \<Rightarrow> 's \<Rightarrow>
    (ROLE_ID \<times> 's) res" where
  "deliver reg g r [] s = Inr (r, s)"
| "deliver reg g r (m # ms) s =
     (let r' = (if r = 0 then role_id (base m) else r) in
      rbind (if r = 0 then reg r' s else Inr s) (\<lambda>s.
      rbind (g (base m) (body_bytes m) s) (deliver reg g r' ms)))"

lemma deliver_append:
  "deliver reg g r (ms @ ns) s = rbind (deliver reg g r ms s) (\<lambda>(r, s). deliver reg g r ns s)"
proof (induction ms arbitrary: r s)
  case (Cons m ms)
  have "deliver reg g r' (ms @ ns) = (\<lambda>s. rbind (deliver reg g r' ms s) (\<lambda>(r, s). deliver reg g r ns s))" for r'
    by (rule ext) (rule Cons.IH)
  then show ?case by (simp add: Let_def rbind_assoc)
qed simp

lemma feed_need_more: "parse_header bs = NeedMore \<Longrightarrow> feed reg g r bs s = Inr (r, bs, s)"
  by (simp add: feed.simps [of reg g r bs s])

lemma feed_frame:
  assumes "well_typed m"
  shows "feed reg g r (frame m @ rest) s =
    rbind (deliver reg g r [m] s) (\<lambda>(r', s'). feed reg g r' rest s')"
proof -
  let ?n = "length (body_bytes m)" and ?bs = "frame m @ rest"
  let ?P = "be_bytes (of_nat (17 + ?n) :: u32) @ header_bytes (base m)"
  have n: "unat (of_nat ?n :: u32) = ?n" by (rule unat_of_nat_small) simp
  have f: "frame m = ?P @ body_bytes m" by (simp add: frame_def)
  have P: "length ?P = 21" by simp
  have d: "drop 21 (frame m) = body_bytes m"
    using P unfolding f by (metis append_eq_conv_conj)
  show ?thesis
    using parse_frame [of m rest] well_typed_valid [OF assms]
    by (simp add: feed.simps [of reg g r ?bs s] n d length_frame Let_def rbind_assoc split_def
        del: length_body_bytes)
qed

text \<open>
  How many of the frames that a stream consists of are complete in its first bytes, and what is left.
\<close>

fun complete_frames :: "Message list \<Rightarrow> u8 list \<Rightarrow> nat" where
  "complete_frames [] bs = 0"
| "complete_frames (m # ms) bs =
     (if length (frame m) \<le> length bs then Suc (complete_frames ms (drop (length (frame m)) bs)) else 0)"

text \<open>\<open>rest\<close> holds no complete frame of what is still to come.\<close>

fun partial :: "u8 list \<Rightarrow> Message list \<Rightarrow> bool" where
  "partial rest [] = (rest = [])"
| "partial rest (m # ms) = (length rest < length (frame m))"

lemma partial_small: "partial rest ms \<Longrightarrow> length rest < 29"
  by (cases ms) (auto simp: length_frame split: if_splits)

definition stream :: "Message list \<Rightarrow> u8 list" where
  "stream ms = concat (map frame ms)"

lemma stream_simps [simp]: "stream [] = []" "stream (m # ms) = frame m @ stream ms"
  "stream (ms @ ns) = stream ms @ stream ns"
  by (simp_all add: stream_def)

text \<open>All the frames of a stream at once.\<close>

lemma feed_stream:
  "\<forall>m \<in> set ms. well_typed m \<Longrightarrow>
     feed reg g r (stream ms) s = rbind (deliver reg g r ms s) (\<lambda>(r', s'). Inr (r', [], s'))"
proof (induction ms arbitrary: r s)
  case Nil
  then show ?case by (simp add: feed_need_more parse_header_def)
next
  case (Cons m ms)
  have "feed reg g r (stream (m # ms)) s =
      rbind (deliver reg g r [m] s) (\<lambda>(r', s'). feed reg g r' (stream ms) s')"
    using Cons.prems by (simp only: stream_simps) (rule feed_frame, simp)
  also have "\<dots> = rbind (deliver reg g r ([m] @ ms) s) (\<lambda>(r', s'). Inr (r', [], s'))"
    using Cons unfolding deliver_append rbind_assoc by (simp add: split_def)
  finally show ?case by simp
qed

text \<open>
  A prefix \<open>xs\<close> of a stream of frames: the complete ones are delivered, and the bytes of the next
  incomplete one are kept.
\<close>

lemma feed_stream_prefix:
  assumes "xs @ ys = stream ms" "\<forall>m \<in> set ms. well_typed m"
  obtains ds ws rest where "ms = ds @ ws" "ds = take (complete_frames ms xs) ms" "xs = stream ds @ rest"
    "rest @ ys = stream ws" "partial rest ws"
    "feed reg g r xs s = rbind (deliver reg g r ds s) (\<lambda>(r', s'). Inr (r', rest, s'))"
proof -
  have "\<exists>ds ws rest. ms = ds @ ws \<and> ds = take (complete_frames ms xs) ms \<and> xs = stream ds @ rest \<and>
    rest @ ys = stream ws \<and> partial rest ws \<and>
    feed reg g r xs s = rbind (deliver reg g r ds s) (\<lambda>(r', s'). Inr (r', rest, s'))"
    using assms
  proof (induction ms arbitrary: xs r s)
    case Nil
    then show ?case by (auto simp: feed_need_more parse_header_def)
  next
    case (Cons m ms)
    show ?case
    proof (cases "length (frame m) \<le> length xs")
      case False
      have "xs = take (length xs) (frame m)"
        using Cons.prems(1) False by (metis append_eq_conv_conj linorder_not_less nat_less_le
            stream_simps(2) take_append append_Nil2 diff_is_0_eq take0)
      with False have "parse_header xs = NeedMore" by (intro parse_frame_incomplete) auto
      then show ?thesis
        using Cons.prems(1) False
        by (intro exI [of _ "[]"] exI [of _ "m # ms"] exI [of _ xs])
          (auto simp: feed_need_more)
    next
      case True
      obtain xs' where xs: "xs = frame m @ xs'"
        using Cons.prems(1) True by (metis append_eq_append_conv_if append_take_drop_id stream_simps(2))
      with Cons.prems(1) have "xs' @ ys = stream ms" by simp
      have IH: "\<exists>ds ws rest. ms = ds @ ws \<and> ds = take (complete_frames ms xs') ms \<and> xs' = stream ds @ rest \<and>
          rest @ ys = stream ws \<and> partial rest ws \<and>
          feed reg g r' xs' s' = rbind (deliver reg g r' ds s') (\<lambda>(r', s'). Inr (r', rest, s'))" for r' s'
        using Cons.IH [OF \<open>xs' @ ys = stream ms\<close>] Cons.prems(2) by simp
      let ?ds = "take (complete_frames ms xs') ms" and ?ws = "drop (complete_frames ms xs') ms"
      obtain rest where r: "xs' = stream ?ds @ rest" "rest @ ys = stream ?ws" "partial rest ?ws"
        using IH [of r s] by (metis append_take_drop_id same_append_eq)
      have f: "feed reg g r' xs' s' = rbind (deliver reg g r' ?ds s') (\<lambda>(r', s'). Inr (r', rest, s'))" for r' s'
        using IH [of r' s'] r(1) by (metis same_append_eq)
      have "feed reg g r xs s = rbind (deliver reg g r (m # ?ds) s) (\<lambda>(r', s'). Inr (r', rest, s'))"
        using Cons.prems(2) f deliver_append [of reg g r "[m]" ?ds s]
        by (simp add: xs feed_frame rbind_assoc split_def)
      then show ?thesis
        using r True by (intro exI [of _ "m # ?ds"] exI [of _ ?ws] exI [of _ rest]) (simp add: xs)
    qed
  qed
  then show thesis using that by blast
qed

section \<open>\<open>OnNewData\<close> computes the byte-level loop\<close>

text \<open>The registered functions, where they are set.\<close>

definition registered :: "GameConnection \<Rightarrow> 's register_func \<Rightarrow> 's register_func" where
  "registered c f = (\<lambda>r s. if has_register_func c then f r s else Inr s)"

definition taking :: "GameConnection \<Rightarrow> (BaseMessage \<Rightarrow> u8 list \<Rightarrow> 's \<Rightarrow> 's res) \<Rightarrow>
    BaseMessage \<Rightarrow> u8 list \<Rightarrow> 's \<Rightarrow> 's res" where
  "taking c g = (\<lambda>b bs s. if has_new_msg_func c then g b bs s else Inr s)"

lemma registered_role [simp]: "registered (c\<lparr>conn_role_id := r\<rparr>) = registered c"
  by (rule ext) (simp add: registered_def)

lemma taking_role [simp]: "taking (c\<lparr>conn_role_id := r\<rparr>) = taking c"
  by (rule ext) (simp add: taking_def)

fun data_outcome :: "GameConnection \<Rightarrow> Buffer \<Rightarrow> (ROLE_ID \<times> u8 list \<times> 's) res \<Rightarrow>
    (GameConnection \<times> Buffer \<times> 's) res \<Rightarrow> bool" where
  "data_outcome c b (Inl e) R = (R = Inl e)"
| "data_outcome c b (Inr (r, rest, s)) R =
     (\<exists>b'. R = Inr (c\<lparr>conn_role_id := r\<rparr>, b', s) \<and> buf_std b' \<and> readable b' = rest \<and>
        vec b' = vec b \<and> write_idx b' = write_idx b)"

lemma data_outcome_mono:
  "data_outcome (c\<lparr>conn_role_id := r\<rparr>) b' F R \<Longrightarrow> vec b' = vec b \<Longrightarrow> write_idx b' = write_idx b \<Longrightarrow>
     data_outcome c b F R"
  by (cases F) auto

lemma data_outcome_rbind:
  "(\<And>x. m = Inr x \<Longrightarrow> data_outcome c b (f x) (g x)) \<Longrightarrow> data_outcome c b (rbind m f) (rbind m g)"
  by (cases m) auto

lemma read_body:
  assumes "buf_std b" "length (readable b) < 2 ^ 31" "unat n \<le> length (readable b)"
  obtains t where "mem_read (ReadBegin b) (unat (n :: u32)) (vec b) = Inr (take (unat n) (readable b))"
    "AppendData (take (unat n) (readable b)) body = Inr t \<or> \<not> buf_std body \<or> readable body \<noteq> []"
    "buf_std body \<Longrightarrow> readable body = [] \<Longrightarrow> buf_std t \<and> readable t = take (unat n) (readable b)"
proof -
  have r: "mem_read (ReadBegin b) (unat n) (vec b) = Inr (take (unat n) (readable b))"
    using assms by (simp add: read_window)
  show ?thesis
  proof (cases "buf_std body \<and> readable body = []")
    case True
    have "unat n + 16 \<le> vec_max" using assms by (simp add: vec_max_def)
    then have "fits (length (take (unat n) (readable b))) body" using True by (simp add: fits_def min_def)
    from AppendData_std [OF conjunct1 [OF True] this] show ?thesis
      using that r True by (metis append_Nil)
  next
    case False
    then show ?thesis using that r by blast
  qed
qed

text \<open>
  The interface between a connection and the owner that takes its messages: the function it registers
  depends on the message and the bytes of the body only, not on how the body's buffer holds them.
\<close>

locale message_sink =
  fixes new_msg :: "'s new_msg_func"
    and take_msg :: "BaseMessage \<Rightarrow> u8 list \<Rightarrow> 's \<Rightarrow> 's res"
  assumes new_msg_bytes:
    "buf_std (body_buffer p) \<Longrightarrow> new_msg p s = take_msg (base_message p) (readable (body_buffer p)) s"
begin

lemma OnNewData_feed:
  assumes "buf_std b" "length (readable b) < 2 ^ 31"
  shows "data_outcome c b (feed (registered c reg) (taking c take_msg) (conn_role_id c) (readable b) s)
    (OnNewData h reg new_msg c b s)"
  using assms
proof (induction "length (readable b)" arbitrary: b c s rule: less_induct)
  case less
  let ?bs = "readable b"
  obtain t where t: "TinyBuffer_new = Inr t" "buf_std t" "readable t = []" by (rule TinyBuffer_std)
  have "length ?bs < 2 ^ 32" using less.prems by simp
  note hdr = DecodeMessageHeader_parse [OF buf_std_inv [OF less.prems(1)] this, of BaseMessage_new h]
  show ?case
  proof (cases "parse_header ?bs")
    case NeedMore
    then show ?thesis using hdr less.prems
      by (simp add: OnNewData.simps [of h reg new_msg c b s] feed.simps [of _ _ _ ?bs s] t)
  next
    case (Malformed k)
    then show ?thesis using hdr less.prems
      by (auto simp: OnNewData.simps [of h reg new_msg c b s] feed.simps [of _ _ _ ?bs s] t advanced_def)
  next
    case Crashes
    then show ?thesis using hdr
      by (simp add: OnNewData.simps [of h reg new_msg c b s] feed.simps [of _ _ _ ?bs s] t)
  next
    case (Parsed bm n)
    with hdr obtain b' where b': "DecodeMessageHeader h BaseMessage_new b =
        Inr \<lparr>hr_msg = bm, hr_buffer = b', hr_ok = True, hr_length = 21, hr_body_size = Some n\<rparr>"
      "advanced 21 b b'" "21 \<le> length ?bs" by auto
    have s': "buf_std b'" "readable b' = drop 21 ?bs" "vec b' = vec b" "write_idx b' = write_idx b"
      using b'(2) less.prems by (auto simp: advanced_def)
    have un: "unat (ucast n :: size_t) = unat n" by (rule unat_ucast_size)
    have sz: "ReadableSize b' \<ge> ucast n \<longleftrightarrow> \<not> length ?bs < 21 + unat n"
      using b'(3) s' by (auto simp: word_le_nat_alt un unat_ReadableSize)
    let ?r = "if conn_role_id c = 0 then role_id bm else conn_role_id c"
    let ?c = "c\<lparr>conn_role_id := ?r\<rparr>" and ?b = "AddReadIndex (ucast n) b'"
    have c: "(if conn_role_id c = 0 then c\<lparr>conn_role_id := role_id bm\<rparr> else c) = ?c" by simp
    have adv: "buf_std ?b" "readable ?b = drop (21 + unat n) ?bs" "vec ?b = vec b" "write_idx ?b = write_idx b"
      using s' AddReadIndex_std [of b' "ucast n"] AddReadIndex_advanced [of b' "ucast n"]
      by (auto simp: un advanced_def add.commute)
    have IH: "data_outcome c b (feed (registered c reg) (taking c take_msg) ?r (drop (21 + unat n) ?bs) s1)
        (OnNewData h reg new_msg ?c ?b s1)" for s1
    proof -
      have "length (readable ?b) < length ?bs" "length (readable ?b) < 2 ^ 31"
        using adv(2) b'(3) less.prems(2) by simp_all
      from data_outcome_mono [OF less.hyps [OF this(1) adv(1) this(2), of ?c s1] adv(3,4)]
      show ?thesis by (simp add: adv(2) del: if_split)
    qed
    show ?thesis
    proof (cases "length ?bs < 21 + unat n")
      case True
      then show ?thesis
        using sz by (simp add: OnNewData.simps [of h reg new_msg c b s] feed.simps [of _ _ _ ?bs s] t b' Parsed
            registered_def data_outcome_rbind Let_def del: registered_role)
    next
      case False
      then have "unat n \<le> length (readable b')" "length (readable b') < 2 ^ 31"
        using s' b'(3) less.prems(2) by auto
      from read_body [OF s'(1) this(2,1), of t] t obtain u where
        u: "mem_read (ReadBegin b') (unat n) (vec b') = Inr (take (unat n) (readable b'))"
        "AppendData (take (unat n) (readable b')) t = Inr u" "buf_std u"
        "readable u = take (unat n) (readable b')" by metis
      show ?thesis
        using False sz u IH new_msg_bytes [of "\<lparr>body_buffer = u, base_message = bm\<rparr>"]
        by (auto simp: OnNewData.simps [of h reg new_msg c b s] feed.simps [of _ _ _ ?bs s] t b' Parsed c
            registered_def [of c reg] taking_def [of c take_msg] s'(2) Let_def intro!: data_outcome_rbind)
    qed
  qed
qed

end

section \<open>Owners that decode the messages\<close>

text \<open>
  The function every owner in the repository registers starts with \<open>TransmitMessage\<close> and goes on
  with its result \<open>k\<close>. It depends on the bytes of the body only.
\<close>

definition decoding :: "endian \<Rightarrow> (Message option \<Rightarrow> 's \<Rightarrow> 's res) \<Rightarrow> 's new_msg_func" where
  "decoding h k p s = rbind (TransmitMessage h p) (\<lambda>m. k m s)"

definition decoding_bytes :: "(Message option \<Rightarrow> 's \<Rightarrow> 's res) \<Rightarrow> BaseMessage \<Rightarrow> u8 list \<Rightarrow> 's \<Rightarrow> 's res" where
  "decoding_bytes k b bs s = rbind (decode_body b bs) (\<lambda>m. k m s)"

interpretation sink: message_sink "decoding h k" "decoding_bytes k" for h k
  by unfold_locales (simp add: decoding_def decoding_bytes_def TransmitMessage_decode_body)

lemma decoding_bytes_message:
  "well_typed m \<Longrightarrow> class_of m \<noteq> CBase \<Longrightarrow> decoding_bytes k (base m) (body_bytes m) s = k (Some m) s"
  using decode_body_bytes [of m "[]"] by (simp add: decoding_bytes_def)

text \<open>Once the role is known, delivering messages is running the owner's function over them.\<close>

lemma deliver_known_role:
  "r \<noteq> 0 \<Longrightarrow> \<forall>m \<in> set ms. well_typed m \<and> class_of m \<noteq> CBase \<Longrightarrow>
     deliver reg (decoding_bytes k) r ms s = rbind (rfold (\<lambda>m. k (Some m)) ms s) (\<lambda>s. Inr (r, s))"
proof (induction ms arbitrary: s)
  case (Cons m ms)
  then have "deliver reg (decoding_bytes k) r ms = (\<lambda>s. rbind (rfold (\<lambda>m. k (Some m)) ms s) (\<lambda>s. Inr (r, s)))"
    by (intro ext) simp
  with Cons.prems show ?case by (simp add: decoding_bytes_message rbind_assoc)
qed simp

lemma deliver_first_role:
  assumes "role_id (base m) \<noteq> 0" "\<forall>m' \<in> set (m # ms). well_typed m' \<and> class_of m' \<noteq> CBase"
  shows "deliver reg (decoding_bytes k) 0 (m # ms) s =
    rbind (reg (role_id (base m)) s) (\<lambda>s. rbind (rfold (\<lambda>m. k (Some m)) (m # ms) s)
      (\<lambda>s. Inr (role_id (base m), s)))"
proof -
  have "deliver reg (decoding_bytes k) (role_id (base m)) ms =
      (\<lambda>s. rbind (rfold (\<lambda>m. k (Some m)) ms s) (\<lambda>s. Inr (role_id (base m), s)))"
    using assms by (intro ext deliver_known_role) simp_all
  with assms show ?thesis by (simp add: decoding_bytes_message rbind_assoc Let_def)
qed

section \<open>Properties\<close>

text \<open>
  C6: refinement. For every content of the receive buffer, well formed or not, \<open>OnNewData\<close> with an
  owner that decodes the messages does what \<open>feed\<close> does on the list of readable bytes: the same
  messages are handed over in the same order, the first of them with the registration of its role, the
  same bytes stay in the buffer, and it faults exactly when \<open>feed\<close> does.
\<close>

theorem on_new_data_refines_feed:
  assumes "buf_std b" "length (readable b) < 2 ^ 31"
  shows "data_outcome c b
    (feed (registered c reg) (taking c (decoding_bytes k)) (conn_role_id c) (readable b) s)
    (OnNewData h reg (decoding h k) c b s)"
  using assms by (rule sink.OnNewData_feed)

theorem on_new_data_refines_feed_witness:
  "let c = \<lparr>connection_name = ''srv#1'', conn_role_id = 0, recving_data = True, has_register_func = True,
       has_new_msg_func = True, has_close_func = False\<rparr>;
     m = PingMessage (base PingMessage_new\<lparr>role_id := 7\<rparr>) 42
   in \<exists>b b'. readable b = frame m @ [0, 0] \<and> readable b' = [0, 0] \<and>
        OnNewData LittleEndian (\<lambda>r s. Inr (s @ [None])) (decoding LittleEndian (\<lambda>m s. Inr (s @ [m]))) c b [] =
          Inr (c\<lparr>conn_role_id := 7\<rparr>, b', [None, Some m])"
proof -
  let ?c = "\<lparr>connection_name = ''srv#1'', conn_role_id = 0, recving_data = True, has_register_func = True,
    has_new_msg_func = True, has_close_func = False\<rparr>"
  let ?m = "PingMessage (base PingMessage_new\<lparr>role_id := 7\<rparr>) 42"
  let ?reg = "\<lambda>r s. Inr (s @ [None]) :: Message option list res"
  let ?k = "\<lambda>m s. Inr (s @ [m]) :: Message option list res"
  have "length (frame ?m @ [0, 0]) \<le> 4096" by (simp add: length_frame)
  then obtain b where b: "buf_std b" "readable b = frame ?m @ [0, 0]" by (rule buffer_holding)
  have m: "well_typed ?m" "class_of ?m \<noteq> CBase" "role_id (base ?m) = 7"
    by (simp_all add: well_typed_def PingMessage_new_def BaseMessage_new_def)
  have "parse_header [0, 0] = NeedMore" by (simp add: parse_header_def)
  then have "feed (registered ?c ?reg) (taking ?c (decoding_bytes ?k)) 0 (frame ?m @ [0, 0]) [] =
      Inr (7, [0, 0], [None, Some ?m])"
    using decoding_bytes_message [OF m(1,2), of ?k "[None]"]
    by (simp add: feed_frame m feed_need_more registered_def taking_def)
  moreover have "length (readable b) < 2 ^ 31" by (simp add: b length_frame)
  ultimately show ?thesis
    using on_new_data_refines_feed [of b ?c ?reg ?k "[]" LittleEndian] b by (auto simp: Let_def)
qed

end
