(* ===== verification/Connection.thy ===== *)
theory Connection
  imports GameConnection
begin

text \<open>
  A \<open>GameConnection\<close> on top of its \<open>TcpConnection\<close>: the two functions the constructor registers, the
  composed handler of a completed read, and what the owner sees of a byte stream that arrives in
  pieces. The kernel's receive queue and the amounts that have arrived are inputs of the runs.
\<close>

section \<open>The two layers together\<close>

text \<open>The lambdas of the constructor, on the state of the connection and of its owner.\<close>

definition on_data :: "endian \<Rightarrow> 's register_func \<Rightarrow> 's new_msg_func \<Rightarrow> (GameConnection \<times> 's) new_data_func" where
  "on_data h reg nf = (\<lambda>b (c, s). rbind (OnNewData h reg nf c b s) (\<lambda>(c, b, s). Inr (b, c, s)))"

definition on_close :: "'s conn_close_func \<Rightarrow> (GameConnection \<times> 's) conn_close_func" where
  "on_close g = (\<lambda>(c, s). if has_close_func c then rbind (g s) (\<lambda>s. Inr (c, s)) else Inr (c, s))"

text \<open>A connection just accepted, with all functions set, that has started to receive.\<close>

definition connected :: "string \<Rightarrow> (TcpConnection \<times> GameConnection) res" where
  "connected name =
     rbind TcpConnection_new (\<lambda>tcp.
     let (tcp, c) = GameConnection_new (SetConnectionName name tcp);
         c = SetRegisterFunc True (SetOnNewMsgWithBufferFunc True (SetOnGameConnCloseFunc True c));
         (c, tcp) = StartRecvData c tcp
     in Inr (tcp, c))"

text \<open>Reads that complete one after another, each when up to \<open>n\<close> bytes more have arrived.\<close>

definition receive :: "endian \<Rightarrow> 's register_func \<Rightarrow> 's new_msg_func \<Rightarrow> 's conn_close_func \<Rightarrow> nat list \<Rightarrow>
    u8 list \<times> TcpConnection \<times> GameConnection \<times> 's \<Rightarrow> (u8 list \<times> TcpConnection \<times> GameConnection \<times> 's) res" where
  "receive h reg nf g = rfold (read_completes (on_data h reg nf) (on_close g))"

text \<open>What holds of a receiving connection between two reads.\<close>

definition receiving :: "TcpConnection \<Rightarrow> GameConnection \<Rightarrow> bool" where
  "receiving tcp c \<longleftrightarrow> buf_std (recv_buffer tcp) \<and> length (vec (recv_buffer tcp)) = 4104 \<and>
     reading tcp = Some (WritableSize (recv_buffer tcp)) \<and> has_new_data_func tcp \<and>
     has_register_func c \<and> has_new_msg_func c"

lemma connected_receiving:
  obtains tcp c where "connected name = Inr (tcp, c)" "receiving tcp c"
    "readable (recv_buffer tcp) = []" "conn_role_id c = 0" "WritableSize (recv_buffer tcp) \<noteq> 0"
    "unat (WritableSize (recv_buffer tcp)) = 4096" "has_conn_close_func tcp" "has_close_func c"
proof -
  obtain b where b: "Buffer_new DEFAULT_BUFFER_SIZE = Inr b" "buf_std b" "readable b = []"
    "length (vec b) = 4104" "read_idx b = IDX_BEGIN" "write_idx b = IDX_BEGIN" by (rule DefaultBuffer_std)
  have w: "unat (WritableSize b) = 4096" using b by (simp add: unat_WritableSize)
  then have "WritableSize b \<noteq> 0" by auto
  then show ?thesis using b w
    by (intro that) (auto simp: connected_def TcpConnection_new_def GameConnection_new_def StartRecvData_def
        SetConnectionName_def SetRegisterFunc_def SetOnNewMsgWithBufferFunc_def SetOnGameConnCloseFunc_def
        SetOnNewDataFunc_def SetOnConnCloseFunc_def AsyncWaitData_def receiving_def Let_def)
qed

lemma receiving_bound: "receiving tcp c \<Longrightarrow> length (readable (recv_buffer tcp)) \<le> 4096"
proof -
  assume r: "receiving tcp c"
  then have "length (readable (recv_buffer tcp)) = unat (write_idx (recv_buffer tcp)) - unat (read_idx (recv_buffer tcp))"
    "unat (write_idx (recv_buffer tcp)) \<le> 4104" "8 \<le> unat (read_idx (recv_buffer tcp))"
    by (auto simp: receiving_def length_readable) (auto simp: buf_std_def buf_inv_def)
  then show ?thesis by simp
qed

text \<open>The buffer part of a completed read: the bytes are added, a full buffer is adjusted.\<close>

lemma fill_and_adjust:
  assumes "buf_std b" "length (vec b) = 4104" "length xs \<le> unat (WritableSize b)"
  obtains b' where "rbind (fill_from_socket xs b) (\<lambda>b. if WritableSize b = 0 then AdjustBuffer b else Inr b) = Inr b'"
    "buf_std b'" "length (vec b') = 4104" "readable b' = readable b @ xs"
    "WritableSize b = 0 \<Longrightarrow> unat (WritableSize b') = 4096 - length (readable b)"
proof -
  obtain f where f: "fill_from_socket xs b = Inr f" "buf_std f" "readable f = readable b @ xs"
    "length (vec f) = length (vec b)" by (rule fill_from_socket_std [OF assms(1,3)])
  show ?thesis
  proof (cases "WritableSize f = 0")
    case False
    have "WritableSize b \<noteq> 0"
    proof
      assume z: "WritableSize b = 0"
      with assms(3) have xs: "xs = []" by simp
      have "f = b"
        using f(1) by (auto simp: xs fill_from_socket_def mem_write_def poke_def AddWriteIndex_def WriteBegin_def
            split: if_splits)
      with z False show False by simp
    qed
    with False show ?thesis using f assms(2) by (intro that [of f]) auto
  next
    case True
    obtain a where a: "AdjustBuffer f = Inr a" "buf_std a" "readable a = readable f"
      "length (vec a) = length (vec f)" "unat (write_idx a) = 8 + length (readable f)"
      using AdjustBuffer_std [OF f(2)] by metis
    have "WritableSize b = 0 \<Longrightarrow> xs = []" using assms(3) by simp
    then show ?thesis using f a True assms(2)
      by (intro that [of a]) (auto simp: unat_WritableSize)
  qed
qed

context message_sink begin

text \<open>One completed read of a receiving connection is one \<open>feed\<close> of what was left and what came.\<close>

lemma read_feeds:
  assumes "receiving tcp c" "k = min n (unat (WritableSize (recv_buffer tcp)))"
    "WritableSize (recv_buffer tcp) = 0 \<or> q \<noteq> [] \<and> n \<noteq> 0"
    "feed reg take_msg (conn_role_id c) (readable (recv_buffer tcp) @ take k q) s = Inr (r, rest, s')"
  obtains tcp' where
    "read_completes (on_data h reg new_msg) (on_close g) n (q, tcp, c, s) =
       Inr (drop k q, tcp', c\<lparr>conn_role_id := r\<rparr>, s')"
    "receiving tcp' (c\<lparr>conn_role_id := r\<rparr>)" "readable (recv_buffer tcp') = rest"
    "WritableSize (recv_buffer tcp) = 0 \<Longrightarrow>
       unat (WritableSize (recv_buffer tcp')) = 4096 - length (readable (recv_buffer tcp))"
    "has_conn_close_func tcp' = has_conn_close_func tcp"
proof -
  let ?b = "recv_buffer tcp"
  have i: "buf_std ?b" "length (vec ?b) = 4104" "reading tcp = Some (WritableSize ?b)"
    "has_new_data_func tcp" "has_register_func c" "has_new_msg_func c"
    using assms(1) by (auto simp: receiving_def)
  have l: "length (take k q) \<le> unat (WritableSize ?b)" using assms(2) by simp
  obtain a where a: "rbind (fill_from_socket (take k q) ?b) (\<lambda>b. if WritableSize b = 0 then AdjustBuffer b else Inr b) = Inr a"
    "buf_std a" "length (vec a) = 4104" "readable a = readable ?b @ take k q"
    "WritableSize ?b = 0 \<Longrightarrow> unat (WritableSize a) = 4096 - length (readable ?b)"
    using fill_and_adjust [OF i(1,2) l] by blast
  have f: "registered c reg = reg" "taking c take_msg = take_msg"
    using i by (auto simp: registered_def taking_def)
  have "length (readable a) \<le> 4104"
    using a(2,3) by (simp add: length_readable) (auto simp: buf_std_def buf_inv_def)
  then have "length (readable a) < 2 ^ 31" by simp
  from OnNewData_feed [OF a(2) this, of c reg s h] obtain b' where
    b': "OnNewData h reg new_msg c a s = Inr (c\<lparr>conn_role_id := r\<rparr>, b', s')" "buf_std b'"
    "readable b' = rest" "vec b' = vec a" "write_idx b' = write_idx a"
    using assms(4) by (auto simp: f a(4))
  let ?tcp = "AsyncWaitData (tcp\<lparr>reading := None, recv_buffer := b'\<rparr>)"
  have on: "on_read (on_data h reg new_msg) (on_close g) Success (take k q) tcp (c, s) =
      Inr (?tcp, c\<lparr>conn_role_id := r\<rparr>, s')"
    using a(1) b'(1) i(4) by (auto simp: on_read_def on_data_def rbind_simps Let_def split: if_splits)
  show ?thesis
  proof (rule that [of ?tcp])
    show "read_completes (on_data h reg new_msg) (on_close g) n (q, tcp, c, s) =
       Inr (drop k q, ?tcp, c\<lparr>conn_role_id := r\<rparr>, s')"
      using on assms(2,3) by (auto simp: read_completes_def i(3) Let_def)
    show "receiving ?tcp (c\<lparr>conn_role_id := r\<rparr>)"
      using b' a i by (simp add: receiving_def AsyncWaitData_def)
    show "unat (WritableSize (recv_buffer ?tcp)) = 4096 - length (readable ?b)" if "WritableSize ?b = 0"
      using a(5) [OF that] b' by (simp add: AsyncWaitData_def WritableSize_def vec_size_def)
  qed (simp_all add: b' AsyncWaitData_def)
qed

text \<open>The handler itself, when all the bytes at hand have been given.\<close>

lemma on_read_feeds:
  assumes "receiving tcp c" "length data \<le> unat (WritableSize (recv_buffer tcp))"
    "feed reg take_msg (conn_role_id c) (readable (recv_buffer tcp) @ data) s = Inr (r, rest, s')"
  obtains tcp' where
    "on_read (on_data h reg new_msg) (on_close g) Success data tcp (c, s) =
       Inr (tcp', c\<lparr>conn_role_id := r\<rparr>, s')"
    "receiving tcp' (c\<lparr>conn_role_id := r\<rparr>)" "readable (recv_buffer tcp') = rest"
proof -
  let ?k = "min (length data) (unat (WritableSize (recv_buffer tcp)))"
  have k: "take ?k data = data" using assms(2) by simp
  have rd: "reading tcp = Some (WritableSize (recv_buffer tcp))" using assms(1) by (simp add: receiving_def)
  show ?thesis
  proof (cases "WritableSize (recv_buffer tcp) = 0 \<or> data \<noteq> [] \<and> length data \<noteq> 0")
    case True
    from read_feeds [OF assms(1) refl True, unfolded k, OF assms(3), of h g] obtain tcp' where
      t: "read_completes (on_data h reg new_msg) (on_close g) (length data) (data, tcp, c, s) =
        Inr (drop ?k data, tcp', c\<lparr>conn_role_id := r\<rparr>, s')"
      "receiving tcp' (c\<lparr>conn_role_id := r\<rparr>)" "readable (recv_buffer tcp') = rest" by metis
    with that True show ?thesis
      by (auto simp: read_completes_def rd Let_def k rbind_simps split: if_splits)
  next
    case False
    have b: "buf_std (recv_buffer tcp)" "length (vec (recv_buffer tcp)) = 4104" "has_new_data_func tcp"
      "has_register_func c" "has_new_msg_func c"
      using assms(1) by (auto simp: receiving_def)
    have d: "data = []" "WritableSize (recv_buffer tcp) \<noteq> 0" using False by auto
    have "length (readable (recv_buffer tcp)) < 2 ^ 31" using receiving_bound [OF assms(1)] by simp
    from OnNewData_feed [OF b(1) this, of c reg s h] obtain b' where
      b': "OnNewData h reg new_msg c (recv_buffer tcp) s = Inr (c\<lparr>conn_role_id := r\<rparr>, b', s')" "buf_std b'"
      "readable b' = rest" "vec b' = vec (recv_buffer tcp)"
      using assms(3) b d by (auto simp: registered_def taking_def)
    have "fill_from_socket [] (recv_buffer tcp) = Inr (recv_buffer tcp)"
      using b(1) by (auto simp: fill_from_socket_def mem_write_def poke_def AddWriteIndex_def WriteBegin_def
          buf_std_def buf_inv_def)
    then show ?thesis using b b' d
      by (intro that [of "AsyncWaitData (tcp\<lparr>reading := None, recv_buffer := b'\<rparr>)"])
        (simp_all add: on_read_def on_data_def AsyncWaitData_def receiving_def Let_def)
  qed
qed

lemma on_read_faults:
  assumes "receiving tcp c" "length data \<le> unat (WritableSize (recv_buffer tcp))"
    "feed reg take_msg (conn_role_id c) (readable (recv_buffer tcp) @ data) s = Inl e"
  shows "on_read (on_data h reg new_msg) (on_close g) Success data tcp (c, s) = Inl e"
proof -
  let ?b = "recv_buffer tcp"
  have i: "buf_std ?b" "length (vec ?b) = 4104" "has_new_data_func tcp" "has_register_func c" "has_new_msg_func c"
    using assms(1) by (auto simp: receiving_def)
  obtain a where a: "rbind (fill_from_socket data ?b) (\<lambda>b. if WritableSize b = 0 then AdjustBuffer b else Inr b) = Inr a"
    "buf_std a" "length (vec a) = 4104" "readable a = readable ?b @ data"
    using fill_and_adjust [OF i(1,2) assms(2)] by blast
  have f: "registered c reg = reg" "taking c take_msg = take_msg"
    using i by (auto simp: registered_def taking_def)
  have "length (readable a) \<le> 4104"
    using a(2,3) by (simp add: length_readable) (auto simp: buf_std_def buf_inv_def)
  then have "length (readable a) < 2 ^ 31" by simp
  from OnNewData_feed [OF a(2) this, of c reg s h] have
    "OnNewData h reg new_msg c a s = Inl e" using assms(3) by (simp add: f a(4))
  then have "rbind (rbind (fill_from_socket data ?b) (\<lambda>b. if WritableSize b = 0 then AdjustBuffer b else Inr b))
      (\<lambda>b. on_data h reg new_msg b (c, s)) = Inl e"
    unfolding a(1) by (simp add: on_data_def)
  then show ?thesis
    using i(3) by (auto simp: on_read_def Let_def rbind_assoc rbind_simps split: if_splits)
qed

end

section \<open>A byte stream that arrives in pieces\<close>

text \<open>
  Between two reads of a stream of frames: \<open>ds\<close> have been delivered, the bytes in the buffer and in the
  kernel's queue are those of the other frames, and no complete frame waits in the buffer.
\<close>

definition stream_state :: "'s register_func \<Rightarrow> (Message option \<Rightarrow> 's \<Rightarrow> 's res) \<Rightarrow> 's \<Rightarrow> Message list \<Rightarrow>
    Message list \<Rightarrow> u8 list \<times> TcpConnection \<times> GameConnection \<times> 's \<Rightarrow> bool" where
  "stream_state reg f s0 ms ds = (\<lambda>(q, tcp, c, s).
     \<exists>ws. ms = ds @ ws \<and> receiving tcp c \<and> readable (recv_buffer tcp) @ q = stream ws \<and>
       partial (readable (recv_buffer tcp)) ws \<and>
       deliver reg (decoding_bytes f) 0 ds s0 = Inr (conn_role_id c, s))"

definition reads_left :: "u8 list \<times> TcpConnection \<times> GameConnection \<times> 's \<Rightarrow> nat" where
  "reads_left = (\<lambda>(q, tcp, c, s). 2 * length q + (if WritableSize (recv_buffer tcp) = 0 then 1 else 0))"

lemma stream_step:
  assumes "stream_state reg f s0 ms ds x" "\<forall>m \<in> set ms. well_typed m"
    "deliver reg (decoding_bytes f) 0 ms s0 = Inr final"
  obtains x' ds' where "read_completes (on_data h reg (decoding h f)) (on_close g) n x = Inr x'"
    "stream_state reg f s0 ms ds' x'" "fst x = [] \<Longrightarrow> fst x' = []"
    "n \<noteq> 0 \<Longrightarrow> fst x \<noteq> [] \<Longrightarrow> reads_left x' < reads_left x"
proof -
  obtain q tcp c s where x: "x = (q, tcp, c, s)" by (cases x)
  obtain ws where w: "ms = ds @ ws" "receiving tcp c" "readable (recv_buffer tcp) @ q = stream ws"
    "partial (readable (recv_buffer tcp)) ws"
    "deliver reg (decoding_bytes f) 0 ds s0 = Inr (conn_role_id c, s)"
    using assms(1) by (auto simp: x stream_state_def)
  let ?b = "recv_buffer tcp" and ?room = "WritableSize (recv_buffer tcp)"
  let ?k = "min n (unat ?room)"
  show ?thesis
  proof (cases "?room = 0 \<or> q \<noteq> [] \<and> n \<noteq> 0")
    case False
    then have "read_completes (on_data h reg (decoding h f)) (on_close g) n x = Inr x"
      using w(2) by (auto simp: x read_completes_def receiving_def)
    then show ?thesis using that assms(1) False by (metis x fst_conv)
  next
    case True
    have "(readable ?b @ take ?k q) @ drop ?k q = stream ws" using w(3) by simp
    moreover have "\<forall>m \<in> set ws. well_typed m" using assms(2) w(1) by simp
    ultimately obtain es vs rest where e: "ws = es @ vs" "readable ?b @ take ?k q = stream es @ rest"
      "rest @ drop ?k q = stream vs" "partial rest vs"
      "feed reg (decoding_bytes f) (conn_role_id c) (readable ?b @ take ?k q) s =
         rbind (deliver reg (decoding_bytes f) (conn_role_id c) es s) (\<lambda>(r', s'). Inr (r', rest, s'))"
      using feed_stream_prefix by metis
    have "rbind (deliver reg (decoding_bytes f) 0 (ds @ es) s0)
        (\<lambda>(r, s). deliver reg (decoding_bytes f) r vs s) = Inr final"
      using assms(3) w(1) e(1) deliver_append [of reg "decoding_bytes f" 0 "ds @ es" vs s0] by simp
    then obtain r s' where d: "deliver reg (decoding_bytes f) 0 (ds @ es) s0 = Inr (r, s')"
      unfolding rbind_simps by auto
    then have "deliver reg (decoding_bytes f) (conn_role_id c) es s = Inr (r, s')"
      using w(5) by (simp add: deliver_append)
    with e(5) have feed: "feed reg (decoding_bytes f) (conn_role_id c) (readable ?b @ take ?k q) s = Inr (r, rest, s')"
      by simp
    obtain tcp' where t: "read_completes (on_data h reg (decoding h f)) (on_close g) n (q, tcp, c, s) =
        Inr (drop ?k q, tcp', c\<lparr>conn_role_id := r\<rparr>, s')" "receiving tcp' (c\<lparr>conn_role_id := r\<rparr>)"
      "readable (recv_buffer tcp') = rest"
      "?room = 0 \<Longrightarrow> unat (WritableSize (recv_buffer tcp')) = 4096 - length (readable ?b)"
      using sink.read_feeds [OF w(2) refl True feed, where h = h and g = g] by metis
    have "stream_state reg f s0 ms (ds @ es) (drop ?k q, tcp', c\<lparr>conn_role_id := r\<rparr>, s')"
      using t e w d by (auto simp: stream_state_def)
    moreover have "reads_left (drop ?k q, tcp', c\<lparr>conn_role_id := r\<rparr>, s') < reads_left x" if "n \<noteq> 0" "q \<noteq> []"
    proof (cases "?room = 0")
      case True
      then have "WritableSize (recv_buffer tcp') \<noteq> 0"
        using t(4) partial_small [OF w(4)] by (auto simp: unat_eq_0)
      with True show ?thesis by (simp add: reads_left_def x)
    next
      case False
      then have "unat ?room \<noteq> 0" by (simp add: unat_eq_0)
      then have "length q - ?k < length q" using that by simp
      then have "2 * (length q - ?k) + 1 < 2 * length q" by presburger
      with False show ?thesis by (simp add: reads_left_def x)
    qed
    ultimately show ?thesis using that t(1) x by auto
  qed
qed

lemma receive_stream:
  assumes "stream_state reg f s0 ms ds x" "\<forall>m \<in> set ms. well_typed m"
    "deliver reg (decoding_bytes f) 0 ms s0 = Inr final"
  shows "\<exists>x' ds'. receive h reg (decoding h f) g ns x = Inr x' \<and> stream_state reg f s0 ms ds' x' \<and>
    (0 \<notin> set ns \<longrightarrow> reads_left x \<le> length ns \<or> fst x = [] \<longrightarrow> fst x' = [])"
  using assms(1)
proof (induction ns arbitrary: x ds)
  case Nil
  then show ?case by (cases x) (auto simp: receive_def reads_left_def)
next
  case (Cons n ns)
  from stream_step [OF Cons.prems assms(2,3), of h g n] obtain y es where
    y: "read_completes (on_data h reg (decoding h f)) (on_close g) n x = Inr y" "stream_state reg f s0 ms es y"
      "fst x = [] \<Longrightarrow> fst y = []" "n \<noteq> 0 \<Longrightarrow> fst x \<noteq> [] \<Longrightarrow> reads_left y < reads_left x" by metis
  from Cons.IH [OF y(2)] obtain x' ds' where
    "receive h reg (decoding h f) g ns y = Inr x'" "stream_state reg f s0 ms ds' x'"
    "0 \<notin> set ns \<longrightarrow> reads_left y \<le> length ns \<or> fst y = [] \<longrightarrow> fst x' = []" by blast
  with y show ?case
    by (cases "fst x = []") (intro exI [of _ x'] exI [of _ ds'], auto simp: receive_def)+
qed

lemma stream_state_drained:
  assumes "stream_state reg f s0 ms ds ([], tcp, c, s)"
  shows "ds = ms \<and> readable (recv_buffer tcp) = []"
proof -
  obtain ws where "ms = ds @ ws" "readable (recv_buffer tcp) = stream ws"
    "partial (readable (recv_buffer tcp)) ws"
    using assms by (auto simp: stream_state_def)
  then show ?thesis by (cases ws) auto
qed

lemma connected_stream_state:
  obtains tcp c where "connected name = Inr (tcp, c)"
    "stream_state reg f s0 ms [] (stream ms, tcp, c, s0)"
    "reads_left (stream ms, tcp, c, s0) = 2 * length (stream ms)"
proof -
  obtain tcp c where c: "connected name = Inr (tcp, c)" "receiving tcp c" "readable (recv_buffer tcp) = []"
    "conn_role_id c = 0" "WritableSize (recv_buffer tcp) \<noteq> 0" by (rule connected_receiving)
  moreover have "partial [] ms" by (cases ms) (simp_all add: length_frame)
  ultimately show ?thesis by (intro that) (auto simp: stream_state_def reads_left_def)
qed

section \<open>Packs that cannot be received\<close>

lemma parse_oversized:
  assumes "bs @ q = be_bytes (n :: u32) @ rest" "4093 \<le> unat n" "length bs \<le> 4096"
  shows "parse_header bs = NeedMore \<or> parse_header bs = Malformed 0"
proof (cases "length bs < 4")
  case True
  then show ?thesis by (simp add: parse_header_def)
next
  case False
  have "take 4 bs = take 4 (bs @ q)" using False by simp
  also have "\<dots> = be_bytes n" by (simp add: assms(1))
  finally have "of_be_bytes (take 4 bs) = n" by simp
  moreover have "length bs < unat n + 4" using assms(2,3) by simp
  ultimately show ?thesis using False by (simp add: parse_header_def Let_def)
qed

lemma feed_oversized:
  assumes "bs @ q = be_bytes (n :: u32) @ rest" "4093 \<le> unat n" "length bs \<le> 4096"
  shows "feed reg g r bs s = Inr (r, bs, s)"
  using parse_oversized [OF assms] by (auto simp: feed.simps [of reg g r bs s])

lemma readable_after_read:
  assumes "buf_std b" "length (vec b) = 4104" "k \<le> unat (WritableSize b)"
  shows "length (readable b) + k \<le> 4096"
proof -
  have "unat (read_idx b) \<le> unat (write_idx b)" "8 \<le> unat (read_idx b)" "unat (write_idx b) \<le> 4104"
    using assms by (auto simp: buf_std_def buf_inv_def)
  moreover have "k \<le> 4104 - unat (write_idx b)" using assms by (simp add: unat_WritableSize)
  ultimately show ?thesis using assms(1) by (simp add: length_readable)
qed

definition stalled :: "u8 list \<Rightarrow> 's \<Rightarrow> u8 list \<times> TcpConnection \<times> GameConnection \<times> 's \<Rightarrow> bool" where
  "stalled bytes s0 = (\<lambda>(q, tcp, c, s).
     receiving tcp c \<and> conn_role_id c = 0 \<and> s = s0 \<and> readable (recv_buffer tcp) @ q = bytes)"

lemma stalled_step:
  assumes "stalled (be_bytes (n :: u32) @ rest) s0 x" "4093 \<le> unat n"
  obtains x' where "read_completes (on_data h reg (decoding h f)) (on_close g) j x = Inr x'"
    "stalled (be_bytes n @ rest) s0 x'"
proof -
  obtain q tcp c s where x: "x = (q, tcp, c, s)" by (cases x)
  let ?b = "recv_buffer tcp" and ?k = "min j (unat (WritableSize (recv_buffer tcp)))"
  have same: "c\<lparr>conn_role_id := conn_role_id c\<rparr> = c" by simp
  have i: "receiving tcp c" "conn_role_id c = 0" "s = s0" "readable ?b @ q = be_bytes n @ rest"
    using assms(1) by (auto simp: stalled_def x)
  show ?thesis
  proof (cases "WritableSize ?b = 0 \<or> q \<noteq> [] \<and> j \<noteq> 0")
    case False
    then have "read_completes (on_data h reg (decoding h f)) (on_close g) j x = Inr x"
      using i(1) by (auto simp: x read_completes_def receiving_def)
    then show ?thesis using that assms(1) by metis
  next
    case True
    have "length (readable ?b) + length (take ?k q) \<le> 4096"
      using i(1) by (intro readable_after_read) (simp_all add: receiving_def)
    then have len: "length (readable ?b @ take ?k q) \<le> 4096" by (simp only: length_append)
    have split: "(readable ?b @ take ?k q) @ drop ?k q = be_bytes n @ rest"
      using i(4) by (simp only: append_assoc append_take_drop_id)
    note feed_oversized [OF split assms(2) len, of reg "decoding_bytes f" "conn_role_id c" s]
    from sink.read_feeds [OF i(1) refl True this, where h = h and g = g] obtain tcp' where
      t: "read_completes (on_data h reg (decoding h f)) (on_close g) j (q, tcp, c, s) =
        Inr (drop ?k q, tcp', c, s)"
      "receiving tcp' c" "readable (recv_buffer tcp') = readable ?b @ take ?k q"
      unfolding same by blast
    have "stalled (be_bytes n @ rest) s0 (drop ?k q, tcp', c, s)"
      using i(2,3) t(2,3) split unfolding stalled_def by simp
    with t(1) that show ?thesis by (simp add: x)
  qed
qed

lemma stalled_receive:
  "stalled (be_bytes (n :: u32) @ rest) s0 x \<Longrightarrow> 4093 \<le> unat n \<Longrightarrow>
     \<exists>x'. receive h reg (decoding h f) g ns x = Inr x' \<and> stalled (be_bytes n @ rest) s0 x'"
proof (induction ns arbitrary: x)
  case (Cons j ns)
  obtain y where "read_completes (on_data h reg (decoding h f)) (on_close g) j x = Inr y"
    "stalled (be_bytes n @ rest) s0 y" by (rule stalled_step [OF Cons.prems])
  with Cons.IH [of y] Cons.prems(2) show ?case by (auto simp: receive_def)
qed (simp add: receive_def)

lemma dead_receive:
  "reading tcp = None \<Longrightarrow> receive h reg nf g ns (q, tcp, c, s) = Inr (q, tcp, c, s)"
  by (induction ns) (simp_all add: receive_def read_completes_def)

section \<open>Properties\<close>

text \<open>
  C1: functional. Reassembly: whatever sizes the reads have and however the frames are split or joined
  by them, once enough reads have completed the owner has been told the role of the first message and
  then been given exactly the messages that were sent, each once and in order; nothing is left over.
  Two reads for each byte are always enough, the one with no room in the buffer included.
\<close>

theorem stream_reassembly:
  assumes "\<forall>m \<in> set (m0 # ms). well_typed m \<and> class_of m \<noteq> CBase" "role_id (base m0) \<noteq> 0"
    "reg (role_id (base m0)) s0 = Inr s1" "rfold (\<lambda>m. f (Some m)) (m0 # ms) s1 = Inr s2"
    "0 \<notin> set ns" "2 * length (stream (m0 # ms)) \<le> length ns"
  shows "\<exists>tcp c. rbind (connected name) (\<lambda>(tcp, c).
      receive h reg (decoding h f) g ns (stream (m0 # ms), tcp, c, s0)) = Inr ([], tcp, c, s2) \<and>
    conn_role_id c = role_id (base m0) \<and> readable (recv_buffer tcp) = []"
proof -
  let ?ms = "m0 # ms"
  have d: "deliver reg (decoding_bytes f) 0 ?ms s0 = Inr (role_id (base m0), s2)"
    using deliver_first_role [OF assms(2,1), of reg f s0] assms(3,4) by simp
  obtain tcp c where c: "connected name = Inr (tcp, c)"
    "stream_state reg f s0 ?ms [] (stream ?ms, tcp, c, s0)"
    "reads_left (stream ?ms, tcp, c, s0) = 2 * length (stream ?ms)" by (rule connected_stream_state)
  have "\<forall>m \<in> set ?ms. well_typed m" using assms(1) by blast
  from receive_stream [OF c(2) this d, of h g ns] assms(5,6) c(3) obtain x' ds' where
    x: "receive h reg (decoding h f) g ns (stream ?ms, tcp, c, s0) = Inr x'"
    "stream_state reg f s0 ?ms ds' x'" "fst x' = []" by auto
  obtain tcp' c' s' where x': "x' = ([], tcp', c', s')" using x(3) by (cases x') auto
  have "ds' = ?ms" "readable (recv_buffer tcp') = []"
    using stream_state_drained [OF x(2) [unfolded x']] by simp_all
  moreover from this(1) have "conn_role_id c' = role_id (base m0)" "s' = s2"
    using x(2) d by (auto simp: stream_state_def x')
  ultimately show ?thesis using c(1) x(1) by (simp add: x')
qed

theorem stream_reassembly_witness:
  "let ms = [PingMessage (base PingMessage_new\<lparr>role_id := 7\<rparr>) 42, EnterRoomMessage (base EnterRoomMessage_new) 1 1];
     record_role = (\<lambda>r (rs, ms). Inr (r # rs, ms)); record_msg = (\<lambda>m (rs, ms). Inr (rs, ms @ [m]))
   in \<exists>tcp c. rbind (connected ''srv#1'') (\<lambda>(tcp, c).
      receive LittleEndian record_role (decoding LittleEndian record_msg) Inr (replicate 116 3) (stream ms, tcp, c, [], [])) =
        Inr ([], tcp, c, [7], map Some ms) \<and>
      conn_role_id c = 7 \<and> readable (recv_buffer tcp) = []"
proof -
  let ?m = "PingMessage (base PingMessage_new\<lparr>role_id := 7\<rparr>) 42"
  let ?e = "EnterRoomMessage (base EnterRoomMessage_new) 1 1"
  let ?reg = "\<lambda>r (rs, ms). Inr (r # rs, ms) :: (ROLE_ID list \<times> Message option list) res"
  let ?f = "\<lambda>m (rs, ms). Inr (rs, ms @ [m]) :: (ROLE_ID list \<times> Message option list) res"
  have w: "\<forall>m \<in> set [?m, ?e]. well_typed m \<and> class_of m \<noteq> CBase" "role_id (base ?m) = 7"
    by (simp_all add: well_typed_def PingMessage_new_def EnterRoomMessage_new_def BaseMessage_new_def)
  then show ?thesis
    using stream_reassembly [OF w(1), of ?reg "([], [])" "([7], [])" ?f "([7], [Some ?m, Some ?e])"
        "replicate 116 3" "''srv#1''" LittleEndian Inr]
    by (simp add: length_frame Let_def)
qed

text \<open>
  safety. At every moment, after any reads (whatever their sizes, reads that bring nothing
  included), what the owner has received is a prefix of the messages that were sent: none is lost,
  repeated, reordered or made up. The bytes not yet delivered are all still there, and fewer than those
  of one whole frame wait in the buffer. Nothing faults unless the owner does.
\<close>

theorem delivered_prefix_always:
  assumes "\<forall>m \<in> set ms. well_typed m" "deliver reg (decoding_bytes f) 0 ms s0 = Inr final"
  shows "\<exists>ds ws q tcp c s. ms = ds @ ws \<and>
    rbind (connected name) (\<lambda>(tcp, c). receive h reg (decoding h f) g ns (stream ms, tcp, c, s0)) =
      Inr (q, tcp, c, s) \<and>
    deliver reg (decoding_bytes f) 0 ds s0 = Inr (conn_role_id c, s) \<and>
    readable (recv_buffer tcp) @ q = stream ws \<and> length (readable (recv_buffer tcp)) < 29"
proof -
  obtain tcp c where c: "connected name = Inr (tcp, c)" "stream_state reg f s0 ms [] (stream ms, tcp, c, s0)"
    by (rule connected_stream_state)
  from receive_stream [OF c(2) assms, of h g ns] obtain x' ds where
    x: "receive h reg (decoding h f) g ns (stream ms, tcp, c, s0) = Inr x'" "stream_state reg f s0 ms ds x'"
    by blast
  obtain q tcp' c' s' where x': "x' = (q, tcp', c', s')" by (cases x')
  show ?thesis using x c(1) partial_small by (auto simp: x' stream_state_def)
qed

theorem delivered_prefix_always_witness:
  "\<exists>ds ws q tcp c s. [PingMessage_new] = ds @ ws \<and>
    rbind (connected ''srv#1'') (\<lambda>(tcp, c). receive LittleEndian (\<lambda>r s. Inr s) (decoding LittleEndian (\<lambda>m s. Inr (m # s))) Inr [5, 0, 3]
      (stream [PingMessage_new], tcp, c, [])) = Inr (q, tcp, c, s) \<and>
    deliver (\<lambda>r s. Inr s) (decoding_bytes (\<lambda>m s. Inr (m # s))) 0 ds [] = Inr (conn_role_id c, s) \<and>
    readable (recv_buffer tcp) @ q = stream ws \<and> length (readable (recv_buffer tcp)) < 29"
proof -
  let ?f = "\<lambda>m s. Inr (m # s) :: Message option list res"
  have w: "\<forall>m \<in> set [PingMessage_new]. well_typed m" by simp
  have "decoding_bytes ?f (base PingMessage_new) (body_bytes PingMessage_new) [] = Inr [Some PingMessage_new]"
    by (subst decoding_bytes_message) (simp_all add: PingMessage_new_def well_typed_def BaseMessage_new_def)
  then have "deliver (\<lambda>r s. Inr s) (decoding_bytes ?f) 0 [PingMessage_new] [] =
      Inr (role_id (base PingMessage_new), [Some PingMessage_new])" by (simp add: Let_def)
  from delivered_prefix_always [OF w this] show ?thesis .
qed

text \<open>
  C14: safety. A pack whose length field says 4093 or more is never delivered, although the decoder
  accepts lengths up to \<open>MAX_PACK_SIZE\<close> = 4096: the whole frame would not fit into the 4096 bytes of the
  receive buffer. Whatever bytes follow and however they arrive, the owner is never given a message,
  nothing is consumed, and the connection keeps waiting for data and is never closed.
\<close>

theorem oversized_pack_stalls_connection:
  assumes "4093 \<le> unat (n :: u32)"
  shows "\<exists>q tcp c. rbind (connected name) (\<lambda>(tcp, c).
      receive h reg (decoding h f) g ns (be_bytes n @ rest, tcp, c, s0)) = Inr (q, tcp, c, s0) \<and>
    readable (recv_buffer tcp) @ q = be_bytes n @ rest \<and> reading tcp \<noteq> None"
proof -
  obtain tcp c where c: "connected name = Inr (tcp, c)" "receiving tcp c" "readable (recv_buffer tcp) = []"
    "conn_role_id c = 0" by (rule connected_receiving)
  then have "stalled (be_bytes n @ rest) s0 (be_bytes n @ rest, tcp, c, s0)" by (simp add: stalled_def)
  from stalled_receive [OF this assms, of h reg f g ns] c(1) show ?thesis
    by (auto simp: stalled_def receiving_def)
qed

theorem oversized_pack_stalls_connection_witness:
  "\<exists>q tcp c. rbind (connected ''srv#1'') (\<lambda>(tcp, c).
      receive LittleEndian (\<lambda>r s. Inr s) (decoding LittleEndian (\<lambda>m s. Inr (m # s))) Inr [4, 17]
        (be_bytes MAX_PACK_SIZE @ header_bytes (base PingMessage_new), tcp, c, [])) = Inr (q, tcp, c, []) \<and>
    readable (recv_buffer tcp) @ q = be_bytes MAX_PACK_SIZE @ header_bytes (base PingMessage_new) \<and>
    reading tcp \<noteq> None"
  by (rule oversized_pack_stalls_connection) simp

text \<open>
  error. A read that fails ends the receiving for good: no read is outstanding afterwards and no
  later bytes reach the owner. The owner's close function is called, once, exactly for end-of-file and
  connection reset and only if it is set; every other error is silent.
\<close>

theorem failed_read_ends_receiving:
  assumes "ec \<noteq> Success"
  shows "rbind (on_read (on_data h reg nf) (on_close g) ec data tcp (c, s))
      (\<lambda>(tcp, c, s). receive h reg nf g ns (q, tcp, c, s)) =
    rbind (if (ec = Eof \<or> ec = ConnectionReset) \<and> has_conn_close_func tcp \<and> has_close_func c then g s else Inr s)
      (\<lambda>s. Inr (q, tcp\<lparr>reading := None\<rparr>, c, s))"
proof -
  have "receive h reg nf g ns (q, tcp\<lparr>reading := None\<rparr>, c, s') = Inr (q, tcp\<lparr>reading := None\<rparr>, c, s')" for s'
    by (rule dead_receive) simp
  then show ?thesis using assms
    by (auto simp: on_read_def on_close_def Let_def rbind_assoc)
qed

theorem failed_read_ends_receiving_witness:
  "rbind (connected ''srv#1'') (\<lambda>(tcp, c).
      rbind (on_read (on_data LittleEndian (\<lambda>r s. Inr s) (\<lambda>p s. Inr s)) (on_close (\<lambda>s. Inr (Suc s))) Eof [] tcp (c, 0))
      (\<lambda>(tcp, c, s). receive LittleEndian (\<lambda>r s. Inr s) (\<lambda>p s. Inr s) (\<lambda>s. Inr (Suc s)) [5, 5] ([1, 2], tcp, c, s))) =
    rbind (connected ''srv#1'') (\<lambda>(tcp, c). Inr ([1, 2], tcp\<lparr>reading := None\<rparr>, c, 1))"
proof -
  obtain tcp c where "connected ''srv#1'' = Inr (tcp, c)" "has_conn_close_func tcp" "has_close_func c"
    by (rule connected_receiving)
  then show ?thesis
    using failed_read_ends_receiving [of Eof LittleEndian "\<lambda>r s. Inr s" "\<lambda>p s. Inr s" "\<lambda>s. Inr (Suc s)" "[]"
        tcp c 0 "[5, 5]" "[1, 2]"] by simp
qed

end
