(* ===== verification/GameServer.thy ===== *)
theory GameServer
  imports Connection
begin

text \<open>
  \<^verbatim>\<open>GameServer/AsioServer.h\<close>, \<^verbatim>\<open>GameServer/GameServer.h\<close> and \<^verbatim>\<open>GameServer/GameServer.cpp\<close>: the acceptor
  with its start and stop, the maps from names and roles to connections, and their upkeep when
  connections come, tell their role and go. Objects are numbered in the order of their creation; a
  \<open>GameConnection\<close> lives as long as one of the two maps of \<open>GameServer\<close> holds it.
\<close>

section \<open>State\<close>

type_synonym conn_id = nat

record conn_object =
  tcp_conn :: TcpConnection
  game_conn :: GameConnection

text \<open>
  The fields of \<open>AsioServer\<close>, with what the \<open>io_context\<close> is doing, then those of \<open>GameServer\<close>. The
  objects ever made and the data passed to \<open>AsyncSendData\<close> are kept for the statements.
\<close>

record GameServer =
  asio_started :: bool
  server_name :: string
  port :: "16 word"
  io_stopped :: bool
  io_running :: bool
  work_guard :: bool
  listening :: bool
  tcp_connection_map :: "string \<rightharpoonup> conn_id"
  game_connection_map :: "string \<rightharpoonup> conn_id"
  role_id_conn_map :: "ROLE_ID \<rightharpoonup> conn_id"
  has_try_get_message_func :: bool
  has_on_role_disconnect_func :: bool
  has_new_msg_with_buffer_func :: bool
  objects :: "conn_object list"
  sent :: "(conn_id \<times> u8 list) list"

definition GameServer_new :: "string \<Rightarrow> 16 word \<Rightarrow> GameServer" where
  "GameServer_new name p =
     \<lparr>asio_started = False, server_name = name, port = p, io_stopped = False, io_running = False,
      work_guard = True, listening = False, tcp_connection_map = Map.empty,
      game_connection_map = Map.empty, role_id_conn_map = Map.empty, has_try_get_message_func = False,
      has_on_role_disconnect_func = False, has_new_msg_with_buffer_func = False, objects = [], sent = []\<rparr>"

section \<open>Starting, stopping and accepting\<close>

text \<open>
  \<open>Start\<close> arms the acceptor and runs the \<open>io_context\<close>, which returns at once if it has been stopped.
  A signal and \<open>Stop\<close> both stop it. \<open>started_\<close> is never cleared.
\<close>

definition Asio_Start :: "GameServer \<Rightarrow> GameServer" where
  "Asio_Start s =
     (if asio_started s then s
      else s\<lparr>asio_started := True, listening := True, io_running := \<not> io_stopped s\<rparr>)"

definition Asio_Stop :: "GameServer \<Rightarrow> GameServer" where
  "Asio_Stop s = s\<lparr>work_guard := False, io_stopped := True, io_running := False\<rparr>"

definition Asio_signal :: "GameServer \<Rightarrow> GameServer" where
  "Asio_signal s = s\<lparr>io_stopped := True, io_running := False\<rparr>"

text \<open>
  \<open>OnNewTcpConnection\<close> of \<open>GameServer\<close> for the object whose number is \<open>length (objects s)\<close>. \<open>insert\<close>
  leaves an entry that is already there.
\<close>

definition OnNewTcpConnection :: "TcpConnection \<Rightarrow> GameServer \<Rightarrow> GameServer" where
  "OnNewTcpConnection connection s =
     (let i = length (objects s);
          (connection, c) = GameConnection_new connection;
          c = SetOnNewMsgWithBufferFunc (has_new_msg_with_buffer_func s) c;
          c = SetRegisterFunc True c;
          name = GetConnectionName c;
          s = s\<lparr>game_connection_map := (case game_connection_map s name of
                Some j \<Rightarrow> game_connection_map s | None \<Rightarrow> (game_connection_map s)(name \<mapsto> i))\<rparr>;
          c = SetOnGameConnCloseFunc True c;
          (c, connection) = StartRecvData c connection
      in s\<lparr>objects := objects s @ [\<lparr>tcp_conn = connection, game_conn = c\<rparr>]\<rparr>)"

text \<open>
  \<open>OnNewClient\<close>: the remote endpoint is \<open>None\<close> when asking for it throws; the exception is caught.
\<close>

definition OnNewClient :: "string option \<Rightarrow> GameServer \<Rightarrow> GameServer res" where
  "OnNewClient remote_endpoint s =
     (case remote_endpoint of
        None \<Rightarrow> Inr s
      | Some ep \<Rightarrow>
          rbind TcpConnection_new (\<lambda>connection.
          let connection_name = server_name s @ ''#'' @ ep;
              connection = SetConnectionName connection_name connection;
              s = s\<lparr>tcp_connection_map := (tcp_connection_map s)(connection_name \<mapsto> length (objects s))\<rparr>
          in Inr (OnNewTcpConnection connection s)))"

text \<open>The handler of \<open>Listener\<close>, which accepts again whatever the result.\<close>

definition Listener_handler :: "error_code \<Rightarrow> string option \<Rightarrow> GameServer \<Rightarrow> GameServer res" where
  "Listener_handler ec remote_endpoint s =
     rbind (if ec = Success then OnNewClient remote_endpoint s else Inr s) (\<lambda>s. Inr (s\<lparr>listening := True\<rparr>))"

section \<open>Roles\<close>

definition AddConnToRoleMap :: "ROLE_ID \<Rightarrow> conn_id \<Rightarrow> GameServer \<Rightarrow> GameServer" where
  "AddConnToRoleMap r i s = s\<lparr>role_id_conn_map := (role_id_conn_map s)(r \<mapsto> i)\<rparr>"

text \<open>\<open>SendMessageById\<close>: the server, and the line it logs for an unknown role.\<close>

definition SendMessageById :: "ROLE_ID \<Rightarrow> u8 list \<Rightarrow> GameServer \<Rightarrow> GameServer \<times> string option" where
  "SendMessageById r data s =
     (case role_id_conn_map s r of
        Some i \<Rightarrow> (s\<lparr>sent := sent s @ [(i, data)]\<rparr>, None)
      | None \<Rightarrow> (s, Some (''unknown role_id: '' @ to_string_i32 r)))"

datatype close_result = RoleNotExist | ConnNotExist | Closed string ROLE_ID

text \<open>\<open>OnConnectionClose\<close>: the server, the role its owner's function is called with, and the outcome.\<close>

definition OnConnectionClose :: "GameConnection \<Rightarrow> GameServer \<Rightarrow>
    GameServer \<times> ROLE_ID option \<times> close_result" where
  "OnConnectionClose connection s =
     (let role = GetRoleId connection; name = GetConnectionName connection in
      case role_id_conn_map s role of
        None \<Rightarrow> (s, None, RoleNotExist)
      | Some j \<Rightarrow>
          let s = s\<lparr>role_id_conn_map := (role_id_conn_map s)(role := None)\<rparr> in
          (case game_connection_map s name of
             None \<Rightarrow> (s, None, ConnNotExist)
           | Some j \<Rightarrow>
               (s\<lparr>game_connection_map := (game_connection_map s)(name := None)\<rparr>,
                if has_on_role_disconnect_func s then Some role else None, Closed name role)))"

definition SetTryGetMessageFunc :: "bool \<Rightarrow> GameServer \<Rightarrow> GameServer" where
  "SetTryGetMessageFunc f s = s\<lparr>has_try_get_message_func := f\<rparr>"

definition Server_SetOnNewMsgWithBufferFunc :: "bool \<Rightarrow> GameServer \<Rightarrow> GameServer" where
  "Server_SetOnNewMsgWithBufferFunc f s = s\<lparr>has_new_msg_with_buffer_func := f\<rparr>"

definition SetOnRoleDisconnectFunc :: "bool \<Rightarrow> GameServer \<Rightarrow> GameServer" where
  "SetOnRoleDisconnectFunc f s = s\<lparr>has_on_role_disconnect_func := f\<rparr>"

section \<open>The handlers of a connection's reads\<close>

text \<open>A \<open>GameConnection\<close> exists while a map holds it; the handlers of its socket use it regardless.\<close>

definition alive :: "GameServer \<Rightarrow> conn_id \<Rightarrow> bool" where
  "alive s i \<longleftrightarrow> i \<in> ran (game_connection_map s) \<or> i \<in> ran (role_id_conn_map s)"

definition set_object :: "conn_id \<Rightarrow> conn_object \<Rightarrow> GameServer \<Rightarrow> GameServer" where
  "set_object i x s = s\<lparr>objects := (objects s)[i := x]\<rparr>"

text \<open>
  The completion handler of the \<open>i\<close>-th connection's read, on a state \<open>'s\<close> that holds the server:
  \<open>get\<close> and \<open>put\<close> access it, \<open>nf\<close> is the owner's function for messages and \<open>df\<close> the one for a role that
  is gone. The functions the connection calls are those \<open>OnNewTcpConnection\<close> has registered.
\<close>

definition server_on_read :: "('s \<Rightarrow> GameServer) \<Rightarrow> (GameServer \<Rightarrow> 's \<Rightarrow> 's) \<Rightarrow> endian \<Rightarrow> 's new_msg_func \<Rightarrow>
    (ROLE_ID \<Rightarrow> 's \<Rightarrow> 's res) \<Rightarrow> conn_id \<Rightarrow> error_code \<Rightarrow> u8 list \<Rightarrow> 's \<Rightarrow> 's res" where
  "server_on_read get put h nf df i ec data s =
     (if length (objects (get s)) \<le> i then Inl UseAfterFree
      else
      let x = objects (get s) ! i;
          reg = (\<lambda>r s. Inr (put (AddConnToRoleMap r i (get s)) s));
          close = (\<lambda>s. let (g, gone, res) = OnConnectionClose (game_conn x) (get s) in
                    case gone of None \<Rightarrow> Inr (put g s) | Some r \<Rightarrow> df r (put g s));
          touches = (ec = Success \<or> ec = Eof \<or> ec = ConnectionReset)
      in
      rbind (check (touches \<longrightarrow> alive (get s) i) UseAfterFree) (\<lambda>_.
      rbind (on_read (on_data h reg nf) (on_close close) ec data (tcp_conn x) (game_conn x, s)) (\<lambda>(t, c, s).
      Inr (put (set_object i \<lparr>tcp_conn = t, game_conn = c\<rparr> (get s)) s))))"

section \<open>Runs of the server\<close>

text \<open>
  The server alone: connections are accepted, their reads complete with data or an error, and messages
  are sent. What its owner does with messages and disconnections does not change the server.
\<close>

datatype server_event = Accept string | Read conn_id error_code "u8 list" | Send ROLE_ID "u8 list"

definition read_alone :: "endian \<Rightarrow> conn_id \<Rightarrow> error_code \<Rightarrow> u8 list \<Rightarrow> GameServer \<Rightarrow> GameServer res" where
  "read_alone h = server_on_read (\<lambda>s. s) (\<lambda>g s. g) h (\<lambda>p s. Inr s) (\<lambda>r s. Inr s)"

inductive server_step :: "endian \<Rightarrow> GameServer \<Rightarrow> server_event \<Rightarrow> GameServer \<Rightarrow> bool" for h where
  accept: "OnNewClient (Some ep) s = Inr s' \<Longrightarrow> server_step h s (Accept ep) s'"
| read: "i < length (objects s) \<Longrightarrow> reading (tcp_conn (objects s ! i)) \<noteq> None \<Longrightarrow>
    read_alone h i ec data s = Inr s' \<Longrightarrow> server_step h s (Read i ec data) s'"
| send: "SendMessageById r data s = (s', line) \<Longrightarrow> server_step h s (Send r data) s'"

inductive_cases server_step_Accept [elim]: "server_step h s (Accept ep) s'"
inductive_cases server_step_Read [elim]: "server_step h s (Read i ec data) s'"
inductive_cases server_step_Send [elim]: "server_step h s (Send r data) s'"

abbreviation name_of :: "GameServer \<Rightarrow> conn_id \<Rightarrow> string" where
  "name_of s i \<equiv> connection_name (game_conn (objects s ! i))"

abbreviation role_of :: "GameServer \<Rightarrow> conn_id \<Rightarrow> ROLE_ID" where
  "role_of s i \<equiv> conn_role_id (game_conn (objects s ! i))"

abbreviation waiting :: "GameServer \<Rightarrow> conn_id \<Rightarrow> bool" where
  "waiting s i \<equiv> i < length (objects s) \<and> reading (tcp_conn (objects s ! i)) \<noteq> None"

subsection \<open>What a step does to the maps\<close>

lemma OnNewClient_eq:
  obtains x where "OnNewClient (Some ep) s = Inr (s\<lparr>
      tcp_connection_map := (tcp_connection_map s)(server_name s @ ''#'' @ ep \<mapsto> length (objects s)),
      game_connection_map := (case game_connection_map s (server_name s @ ''#'' @ ep) of
        Some j \<Rightarrow> game_connection_map s
      | None \<Rightarrow> (game_connection_map s)(server_name s @ ''#'' @ ep \<mapsto> length (objects s))),
      objects := objects s @ [x]\<rparr>)"
    "connection_name (game_conn x) = server_name s @ ''#'' @ ep" "conn_role_id (game_conn x) = 0"
    "reading (tcp_conn x) \<noteq> None" "has_conn_close_func (tcp_conn x)" "has_close_func (game_conn x)"
    "has_register_func (game_conn x)" "has_new_data_func (tcp_conn x)"
    "has_new_msg_with_buffer_func s \<Longrightarrow> receiving (tcp_conn x) (game_conn x)"
    "readable (recv_buffer (tcp_conn x)) = []" "unat (WritableSize (recv_buffer (tcp_conn x))) = 4096"
proof -
  obtain b where b: "Buffer_new DEFAULT_BUFFER_SIZE = Inr b" "buf_std b" "readable b = []"
    "length (vec b) = 4104" "read_idx b = IDX_BEGIN" "write_idx b = IDX_BEGIN" by (rule DefaultBuffer_std)
  moreover have "unat (WritableSize b) = 4096" using b by (simp add: unat_WritableSize)
  ultimately show ?thesis
    by (intro that) (auto simp: receiving_def OnNewClient_def OnNewTcpConnection_def TcpConnection_new_def GameConnection_new_def
        StartRecvData_def SetConnectionName_def SetRegisterFunc_def SetOnNewMsgWithBufferFunc_def
        SetOnGameConnCloseFunc_def SetOnNewDataFunc_def SetOnConnCloseFunc_def AsyncWaitData_def
        GetConnectionName_def Tcp_GetConnectionName_def Let_def split: option.splits)
qed

text \<open>A read that succeeds may enter the connection's role, and nothing else, into the map of roles.\<close>

definition roles_entered :: "conn_id \<Rightarrow> ROLE_ID \<Rightarrow> ROLE_ID \<Rightarrow> (ROLE_ID \<rightharpoonup> conn_id) \<Rightarrow> (ROLE_ID \<rightharpoonup> conn_id) \<Rightarrow> bool" where
  "roles_entered i r0 r m m' \<longleftrightarrow> (r0 \<noteq> 0 \<longrightarrow> r = r0) \<and> (m' 0 = m 0 \<or> m' 0 = Some i) \<and>
     (\<forall>k. k \<noteq> 0 \<longrightarrow> m' k = (if r0 = 0 \<and> k = r then Some i else m k))"

lemma read_data_effect:
  assumes "read_alone h i Success data s = Inr s'" "i < length (objects s)"
    "has_register_func (game_conn (objects s ! i))"
  obtains x m where "s' = s\<lparr>role_id_conn_map := m, objects := (objects s)[i := x]\<rparr>"
    "roles_entered i (role_of s i) (conn_role_id (game_conn x)) (role_id_conn_map s) m"
    "game_conn x = (game_conn (objects s ! i))\<lparr>conn_role_id := conn_role_id (game_conn x)\<rparr>"
    "reading (tcp_conn x) \<noteq> None" "alive s i"
    "has_conn_close_func (tcp_conn x) = has_conn_close_func (tcp_conn (objects s ! i))"
proof -
  let ?o = "objects s ! i"
  let ?c = "game_conn ?o" and ?reg = "\<lambda>r s. Inr (AddConnToRoleMap r i s) :: GameServer res"
  let ?P = "\<lambda>r s1. \<exists>m. s1 = s\<lparr>role_id_conn_map := m\<rparr> \<and> roles_entered i (role_of s i) r (role_id_conn_map s) m"
  obtain close t c s1 where r: "on_read (on_data h ?reg (\<lambda>p s. Inr s)) (on_close close) Success data (tcp_conn ?o) (?c, s) =
      Inr (t, c, s1)" "s' = set_object i \<lparr>tcp_conn = t, game_conn = c\<rparr> s1" and al: "alive s i"
    using assms(1,2) by (auto simp: read_alone_def server_on_read_def Let_def rbind_simps split: if_splits)
  have t: "reading t \<noteq> None" "has_conn_close_func t = has_conn_close_func (tcp_conn ?o)"
    using r(1) by (auto simp: on_read_def AsyncWaitData_def Let_def rbind_simps split: if_splits)
  have base: "?P (conn_role_id ?c) s" by (intro exI [of _ "role_id_conn_map s"]) (simp add: roles_entered_def)
  have "?P (conn_role_id c) s1 \<and> c = ?c\<lparr>conn_role_id := conn_role_id c\<rparr>"
  proof (cases "has_new_data_func (tcp_conn ?o)")
    case False
    then show ?thesis using r(1) base by (auto simp: on_read_def Let_def rbind_simps split: if_splits)
  next
    case True
    then obtain b b' where o: "OnNewData h ?reg (\<lambda>p s. Inr s) ?c b s = Inr (c, b', s1)"
      using r(1) by (auto simp: on_read_def on_data_def Let_def rbind_simps split: if_splits)
    show ?thesis
    proof (rule OnNewData_inv [OF o, where P = ?P, OF base _ _ assms(3)])
      fix r s2 s3
      assume "?P 0 s2" "?reg r s2 = Inr s3"
      then obtain m where m: "s2 = s\<lparr>role_id_conn_map := m\<rparr>" "roles_entered i (role_of s i) 0 (role_id_conn_map s) m"
        "s3 = AddConnToRoleMap r i s2" by auto
      show "?P r s3"
        by (rule exI [of _ "m(r \<mapsto> i)"]) (use m in \<open>auto simp: AddConnToRoleMap_def roles_entered_def\<close>)
    qed auto
  qed
  then obtain m where "s1 = s\<lparr>role_id_conn_map := m\<rparr>"
    "roles_entered i (role_of s i) (conn_role_id c) (role_id_conn_map s) m" "c = ?c\<lparr>conn_role_id := conn_role_id c\<rparr>"
    by blast
  then show ?thesis using r(2) t al
    by (intro that [of "\<lparr>tcp_conn = t, game_conn = c\<rparr>" m]) (simp_all add: set_object_def)
qed

lemma read_error_effect:
  assumes "read_alone h i ec data s = Inr s'" "i < length (objects s)" "ec \<noteq> Success"
  defines "x \<equiv> objects s ! i"
  shows "s' = set_object i \<lparr>tcp_conn = (tcp_conn x)\<lparr>reading := None\<rparr>, game_conn = game_conn x\<rparr>
    (if (ec = Eof \<or> ec = ConnectionReset) \<and> has_conn_close_func (tcp_conn x) \<and> has_close_func (game_conn x)
     then fst (OnConnectionClose (game_conn x) s) else s)"
  using assms
  by (auto simp: read_alone_def server_on_read_def on_read_def on_close_def Let_def rbind_simps split_def
      split: if_splits option.splits)

lemma OnConnectionClose_maps:
  obtains m m' where
    "fst (OnConnectionClose c s) = s\<lparr>game_connection_map := m, role_id_conn_map := m'\<rparr>"
    "m \<subseteq>\<^sub>m game_connection_map s" "m' \<subseteq>\<^sub>m role_id_conn_map s"
    "\<And>n. n \<noteq> connection_name c \<Longrightarrow> m n = game_connection_map s n"
proof -
  have "\<exists>m m'. fst (OnConnectionClose c s) = s\<lparr>game_connection_map := m, role_id_conn_map := m'\<rparr> \<and>
      m \<subseteq>\<^sub>m game_connection_map s \<and> m' \<subseteq>\<^sub>m role_id_conn_map s \<and>
      (\<forall>n. n \<noteq> connection_name c \<longrightarrow> m n = game_connection_map s n)"
  proof (cases "role_id_conn_map s (conn_role_id c)")
    case None
    then show ?thesis
      by (intro exI [of _ "game_connection_map s"] exI [of _ "role_id_conn_map s"])
        (simp add: OnConnectionClose_def GetRoleId_def Let_def)
  next
    case (Some j)
    let ?m' = "(role_id_conn_map s)(conn_role_id c := None)"
    have m': "?m' \<subseteq>\<^sub>m role_id_conn_map s" by (simp add: map_le_def)
    show ?thesis
    proof (cases "game_connection_map s (connection_name c)")
      case None
      then show ?thesis using Some m'
        by (intro exI [of _ "game_connection_map s"] exI [of _ ?m'])
          (simp add: OnConnectionClose_def GetRoleId_def GetConnectionName_def Let_def)
    next
      case (Some k)
      then show ?thesis using \<open>role_id_conn_map s (conn_role_id c) = _\<close> m'
        by (intro exI [of _ "(game_connection_map s)(connection_name c := None)"] exI [of _ ?m'])
          (simp add: OnConnectionClose_def GetRoleId_def GetConnectionName_def Let_def map_le_def)
    qed
  qed
  then show ?thesis using that by blast
qed

subsection \<open>Invariant\<close>

text \<open>
  The entries of both maps are connections that fit them: a name leads to the connection of that name,
  and a role other than 0 to a connection that has told this role.
\<close>

definition server_inv :: "GameServer \<Rightarrow> bool" where
  "server_inv s \<longleftrightarrow>
     (\<forall>n i. game_connection_map s n = Some i \<longrightarrow> i < length (objects s) \<and> name_of s i = n) \<and>
     (\<forall>r i. role_id_conn_map s r = Some i \<longrightarrow> i < length (objects s) \<and> (r = 0 \<or> role_of s i = r)) \<and>
     (\<forall>i < length (objects s). has_register_func (game_conn (objects s ! i)))"

lemma server_inv_name: "server_inv s \<Longrightarrow> game_connection_map s n = Some i \<Longrightarrow> i < length (objects s) \<and> name_of s i = n"
  by (simp add: server_inv_def)

lemma server_inv_role:
  "server_inv s \<Longrightarrow> role_id_conn_map s r = Some i \<Longrightarrow> i < length (objects s) \<and> (r = 0 \<or> role_of s i = r)"
  by (simp add: server_inv_def)

lemma server_inv_step:
  assumes "server_inv s" "server_step h s e s'"
  shows "server_inv s'"
  using assms(2)
proof cases
  case (accept ep)
  obtain x where x: "s' = s\<lparr>
      tcp_connection_map := (tcp_connection_map s)(server_name s @ ''#'' @ ep \<mapsto> length (objects s)),
      game_connection_map := (case game_connection_map s (server_name s @ ''#'' @ ep) of
        Some j \<Rightarrow> game_connection_map s
      | None \<Rightarrow> (game_connection_map s)(server_name s @ ''#'' @ ep \<mapsto> length (objects s))),
      objects := objects s @ [x]\<rparr>" "connection_name (game_conn x) = server_name s @ ''#'' @ ep"
    "has_register_func (game_conn x)"
    by (rule OnNewClient_eq [of ep s]) (use accept(2) in auto)
  show ?thesis
    using assms(1) x(2,3) unfolding x(1) server_inv_def
    by (auto simp: nth_append less_Suc_eq split: option.splits if_splits)
next
  case (read i ec data)
  have rf: "has_register_func (game_conn (objects s ! i))" using assms(1) read(2) by (simp add: server_inv_def)
  show ?thesis
  proof (cases "ec = Success")
    case True
    with read obtain x m where x: "s' = s\<lparr>role_id_conn_map := m, objects := (objects s)[i := x]\<rparr>"
      "roles_entered i (role_of s i) (conn_role_id (game_conn x)) (role_id_conn_map s) m"
      "game_conn x = (game_conn (objects s ! i))\<lparr>conn_role_id := conn_role_id (game_conn x)\<rparr>"
      using read_data_effect [of h i data s s'] rf by metis
    have nm: "connection_name (game_conn x) = name_of s i" "has_register_func (game_conn x)"
      using rf by (subst x(3), simp)+
    have role: "k < length (objects s) \<and> (r = 0 \<or> conn_role_id (game_conn ((objects s)[i := x] ! k)) = r)"
      if "m r = Some k" for r k
    proof (cases "role_id_conn_map s r = Some k")
      case True
      with server_inv_role [OF assms(1)] have "k < length (objects s)" "r = 0 \<or> role_of s k = r" by auto
      then show ?thesis using x(2) read(2) by (cases "k = i") (auto simp: roles_entered_def)
    next
      case False
      have "m r = role_id_conn_map s r \<or> m r = Some i \<and> (r = 0 \<or> r = conn_role_id (game_conn x))"
        using x(2) unfolding roles_entered_def by (cases "r = 0") (auto split: if_splits)
      with False that have "k = i" "r = 0 \<or> r = conn_role_id (game_conn x)" by auto
      then show ?thesis using read(2) by auto
    qed
    have "name_of s' k = name_of s k" if "k < length (objects s)" for k
      using that nm read(2) by (cases "k = i") (simp_all add: x(1))
    moreover have "has_register_func (game_conn (objects s' ! k))" if "k < length (objects s)" for k
      using that nm read(2) assms(1) by (cases "k = i") (simp_all add: x(1) server_inv_def)
    ultimately show ?thesis
      using assms(1) role by (simp add: server_inv_def x(1))
  next
    case False
    define x where "x = \<lparr>tcp_conn = (tcp_conn (objects s ! i))\<lparr>reading := None\<rparr>, game_conn = game_conn (objects s ! i)\<rparr>"
    obtain m m' where m: "m \<subseteq>\<^sub>m game_connection_map s" "m' \<subseteq>\<^sub>m role_id_conn_map s"
      "s' = s\<lparr>game_connection_map := m, role_id_conn_map := m', objects := (objects s)[i := x]\<rparr>"
    proof (cases "(ec = Eof \<or> ec = ConnectionReset) \<and> has_conn_close_func (tcp_conn (objects s ! i)) \<and>
        has_close_func (game_conn (objects s ! i))")
      case True
      obtain m m' where "fst (OnConnectionClose (game_conn (objects s ! i)) s) =
          s\<lparr>game_connection_map := m, role_id_conn_map := m'\<rparr>"
        "m \<subseteq>\<^sub>m game_connection_map s" "m' \<subseteq>\<^sub>m role_id_conn_map s" by (rule OnConnectionClose_maps)
      with that [of m m'] True read_error_effect [OF read(4,2) False] show ?thesis
        by (simp add: x_def set_object_def)
    next
      case f: False
      with that [of "game_connection_map s" "role_id_conn_map s"] read_error_effect [OF read(4,2) False]
      show ?thesis by (auto simp: x_def set_object_def)
    qed
    have g: "game_conn ((objects s)[i := x] ! k) = game_conn (objects s ! k)" if "k < length (objects s)" for k
      using that read(2) by (cases "k = i") (simp_all add: x_def)
    have "k < length (objects s) \<and> connection_name (game_conn ((objects s)[i := x] ! k)) = n" if "m n = Some k" for n k
    proof -
      have "game_connection_map s n = Some k" using m(1) that by (metis domI map_le_def)
      from server_inv_name [OF assms(1) this] g show ?thesis by simp
    qed
    moreover have "k < length (objects s) \<and> (r = 0 \<or> conn_role_id (game_conn ((objects s)[i := x] ! k)) = r)"
      if "m' r = Some k" for r k
    proof -
      have "role_id_conn_map s r = Some k" using m(2) that by (metis domI map_le_def)
      from server_inv_role [OF assms(1) this] g show ?thesis by simp
    qed
    moreover have "has_register_func (game_conn ((objects s)[i := x] ! k))" if "k < length (objects s)" for k
      using assms(1) that g [OF that] by (simp add: server_inv_def)
    ultimately show ?thesis by (simp add: m(3) server_inv_def)
  qed
next
  case (send r data line)
  then have "s' = s \<or> (\<exists>x. s' = s\<lparr>sent := x\<rparr>)" by (auto simp: SendMessageById_def split: option.splits)
  moreover have "server_inv (s\<lparr>sent := x\<rparr>)" for x using assms(1) by (simp add: server_inv_def)
  ultimately show ?thesis using assms(1) by auto
qed

text \<open>
  A connection that still waits for data is the entry of its name: so it is alive. This needs that no
  connection is accepted under a name that is still in the map.
\<close>

definition waiting_alive :: "GameServer \<Rightarrow> bool" where
  "waiting_alive s \<longleftrightarrow> (\<forall>i. waiting s i \<longrightarrow> game_connection_map s (name_of s i) = Some i)"

fun fresh_name :: "GameServer \<Rightarrow> server_event \<Rightarrow> bool" where
  "fresh_name s (Accept ep) = (game_connection_map s (server_name s @ ''#'' @ ep) = None)"
| "fresh_name s _ = True"

lemma waiting_alive_step:
  assumes "server_inv s" "waiting_alive s" "server_step h s e s'" "fresh_name s e"
  shows "waiting_alive s'"
  using assms(3)
proof cases
  case (accept ep)
  let ?n = "server_name s @ ''#'' @ ep"
  obtain x where x: "s' = s\<lparr>
      tcp_connection_map := (tcp_connection_map s)(?n \<mapsto> length (objects s)),
      game_connection_map := (case game_connection_map s ?n of
        Some j \<Rightarrow> game_connection_map s
      | None \<Rightarrow> (game_connection_map s)(?n \<mapsto> length (objects s))),
      objects := objects s @ [x]\<rparr>" "connection_name (game_conn x) = ?n"
    by (rule OnNewClient_eq [of ep s]) (use accept(2) in auto)
  have f: "game_connection_map s ?n = None" using assms(4) accept(1) by simp
  show ?thesis
    using assms(2) x(2) f unfolding x(1) waiting_alive_def
    by (auto simp: nth_append less_Suc_eq)
next
  case (read i ec data)
  have rf: "has_register_func (game_conn (objects s ! i))" using assms(1) read(2) by (simp add: server_inv_def)
  have wi: "game_connection_map s (name_of s i) = Some i" using assms(2) read(2,3) by (simp add: waiting_alive_def)
  show ?thesis
  proof (cases "ec = Success")
    case True
    with read obtain x m where x: "s' = s\<lparr>role_id_conn_map := m, objects := (objects s)[i := x]\<rparr>"
      "game_conn x = (game_conn (objects s ! i))\<lparr>conn_role_id := conn_role_id (game_conn x)\<rparr>"
      using read_data_effect [of h i data s s'] rf by metis
    have nm: "connection_name (game_conn x) = name_of s i" by (subst x(2)) simp
    have "game_connection_map s (name_of s' k) = Some k" if "waiting s' k" for k
      using that nm wi assms(2) read(2) by (cases "k = i") (simp_all add: x(1) waiting_alive_def)
    then show ?thesis by (simp add: waiting_alive_def x(1))
  next
    case False
    define x where "x = \<lparr>tcp_conn = (tcp_conn (objects s ! i))\<lparr>reading := None\<rparr>, game_conn = game_conn (objects s ! i)\<rparr>"
    obtain m m' where m: "\<And>n. n \<noteq> name_of s i \<Longrightarrow> m n = game_connection_map s n"
      "s' = s\<lparr>game_connection_map := m, role_id_conn_map := m', objects := (objects s)[i := x]\<rparr>"
    proof (cases "(ec = Eof \<or> ec = ConnectionReset) \<and> has_conn_close_func (tcp_conn (objects s ! i)) \<and>
        has_close_func (game_conn (objects s ! i))")
      case True
      obtain m m' where "fst (OnConnectionClose (game_conn (objects s ! i)) s) =
          s\<lparr>game_connection_map := m, role_id_conn_map := m'\<rparr>"
        "\<And>n. n \<noteq> name_of s i \<Longrightarrow> m n = game_connection_map s n"
        using OnConnectionClose_maps [of "game_conn (objects s ! i)" s] by metis
      with that [of m m'] True read_error_effect [OF read(4,2) False] show ?thesis
        by (simp add: x_def set_object_def)
    next
      case f: False
      with that [of "game_connection_map s" "role_id_conn_map s"] read_error_effect [OF read(4,2) False]
      show ?thesis by (auto simp: x_def set_object_def)
    qed
    have "m (name_of s' k) = Some k" if w: "waiting s' k" for k
    proof -
      have k: "k \<noteq> i" "k < length (objects s)" using w read(2) by (auto simp: m(2) x_def)
      then have "waiting s k" using w by (simp add: m(2))
      then have wk: "game_connection_map s (name_of s k) = Some k" using assms(2) by (simp add: waiting_alive_def)
      then have "name_of s k \<noteq> name_of s i" using wi k(1) by auto
      then show ?thesis using wk m(1) k by (simp add: m(2))
    qed
    then show ?thesis by (simp add: waiting_alive_def m(2))
  qed
next
  case (send r data line)
  then show ?thesis
    using assms(2) by (auto simp: SendMessageById_def waiting_alive_def split: option.splits)
qed

text \<open>Steps in which every accepted connection has a name that is free.\<close>

definition fresh_step :: "endian \<Rightarrow> GameServer \<Rightarrow> server_event \<Rightarrow> GameServer \<Rightarrow> bool" where
  "fresh_step h s e s' \<longleftrightarrow> server_step h s e s' \<and> fresh_name s e"

definition no_connections :: "GameServer \<Rightarrow> bool" where
  "no_connections s \<longleftrightarrow> game_connection_map s = Map.empty \<and> role_id_conn_map s = Map.empty \<and> objects s = []"

lemma no_connections_inv: "no_connections s \<Longrightarrow> server_inv s \<and> waiting_alive s"
  by (simp add: no_connections_def server_inv_def waiting_alive_def)

interpretation server_maps: trace_invariant "server_step h" no_connections "\<lambda>es. server_inv" for h
  using no_connections_inv by unfold_locales (blast intro: server_inv_step)+

interpretation fresh_names: trace_invariant "fresh_step h" no_connections "\<lambda>es s. server_inv s \<and> waiting_alive s" for h
  using no_connections_inv by unfold_locales
    (auto simp: fresh_step_def elim: server_inv_step waiting_alive_step)

subsection \<open>Closing\<close>

lemma read_error_runs:
  assumes "i < length (objects s)" "alive s i" "ec = Eof \<or> ec = ConnectionReset"
    "has_conn_close_func (tcp_conn (objects s ! i))" "has_close_func (game_conn (objects s ! i))"
  shows "read_alone h i ec data s =
    Inr (set_object i \<lparr>tcp_conn = (tcp_conn (objects s ! i))\<lparr>reading := None\<rparr>, game_conn = game_conn (objects s ! i)\<rparr>
      (fst (OnConnectionClose (game_conn (objects s ! i)) s)))"
  using assms
  by (auto simp: read_alone_def server_on_read_def on_read_def on_close_def Let_def split_def split: option.splits)

subsection \<open>Where the data of a role go\<close>

text \<open>
  What a step tells about roles: a connection whose first message with a role other than 0 has come, and
  one of some role that the other side closes. The owner of a role is the last that told it, until a
  connection of that role is closed.
\<close>

datatype role_note = Told ROLE_ID conn_id | Closing ROLE_ID

fun role_notes :: "GameServer \<Rightarrow> server_event \<Rightarrow> GameServer \<Rightarrow> role_note list" where
  "role_notes s (Read i ec data) s' =
     (if ec = Success then if role_of s i = 0 \<and> role_of s' i \<noteq> 0 then [Told (role_of s' i) i] else []
      else if ec = Eof \<or> ec = ConnectionReset then [Closing (role_of s i)]
      else [])"
| "role_notes s e s' = []"

fun owner_after :: "(ROLE_ID \<rightharpoonup> conn_id) \<Rightarrow> role_note \<Rightarrow> (ROLE_ID \<rightharpoonup> conn_id)" where
  "owner_after m (Told r i) = m(r \<mapsto> i)"
| "owner_after m (Closing r) = m(r := None)"

definition owner_of_role :: "role_note list \<Rightarrow> (ROLE_ID \<rightharpoonup> conn_id)" where
  "owner_of_role ns = foldl owner_after Map.empty ns"

definition noted_step :: "endian \<Rightarrow> GameServer \<Rightarrow> role_note list \<Rightarrow> GameServer \<Rightarrow> bool" where
  "noted_step h s ns s' \<longleftrightarrow> (\<exists>e. server_step h s e s' \<and> ns = role_notes s e s')"

definition role_inv :: "role_note list list \<Rightarrow> GameServer \<Rightarrow> bool" where
  "role_inv ns s \<longleftrightarrow> server_inv s \<and>
     (\<forall>i < length (objects s). has_conn_close_func (tcp_conn (objects s ! i)) \<and> has_close_func (game_conn (objects s ! i))) \<and>
     (\<forall>r. r \<noteq> 0 \<longrightarrow> role_id_conn_map s r = owner_of_role (concat ns) r)"

lemma owner_of_role_simps [simp]:
  "owner_of_role [] = Map.empty" "owner_of_role (ns @ [n]) = owner_after (owner_of_role ns) n"
  by (simp_all add: owner_of_role_def)

lemma OnConnectionClose_roles:
  "role_id_conn_map (fst (OnConnectionClose c s)) = (role_id_conn_map s)(conn_role_id c := None)"
  by (auto simp: OnConnectionClose_def GetRoleId_def GetConnectionName_def Let_def split: option.splits)

lemma OnConnectionClose_objects: "objects (fst (OnConnectionClose c s)) = objects s"
  by (auto simp: OnConnectionClose_def GetRoleId_def GetConnectionName_def Let_def split: option.splits)

lemma role_inv_step:
  assumes inv: "role_inv nss s" and step: "server_step h s e s'"
  shows "role_inv (nss @ [role_notes s e s']) s'"
proof -
  have si: "server_inv s'" using server_inv_step [OF _ step] inv by (simp add: role_inv_def)
  have fl: "has_conn_close_func (tcp_conn (objects s ! i))" "has_close_func (game_conn (objects s ! i))"
    if "i < length (objects s)" for i using inv that by (simp_all add: role_inv_def)
  have m: "role_id_conn_map s r = owner_of_role (concat nss) r" if "r \<noteq> 0" for r using inv that by (simp add: role_inv_def)
  from step show ?thesis
  proof cases
    case (accept ep)
    obtain x where x: "OnNewClient (Some ep) s = Inr s'" "role_id_conn_map s' = role_id_conn_map s"
      "objects s' = objects s @ [x]" "has_conn_close_func (tcp_conn x)" "has_close_func (game_conn x)"
      by (rule OnNewClient_eq [of ep s]) (use accept(2) in auto)
    then show ?thesis using inv si accept(1) by (auto simp: role_inv_def nth_append less_Suc_eq)
  next
    case (read i ec data)
    show ?thesis
    proof (cases "ec = Success")
      case True
      have rf: "has_register_func (game_conn (objects s ! i))" using inv read(2) by (simp add: role_inv_def server_inv_def)
      from read True obtain x m' where x: "s' = s\<lparr>role_id_conn_map := m', objects := (objects s)[i := x]\<rparr>"
        "roles_entered i (role_of s i) (conn_role_id (game_conn x)) (role_id_conn_map s) m'"
        "game_conn x = (game_conn (objects s ! i))\<lparr>conn_role_id := conn_role_id (game_conn x)\<rparr>"
        "has_conn_close_func (tcp_conn x) = has_conn_close_func (tcp_conn (objects s ! i))"
        using read_data_effect [of h i data s s'] rf by metis
      have "has_close_func (game_conn x) = has_close_func (game_conn (objects s ! i))" by (subst x(3)) simp
      then have "\<forall>k < length (objects s'). has_conn_close_func (tcp_conn (objects s' ! k)) \<and> has_close_func (game_conn (objects s' ! k))"
        using fl x(4) read(2) by (auto simp: x(1) nth_list_update)
      moreover have "m' r = owner_of_role (concat (nss @ [role_notes s e s'])) r" if "r \<noteq> 0" for r
        using that x(2) m [OF that] read(1,2) True by (auto simp: x(1) roles_entered_def)
      ultimately show ?thesis using si by (simp add: role_inv_def x(1))
    next
      case False
      let ?c = "game_conn (objects s ! i)" and ?x = "\<lparr>tcp_conn = (tcp_conn (objects s ! i))\<lparr>reading := None\<rparr>,
        game_conn = game_conn (objects s ! i)\<rparr>"
      have s': "s' = set_object i ?x (if ec = Eof \<or> ec = ConnectionReset then fst (OnConnectionClose ?c s) else s)"
        using read_error_effect [OF read(4,2) False] fl [OF read(2)] by simp
      have obj: "objects s' = (objects s)[i := ?x]" by (simp add: s' set_object_def OnConnectionClose_objects)
      have "\<forall>k < length (objects s'). has_conn_close_func (tcp_conn (objects s' ! k)) \<and> has_close_func (game_conn (objects s' ! k))"
        using fl read(2) by (auto simp: obj nth_list_update)
      moreover have "role_id_conn_map s' r = owner_of_role (concat (nss @ [role_notes s e s'])) r" if "r \<noteq> 0" for r
        using that m [OF that] read(1) False by (auto simp: s' set_object_def OnConnectionClose_roles)
      ultimately show ?thesis using si by (simp add: role_inv_def)
    qed
  next
    case (send r data line)
    then have "role_id_conn_map s' = role_id_conn_map s" "objects s' = objects s"
      by (auto simp: SendMessageById_def split: option.splits)
    then show ?thesis using inv si send(1) by (simp add: role_inv_def)
  qed
qed

interpretation roles: trace_invariant "noted_step h" no_connections role_inv for h
proof unfold_locales
  show "role_inv [] s" if "no_connections s" for s
    using that no_connections_inv [OF that] by (simp add: role_inv_def no_connections_def)
qed (auto simp: noted_step_def intro: role_inv_step)

text \<open>One frame with a role, read by a connection just accepted.\<close>

interpretation ignoring: message_sink "\<lambda>p s. Inr s" "\<lambda>b bs s. Inr s"
  by unfold_locales simp

lemma accepted_frame:
  assumes "no_connections s" "has_new_msg_with_buffer_func s" "well_typed m" "role_id (base m) \<noteq> 0" "length (frame m) \<le> 4096"
  obtains s1 s2 where "OnNewClient (Some ep) s = Inr s1" "read_alone h 0 Success (frame m) s1 = Inr s2"
    "role_of s2 0 = role_id (base m)" "role_of s1 0 = 0" "waiting s1 0"
proof -
  let ?n = "server_name s @ ''#'' @ ep" and ?r = "role_id (base m)"
  have e: "game_connection_map s = Map.empty" "role_id_conn_map s = Map.empty" "objects s = []"
    using assms(1) by (simp_all add: no_connections_def)
  obtain x where x: "OnNewClient (Some ep) s = Inr (s\<lparr>tcp_connection_map := (tcp_connection_map s)(?n \<mapsto> 0),
      game_connection_map := [?n \<mapsto> 0], objects := [x]\<rparr>)"
    "conn_role_id (game_conn x) = 0" "receiving (tcp_conn x) (game_conn x)" "readable (recv_buffer (tcp_conn x)) = []"
    "unat (WritableSize (recv_buffer (tcp_conn x))) = 4096" "reading (tcp_conn x) \<noteq> None"
    by (rule OnNewClient_eq [of ep s]) (use e assms(2) in auto)
  define s1 where "s1 = s\<lparr>tcp_connection_map := (tcp_connection_map s)(?n \<mapsto> 0),
      game_connection_map := [?n \<mapsto> 0], objects := [x]\<rparr>"
  have s1: "objects s1 = [x]" "alive s1 0" by (simp_all add: s1_def alive_def)
  let ?reg = "\<lambda>r s. Inr (AddConnToRoleMap r 0 s) :: GameServer res"
  let ?close = "\<lambda>s. let (g, gone, res) = OnConnectionClose (game_conn x) s in case gone of None \<Rightarrow> Inr g | Some r \<Rightarrow> Inr g"
  have f: "feed ?reg (\<lambda>b bs s. Inr s) (conn_role_id (game_conn x)) (readable (recv_buffer (tcp_conn x)) @ frame m) s1 =
      Inr (?r, [], AddConnToRoleMap ?r 0 s1)"
    using feed_frame [OF assms(3), of ?reg "\<lambda>b bs s. Inr s" 0 "[]" s1]
    by (simp add: x(2,4) feed_need_more parse_header_def Let_def)
  have l: "length (frame m) \<le> unat (WritableSize (recv_buffer (tcp_conn x)))" using x(5) assms(5) by simp
  obtain t where t: "on_read (on_data h ?reg (\<lambda>p s. Inr s)) (on_close ?close) Success (frame m) (tcp_conn x) (game_conn x, s1) =
       Inr (t, (game_conn x)\<lparr>conn_role_id := ?r\<rparr>, AddConnToRoleMap ?r 0 s1)"
    using ignoring.on_read_feeds [OF x(3) l f, where g = ?close and h = h] by blast
  let ?x = "\<lparr>tcp_conn = t, game_conn = (game_conn x)\<lparr>conn_role_id := ?r\<rparr>\<rparr>"
  have "read_alone h 0 Success (frame m) s1 = Inr (set_object 0 ?x (AddConnToRoleMap ?r 0 s1))"
    using t s1 by (simp add: read_alone_def server_on_read_def Let_def)
  moreover have "role_of (set_object 0 ?x (AddConnToRoleMap ?r 0 s1)) 0 = ?r"
    using s1(1) by (simp add: set_object_def AddConnToRoleMap_def)
  moreover have "OnNewClient (Some ep) s = Inr s1" unfolding s1_def by (rule x(1))
  ultimately show ?thesis using that x(2,6) s1(1) by simp
qed

section \<open>Properties\<close>

text \<open>
  C4: refinement. Data for a role other than 0 go to the connection that told the role last, in its
  first message with a role, unless a connection of that role has been closed since; then, and for a role
  that nobody has told, they are dropped with a line in the log. So in every run of accepted
  connections, reads of any bytes or errors, and sends.
\<close>

theorem messages_go_to_their_role:
  assumes "no_connections s0" "lts_run (noted_step h) s0 notes s" "r \<noteq> 0"
  shows "SendMessageById r data s =
    (case owner_of_role (concat notes) r of
       Some i \<Rightarrow> (s\<lparr>sent := sent s @ [(i, data)]\<rparr>, None)
     | None \<Rightarrow> (s, Some (''unknown role_id: '' @ to_string_i32 r)))"
proof -
  have "role_inv notes s" by (rule roles.inv_run [OF assms(2,1)])
  then show ?thesis using assms(3) by (auto simp: role_inv_def SendMessageById_def)
qed

text \<open>A client connects, tells the role 7 and is sent a byte.\<close>

theorem messages_go_to_their_role_witness:
  "\<exists>s. lts_run (noted_step LittleEndian) (Server_SetOnNewMsgWithBufferFunc True (GameServer_new ''srv'' 4000)) [[], [Told 7 0]] s \<and>
     SendMessageById 7 [1] s = (s\<lparr>sent := sent s @ [(0, [1])]\<rparr>, None)"
proof -
  let ?s = "Server_SetOnNewMsgWithBufferFunc True (GameServer_new ''srv'' 4000)"
  define m where "m = PingMessage (base PingMessage_new\<lparr>role_id := 7\<rparr>) 42"
  have m: "well_typed m" "role_id (base m) = 7" "length (frame m) \<le> 4096"
    by (simp_all add: m_def well_typed_def PingMessage_new_def BaseMessage_new_def length_frame)
  have n: "no_connections ?s" "has_new_msg_with_buffer_func ?s"
    by (simp_all add: no_connections_def GameServer_new_def Server_SetOnNewMsgWithBufferFunc_def)
  obtain s1 s2 where r: "OnNewClient (Some ''1'') ?s = Inr s1" "read_alone LittleEndian 0 Success (frame m) s1 = Inr s2"
    "role_of s2 0 = 7" "role_of s1 0 = 0" "waiting s1 0"
    using accepted_frame [OF n m(1) _ m(3), of "''1''" LittleEndian] m(2) by auto
  have "noted_step LittleEndian ?s [] s1"
    unfolding noted_step_def using server_step.accept [OF r(1)] by (intro exI [of _ "Accept ''1''"]) simp
  moreover have "noted_step LittleEndian s1 [Told 7 0] s2"
    unfolding noted_step_def using server_step.read [OF _ _ r(2)] r(3-5)
    by (intro exI [of _ "Read 0 Success (frame m)"]) simp
  ultimately have run: "lts_run (noted_step LittleEndian) ?s [[], [Told 7 0]] s2"
    using lts_run.lts_snoc [OF lts_one [of "noted_step LittleEndian" ?s "[]" s1]] by simp
  have "SendMessageById 7 [1] s2 = (s2\<lparr>sent := sent s2 @ [(0, [1])]\<rparr>, None)"
    using messages_go_to_their_role [OF n(1) run, of 7 "[1]"] by (simp add: owner_of_role_def)
  then show ?thesis using run by blast
qed

text \<open>
  C10: safety. As long as no connection is accepted under a name that is still in
  \<open>game_connection_map_\<close>, the handlers never use a destroyed connection: at every moment of a run,
  each connection with an outstanding read is held by a map.
\<close>

theorem waiting_connections_are_alive:
  assumes "no_connections s0" "lts_run (fresh_step h) s0 (es @ fs) u"
  shows "\<exists>s. lts_run (fresh_step h) s0 es s \<and> (\<forall>i. waiting s i \<longrightarrow> alive s i)"
proof -
  obtain s where "lts_run (fresh_step h) s0 es s" "waiting_alive s"
    using fresh_names.inv_everywhere [OF assms(2,1)] by blast
  moreover from this(2) have "\<forall>i. waiting s i \<longrightarrow> alive s i" by (auto simp: waiting_alive_def alive_def ran_def)
  ultimately show ?thesis by blast
qed

theorem waiting_connections_are_alive_witness:
  "\<exists>s. lts_run (fresh_step LittleEndian) (GameServer_new ''srv'' 4000) [Accept ''1''] s \<and> (\<forall>i. waiting s i \<longrightarrow> alive s i)"
proof -
  let ?s = "GameServer_new ''srv'' 4000"
  obtain s1 where "OnNewClient (Some ''1'') ?s = Inr s1" using OnNewClient_eq [of "''1''" ?s] by blast
  then have "fresh_step LittleEndian ?s (Accept ''1'') s1"
    by (simp add: fresh_step_def GameServer_new_def server_step.accept)
  then have "lts_run (fresh_step LittleEndian) ?s ([Accept ''1''] @ []) s1" by (simp add: lts_one)
  then show ?thesis
    by (intro waiting_connections_are_alive) (auto simp: no_connections_def GameServer_new_def)
qed

text \<open>
  C16: safety. Without that proviso they do: a client that disconnects before its first message leaves
  its entry in \<open>game_connection_map_\<close> for good, since the role lookup in \<open>OnConnectionClose\<close> fails
  first. If a client with the same endpoint connects again, \<open>insert\<close> keeps the old entry, the new
  \<open>GameConnection\<close> is destroyed when \<open>OnNewTcpConnection\<close> returns, and its first data, whatever
  they are, are handled through a dangling \<open>this\<close>.
\<close>

theorem reconnect_after_silent_close_dangles:
  assumes "no_connections s0"
  shows "rbind (OnNewClient (Some ep) s0) (\<lambda>s. rbind (read_alone h 0 Eof [] s) (\<lambda>s.
    rbind (OnNewClient (Some ep) s) (\<lambda>s. read_alone h 1 Success data s))) = Inl UseAfterFree"
proof -
  let ?n = "server_name s0 @ ''#'' @ ep"
  have e: "game_connection_map s0 = Map.empty" "role_id_conn_map s0 = Map.empty" "objects s0 = []"
    using assms by (simp_all add: no_connections_def)
  obtain x where x: "OnNewClient (Some ep) s0 = Inr (s0\<lparr>tcp_connection_map := (tcp_connection_map s0)(?n \<mapsto> 0),
      game_connection_map := [?n \<mapsto> 0], objects := [x]\<rparr>)"
    "connection_name (game_conn x) = ?n" "conn_role_id (game_conn x) = 0"
    "has_conn_close_func (tcp_conn x)" "has_close_func (game_conn x)"
    by (rule OnNewClient_eq [of ep s0]) (use e in auto)
  define s1 where "s1 = s0\<lparr>tcp_connection_map := (tcp_connection_map s0)(?n \<mapsto> 0),
    game_connection_map := [?n \<mapsto> 0], objects := [x]\<rparr>"
  define x' where "x' = \<lparr>tcp_conn = (tcp_conn x)\<lparr>reading := None\<rparr>, game_conn = game_conn x\<rparr>"
  define s2 where "s2 = s1\<lparr>objects := [x']\<rparr>"
  have "fst (OnConnectionClose (game_conn x) s1) = s1"
    using x(3) e(2) by (simp add: OnConnectionClose_def GetRoleId_def s1_def Let_def)
  moreover have "alive s1 0" by (simp add: alive_def s1_def)
  ultimately have r: "read_alone h 0 Eof [] s1 = Inr s2"
    using read_error_runs [of 0 s1 Eof h "[]"] x(4,5) by (simp add: s1_def s2_def x'_def set_object_def)
  obtain s3 where s3: "OnNewClient (Some ep) s2 = Inr s3" "length (objects s3) = 2"
    "game_connection_map s3 = [?n \<mapsto> 0]" "role_id_conn_map s3 = Map.empty"
    by (rule OnNewClient_eq [of ep s2]) (use e(2) in \<open>auto simp: s2_def s1_def\<close>)
  then have "\<not> alive s3 1" by (simp add: alive_def)
  then have d: "read_alone h 1 Success data s3 = Inl UseAfterFree"
    using s3(2) by (simp add: read_alone_def server_on_read_def Let_def)
  show ?thesis
    using d unfolding x(1) s1_def [symmetric] rbind.simps r s3(1) .
qed

theorem reconnect_after_silent_close_dangles_witness:
  "rbind (OnNewClient (Some ''10.0.0.1:5000'') (GameServer_new ''srv'' 4000)) (\<lambda>s.
    rbind (read_alone LittleEndian 0 Eof [] s) (\<lambda>s. rbind (OnNewClient (Some ''10.0.0.1:5000'') s) (\<lambda>s.
    read_alone LittleEndian 1 Success (frame PingMessage_new) s))) = Inl UseAfterFree"
  by (rule reconnect_after_silent_close_dangles) (simp add: no_connections_def GameServer_new_def)

text \<open>
  safety. Two connections that tell the same role share one entry, that of the last. When the other
  one is closed, the entry of the last is erased: it stays connected and receives on, but nothing is
  sent to its role any more.
\<close>

theorem closing_a_twin_silences_the_role:
  assumes "i < length (objects s)" "game_connection_map s (name_of s i) = Some i"
    "has_conn_close_func (tcp_conn (objects s ! i))" "has_close_func (game_conn (objects s ! i))"
    "role_id_conn_map s (role_of s i) = Some j" "j \<noteq> i" "waiting s j"
  shows "\<exists>s'. read_alone h i Eof data s = Inr s' \<and> waiting s' j \<and> role_of s' j = role_of s j \<and>
    SendMessageById (role_of s i) msg s' = (s', Some (''unknown role_id: '' @ to_string_i32 (role_of s i)))"
proof -
  have "alive s i" using assms(2) by (auto simp: alive_def ran_def)
  from read_error_runs [OF assms(1) this _ assms(3,4), of Eof h data] show ?thesis
    using assms(2,5-7)
    by (auto simp: OnConnectionClose_def GetRoleId_def GetConnectionName_def set_object_def SendMessageById_def
        Let_def)
qed

theorem closing_a_twin_silences_the_role_witness:
  "let b = \<lparr>vec = [], read_idx = 0, write_idx = 0\<rparr>;
     t = (\<lambda>n. \<lparr>recv_buffer = b, tcp_name = n, has_new_data_func = True, has_conn_close_func = True,
            reading = Some 4096\<rparr>);
     c = (\<lambda>n. \<lparr>connection_name = n, conn_role_id = 7, recving_data = True, has_register_func = True,
            has_new_msg_func = True, has_close_func = True\<rparr>);
     s = (GameServer_new ''srv'' 4000)\<lparr>game_connection_map := [''srv#1'' \<mapsto> 0, ''srv#2'' \<mapsto> 1],
           role_id_conn_map := [7 \<mapsto> 1],
           objects := [\<lparr>tcp_conn = t ''srv#1'', game_conn = c ''srv#1''\<rparr>, \<lparr>tcp_conn = t ''srv#2'', game_conn = c ''srv#2''\<rparr>]\<rparr>
   in \<exists>s'. read_alone LittleEndian 0 Eof [] s = Inr s' \<and> waiting s' 1 \<and> role_of s' 1 = 7 \<and>
     SendMessageById 7 [1] s' = (s', Some (''unknown role_id: '' @ to_string_i32 7))"
proof -
  let ?b = "\<lparr>vec = [], read_idx = 0, write_idx = 0\<rparr>"
  let ?t = "\<lambda>n. \<lparr>recv_buffer = ?b, tcp_name = n, has_new_data_func = True, has_conn_close_func = True,
    reading = Some 4096\<rparr>"
  let ?c = "\<lambda>n. \<lparr>connection_name = n, conn_role_id = 7, recving_data = True, has_register_func = True,
    has_new_msg_func = True, has_close_func = True\<rparr>"
  let ?s = "(GameServer_new ''srv'' 4000)\<lparr>game_connection_map := [''srv#1'' \<mapsto> 0, ''srv#2'' \<mapsto> 1],
    role_id_conn_map := [7 \<mapsto> 1],
    objects := [\<lparr>tcp_conn = ?t ''srv#1'', game_conn = ?c ''srv#1''\<rparr>, \<lparr>tcp_conn = ?t ''srv#2'', game_conn = ?c ''srv#2''\<rparr>]\<rparr>"
  show ?thesis
    using closing_a_twin_silences_the_role [of 0 ?s 1 LittleEndian "[]" "[1]"] unfolding Let_def by simp
qed

end
