(* ===== verification/ThreadSafeQueue.thy ===== *)
theory ThreadSafeQueue
  imports Prelude
begin

text \<open>
  \<^verbatim>\<open>Utils/ThreadSafeQueue.h\<close>: the mutex-protected queue. Every operation is one critical section;
  a wait on the condition variable releases the mutex, so that a run of \<open>Pop\<close> or \<open>TryPop\<close> is given
  the sequence of its wake-ups, each with what other threads pushed meanwhile. The program has one
  consumer for each queue. The locale \<open>fifo_queue\<close> is the interface the message threads use.
\<close>

section \<open>State and operations\<close>

record 'a ThreadSafeQueue =
  deque :: "'a list"

definition tsq_empty :: "'a ThreadSafeQueue" where
  "tsq_empty = \<lparr>deque = []\<rparr>"

definition tsq_push :: "'a \<Rightarrow> 'a ThreadSafeQueue \<Rightarrow> 'a ThreadSafeQueue" where
  "tsq_push t q = q\<lparr>deque := deque q @ [t]\<rparr>"

definition tsq_push_list :: "'a list \<Rightarrow> 'a ThreadSafeQueue \<Rightarrow> 'a ThreadSafeQueue" where
  "tsq_push_list ts q = fold tsq_push ts q"

text \<open>The end of both pops: take the front element out of a queue that is not empty.\<close>

definition tsq_front :: "'a ThreadSafeQueue \<Rightarrow> ('a \<times> 'a ThreadSafeQueue) option" where
  "tsq_front q = (case deque q of [] \<Rightarrow> None | t # ts \<Rightarrow> Some (t, q\<lparr>deque := ts\<rparr>))"

text \<open>
  \<open>Pop\<close>: wait while the queue is empty. \<open>None\<close> means that the wake-ups given are used up and the
  caller still waits.
\<close>

fun Pop :: "'a ThreadSafeQueue \<Rightarrow> 'a list list \<Rightarrow> ('a \<times> 'a ThreadSafeQueue) option" where
  "Pop q wakes =
     (case tsq_front q of
        Some r \<Rightarrow> Some r
      | None \<Rightarrow> (case wakes of [] \<Rightarrow> None | ts # ws \<Rightarrow> Pop (tsq_push_list ts q) ws))"

datatype cv_status = no_timeout | timeout

text \<open>
  \<open>TryPop\<close>: the result is \<open>Some None\<close> for \<open>false\<close>. A wait that ends by its timeout returns \<open>false\<close>
  without another look at the queue.
\<close>

fun TryPop :: "'a ThreadSafeQueue \<Rightarrow> (cv_status \<times> 'a list) list \<Rightarrow>
    ('a option \<times> 'a ThreadSafeQueue) option" where
  "TryPop q wakes =
     (case tsq_front q of
        Some (t, q') \<Rightarrow> Some (Some t, q')
      | None \<Rightarrow> (case wakes of
          [] \<Rightarrow> None
        | (timeout, ts) # ws \<Rightarrow> Some (None, tsq_push_list ts q)
        | (no_timeout, ts) # ws \<Rightarrow> TryPop (tsq_push_list ts q) ws))"

definition Size :: "'a ThreadSafeQueue \<Rightarrow> 64 word" where
  "Size q = of_nat (length (deque q))"

declare Pop.simps [simp del] TryPop.simps [simp del]

section \<open>The queue interface\<close>

datatype 'a queue_call = Enqueue 'a | Dequeue

locale fifo_queue =
  fixes contents :: "'q \<Rightarrow> 'a list"
    and push :: "'a \<Rightarrow> 'q \<Rightarrow> 'q"
    and front :: "'q \<Rightarrow> ('a \<times> 'q) option"
  assumes contents_push: "contents (push x q) = contents q @ [x]"
    and front_None: "front q = None \<longleftrightarrow> contents q = []"
    and front_Some: "front q = Some (x, q') \<Longrightarrow> contents q = x # contents q'"
begin

lemma front_nonempty: "contents q \<noteq> [] \<Longrightarrow> \<exists>x q'. front q = Some (x, q') \<and> contents q = x # contents q'"
  using front_None front_Some by (cases "front q") auto

text \<open>A sequence of calls: what the dequeues returned and the queue left.\<close>

fun calls :: "'a queue_call list \<Rightarrow> 'q \<Rightarrow> 'a list \<times> 'q" where
  "calls [] q = ([], q)"
| "calls (Enqueue x # cs) q = calls cs (push x q)"
| "calls (Dequeue # cs) q =
     (case front q of
        None \<Rightarrow> calls cs q
      | Some (x, q') \<Rightarrow> (case calls cs q' of (xs, r) \<Rightarrow> (x # xs, r)))"

fun enqueued :: "'a queue_call list \<Rightarrow> 'a list" where
  "enqueued [] = []"
| "enqueued (Enqueue x # cs) = x # enqueued cs"
| "enqueued (Dequeue # cs) = enqueued cs"

text \<open>Nothing is lost, duplicated or reordered: what came out, then what is left, is what went in.\<close>

lemma calls_fifo: "calls cs q = (out, q') \<Longrightarrow> out @ contents q' = contents q @ enqueued cs"
proof (induction cs arbitrary: q out rule: enqueued.induct)
  case (3 cs)
  show ?case
  proof (cases "front q")
    case None
    with 3 show ?thesis by simp
  next
    case (Some r)
    then obtain x p where r: "front q = Some (x, p)" by (cases r) auto
    with "3.prems" obtain xs where xs: "calls cs p = (xs, q')" "out = x # xs"
      by (auto split: prod.splits)
    from "3.IH" [OF xs(1)] front_Some [OF r] xs(2) show ?thesis by simp
  qed
qed (auto simp: contents_push)

end

interpretation tsq: fifo_queue deque tsq_push tsq_front
  by unfold_locales (auto simp: tsq_push_def tsq_front_def split: list.splits)

section \<open>Lemmas\<close>

lemma deque_push [simp]: "deque (tsq_push t q) = deque q @ [t]"
  by (rule tsq.contents_push)

lemma deque_push_list [simp]: "deque (tsq_push_list ts q) = deque q @ ts"
proof -
  have "deque (fold tsq_push ts q) = deque q @ ts" for q
    by (induction ts arbitrary: q) auto
  then show ?thesis by (simp add: tsq_push_list_def)
qed

lemma deque_empty [simp]: "deque tsq_empty = []"
  by (simp add: tsq_empty_def)

lemma TryPop_nonempty: "deque q = t # ts \<Longrightarrow> TryPop q wakes = Some (Some t, q\<lparr>deque := ts\<rparr>)"
  by (subst TryPop.simps) (simp add: tsq_front_def)

lemma TryPop_account:
  "TryPop q wakes = Some (r, q') \<Longrightarrow>
     \<exists>n \<le> length wakes. deque q @ concat (map snd (take n wakes)) =
       (case r of None \<Rightarrow> [] | Some t \<Rightarrow> [t]) @ deque q' \<and>
     (r = None \<longrightarrow> deque q @ concat (map snd (take (n - 1) wakes)) = [] \<and> 0 < n \<and> fst (wakes ! (n - 1)) = timeout)"
proof (induction q wakes rule: TryPop.induct)
  case (1 q wakes)
  show ?case
  proof (cases "tsq_front q")
    case (Some p)
    with 1 have "deque q = (case r of None \<Rightarrow> [] | Some t \<Rightarrow> [t]) @ deque q'" "r \<noteq> None"
      by (auto simp: TryPop.simps [of q] dest: tsq.front_Some split: prod.splits)
    then show ?thesis by (intro exI [of _ 0]) auto
  next
    case None
    then have e: "deque q = []" by (simp add: tsq.front_None)
    obtain s ts ws where w: "wakes = (s, ts) # ws"
      using None "1.prems" by (cases wakes) (auto simp: TryPop.simps [of q])
    show ?thesis
    proof (cases s)
      case timeout
      with None "1.prems" w e show ?thesis
        by (intro exI [of _ 1]) (auto simp: TryPop.simps [of q])
    next
      case no_timeout
      with None "1.prems" w have "TryPop (tsq_push_list ts q) ws = Some (r, q')"
        by (simp add: TryPop.simps [of q])
      from "1.IH" [OF None w refl no_timeout this] obtain n where n: "n \<le> length ws"
        "deque (tsq_push_list ts q) @ concat (map snd (take n ws)) =
           (case r of None \<Rightarrow> [] | Some t \<Rightarrow> [t]) @ deque q'"
        "r = None \<longrightarrow> deque (tsq_push_list ts q) @ concat (map snd (take (n - 1) ws)) = [] \<and> 0 < n \<and>
           fst (ws ! (n - 1)) = timeout" by blast
      show ?thesis
        using n e w by (intro exI [of _ "Suc n"]) (cases n; auto)
    qed
  qed
qed

section \<open>Properties\<close>

text \<open>
  the queue hands every element out once and in the order of the pushes, whatever the
  interleaving of pushes and pops: what the pops returned, followed by what is left, is what was in
  the queue followed by what was pushed.
\<close>

theorem queue_is_fifo: "tsq.calls cs q = (popped, q') \<Longrightarrow> popped @ deque q' = deque q @ tsq.enqueued cs"
  by (rule tsq.calls_fifo)

theorem queue_is_fifo_witness:
  "tsq.calls [Enqueue 1, Enqueue (2 :: nat), Dequeue, Enqueue 3] tsq_empty = ([1], \<lparr>deque = [2, 3]\<rparr>) \<and>
   [1] @ [2, 3] = ([1, 2, 3] :: nat list)"
proof -
  have c: "tsq.calls [Enqueue 1, Enqueue (2 :: nat), Dequeue, Enqueue 3] tsq_empty = ([1], \<lparr>deque = [2, 3]\<rparr>)"
    by (simp add: tsq_push_def tsq_front_def tsq_empty_def)
  from queue_is_fifo [OF c] c show ?thesis by simp
qed

text \<open>
  a \<open>TryPop\<close> that returns loses nothing: the element it delivers (if any) and the queue it leaves
  make up what was there and what arrived while it waited; and it gives up only when every look at
  the queue found it empty and its last wait timed out. Elements that arrive with that timeout stay
  queued although the call reports none.
\<close>

theorem TryPop_lossless:
  assumes "TryPop q wakes = Some (r, q')"
  shows "\<exists>n \<le> length wakes. deque q @ concat (map snd (take n wakes)) =
      (case r of None \<Rightarrow> [] | Some t \<Rightarrow> [t]) @ deque q' \<and>
    (r = None \<longrightarrow> deque q @ concat (map snd (take (n - 1) wakes)) = [] \<and> 0 < n \<and>
      fst (wakes ! (n - 1)) = timeout)"
  using assms by (rule TryPop_account)

theorem TryPop_lossless_witness:
  "TryPop tsq_empty [(no_timeout, []), (timeout, [5 :: nat])] = Some (None, \<lparr>deque = [5]\<rparr>) \<and>
   (\<exists>n \<le> 2. concat (map snd (take n [(no_timeout, []), (timeout, [5 :: nat])])) = [5])"
proof -
  have t: "TryPop tsq_empty [(no_timeout, []), (timeout, [5 :: nat])] = Some (None, \<lparr>deque = [5]\<rparr>)"
    by code_simp
  from TryPop_lossless [OF t] t show ?thesis by auto
qed

end
