(* ===== verification/MsgThread.thy ===== *)
theory MsgThread
  imports ThreadSafeQueue MessageTypes
begin

text \<open>
  \<^verbatim>\<open>Network/MsgThread.h\<close>: a worker thread with its own queue. The thread is a state machine over the
  program points of \<open>Running\<close>; the flag \<open>started\<close> is shared with the dispatcher that owns the
  thread, and \<open>Push\<close> and \<open>Join\<close> are called by other threads. Messages are handled through shared
  pointers: a pointer is an address of the message store, and the null pointer is \<open>None\<close>.
\<close>

section \<open>The message store\<close>

type_synonym addr = nat
type_synonym BaseMessagePtr = "addr option"
type_synonym msg_store = "addr \<rightharpoonup> Message"

text \<open>Dereferencing a pointer.\<close>

definition deref :: "msg_store \<Rightarrow> BaseMessagePtr \<Rightarrow> Message res" where
  "deref st p = (case p of None \<Rightarrow> Inl NullDeref
     | Some a \<Rightarrow> (case st a of None \<Rightarrow> Inl UseAfterFree | Some m \<Rightarrow> Inr m))"

section \<open>The thread\<close>

text \<open>The test of the loop, the look at the queue, the wait in \<open>TryPop\<close>, the call of the handler,
  and the end of \<open>Running\<close>.\<close>

datatype 'm thread_pc = LoopTest | Looking | Waiting | Calling 'm | Finished

record 'm MsgThread =
  msg_queue :: "'m ThreadSafeQueue"
  pc :: "'m thread_pc"
  joined :: bool

definition MsgThread_new :: "'m MsgThread" where
  "MsgThread_new = \<lparr>msg_queue = tsq_empty, pc = LoopTest, joined = False\<rparr>"

definition MsgThread_Push :: "'m \<Rightarrow> 'm MsgThread \<Rightarrow> 'm MsgThread" where
  "MsgThread_Push m t = t\<lparr>msg_queue := tsq_push m (msg_queue t)\<rparr>"

datatype 'm thread_event = Tau | Popped 'm | Dispatched 'm

text \<open>\<open>Running\<close>, one program point at a time, with the current value of \<open>started\<close>.\<close>

inductive thread_step :: "bool \<Rightarrow> 'm MsgThread \<Rightarrow> 'm thread_event \<Rightarrow> 'm MsgThread \<Rightarrow> bool" where
  loop_enter: "pc t = LoopTest \<Longrightarrow> thread_step True t Tau (t\<lparr>pc := Looking\<rparr>)"
| loop_exit: "pc t = LoopTest \<Longrightarrow> thread_step False t Tau (t\<lparr>pc := Finished\<rparr>)"
| pop: "pc t = Looking \<Longrightarrow> tsq_front (msg_queue t) = Some (m, q) \<Longrightarrow>
    thread_step s t (Popped m) (t\<lparr>msg_queue := q, pc := Calling m\<rparr>)"
| wait: "pc t = Looking \<Longrightarrow> tsq_front (msg_queue t) = None \<Longrightarrow> thread_step s t Tau (t\<lparr>pc := Waiting\<rparr>)"
| notified: "pc t = Waiting \<Longrightarrow> thread_step s t Tau (t\<lparr>pc := Looking\<rparr>)"
| timed_out: "pc t = Waiting \<Longrightarrow> thread_step s t Tau (t\<lparr>pc := LoopTest\<rparr>)"
| call: "pc t = Calling m \<Longrightarrow> thread_step s t (Dispatched m) (t\<lparr>pc := LoopTest\<rparr>)"

inductive_cases thread_step_Popped [elim]: "thread_step s t (Popped m) t'"
inductive_cases thread_step_Dispatched [elim]: "thread_step s t (Dispatched m) t'"
inductive_cases thread_step_Tau [elim]: "thread_step s t Tau t'"

text \<open>\<open>Join\<close> waits for the end of \<open>Running\<close>; joining twice throws \<open>std::system_error\<close>. \<open>None\<close>: it
  still waits.\<close>

definition MsgThread_Join :: "'m MsgThread \<Rightarrow> 'm MsgThread res option" where
  "MsgThread_Join t =
     (if joined t then Some (Inl SystemError)
      else if pc t = Finished then Some (Inr (t\<lparr>joined := True\<rparr>))
      else None)"

text \<open>The destructor joins only while \<open>started\<close> still holds.\<close>

definition MsgThread_destroy :: "bool \<Rightarrow> 'm MsgThread \<Rightarrow> 'm MsgThread res option" where
  "MsgThread_destroy started t = (if started then MsgThread_Join t else Some (Inr t))"

section \<open>Lemmas\<close>

text \<open>The messages a thread still has: the one in hand, then its queue.\<close>

fun in_hand :: "'m thread_pc \<Rightarrow> 'm list" where
  "in_hand (Calling m) = [m]"
| "in_hand _ = []"

definition pending :: "'m MsgThread \<Rightarrow> 'm list" where
  "pending t = in_hand (pc t) @ deque (msg_queue t)"

fun dispatched :: "'m thread_event \<Rightarrow> 'm list" where
  "dispatched (Dispatched m) = [m]"
| "dispatched _ = []"

lemma pending_new [simp]: "pending MsgThread_new = []"
  by (simp add: pending_def MsgThread_new_def)

lemma pending_Push [simp]: "pending (MsgThread_Push m t) = pending t @ [m]"
  by (simp add: pending_def MsgThread_Push_def)

lemma thread_step_pending: "thread_step s t e t' \<Longrightarrow> dispatched e @ pending t' = pending t"
  by (induction rule: thread_step.induct) (auto simp: pending_def dest: tsq.front_Some)

lemma thread_step_joined: "thread_step s t e t' \<Longrightarrow> joined t' = joined t"
  by (induction rule: thread_step.induct) auto

lemma thread_step_Finished: "thread_step s t e t' \<Longrightarrow> pc t \<noteq> Finished"
  by (induction rule: thread_step.induct) auto

text \<open>Every thread that has not finished can move.\<close>

lemma thread_progress: "pc t \<noteq> Finished \<Longrightarrow> \<exists>e t'. thread_step s t e t'"
proof (cases "pc t")
  case LoopTest
  then show ?thesis by (cases s) (auto intro: thread_step.loop_enter thread_step.loop_exit)
next
  case Looking
  then show ?thesis
    by (cases "tsq_front (msg_queue t)") (auto intro: thread_step.intros)
qed (blast intro: thread_step.intros)+

text \<open>Runs of one thread under a fixed flag, with the messages it dispatched.\<close>

inductive thread_run :: "bool \<Rightarrow> 'm MsgThread \<Rightarrow> 'm list \<Rightarrow> 'm MsgThread \<Rightarrow> bool" where
  run_refl: "thread_run s t [] t"
| run_step: "thread_step s t e u \<Longrightarrow> thread_run s u ms v \<Longrightarrow> thread_run s t (dispatched e @ ms) v"

lemma thread_run_pending: "thread_run s t ms t' \<Longrightarrow> ms @ pending t' = pending t"
  by (induction rule: thread_run.induct) (auto dest: thread_step_pending)

lemma thread_run_joined: "thread_run s t ms t' \<Longrightarrow> joined t' = joined t"
  by (induction rule: thread_run.induct) (auto dest: thread_step_joined)

lemma run_tau: "thread_step s t Tau u \<Longrightarrow> thread_run s u ms v \<Longrightarrow> thread_run s t ms v"
  using run_step [of s t Tau u ms v] by simp

lemma run_popped: "thread_step s t (Popped m) u \<Longrightarrow> thread_run s u ms v \<Longrightarrow> thread_run s t ms v"
  using run_step [of s t "Popped m" u ms v] by simp

lemma run_dispatched:
  "thread_step s t (Dispatched m) u \<Longrightarrow> thread_run s u ms v \<Longrightarrow> thread_run s t (m # ms) v"
  using run_step [of s t "Dispatched m" u ms v] by simp

lemma drain_from_test:
  "pc t = LoopTest \<Longrightarrow> \<exists>t'. thread_run True t (deque (msg_queue t)) t' \<and> pc t' = LoopTest \<and> deque (msg_queue t') = []"
proof (induction "deque (msg_queue t)" arbitrary: t)
  case Nil
  then show ?case by (metis run_refl)
next
  case (Cons m ms)
  let ?a = "t\<lparr>pc := Looking\<rparr>"
  let ?q = "msg_queue t\<lparr>deque := ms\<rparr>"
  let ?b = "?a\<lparr>msg_queue := ?q, pc := Calling m\<rparr>"
  let ?c = "?b\<lparr>pc := LoopTest\<rparr>"
  have s1: "thread_step True t Tau ?a" using Cons.prems by (rule thread_step.loop_enter)
  have "tsq_front (msg_queue ?a) = Some (m, ?q)"
    using Cons.hyps(2) [symmetric] by (simp add: tsq_front_def)
  then have s2: "thread_step True ?a (Popped m) ?b" by (intro thread_step.pop) simp_all
  have s3: "thread_step True ?b (Dispatched m) ?c" by (rule thread_step.call) simp
  have "\<exists>t'. thread_run True ?c (deque (msg_queue ?c)) t' \<and> pc t' = LoopTest \<and> deque (msg_queue t') = []"
    by (rule Cons.hyps(1)) simp_all
  then obtain t' where t': "thread_run True ?c ms t'" "pc t' = LoopTest" "deque (msg_queue t') = []"
    by auto
  have "thread_run True t (m # ms) t'"
    by (rule run_tau [OF s1 run_popped [OF s2 run_dispatched [OF s3 t'(1)]]])
  with t' Cons.hyps(2) show ?case by metis
qed

lemma reach_test:
  assumes "pc t \<noteq> Finished" "pc t \<noteq> Looking"
  shows "\<exists>u. thread_run True t (in_hand (pc t)) u \<and> pc u = LoopTest \<and> msg_queue u = msg_queue t"
proof (cases "pc t")
  case LoopTest
  then show ?thesis by (auto intro: run_refl)
next
  case Waiting
  then have "thread_step True t Tau (t\<lparr>pc := LoopTest\<rparr>)" by (rule thread_step.timed_out)
  from run_tau [OF this run_refl] Waiting show ?thesis by auto
next
  case (Calling m)
  then have "thread_step True t (Dispatched m) (t\<lparr>pc := LoopTest\<rparr>)" by (rule thread_step.call)
  from run_dispatched [OF this run_refl] Calling show ?thesis by auto
qed (use assms in auto)

lemma run_append:
  "thread_run s t ms u \<Longrightarrow> thread_run s u ns v \<Longrightarrow> thread_run s t (ms @ ns) v"
  by (induction rule: thread_run.induct) (auto intro: run_step)

section \<open>Properties\<close>

text \<open>
  safety. Whatever steps a thread takes, it hands its messages to the handler once each and in the
  order they are pending: what it dispatched, then what is still in its hand or queue, is what was
  pending at the start.
\<close>

theorem thread_dispatches_in_order: "thread_run s t ms t' \<Longrightarrow> ms @ pending t' = pending t"
  by (rule thread_run_pending)

theorem thread_dispatches_in_order_witness:
  "\<exists>t'. thread_run True (MsgThread_Push (7 :: nat) MsgThread_new) [7] t' \<and> [7] @ pending t' = [7]"
proof -
  let ?t = "MsgThread_Push (7 :: nat) MsgThread_new"
  have "pc ?t = LoopTest" by (simp add: MsgThread_Push_def MsgThread_new_def)
  from drain_from_test [OF this] obtain t' where "thread_run True ?t (deque (msg_queue ?t)) t'" by blast
  moreover have "deque (msg_queue ?t) = [7]" by (simp add: MsgThread_Push_def MsgThread_new_def)
  ultimately have r: "thread_run True ?t [7] t'" by simp
  from thread_dispatches_in_order [OF r] r show ?thesis by auto
qed

text \<open>
  liveness. While the dispatcher is started, a thread that has not finished can always go on to
  dispatch everything it has pending; and once \<open>started\<close> is cleared a thread at its loop test ends
  at once and leaves its queue undispatched for good.
\<close>

theorem thread_can_drain:
  assumes "pc t \<noteq> Finished"
  shows "(\<exists>t'. thread_run True t (pending t) t' \<and> pending t' = []) \<and>
    (pc t = LoopTest \<longrightarrow> (\<forall>ms t'. thread_run False t ms t' \<longrightarrow> ms = [] \<and> pending t' = pending t))"
proof
  show "\<exists>t'. thread_run True t (pending t) t' \<and> pending t' = []"
  proof (cases "pc t = Looking")
    case False
    obtain u where u: "thread_run True t (in_hand (pc t)) u" "pc u = LoopTest" "msg_queue u = msg_queue t"
      using reach_test [OF assms False] by blast
    obtain v where v: "thread_run True u (deque (msg_queue u)) v" "pc v = LoopTest" "deque (msg_queue v) = []"
      using drain_from_test [OF u(2)] by blast
    from run_append [OF u(1) v(1)] u(3) v(2,3) show ?thesis
      by (intro exI [of _ v]) (simp add: pending_def)
  next
    case True
    show ?thesis
    proof (cases "deque (msg_queue t)")
      case Nil
      with True show ?thesis by (intro exI [of _ t]) (simp add: pending_def run_refl)
    next
      case (Cons m ms)
      let ?b = "t\<lparr>msg_queue := msg_queue t\<lparr>deque := ms\<rparr>, pc := Calling m\<rparr>"
      have s: "thread_step True t (Popped m) ?b"
        using True Cons by (intro thread_step.pop) (simp_all add: tsq_front_def)
      obtain u where u: "thread_run True ?b [m] u" "pc u = LoopTest" "deque (msg_queue u) = ms"
        using reach_test [of ?b] by auto
      obtain v where v: "thread_run True u ms v" "pc v = LoopTest" "deque (msg_queue v) = []"
        using drain_from_test [OF u(2)] u(3) by blast
      have "thread_run True t ([m] @ ms) v" by (rule run_popped [OF s run_append [OF u(1) v(1)]])
      with True Cons v show ?thesis by (intro exI [of _ v]) (simp add: pending_def)
    qed
  qed
  show "pc t = LoopTest \<longrightarrow> (\<forall>ms t'. thread_run False t ms t' \<longrightarrow> ms = [] \<and> pending t' = pending t)"
  proof (intro impI allI)
    fix ms t' assume l: "pc t = LoopTest" and r: "thread_run False t ms t'"
    have fin: "thread_run False u ns v \<Longrightarrow> pc u = Finished \<Longrightarrow> ns = [] \<and> v = u" for u v :: "'a MsgThread" and ns
      by (induction rule: thread_run.cases) (auto dest: thread_step_Finished)
    from r l show "ms = [] \<and> pending t' = pending t"
      by (cases rule: thread_run.cases) (auto elim!: thread_step.cases dest: fin simp: pending_def)
  qed
qed

theorem thread_can_drain_witness:
  "\<exists>t'. thread_run True (MsgThread_Push (7 :: nat) MsgThread_new) [7] t' \<and> pending t' = []"
proof -
  have "pc (MsgThread_Push (7 :: nat) MsgThread_new) \<noteq> Finished"
    by (simp add: MsgThread_Push_def MsgThread_new_def)
  from thread_can_drain [OF this] show ?thesis by simp
qed

end
