(* ===== verification/MsgDispatcher.thy ===== *)
theory MsgDispatcher
  imports MsgThread Codec
begin

text \<open>
  \<^verbatim>\<open>Network/MsgDispatcher.h\<close> and \<^verbatim>\<open>Network/MsgDispatcher.cpp\<close>: the pool of message threads, the
  choice of a thread by role, the callbacks by message type, and the promises with which a client
  waits for the answer to a message. A callback is a value of type \<open>'cb\<close>; \<open>Dispatch\<close> returns the
  call it makes, and the component that owns the dispatcher gives callbacks their meaning.
\<close>

section \<open>State\<close>

record MsgForDispatch =
  dispatch_id :: ROLE_ID
  base_message_ptr :: BaseMessagePtr

text \<open>
  A promise is linked to a shared state, which its future keeps after the promise is gone.
\<close>

datatype shared_state = Pending | Ready BaseMessagePtr | Broken

record Promise =
  shared :: nat
  future_retrieved :: bool

record 'cb MsgDispatcher =
  started :: bool
  thread_num :: u32
  default_message_callback :: 'cb
  msg_threads :: "MsgForDispatch MsgThread list"
  msg_callbacks :: "'cb option list"
  enable_sync :: bool
  message_id_map :: "ROLE_ID \<rightharpoonup> u32"
  message_promise :: "u32 \<rightharpoonup> Promise"
  shared_states :: "shared_state list"

definition ASYNC_MESSAGE_UNIQUE_ID :: u32 where
  "ASYNC_MESSAGE_UNIQUE_ID = 0"

text \<open>The constructor; its default callback is the function \<open>DefaultMsgCallback\<close>.\<close>

definition MsgDispatcher_new :: "'cb \<Rightarrow> u32 \<Rightarrow> bool \<Rightarrow> 'cb MsgDispatcher" where
  "MsgDispatcher_new DefaultMsgCallback n sync =
     \<lparr>started = False, thread_num = n, default_message_callback = DefaultMsgCallback, msg_threads = [],
      msg_callbacks = replicate (unat (type_byte TYPE_MAX)) None, enable_sync = sync,
      message_id_map = Map.empty, message_promise = Map.empty, shared_states = []\<rparr>"

text \<open>What \<open>DefaultMsgCallback\<close> writes to the log.\<close>

definition DefaultMsgCallback_log :: "ROLE_ID \<Rightarrow> Message \<Rightarrow> string option" where
  "DefaultMsgCallback_log role m =
     map_option (\<lambda>d. ''default msg callback '' @ to_string_i32 role @ ''-'' @ d) (DebugMessage m [])"

section \<open>Operations\<close>

text \<open>
  \<open>dispatch_id % thread_num_\<close>: the signed identifier is converted to unsigned first.
\<close>

definition thread_index :: "ROLE_ID \<Rightarrow> 'cb MsgDispatcher \<Rightarrow> nat" where
  "thread_index r d = unat (r mod thread_num d)"

definition Push :: "ROLE_ID \<Rightarrow> BaseMessagePtr \<Rightarrow> 'cb MsgDispatcher \<Rightarrow> 'cb MsgDispatcher res" where
  "Push r msg d =
     (if msg = None \<or> \<not> started d then Inr d
      else if thread_num d = 0 then Inl DivByZero
      else let i = thread_index r d in
        if length (msg_threads d) \<le> i then Inl OutOfBounds
        else Inr (d\<lparr>msg_threads := (msg_threads d)
               [i := MsgThread_Push \<lparr>dispatch_id = r, base_message_ptr = msg\<rparr> (msg_threads d ! i)]\<rparr>))"

definition Push_all :: "ROLE_ID list \<Rightarrow> BaseMessagePtr \<Rightarrow> 'cb MsgDispatcher \<Rightarrow> 'cb MsgDispatcher res" where
  "Push_all rs msg = rfold (\<lambda>r. Push r msg) rs"

definition Start :: "'cb MsgDispatcher \<Rightarrow> bool \<times> 'cb MsgDispatcher" where
  "Start d =
     (if started d then (False, d)
      else (True, d\<lparr>started := True,
             msg_threads := msg_threads d @ replicate (unat (thread_num d)) MsgThread_new\<rparr>))"

text \<open>\<open>Stop\<close> clears the flag and then joins the threads in order; \<open>None\<close>: a join still waits.\<close>

definition Stop_flag :: "'cb MsgDispatcher \<Rightarrow> 'cb MsgDispatcher" where
  "Stop_flag d = d\<lparr>started := False\<rparr>"

definition Stop_join :: "nat \<Rightarrow> 'cb MsgDispatcher \<Rightarrow> 'cb MsgDispatcher res option" where
  "Stop_join i d =
     map_option (\<lambda>r. rbind r (\<lambda>t. Inr (d\<lparr>msg_threads := (msg_threads d)[i := t]\<rparr>)))
       (MsgThread_Join (msg_threads d ! i))"

fun Stop_joins :: "nat list \<Rightarrow> 'cb MsgDispatcher \<Rightarrow> 'cb MsgDispatcher res option" where
  "Stop_joins [] d = Some (Inr d)"
| "Stop_joins (i # is) d =
     (case Stop_join i d of
        None \<Rightarrow> None
      | Some (Inl e) \<Rightarrow> Some (Inl e)
      | Some (Inr d') \<Rightarrow> Stop_joins is d')"

definition Stop :: "'cb MsgDispatcher \<Rightarrow> 'cb MsgDispatcher res option" where
  "Stop d = (let d = Stop_flag d in Stop_joins [0..<length (msg_threads d)] d)"

definition MsgDispatcher_destroy :: "'cb MsgDispatcher \<Rightarrow> 'cb MsgDispatcher res option" where
  "MsgDispatcher_destroy d = (if started d then Stop d else Some (Inr d))"

subsection \<open>Promises\<close>

text \<open>\<open>message_promise_[id]\<close>: the entry, made with a new shared state when there is none.\<close>

definition promise_at :: "u32 \<Rightarrow> 'cb MsgDispatcher \<Rightarrow> Promise \<times> 'cb MsgDispatcher" where
  "promise_at uid d =
     (case message_promise d uid of
        Some p \<Rightarrow> (p, d)
      | None \<Rightarrow>
          let p = \<lparr>shared = length (shared_states d), future_retrieved = False\<rparr> in
          (p, d\<lparr>message_promise := (message_promise d)(uid \<mapsto> p),
                shared_states := shared_states d @ [Pending]\<rparr>))"

definition set_value :: "Promise \<Rightarrow> BaseMessagePtr \<Rightarrow> 'cb MsgDispatcher \<Rightarrow> 'cb MsgDispatcher res" where
  "set_value p v d =
     (if length (shared_states d) \<le> shared p then Inl OutOfBounds
      else if shared_states d ! shared p = Pending
      then Inr (d\<lparr>shared_states := (shared_states d)[shared p := Ready v]\<rparr>)
      else Inl FutureError)"

text \<open>Erasing an entry destroys its promise: an unfulfilled one breaks.\<close>

definition erase_promise :: "u32 \<Rightarrow> 'cb MsgDispatcher \<Rightarrow> 'cb MsgDispatcher" where
  "erase_promise uid d =
     (case message_promise d uid of
        None \<Rightarrow> d
      | Some p \<Rightarrow> d\<lparr>message_promise := (message_promise d)(uid := None),
          shared_states := (if shared p < length (shared_states d) \<and> shared_states d ! shared p = Pending
            then (shared_states d)[shared p := Broken] else shared_states d)\<rparr>)"

definition get_future :: "u32 \<Rightarrow> Promise \<Rightarrow> 'cb MsgDispatcher \<Rightarrow> (nat \<times> 'cb MsgDispatcher) res" where
  "get_future uid p d =
     (if future_retrieved p then Inl FutureError
      else Inr (shared p, d\<lparr>message_promise := (message_promise d)(uid \<mapsto> p\<lparr>future_retrieved := True\<rparr>)\<rparr>))"

text \<open>\<open>future.get()\<close>: \<open>None\<close> while it waits.\<close>

definition future_get :: "nat \<Rightarrow> 'cb MsgDispatcher \<Rightarrow> BaseMessagePtr res option" where
  "future_get f d =
     (case shared_states d ! f of
        Pending \<Rightarrow> None | Ready v \<Rightarrow> Some (Inr v) | Broken \<Rightarrow> Some (Inl FutureError))"

subsection \<open>Dispatch and the callbacks\<close>

datatype 'cb call = Invoke 'cb ROLE_ID BaseMessagePtr | NoCall

definition Dispatch :: "msg_store \<Rightarrow> MsgForDispatch \<Rightarrow> 'cb MsgDispatcher \<Rightarrow>
    ('cb call \<times> 'cb MsgDispatcher) res" where
  "Dispatch st msg d =
     rbind (deref st (base_message_ptr msg)) (\<lambda>m.
     let unique_id = message_unique_id (base m) in
     if \<not> enable_sync d \<or> unique_id = ASYNC_MESSAGE_UNIQUE_ID
     then let i = unat (type_byte (message_type (base m))) in
       if length (msg_callbacks d) \<le> i then Inl OutOfBounds
       else case msg_callbacks d ! i of
          None \<Rightarrow> Inr (Invoke (default_message_callback d) (dispatch_id msg) (base_message_ptr msg), d)
        | Some func \<Rightarrow> Inr (Invoke func (dispatch_id msg) (base_message_ptr msg), d)
     else
       let (p, d) = promise_at unique_id d in
       rbind (set_value p (base_message_ptr msg) d) (\<lambda>d. Inr (NoCall, erase_promise unique_id d)))"

definition SetMsgCallback :: "MessageType \<Rightarrow> 'cb option \<Rightarrow> 'cb MsgDispatcher \<Rightarrow> 'cb MsgDispatcher res" where
  "SetMsgCallback t cb d =
     rbind (check (t > TYTE_MIN \<and> t < TYPE_MAX) AssertFailed) (\<lambda>_.
     if length (msg_callbacks d) \<le> unat (type_byte t) then Inl OutOfBounds
     else Inr (d\<lparr>msg_callbacks := (msg_callbacks d)[unat (type_byte t) := cb]\<rparr>))"

definition SetDefaultMsgCallback :: "'cb \<Rightarrow> 'cb MsgDispatcher \<Rightarrow> 'cb MsgDispatcher" where
  "SetDefaultMsgCallback cb d = d\<lparr>default_message_callback := cb\<rparr>"

text \<open>\<open>++message_id_map_[role_id]\<close> on a counter that starts at zero and wraps.\<close>

definition next_message_id :: "ROLE_ID \<Rightarrow> 'cb MsgDispatcher \<Rightarrow> u32" where
  "next_message_id r d = (case message_id_map d r of None \<Rightarrow> 0 | Some n \<Rightarrow> n) + 1"

definition SetSyncMessageId :: "ROLE_ID \<Rightarrow> BaseMessagePtr \<Rightarrow> msg_store \<Rightarrow> 'cb MsgDispatcher \<Rightarrow>
    (nat \<times> msg_store \<times> 'cb MsgDispatcher) res" where
  "SetSyncMessageId r msg st d =
     (let unique_id = next_message_id r d;
          d = d\<lparr>message_id_map := (message_id_map d)(r \<mapsto> unique_id)\<rparr> in
      rbind (deref st msg) (\<lambda>m.
      let st = st(the msg \<mapsto> map_base (\<lambda>b. b\<lparr>message_unique_id := unique_id\<rparr>) m);
          (p, d) = promise_at unique_id d in
      rbind (get_future unique_id p d) (\<lambda>(future, d). Inr (future, st, d))))"

section \<open>The dispatcher and its threads as a transition system\<close>

text \<open>
  Other threads push, start and stop; each message thread takes its own steps, and the call of its
  handler runs \<open>Dispatch\<close>. A step that faults ends the process and is no step here.
\<close>

datatype disp_event =
    EPush ROLE_ID BaseMessagePtr
  | EIgnored ROLE_ID BaseMessagePtr
  | EStart bool
  | EStopFlag
  | EJoin nat
  | EThread nat "MsgForDispatch thread_event"

inductive disp_step :: "msg_store \<Rightarrow> 'cb MsgDispatcher \<Rightarrow> disp_event \<Rightarrow> 'cb MsgDispatcher \<Rightarrow> bool" for st where
  push: "p \<noteq> None \<Longrightarrow> started d \<Longrightarrow> Push r p d = Inr d' \<Longrightarrow> disp_step st d (EPush r p) d'"
| ignored: "p = None \<or> \<not> started d \<Longrightarrow> Push r p d = Inr d' \<Longrightarrow> disp_step st d (EIgnored r p) d'"
| start: "Start d = (b, d') \<Longrightarrow> disp_step st d (EStart b) d'"
| stop_flag: "disp_step st d EStopFlag (Stop_flag d)"
| join: "i < length (msg_threads d) \<Longrightarrow> Stop_join i d = Some (Inr d') \<Longrightarrow> disp_step st d (EJoin i) d'"
| silent: "i < length (msg_threads d) \<Longrightarrow> thread_step (started d) (msg_threads d ! i) e t \<Longrightarrow>
    dispatched e = [] \<Longrightarrow> disp_step st d (EThread i e) (d\<lparr>msg_threads := (msg_threads d)[i := t]\<rparr>)"
| handle: "i < length (msg_threads d) \<Longrightarrow> thread_step (started d) (msg_threads d ! i) (Dispatched m) t \<Longrightarrow>
    Dispatch st m (d\<lparr>msg_threads := (msg_threads d)[i := t]\<rparr>) = Inr (c, d') \<Longrightarrow>
    disp_step st d (EThread i (Dispatched m)) d'"

inductive_cases disp_step_push [elim]: "disp_step st d (EPush r p) d'"
inductive_cases disp_step_thread [elim]: "disp_step st d (EThread i e) d'"

section \<open>Lemmas\<close>

lemma thread_index_less: "thread_num d \<noteq> 0 \<Longrightarrow> thread_index r d < unat (thread_num d)"
  by (simp add: thread_index_def unat_mod) (simp add: unat_gt_0)

lemma promise_at_frame:
  "promise_at uid d = (p, d') \<Longrightarrow> msg_threads d' = msg_threads d \<and> started d' = started d \<and>
     thread_num d' = thread_num d \<and> msg_callbacks d' = msg_callbacks d \<and> enable_sync d' = enable_sync d"
  by (auto simp: promise_at_def Let_def split: option.splits)

lemma Dispatch_frame:
  "Dispatch st m d = Inr (c, d') \<Longrightarrow> msg_threads d' = msg_threads d \<and> started d' = started d \<and>
     thread_num d' = thread_num d \<and> msg_callbacks d' = msg_callbacks d"
  by (auto simp: Dispatch_def Let_def rbind_simps set_value_def erase_promise_def
      split: if_splits option.splits prod.splits dest!: promise_at_frame)

lemma Push_Inr:
  assumes "Push r (Some a) d = Inr d'" "started d"
  shows "thread_num d \<noteq> 0" "thread_index r d < length (msg_threads d)"
    "d' = d\<lparr>msg_threads := (msg_threads d)[thread_index r d :=
       MsgThread_Push \<lparr>dispatch_id = r, base_message_ptr = Some a\<rparr> (msg_threads d ! thread_index r d)]\<rparr>"
  using assms by (auto simp: Push_def Let_def split: if_splits)

lemma Push_ignored: "p = None \<or> \<not> started d \<Longrightarrow> Push r p d = Inr d"
  by (auto simp: Push_def)

lemma Stop_join_Inr:
  "Stop_join i d = Some (Inr d') \<Longrightarrow> pc (msg_threads d ! i) = Finished \<and> \<not> joined (msg_threads d ! i) \<and>
     d' = d\<lparr>msg_threads := (msg_threads d)[i := (msg_threads d ! i)\<lparr>joined := True\<rparr>]\<rparr>"
  by (auto simp: Stop_join_def MsgThread_Join_def rbind_simps split: if_splits)

text \<open>The messages accepted for a role, and those handed to the handler for it, in the order of the run.\<close>

fun accepted :: "ROLE_ID \<Rightarrow> disp_event \<Rightarrow> MsgForDispatch list" where
  "accepted r (EPush r' p) = (if r' = r then [\<lparr>dispatch_id = r', base_message_ptr = p\<rparr>] else [])"
| "accepted r _ = []"

fun handled :: "ROLE_ID \<Rightarrow> disp_event \<Rightarrow> MsgForDispatch list" where
  "handled r (EThread i e) = filter (\<lambda>m. dispatch_id m = r) (dispatched e)"
| "handled r _ = []"

definition accepted_run :: "ROLE_ID \<Rightarrow> disp_event list \<Rightarrow> MsgForDispatch list" where
  "accepted_run r es = concat (map (accepted r) es)"

definition handled_run :: "ROLE_ID \<Rightarrow> disp_event list \<Rightarrow> MsgForDispatch list" where
  "handled_run r es = concat (map (handled r) es)"

lemma run_snoc [simp]:
  "accepted_run r (es @ [e]) = accepted_run r es @ accepted r e"
  "handled_run r (es @ [e]) = handled_run r es @ handled r e"
  by (simp_all add: accepted_run_def handled_run_def)

definition role_pending :: "ROLE_ID \<Rightarrow> 'cb MsgDispatcher \<Rightarrow> MsgForDispatch list" where
  "role_pending r d = (if msg_threads d = [] then []
     else filter (\<lambda>m. dispatch_id m = r) (pending (msg_threads d ! thread_index r d)))"

text \<open>
  The routing invariant: a pool is empty or full, a thread holds messages of its own roles only, and
  for every role the accepted messages are the handled ones followed by the pending ones.
\<close>

definition home :: "'cb MsgDispatcher \<Rightarrow> bool" where
  "home d \<longleftrightarrow> thread_num d \<noteq> 0 \<and> (msg_threads d = [] \<or> unat (thread_num d) \<le> length (msg_threads d)) \<and>
     (started d \<longrightarrow> msg_threads d \<noteq> []) \<and>
     (\<forall>i < length (msg_threads d). \<forall>m \<in> set (pending (msg_threads d ! i)). thread_index (dispatch_id m) d = i)"

definition routed :: "disp_event list \<Rightarrow> 'cb MsgDispatcher \<Rightarrow> bool" where
  "routed es d \<longleftrightarrow> home d \<and> (\<forall>r. accepted_run r es = handled_run r es @ role_pending r d)"

lemma thread_index_cong: "thread_num d' = thread_num d \<Longrightarrow> thread_index r d' = thread_index r d"
  by (simp add: thread_index_def)

lemma thread_index_upd [simp]: "thread_index r (d\<lparr>msg_threads := ts\<rparr>) = thread_index r d"
  by (simp add: thread_index_def)

lemma home_index: "home d \<Longrightarrow> msg_threads d \<noteq> [] \<Longrightarrow> thread_index r d < length (msg_threads d)"
  using thread_index_less [of d r] by (auto simp: home_def)

text \<open>One thread changes, and gives off the front of what it had pending.\<close>

lemma routed_thread:
  assumes "routed es d" "i < length (msg_threads d)" "out @ pending t = pending (msg_threads d ! i)"
  defines "d' \<equiv> d\<lparr>msg_threads := (msg_threads d)[i := t]\<rparr>"
  shows "home d'"
    "accepted_run r es = handled_run r es @ filter (\<lambda>m. dispatch_id m = r) out @ role_pending r d'"
proof -
  have h: "home d" and acc: "accepted_run r es = handled_run r es @ role_pending r d"
    using assms(1) by (auto simp: routed_def)
  have sub: "set out \<union> set (pending t) \<subseteq> set (pending (msg_threads d ! i))"
    using assms(3) by (metis set_append subset_refl)
  show "home d'"
    using h assms(2) sub by (auto simp: home_def d'_def nth_list_update)
  have ne: "msg_threads d \<noteq> []" using assms(2) by auto
  show "accepted_run r es = handled_run r es @ filter (\<lambda>m. dispatch_id m = r) out @ role_pending r d'"
  proof (cases "thread_index r d = i")
    case True
    with acc ne assms(2) show ?thesis
      by (simp add: role_pending_def d'_def flip: assms(3))
  next
    case False
    have "filter (\<lambda>m. dispatch_id m = r) out = []"
      using False h sub assms(2) by (auto simp: home_def filter_empty_conv)
    with False acc ne show ?thesis by (simp add: role_pending_def d'_def)
  qed
qed

lemma routed_frame:
  assumes "routed es d" "msg_threads d' = msg_threads d" "thread_num d' = thread_num d"
    "started d' \<longrightarrow> started d" "accepted_run r fs = accepted_run r es" "handled_run r fs = handled_run r es"
  shows "home d'" "accepted_run r fs = handled_run r fs @ role_pending r d'"
  using assms thread_index_cong [OF assms(3)]
  by (auto simp: routed_def home_def role_pending_def)

lemma routed_step:
  assumes "routed es d" "disp_step st d e d'"
  shows "routed (es @ [e]) d'"
  using assms(2)
proof cases
  case (push p r)
  then obtain a where a: "p = Some a" by auto
  note p = Push_Inr [OF push(4) [unfolded a] push(3)]
  let ?m = "\<lparr>dispatch_id = r, base_message_ptr = p\<rparr>" and ?i = "thread_index r d"
  have h: "home d" using assms(1) by (simp add: routed_def)
  have ne: "msg_threads d \<noteq> []" using p(2) by auto
  have "home d'"
    using h p by (auto simp: home_def a nth_list_update)
  moreover have "accepted_run s (es @ [e]) = handled_run s (es @ [e]) @ role_pending s d'" for s
  proof (cases "thread_index s d = ?i")
    case True
    then show ?thesis
      using assms(1) p ne push(1) by (auto simp: routed_def role_pending_def a)
  next
    case False
    then have "s \<noteq> r" by auto
    then show ?thesis
      using False assms(1) p ne push(1) by (auto simp: routed_def role_pending_def a)
  qed
  ultimately show ?thesis by (simp add: routed_def)
next
  case (ignored p r)
  then have "d' = d" using Push_ignored [of p d r] by simp
  then show ?thesis using assms(1) ignored(1) by (simp add: routed_def)
next
  case (start b)
  show ?thesis
  proof (cases "started d")
    case True
    then show ?thesis using start assms(1) by (auto simp: Start_def routed_def)
  next
    case False
    then have d': "d' = d\<lparr>started := True, msg_threads := msg_threads d @
        replicate (unat (thread_num d)) MsgThread_new\<rparr>" using start by (auto simp: Start_def)
    have h: "home d" and n: "0 < unat (thread_num d)"
      using assms(1) by (auto simp: routed_def home_def unat_gt_0)
    have ix: "thread_index s d' = thread_index s d" for s by (simp add: d' thread_index_def)
    have il: "thread_index s d < unat (thread_num d)" for s
      using h by (intro thread_index_less) (simp add: home_def)
    have "home d'"
      using h n by (auto simp: home_def d' ix nth_append thread_index_def)
    moreover have "role_pending s d' = role_pending s d" for s
    proof (cases "msg_threads d = []")
      case True
      then show ?thesis using il [of s] n by (simp add: role_pending_def d' thread_index_def)
    next
      case False
      then have "thread_index s d < length (msg_threads d)" by (rule home_index [OF h])
      with False show ?thesis by (simp add: role_pending_def d' nth_append thread_index_def)
    qed
    ultimately show ?thesis using assms(1) start(1) by (simp add: routed_def)
  qed
next
  case stop_flag
  then show ?thesis
    using routed_frame [OF assms(1), of d' _ "es @ [e]"] by (simp add: routed_def Stop_flag_def)
next
  case (join i)
  let ?t = "(msg_threads d ! i)\<lparr>joined := True\<rparr>"
  have "[] @ pending ?t = pending (msg_threads d ! i)" by (simp add: pending_def)
  from routed_thread [OF assms(1) join(2) this] Stop_join_Inr [OF join(3)] join(1)
  show ?thesis by (simp add: routed_def)
next
  case (silent i ev t)
  from routed_thread [OF assms(1) silent(3) thread_step_pending [OF silent(4)]] silent
  show ?thesis by (simp add: routed_def)
next
  case (handle i m t c)
  let ?d = "d\<lparr>msg_threads := (msg_threads d)[i := t]\<rparr>"
  note r = routed_thread [OF assms(1) handle(2) thread_step_pending [OF handle(3)]]
  have eq: "msg_threads d' = msg_threads ?d" "started d' = started ?d" "thread_num d' = thread_num ?d"
    using Dispatch_frame [OF handle(4)] by auto
  have "home d'" using r(1) eq by (simp add: home_def thread_index_def)
  moreover have "role_pending s d' = role_pending s ?d" for s
    using eq by (simp add: role_pending_def thread_index_def)
  ultimately show ?thesis using r(2) handle(1) by (simp add: routed_def)
qed

definition fresh_dispatcher :: "'cb MsgDispatcher \<Rightarrow> bool" where
  "fresh_dispatcher d \<longleftrightarrow> thread_num d \<noteq> 0 \<and> \<not> started d \<and> msg_threads d = []"

lemma fresh_new: "n \<noteq> 0 \<Longrightarrow> fresh_dispatcher (MsgDispatcher_new f n s)"
  by (simp add: fresh_dispatcher_def MsgDispatcher_new_def)

lemma routed_fresh: "fresh_dispatcher d \<Longrightarrow> routed [] d"
  by (simp add: fresh_dispatcher_def routed_def home_def role_pending_def accepted_run_def handled_run_def)

interpretation routing: trace_invariant "disp_step st" fresh_dispatcher routed for st
  by unfold_locales (auto intro: routed_fresh routed_step)

subsection \<open>A pool after a restart\<close>

text \<open>The first threads, the ones that messages are sent to, have ended; the others have nothing.\<close>

definition dead_pool :: "'cb MsgDispatcher \<Rightarrow> bool" where
  "dead_pool d \<longleftrightarrow> thread_num d \<noteq> 0 \<and> unat (thread_num d) \<le> length (msg_threads d) \<and>
     (\<forall>i < unat (thread_num d). pc (msg_threads d ! i) = Finished) \<and>
     (\<forall>i < length (msg_threads d). unat (thread_num d) \<le> i \<longrightarrow> pending (msg_threads d ! i) = [])"

lemma dead_pool_thread:
  assumes "dead_pool d" "i < length (msg_threads d)" "thread_step s (msg_threads d ! i) e t"
  shows "dispatched e = []" "dead_pool (d\<lparr>msg_threads := (msg_threads d)[i := t]\<rparr>)"
proof -
  have i: "unat (thread_num d) \<le> i"
    using assms thread_step_Finished [OF assms(3)] by (auto simp: dead_pool_def not_le [symmetric])
  then have "pending (msg_threads d ! i) = []" using assms(1,2) by (simp add: dead_pool_def)
  with thread_step_pending [OF assms(3)] have e: "dispatched e = []" "pending t = []" by auto
  then show "dispatched e = []" by simp
  show "dead_pool (d\<lparr>msg_threads := (msg_threads d)[i := t]\<rparr>)"
    using assms(1,2) i e by (auto simp: dead_pool_def nth_list_update)
qed

lemma dead_pool_step:
  assumes "dead_pool d" "disp_step st d e d'"
  shows "dead_pool d' \<and> (\<forall>r. handled r e = [])"
  using assms(2)
proof cases
  case (push p r)
  then obtain a where a: "p = Some a" by auto
  note p = Push_Inr [OF push(4) [unfolded a] push(3)]
  have "thread_index r d < unat (thread_num d)" by (rule thread_index_less [OF p(1)])
  with p assms(1) push(1) show ?thesis
    by (auto simp: dead_pool_def nth_list_update MsgThread_Push_def)
next
  case (ignored p r)
  then show ?thesis using Push_ignored [of p d r] assms(1) by simp
next
  case (start b)
  then show ?thesis using assms(1)
    by (auto simp: Start_def dead_pool_def nth_append split: if_splits)
next
  case stop_flag
  then show ?thesis using assms(1) by (simp add: Stop_flag_def dead_pool_def)
next
  case (join i)
  then show ?thesis using Stop_join_Inr [OF join(3)] assms(1)
    by (auto simp: dead_pool_def nth_list_update pending_def)
next
  case (silent i ev t)
  then show ?thesis using dead_pool_thread [OF assms(1) silent(3,4)] by simp
next
  case (handle i m t c)
  then show ?thesis using dead_pool_thread(1) [OF assms(1) handle(2,3)] by simp
qed

definition quiet :: "disp_event list \<Rightarrow> 'cb MsgDispatcher \<Rightarrow> bool" where
  "quiet es d \<longleftrightarrow> dead_pool d \<and> (\<forall>r. handled_run r es = [])"

interpretation restarted: trace_invariant "disp_step st" dead_pool quiet for st
  by unfold_locales (auto simp: quiet_def handled_run_def dest: dead_pool_step)

definition joined_finished :: "disp_event list \<Rightarrow> 'cb MsgDispatcher \<Rightarrow> bool" where
  "joined_finished es d \<longleftrightarrow> (\<forall>t \<in> set (msg_threads d). joined t \<longrightarrow> pc t = Finished)"

lemma joined_finished_upd:
  "joined_finished es d \<Longrightarrow> joined t \<longrightarrow> pc t = Finished \<Longrightarrow>
     joined_finished fs (d\<lparr>msg_threads := (msg_threads d)[i := t]\<rparr>)"
  by (auto simp: joined_finished_def dest!: set_update_subset_insert [THEN subsetD])

lemma joined_finished_thread:
  assumes "joined_finished es d" "i < length (msg_threads d)" "thread_step s (msg_threads d ! i) e t"
  shows "joined_finished fs (d\<lparr>msg_threads := (msg_threads d)[i := t]\<rparr>)"
  using assms thread_step_joined [OF assms(3)] thread_step_Finished [OF assms(3)]
  by (intro joined_finished_upd [OF assms(1)]) (auto simp: joined_finished_def)

lemma joined_finished_step:
  assumes "joined_finished es d" "disp_step st d e d'"
  shows "joined_finished (es @ [e]) d'"
  using assms(2)
proof cases
  case (push p r)
  then obtain a where a: "p = Some a" by auto
  note p = Push_Inr [OF push(4) [unfolded a] push(3)]
  from p(2) have "msg_threads d ! thread_index r d \<in> set (msg_threads d)" by simp
  with assms(1) show ?thesis
    unfolding p(3) by (intro joined_finished_upd [OF assms(1)])
      (auto simp: joined_finished_def MsgThread_Push_def)
next
  case (ignored p r)
  then show ?thesis using Push_ignored [of p d r] assms(1) by (simp add: joined_finished_def)
next
  case (start b)
  then show ?thesis using assms(1)
    by (auto simp: Start_def joined_finished_def MsgThread_new_def split: if_splits)
next
  case stop_flag
  then show ?thesis using assms(1) by (simp add: Stop_flag_def joined_finished_def)
next
  case (join i)
  note j = Stop_join_Inr [OF join(3)]
  then show ?thesis by (simp add: joined_finished_upd [OF assms(1)])
next
  case (silent i ev t)
  then show ?thesis using joined_finished_thread [OF assms(1) silent(3,4)] by simp
next
  case (handle i m t c)
  from joined_finished_thread [OF assms(1) handle(2,3)] Dispatch_frame [OF handle(4)]
  show ?thesis by (simp add: joined_finished_def)
qed

interpretation joining: trace_invariant "disp_step st" fresh_dispatcher joined_finished for st
  by unfold_locales (simp add: joined_finished_def fresh_dispatcher_def, rule joined_finished_step)

subsection \<open>Promises\<close>

text \<open>Every promise in the map is unfulfilled and has a shared state of its own.\<close>

definition promises_ok :: "'cb MsgDispatcher \<Rightarrow> bool" where
  "promises_ok d \<longleftrightarrow>
     (\<forall>u p. message_promise d u = Some p \<longrightarrow>
        shared p < length (shared_states d) \<and> shared_states d ! shared p = Pending) \<and>
     (\<forall>u v p q. message_promise d u = Some p \<longrightarrow> message_promise d v = Some q \<longrightarrow> shared p = shared q \<longrightarrow> u = v)"

lemma promises_okI:
  "(\<And>u p. message_promise d u = Some p \<Longrightarrow>
      shared p < length (shared_states d) \<and> shared_states d ! shared p = Pending) \<Longrightarrow>
   (\<And>u v p q. message_promise d u = Some p \<Longrightarrow> message_promise d v = Some q \<Longrightarrow> shared p = shared q \<Longrightarrow> u = v) \<Longrightarrow>
   promises_ok d"
  unfolding promises_ok_def by blast

lemma promises_okD:
  assumes "promises_ok d" "message_promise d u = Some p"
  shows "shared p < length (shared_states d)" "shared_states d ! shared p = Pending"
    "message_promise d v = Some q \<Longrightarrow> shared q = shared p \<Longrightarrow> v = u"
  using assms unfolding promises_ok_def by blast+

lemma promises_ok_new: "promises_ok (MsgDispatcher_new f n s)"
  by (simp add: promises_ok_def MsgDispatcher_new_def)

lemma promise_at_ok:
  assumes "promises_ok d" "promise_at u d = (p, d')"
  shows "promises_ok d'" "message_promise d' u = Some p"
    "\<And>v. v \<noteq> u \<Longrightarrow> message_promise d' v = message_promise d v"
    "\<And>f. f < length (shared_states d) \<Longrightarrow> f < length (shared_states d') \<and> shared_states d' ! f = shared_states d ! f"
    "message_id_map d' = message_id_map d"
proof -
  show "promises_ok d'"
  proof (cases "message_promise d u")
    case None
    let ?n = "length (shared_states d)"
    have "\<forall>v q. message_promise d v = Some q \<longrightarrow> shared q < ?n"
      using assms(1) by (auto simp: promises_ok_def)
    moreover have "d' = d\<lparr>message_promise := (message_promise d)(u \<mapsto> \<lparr>shared = ?n, future_retrieved = False\<rparr>),
        shared_states := shared_states d @ [Pending]\<rparr>"
      using assms(2) None by (auto simp: promise_at_def Let_def)
    ultimately show ?thesis
      using assms(1) by (fastforce simp: promises_ok_def nth_append)
  qed (use assms in \<open>simp add: promise_at_def\<close>)
qed (use assms in \<open>auto simp: promise_at_def Let_def nth_append split: option.splits\<close>)

lemma Dispatch_sync:
  assumes "promises_ok d" "enable_sync d" "st a = Some m" "message_unique_id (base m) = u" "u \<noteq> 0"
  obtains d' where "Dispatch st \<lparr>dispatch_id = r, base_message_ptr = Some a\<rparr> d = Inr (NoCall, d')"
    "promises_ok d'" "message_promise d' = (message_promise d)(u := None)"
    "\<And>p. message_promise d u = Some p \<Longrightarrow> shared_states d' = (shared_states d)[shared p := Ready (Some a)]"
    "message_promise d u = None \<Longrightarrow> shared_states d' = shared_states d @ [Ready (Some a)]"
proof -
  obtain p c where pc: "promise_at u d = (p, c)" by (cases "promise_at u d") auto
  note ok = promise_at_ok [OF assms(1) pc]
  let ?d1 = "c\<lparr>shared_states := (shared_states c)[shared p := Ready (Some a)]\<rparr>"
  have sp: "shared p < length (shared_states c)" "shared_states c ! shared p = Pending"
    and inj: "\<And>v q. message_promise c v = Some q \<Longrightarrow> shared q = shared p \<Longrightarrow> v = u"
    using promises_okD [OF ok(1,2)] by blast+
  have sv: "set_value p (Some a) c = Inr ?d1"
    using sp by (simp add: set_value_def)
  let ?d2 = "erase_promise u ?d1"
  have d2: "?d2 = ?d1\<lparr>message_promise := (message_promise c)(u := None)\<rparr>"
    using ok(2) sp by (simp add: erase_promise_def)
  have "Dispatch st \<lparr>dispatch_id = r, base_message_ptr = Some a\<rparr> d = Inr (NoCall, ?d2)"
    using assms pc sv by (simp add: Dispatch_def deref_def ASYNC_MESSAGE_UNIQUE_ID_def)
  moreover have "promises_ok ?d2"
    unfolding d2
  proof (rule promises_okI)
    fix v q assume "message_promise (?d1\<lparr>message_promise := (message_promise c)(u := None)\<rparr>) v = Some q"
    then have v: "message_promise c v = Some q" "v \<noteq> u" by (auto split: if_splits)
    then have "shared q \<noteq> shared p" using inj by blast
    with promises_okD(1,2) [OF ok(1) v(1)] show "shared q < length (shared_states (?d1\<lparr>message_promise := (message_promise c)(u := None)\<rparr>)) \<and>
      shared_states (?d1\<lparr>message_promise := (message_promise c)(u := None)\<rparr>) ! shared q = Pending" by simp
  qed (use ok(1) in \<open>auto simp: promises_ok_def split: if_splits\<close>)
  moreover have "message_promise ?d2 = (message_promise d)(u := None)"
    using pc by (auto simp: d2 promise_at_def Let_def split: option.splits)
  moreover have "shared_states ?d2 = (shared_states d)[shared q := Ready (Some a)]" if "message_promise d u = Some q" for q
    using pc that by (simp add: d2 promise_at_def)
  moreover have "shared_states ?d2 = shared_states d @ [Ready (Some a)]" if "message_promise d u = None"
    using pc that by (auto simp: d2 promise_at_def Let_def)
  ultimately show ?thesis by (rule that)
qed

lemma SetSyncMessageId_ok:
  assumes "promises_ok d" "SetSyncMessageId r (Some a) st d = Inr (f, st', d')"
  shows "promises_ok d'" "\<exists>p. message_promise d' (next_message_id r d) = Some p \<and> shared p = f \<and> future_retrieved p"
    "message_id_map d' = (message_id_map d)(r \<mapsto> next_message_id r d)" "enable_sync d' = enable_sync d"
    "\<exists>m. st a = Some m \<and> st' = st(a \<mapsto> map_base (\<lambda>b. b\<lparr>message_unique_id := next_message_id r d\<rparr>) m)"
proof -
  let ?u = "next_message_id r d" and ?d0 = "d\<lparr>message_id_map := (message_id_map d)(r \<mapsto> next_message_id r d)\<rparr>"
  obtain m where m: "st a = Some m"
    using assms(2) by (auto simp: SetSyncMessageId_def deref_def Let_def split: option.splits)
  obtain p c where pc: "promise_at ?u ?d0 = (p, c)" by (cases "promise_at ?u ?d0") auto
  have g: "get_future ?u p c = Inr (f, d')" and
    st': "st' = st(a \<mapsto> map_base (\<lambda>b. b\<lparr>message_unique_id := ?u\<rparr>) m)"
    using assms(2) pc m by (auto simp: SetSyncMessageId_def deref_def Let_def rbind_simps split: prod.splits)
  have d0: "promises_ok ?d0" using assms(1) by (simp add: promises_ok_def)
  note ok = promise_at_ok [OF d0 pc]
  have d': "d' = c\<lparr>message_promise := (message_promise c)(?u \<mapsto> p\<lparr>future_retrieved := True\<rparr>)\<rparr>" "f = shared p"
    using g by (auto simp: get_future_def split: if_splits)
  have "shared p < length (shared_states c)" "shared_states c ! shared p = Pending"
    and inj: "\<And>v q. message_promise c v = Some q \<Longrightarrow> shared q = shared p \<Longrightarrow> v = ?u"
    using promises_okD [OF ok(1,2)] by blast+
  then show "promises_ok d'"
    by (intro promises_okI) (use ok(1) in \<open>auto simp: d' dest: promises_okD inj [OF _ sym] split: if_splits\<close>)
  show "\<exists>p. message_promise d' ?u = Some p \<and> shared p = f \<and> future_retrieved p" by (simp add: d')
  show "message_id_map d' = (message_id_map d)(r \<mapsto> ?u)" using ok(5) by (simp add: d')
  show "enable_sync d' = enable_sync d" using promise_at_frame [OF pc] by (simp add: d')
  show "\<exists>m. st a = Some m \<and> st' = st(a \<mapsto> map_base (\<lambda>b. b\<lparr>message_unique_id := ?u\<rparr>) m)"
    using m st' by blast
qed

subsection \<open>A closed run\<close>

text \<open>
  A dispatcher with one thread that is started, gets a message, dispatches it, is stopped and joined.
\<close>

definition demo_store :: msg_store where
  "demo_store = [0 \<mapsto> PingMessage_new]"

definition demo_msg :: MsgForDispatch where
  "demo_msg = \<lparr>dispatch_id = 5, base_message_ptr = Some 0\<rparr>"

definition demo_state :: "bool \<Rightarrow> MsgForDispatch MsgThread list \<Rightarrow> nat MsgDispatcher" where
  "demo_state b ts = (MsgDispatcher_new 0 1 False)\<lparr>started := b, msg_threads := ts\<rparr>"

abbreviation demo_thread :: "MsgForDispatch list \<Rightarrow> MsgForDispatch thread_pc \<Rightarrow> MsgForDispatch MsgThread" where
  "demo_thread q p \<equiv> \<lparr>msg_queue = \<lparr>deque = q\<rparr>, pc = p, joined = False\<rparr>"

lemma demo_new: "MsgDispatcher_new 0 1 False = demo_state False []"
  by (simp add: demo_state_def MsgDispatcher_new_def)

lemma demo_threads [simp]:
  "msg_threads (demo_state b ts) = ts" "started (demo_state b ts) = b"
  "(demo_state b ts)\<lparr>msg_threads := ts'\<rparr> = demo_state b ts'"
  by (simp_all add: demo_state_def)

lemma demo_handled:
  "lts_run (disp_step demo_store) (MsgDispatcher_new 0 1 False)
     [EStart True, EPush 5 (Some 0), EThread 0 Tau, EThread 0 (Popped demo_msg),
      EThread 0 (Dispatched demo_msg)] (demo_state True [demo_thread [] LoopTest])"
proof -
  let ?run = "lts_run (disp_step demo_store) (demo_state False [])"
  have "disp_step demo_store (demo_state False []) (EStart True) (demo_state True [demo_thread [] LoopTest])"
    by (rule disp_step.start) (simp add: Start_def demo_state_def MsgDispatcher_new_def MsgThread_new_def tsq_empty_def)
  note r1 = lts_one [of "disp_step demo_store", OF this]
  have "disp_step demo_store (demo_state True [demo_thread [] LoopTest]) (EPush 5 (Some 0))
      (demo_state True [demo_thread [demo_msg] LoopTest])"
    by (rule disp_step.push) (simp_all add: Push_def demo_state_def MsgDispatcher_new_def thread_index_def
        MsgThread_Push_def tsq_push_def demo_msg_def)
  note r2 = lts_snoc [of "disp_step demo_store", OF r1 this]
  have "thread_step True (demo_thread [demo_msg] LoopTest) Tau ((demo_thread [demo_msg] LoopTest)\<lparr>pc := Looking\<rparr>)"
    by (rule thread_step.loop_enter) simp
  from disp_step.silent [of 0 "demo_state True [demo_thread [demo_msg] LoopTest]" Tau _ demo_store] this
  have "disp_step demo_store (demo_state True [demo_thread [demo_msg] LoopTest]) (EThread 0 Tau)
      (demo_state True [demo_thread [demo_msg] Looking])" by simp
  note r3 = lts_snoc [of "disp_step demo_store", OF r2 this]
  have "thread_step True (demo_thread [demo_msg] Looking) (Popped demo_msg)
      ((demo_thread [demo_msg] Looking)\<lparr>msg_queue := \<lparr>deque = []\<rparr>, pc := Calling demo_msg\<rparr>)"
    by (rule thread_step.pop) (simp_all add: tsq_front_def)
  from disp_step.silent [of 0 "demo_state True [demo_thread [demo_msg] Looking]" "Popped demo_msg" _ demo_store] this
  have "disp_step demo_store (demo_state True [demo_thread [demo_msg] Looking]) (EThread 0 (Popped demo_msg))
      (demo_state True [demo_thread [] (Calling demo_msg)])" by simp
  note r4 = lts_snoc [of "disp_step demo_store", OF r3 this]
  have t: "thread_step True (demo_thread [] (Calling demo_msg)) (Dispatched demo_msg)
      ((demo_thread [] (Calling demo_msg))\<lparr>pc := LoopTest\<rparr>)"
    by (rule thread_step.call) simp
  have "Dispatch demo_store demo_msg (demo_state True [demo_thread [] LoopTest]) =
      Inr (Invoke 0 5 (Some 0), demo_state True [demo_thread [] LoopTest])"
    by (simp add: Dispatch_def deref_def demo_store_def demo_msg_def demo_state_def MsgDispatcher_new_def
        PingMessage_new_def BaseMessage_new_def)
  with disp_step.handle [of 0 "demo_state True [demo_thread [] (Calling demo_msg)]" demo_msg _ demo_store] t
  have "disp_step demo_store (demo_state True [demo_thread [] (Calling demo_msg)])
      (EThread 0 (Dispatched demo_msg)) (demo_state True [demo_thread [] LoopTest])" by simp
  from lts_snoc [of "disp_step demo_store", OF r4 this] show ?thesis by (simp add: demo_new)
qed

abbreviation joined_thread :: "MsgForDispatch MsgThread" where
  "joined_thread \<equiv> \<lparr>msg_queue = \<lparr>deque = []\<rparr>, pc = Finished, joined = True\<rparr>"

lemma demo_stopped:
  "lts_run (disp_step demo_store) (MsgDispatcher_new 0 1 False)
     [EStart True, EStopFlag, EThread 0 Tau, EJoin 0] (demo_state False [joined_thread])"
proof -
  have "disp_step demo_store (demo_state False []) (EStart True) (demo_state True [demo_thread [] LoopTest])"
    by (rule disp_step.start) (simp add: Start_def demo_state_def MsgDispatcher_new_def MsgThread_new_def tsq_empty_def)
  note r1 = lts_one [of "disp_step demo_store", OF this]
  have "disp_step demo_store (demo_state True [demo_thread [] LoopTest]) EStopFlag (demo_state False [demo_thread [] LoopTest])"
  proof -
    have "Stop_flag (demo_state True [demo_thread [] LoopTest]) = demo_state False [demo_thread [] LoopTest]"
      by (simp add: Stop_flag_def demo_state_def MsgDispatcher_new_def)
    then show ?thesis using disp_step.stop_flag by metis
  qed
  note r2 = lts_snoc [of "disp_step demo_store", OF r1 this]
  have "thread_step False (demo_thread [] LoopTest) Tau ((demo_thread [] LoopTest)\<lparr>pc := Finished\<rparr>)"
    by (rule thread_step.loop_exit) simp
  from disp_step.silent [of 0 "demo_state False [demo_thread [] LoopTest]" Tau _ demo_store] this
  have "disp_step demo_store (demo_state False [demo_thread [] LoopTest]) (EThread 0 Tau)
      (demo_state False [demo_thread [] Finished])" by simp
  note r3 = lts_snoc [of "disp_step demo_store", OF r2 this]
  have "disp_step demo_store (demo_state False [demo_thread [] Finished]) (EJoin 0) (demo_state False [joined_thread])"
    by (rule disp_step.join) (simp_all add: Stop_join_def MsgThread_Join_def)
  from lts_snoc [of "disp_step demo_store", OF r3 this] show ?thesis by (simp add: demo_new)
qed

section \<open>Properties\<close>

text \<open>
  C3: safety. In every run of a dispatcher and its threads, whatever the interleaving of pushes,
  starts, stops and thread steps, the messages of one role are handled in the order in which they were
  accepted, none twice and none lost: what was handled, then what is still pending in the thread of
  the role, is what was accepted.
\<close>

theorem dispatcher_keeps_role_order:
  assumes "n \<noteq> 0" and "lts_run (disp_step st) (MsgDispatcher_new f n s) es d"
  shows "accepted_run r es = handled_run r es @ role_pending r d"
  using routing.inv_run [OF assms(2) fresh_new [OF assms(1)]] by (simp add: routed_def)

theorem dispatcher_keeps_role_order_witness:
  "handled_run 5 [EStart True, EPush 5 (Some 0), EThread 0 Tau, EThread 0 (Popped demo_msg),
      EThread 0 (Dispatched demo_msg)] = [demo_msg] \<and>
   accepted_run 5 [EStart True, EPush 5 (Some 0), EThread 0 Tau, EThread 0 (Popped demo_msg),
      EThread 0 (Dispatched demo_msg)] = [demo_msg] @ role_pending 5 (demo_state True [demo_thread [] LoopTest])"
  using dispatcher_keeps_role_order [OF _ demo_handled, of 5]
  by (simp add: handled_run_def demo_msg_def)

text \<open>
  bounds. A running dispatcher with at least one thread accepts a message for any role, negative
  ones included: the index into the thread vector is in range, and the same role always has the same
  thread.
\<close>

theorem push_finds_a_thread:
  assumes "n \<noteq> 0" and "lts_run (disp_step st) (MsgDispatcher_new f n s) es d" and "started d"
  shows "thread_index r d < length (msg_threads d) \<and> thread_index r d = unat r mod unat n \<and>
    (\<exists>d'. Push r p d = Inr d')"
proof -
  have h: "home d"
    using routing.inv_run [OF assms(2) fresh_new [OF assms(1)]] by (simp add: routed_def)
  have ne: "msg_threads d \<noteq> []" "thread_num d \<noteq> 0" using h assms(3) by (auto simp: home_def)
  have num: "lts_run (disp_step st) d0 es d \<Longrightarrow> thread_num d = thread_num d0" for d0
    by (induction rule: lts_run.induct)
       (auto elim!: disp_step.cases dest: Dispatch_frame Stop_join_Inr
         simp: Push_def Start_def Stop_flag_def Let_def split: if_splits)
  have "thread_num d = n" using num [OF assms(2)] by (simp add: MsgDispatcher_new_def)
  with home_index [OF h ne(1), of r] ne(2) show ?thesis
    by (auto simp: thread_index_def unat_mod Push_def Let_def)
qed

theorem push_finds_a_thread_witness:
  "thread_index (-1) (demo_state True [demo_thread [] LoopTest]) < 1 \<and>
   (\<exists>d'. Push (-1) (Some 0) (demo_state True [demo_thread [] LoopTest]) = Inr d')"
  using push_finds_a_thread [OF _ demo_handled, of "-1" "Some 0"] by simp

text \<open>
  safety. A dispatcher does not survive a restart: \<open>Stop\<close> leaves the ended threads in the vector,
  \<open>Start\<close> puts new ones behind them, and messages are still sent to the first ones. After the threads
  were joined and the dispatcher was started again, no message is handled in any continuation.
\<close>

theorem restarted_dispatcher_is_dead:
  assumes "n \<noteq> 0" and "lts_run (disp_step st) (MsgDispatcher_new f n s) es1 d1"
    and "\<not> started d1" and "msg_threads d1 \<noteq> []" and "list_all joined (msg_threads d1)"
    and "lts_run (disp_step st) (snd (Start d1)) es2 d3"
  shows "handled_run r es2 = []"
proof -
  let ?d2 = "snd (Start d1)"
  note init = fresh_new [OF assms(1), of f s]
  have h: "home d1" using routing.inv_run [OF assms(2) init] by (simp add: routed_def)
  have j: "joined_finished es1 d1" by (rule joining.inv_run [OF assms(2) init])
  have d2: "?d2 = d1\<lparr>started := True,
      msg_threads := msg_threads d1 @ replicate (unat (thread_num d1)) MsgThread_new\<rparr>"
    using assms(3) by (simp add: Start_def)
  have "pc (msg_threads d1 ! i) = Finished" if "i < length (msg_threads d1)" for i
    using that j assms(5) by (auto simp: joined_finished_def list_all_length)
  moreover have "pending (msg_threads d1 ! i) = []" if "i < length (msg_threads d1)" "unat (thread_num d1) \<le> i" for i
  proof -
    have "thread_index (dispatch_id m) d1 < i" for m
      using thread_index_less [of d1 "dispatch_id m"] h that(2) by (auto simp: home_def)
    then have "m \<notin> set (pending (msg_threads d1 ! i))" for m
      using h that(1) by (metis home_def less_irrefl)
    then show ?thesis by (cases "pending (msg_threads d1 ! i)") auto
  qed
  ultimately have "dead_pool ?d2"
    using h assms(4) by (auto simp: dead_pool_def d2 home_def nth_append)
  from restarted.inv_run [OF assms(6) this] show ?thesis by (simp add: quiet_def)
qed

theorem restarted_dispatcher_is_dead_witness:
  "\<exists>d3. lts_run (disp_step demo_store) (snd (Start (demo_state False [joined_thread])))
      [EPush 5 (Some 0)] d3 \<and> role_pending 5 d3 = [demo_msg] \<and> handled_run 5 [EPush 5 (Some 0)] = []"
proof -
  let ?d2 = "snd (Start (demo_state False [joined_thread]))"
  let ?d3 = "demo_state True [MsgThread_Push demo_msg joined_thread, MsgThread_new]"
  have d2: "?d2 = demo_state True [joined_thread, MsgThread_new]"
    by (simp add: Start_def demo_state_def MsgDispatcher_new_def)
  have "disp_step demo_store ?d2 (EPush 5 (Some 0)) ?d3"
    unfolding d2 by (rule disp_step.push)
      (simp_all add: Push_def thread_index_def demo_state_def MsgDispatcher_new_def demo_msg_def)
  note r = lts_one [of "disp_step demo_store", OF this]
  have "role_pending 5 ?d3 = [demo_msg]"
    by (simp add: role_pending_def thread_index_def demo_state_def MsgDispatcher_new_def pending_def
        MsgThread_Push_def demo_msg_def)
  with r restarted_dispatcher_is_dead [OF _ demo_stopped _ _ _ r, of 5] show ?thesis
    by (intro exI [of _ ?d3]) simp
qed

text \<open>
  C11: functional. A synchronous call gets its answer: after \<open>SetSyncMessageId\<close> has stamped a message,
  the first answer that carries the stamp fulfils the future that was returned, calls no callback and
  removes the promise.
\<close>

theorem sync_answer_fulfils_future:
  assumes "promises_ok d" and "enable_sync d" and "SetSyncMessageId r (Some a) st d = Inr (f, st', d')"
    and "next_message_id r d \<noteq> 0"
    and "st2 b = Some m" and "message_unique_id (base m) = message_unique_id (base (the (st' a)))"
  shows "\<exists>d''. Dispatch st2 \<lparr>dispatch_id = r', base_message_ptr = Some b\<rparr> d' = Inr (NoCall, d'') \<and>
    future_get f d' = None \<and> future_get f d'' = Some (Inr (Some b)) \<and>
    message_promise d'' (next_message_id r d) = None"
proof -
  let ?u = "next_message_id r d"
  note ok = SetSyncMessageId_ok [OF assms(1,3)]
  obtain p where p: "message_promise d' ?u = Some p" "shared p = f" using ok(2) by blast
  have u: "message_unique_id (base m) = ?u" using ok(5) assms(6) by auto
  have sync: "enable_sync d'" using ok(4) assms(2) by simp
  have f: "f < length (shared_states d')" "shared_states d' ! f = Pending"
    using promises_okD(1,2) [OF ok(1) p(1)] p(2) by simp_all
  obtain d'' where "Dispatch st2 \<lparr>dispatch_id = r', base_message_ptr = Some b\<rparr> d' = Inr (NoCall, d'')"
    "message_promise d'' = (message_promise d')(?u := None)"
    "shared_states d'' = (shared_states d')[f := Ready (Some b)]"
    by (rule Dispatch_sync [where r = r' and st = st2 and a = b, OF ok(1) sync assms(5) u assms(4)]) (use p in auto)
  with f show ?thesis by (auto simp: future_get_def)
qed

theorem sync_answer_fulfils_future_witness:
  "\<exists>f st' d' d''. SetSyncMessageId 1 (Some 0) demo_store (MsgDispatcher_new (0 :: nat) 1 True) = Inr (f, st', d') \<and>
     Dispatch st' \<lparr>dispatch_id = 1, base_message_ptr = Some 0\<rparr> d' = Inr (NoCall, d'') \<and>
     future_get f d'' = Some (Inr (Some 0))"
proof -
  let ?d = "MsgDispatcher_new (0 :: nat) 1 True"
  obtain f st' d' where s: "SetSyncMessageId 1 (Some 0) demo_store ?d = Inr (f, st', d')"
    by (simp add: SetSyncMessageId_def deref_def demo_store_def MsgDispatcher_new_def promise_at_def
        get_future_def Let_def)
  have e: "enable_sync ?d" "next_message_id 1 ?d \<noteq> 0"
    by (simp_all add: MsgDispatcher_new_def next_message_id_def)
  obtain m where m: "st' 0 = Some m" using SetSyncMessageId_ok(5) [OF promises_ok_new s] by auto
  from sync_answer_fulfils_future [where ?st2.0 = st' and b = 0 and r' = 1, OF promises_ok_new e(1) s e(2) m] m s show ?thesis by auto
qed

text \<open>
  error. The identifiers of synchronous messages are counted for each role, but their promises
  are kept in one map by identifier alone: when two roles are at the same count, the call for the
  second one, made while the first still waits, throws \<open>std::future_error\<close>.
\<close>

theorem sync_ids_of_two_roles_collide:
  assumes "promises_ok d" and "r1 \<noteq> r2" and "message_id_map d r1 = message_id_map d r2"
    and "SetSyncMessageId r1 (Some a) st d = Inr (f, st', d')" and "st' b = Some m"
  shows "SetSyncMessageId r2 (Some b) st' d' = Inl FutureError"
proof -
  note ok = SetSyncMessageId_ok [OF assms(1,4)]
  have u: "next_message_id r2 d' = next_message_id r1 d"
    using ok(3) assms(2,3) by (auto simp: next_message_id_def)
  obtain p where "message_promise d' (next_message_id r1 d) = Some p" "future_retrieved p"
    using ok(2) by blast
  with u assms(5) show ?thesis
    by (simp add: SetSyncMessageId_def deref_def promise_at_def get_future_def Let_def)
qed

theorem sync_ids_of_two_roles_collide_witness:
  "\<exists>f st' d'. SetSyncMessageId 1 (Some 0) demo_store (MsgDispatcher_new (0 :: nat) 1 True) = Inr (f, st', d') \<and>
     SetSyncMessageId 2 (Some 0) st' d' = Inl FutureError"
proof -
  let ?d = "MsgDispatcher_new (0 :: nat) 1 True"
  obtain f st' d' where s: "SetSyncMessageId 1 (Some 0) demo_store ?d = Inr (f, st', d')"
    by (simp add: SetSyncMessageId_def deref_def demo_store_def MsgDispatcher_new_def promise_at_def
        get_future_def Let_def)
  obtain m where m: "st' 0 = Some m" using SetSyncMessageId_ok(5) [OF promises_ok_new s] by auto
  have "message_id_map ?d 1 = message_id_map ?d 2" by (simp add: MsgDispatcher_new_def)
  from sync_ids_of_two_roles_collide [where st' = st' and b = 0, OF promises_ok_new _ this s m] s show ?thesis by auto
qed

text \<open>
  functional. A message without a stamp, or any message when waiting is off, goes to the callback
  registered for its type or else to the default one, with the dispatcher unchanged; a stamped message
  nobody waits for calls no callback and changes no future already handed out: it is dropped.
\<close>

theorem dispatch_routes_messages:
  assumes "promises_ok d" and "length (msg_callbacks d) = 6" and "st a = Some m"
    and "valid_type (message_type (base m))"
  shows "(\<not> enable_sync d \<or> message_unique_id (base m) = 0 \<longrightarrow>
      Dispatch st \<lparr>dispatch_id = r, base_message_ptr = Some a\<rparr> d =
        Inr (Invoke (case msg_callbacks d ! unat (type_byte (message_type (base m))) of
               None \<Rightarrow> default_message_callback d | Some cb \<Rightarrow> cb) r (Some a), d)) \<and>
    (enable_sync d \<and> message_unique_id (base m) \<noteq> 0 \<and> message_promise d (message_unique_id (base m)) = None \<longrightarrow>
      (\<exists>d'. Dispatch st \<lparr>dispatch_id = r, base_message_ptr = Some a\<rparr> d = Inr (NoCall, d') \<and>
        message_promise d' = message_promise d \<and>
        (\<forall>f < length (shared_states d). future_get f d' = future_get f d)))"
proof (intro conjI impI)
  assume "\<not> enable_sync d \<or> message_unique_id (base m) = 0"
  moreover have "unat (type_byte (message_type (base m))) < 6"
    using assms(4) by (auto simp: valid_type_iff)
  ultimately show "Dispatch st \<lparr>dispatch_id = r, base_message_ptr = Some a\<rparr> d =
        Inr (Invoke (case msg_callbacks d ! unat (type_byte (message_type (base m))) of
               None \<Rightarrow> default_message_callback d | Some cb \<Rightarrow> cb) r (Some a), d)"
    using assms(2,3)
    by (auto simp: Dispatch_def deref_def ASYNC_MESSAGE_UNIQUE_ID_def Let_def split: option.split)
next
  assume a: "enable_sync d \<and> message_unique_id (base m) \<noteq> 0 \<and> message_promise d (message_unique_id (base m)) = None"
  then have "enable_sync d" "message_unique_id (base m) \<noteq> 0" by auto
  note disp = Dispatch_sync [where st = st and a = a and r = r, OF assms(1) this(1) assms(3) refl this(2)]
  show "\<exists>d'. Dispatch st \<lparr>dispatch_id = r, base_message_ptr = Some a\<rparr> d = Inr (NoCall, d') \<and>
        message_promise d' = message_promise d \<and>
        (\<forall>f < length (shared_states d). future_get f d' = future_get f d)"
    by (rule disp) (use a in \<open>auto simp: future_get_def nth_append fun_upd_idem\<close>)
qed

theorem dispatch_routes_messages_witness:
  "Dispatch demo_store demo_msg (MsgDispatcher_new (9 :: nat) 1 False) =
     Inr (Invoke 9 5 (Some 0), MsgDispatcher_new 9 1 False)"
proof -
  let ?d = "MsgDispatcher_new (9 :: nat) 1 False"
  have "length (msg_callbacks ?d) = 6" "demo_store 0 = Some PingMessage_new"
    "valid_type (message_type (base PingMessage_new))"
    by (simp_all add: MsgDispatcher_new_def demo_store_def PingMessage_new_def valid_type_iff)
  from dispatch_routes_messages [where st = demo_store and a = 0 and r = 5, OF promises_ok_new this]
  show ?thesis
    by (simp add: MsgDispatcher_new_def demo_msg_def PingMessage_new_def)
qed

end
