(* ===== verification/MKServer.thy ===== *)
theory MKServer
  imports GameServer MsgDispatcher
begin

text \<open>
  \<^verbatim>\<open>GameServer/MKServer.h\<close> and \<^verbatim>\<open>GameServer/MKServer.cpp\<close>: the server with its two dispatchers. The
  network thread decodes each message and pushes it to the receiving dispatcher; the sending one
  encodes a message and hands the bytes to the connection of the role. The callbacks of the receiving
  dispatcher belong to the user of the class and are of a type \<open>'cb\<close>.
\<close>

section \<open>State and construction\<close>

text \<open>The sending dispatcher has the default function of its class or the one set by the constructor.\<close>

datatype send_cb = LogDefault | EncodeAndSend

text \<open>\<open>mem\<close> holds the messages that shared pointers lead to; \<open>next_addr\<close> is free.\<close>

record 'cb MKServer =
  game_server :: GameServer
  recv_msg_dispatcher :: "'cb MsgDispatcher"
  send_msg_dispatcher :: "send_cb MsgDispatcher"
  mk_started :: bool
  mem :: msg_store
  next_addr :: addr

definition MKServer_new :: "'cb \<Rightarrow> string \<Rightarrow> 16 word \<Rightarrow> u32 \<Rightarrow> u32 \<Rightarrow> 'cb MKServer" where
  "MKServer_new dflt name p recv_thread_num send_thread_num =
     \<lparr>game_server = Server_SetOnNewMsgWithBufferFunc True (GameServer_new name p),
      recv_msg_dispatcher = MsgDispatcher_new dflt recv_thread_num False,
      send_msg_dispatcher = SetDefaultMsgCallback EncodeAndSend (MsgDispatcher_new LogDefault send_thread_num False),
      mk_started = False, mem = Map.empty, next_addr = 0\<rparr>"

section \<open>Operations\<close>

definition MKServer_Start :: "'cb MKServer \<Rightarrow> 'cb MKServer" where
  "MKServer_Start s =
     (if \<not> mk_started s
      then s\<lparr>mk_started := True,
             recv_msg_dispatcher := snd (Start (recv_msg_dispatcher s)),
             send_msg_dispatcher := snd (Start (send_msg_dispatcher s)),
             game_server := Asio_Start (game_server s)\<rparr>
      else s)"

text \<open>\<open>None\<close>: a thread of a dispatcher has not finished, and \<open>Stop\<close> waits for it.\<close>

definition MKServer_Stop :: "'cb MKServer \<Rightarrow> 'cb MKServer res option" where
  "MKServer_Stop s =
     (if mk_started s
      then (case Stop (recv_msg_dispatcher s) of
              None \<Rightarrow> None
            | Some (Inl e) \<Rightarrow> Some (Inl e)
            | Some (Inr rd) \<Rightarrow>
                (case Stop (send_msg_dispatcher s) of
                   None \<Rightarrow> None
                 | Some (Inl e) \<Rightarrow> Some (Inl e)
                 | Some (Inr sd) \<Rightarrow> Some (Inr (s\<lparr>mk_started := False, recv_msg_dispatcher := rd,
                     send_msg_dispatcher := sd, game_server := Asio_Stop (game_server s)\<rparr>))))
      else Some (Inr s))"

definition MKServer_SetMsgCallback :: "MessageType \<Rightarrow> 'cb option \<Rightarrow> 'cb MKServer \<Rightarrow> 'cb MKServer res" where
  "MKServer_SetMsgCallback t callback s =
     rbind (SetMsgCallback t callback (recv_msg_dispatcher s)) (\<lambda>d. Inr (s\<lparr>recv_msg_dispatcher := d\<rparr>))"

definition SendMessageByRoleId :: "ROLE_ID \<Rightarrow> BaseMessagePtr \<Rightarrow> 'cb MKServer \<Rightarrow> 'cb MKServer res" where
  "SendMessageByRoleId r msg_ptr s =
     rbind (Push r msg_ptr (send_msg_dispatcher s)) (\<lambda>d. Inr (s\<lparr>send_msg_dispatcher := d\<rparr>))"

definition SendMessageByRoleIds :: "ROLE_ID list \<Rightarrow> BaseMessagePtr \<Rightarrow> 'cb MKServer \<Rightarrow> 'cb MKServer res" where
  "SendMessageByRoleIds rs msg_ptr s =
     rbind (Push_all rs msg_ptr (send_msg_dispatcher s)) (\<lambda>d. Inr (s\<lparr>send_msg_dispatcher := d\<rparr>))"

definition MKServer_SetOnRoleDisconnectFunc :: "bool \<Rightarrow> 'cb MKServer \<Rightarrow> 'cb MKServer" where
  "MKServer_SetOnRoleDisconnectFunc f s = s\<lparr>game_server := SetOnRoleDisconnectFunc f (game_server s)\<rparr>"

text \<open>
  The two lambdas of the constructor. The first encodes a message for a role and returns what is logged.
  The second gets a message with its body: \<open>TransmitMessage\<close>, then \<open>on_message\<close> with its result, which
  uses the pointer without a test.
\<close>

definition encode_and_send :: "endian \<Rightarrow> ROLE_ID \<Rightarrow> BaseMessagePtr \<Rightarrow> 'cb MKServer \<Rightarrow>
    ('cb MKServer \<times> string option) res" where
  "encode_and_send h r ptr s =
     rbind TinyBuffer_new (\<lambda>buffer.
     rbind (deref (mem s) ptr) (\<lambda>m.
     rbind (EncodeMessage h m buffer) (\<lambda>buffer.
     rbind (mem_read (ReadBegin buffer) (unat (ReadableSize buffer)) (vec buffer)) (\<lambda>data.
     let (g, line) = SendMessageById r data (game_server s) in Inr (s\<lparr>game_server := g\<rparr>, line)))))"

definition on_message :: "Message option \<Rightarrow> 'cb MKServer \<Rightarrow> 'cb MKServer res" where
  "on_message msg s =
     (case msg of
        None \<Rightarrow> Inl NullDeref
      | Some m \<Rightarrow>
          let a = next_addr s; s = s\<lparr>mem := (mem s)(a \<mapsto> m), next_addr := a + 1\<rparr> in
          rbind (Push (role_id (base m)) (Some a) (recv_msg_dispatcher s)) (\<lambda>d.
          Inr (s\<lparr>recv_msg_dispatcher := d\<rparr>)))"

text \<open>A completed read of the \<open>i\<close>-th connection; \<open>df\<close> is the function set for a role that is gone.\<close>

definition mk_on_read :: "endian \<Rightarrow> (ROLE_ID \<Rightarrow> 'cb MKServer \<Rightarrow> 'cb MKServer res) \<Rightarrow> conn_id \<Rightarrow> error_code \<Rightarrow>
    u8 list \<Rightarrow> 'cb MKServer \<Rightarrow> 'cb MKServer res" where
  "mk_on_read h = (\<lambda>df. server_on_read game_server (\<lambda>g s. s\<lparr>game_server := g\<rparr>) h (decoding h on_message) df)"

text \<open>The call that \<open>Dispatch\<close> of the sending dispatcher makes for a message it handles.\<close>

definition run_send_call :: "endian \<Rightarrow> send_cb call \<Rightarrow> 'cb MKServer \<Rightarrow> ('cb MKServer \<times> string option) res" where
  "run_send_call h c s =
     (case c of
        NoCall \<Rightarrow> Inr (s, None)
      | Invoke LogDefault r p \<Rightarrow> rbind (deref (mem s) p) (\<lambda>m. Inr (s, DefaultMsgCallback_log r m))
      | Invoke EncodeAndSend r p \<Rightarrow> encode_and_send h r p s)"

section \<open>Lemmas\<close>

lemma encode_and_send_frame:
  assumes "mem s a = Some m"
  shows "encode_and_send h r (Some a) s =
    (let (g, line) = SendMessageById r (frame m) (game_server s) in Inr (s\<lparr>game_server := g\<rparr>, line))"
proof -
  obtain t b where tb: "TinyBuffer_new = Inr t" "EncodeMessage h m t = Inr b"
    "mem_read (ReadBegin b) (unat (ReadableSize b)) (vec b) = Inr (frame m)" by (rule tiny_buffer_frame)
  then show ?thesis by (simp add: encode_and_send_def deref_def assms tb)
qed

lemma mk_on_read_data:
  assumes "i < length (objects (game_server s))" "alive (game_server s) i"
    "objects (game_server s) ! i = \<lparr>tcp_conn = t, game_conn = c\<rparr>" "receiving t c"
    "length data \<le> unat (WritableSize (recv_buffer t))"
  defines "reg \<equiv> (\<lambda>r s. Inr (s\<lparr>game_server := AddConnToRoleMap r i (game_server s)\<rparr>))"
  defines "F \<equiv> feed reg (decoding_bytes on_message) (conn_role_id c) (readable (recv_buffer t) @ data) s"
  shows "F = Inl e \<Longrightarrow> mk_on_read h df i Success data s = Inl e"
    "F = Inr (r, rest, s') \<Longrightarrow> \<exists>t'. mk_on_read h df i Success data s =
       Inr (s'\<lparr>game_server := set_object i \<lparr>tcp_conn = t', game_conn = c\<lparr>conn_role_id := r\<rparr>\<rparr> (game_server s')\<rparr>) \<and>
       receiving t' (c\<lparr>conn_role_id := r\<rparr>) \<and> readable (recv_buffer t') = rest"
proof -
  let ?close = "\<lambda>s. let (g, gone, res) = OnConnectionClose c (game_server s) in
    case gone of None \<Rightarrow> Inr (s\<lparr>game_server := g\<rparr>) | Some r \<Rightarrow> df r (s\<lparr>game_server := g\<rparr>)"
  have eq: "mk_on_read h df i Success data s =
      rbind (on_read (on_data h reg (decoding h on_message)) (on_close ?close) Success data t (c, s)) (\<lambda>(t, c, s).
        Inr (s\<lparr>game_server := set_object i \<lparr>tcp_conn = t, game_conn = c\<rparr> (game_server s)\<rparr>))"
    using assms(1-3) by (simp add: mk_on_read_def server_on_read_def reg_def Let_def)
  show "mk_on_read h df i Success data s = Inl e" if "F = Inl e"
    using sink.on_read_faults [OF assms(4,5) that [unfolded F_def], where h = h and g = ?close] unfolding eq by simp
  assume "F = Inr (r, rest, s')"
  from sink.on_read_feeds [OF assms(4,5) this [unfolded F_def], where h = h and g = ?close] obtain t' where
    "on_read (on_data h reg (decoding h on_message)) (on_close ?close) Success data t (c, s) =
       Inr (t', c\<lparr>conn_role_id := r\<rparr>, s')"
    "receiving t' (c\<lparr>conn_role_id := r\<rparr>)" "readable (recv_buffer t') = rest" by blast
  then show "\<exists>t'. mk_on_read h df i Success data s =
       Inr (s'\<lparr>game_server := set_object i \<lparr>tcp_conn = t', game_conn = c\<lparr>conn_role_id := r\<rparr>\<rparr> (game_server s')\<rparr>) \<and>
       receiving t' (c\<lparr>conn_role_id := r\<rparr>) \<and> readable (recv_buffer t') = rest"
    unfolding eq by (intro exI [of _ t']) simp
qed

text \<open>Messages that are handed over get addresses one after another and are pushed in this order.\<close>

definition push_received :: "(Message \<times> addr) list \<Rightarrow> 'cb MsgDispatcher \<Rightarrow> 'cb MsgDispatcher res" where
  "push_received = rfold (\<lambda>(m, a). Push (role_id (base m)) (Some a))"

lemma on_messages:
  "rfold (\<lambda>m. on_message (Some m)) ms s =
     rbind (push_received (zip ms [next_addr s..<next_addr s + length ms]) (recv_msg_dispatcher s)) (\<lambda>d.
     Inr (s\<lparr>recv_msg_dispatcher := d, mem := mem s ++ map_of (zip [next_addr s..<next_addr s + length ms] ms),
            next_addr := next_addr s + length ms\<rparr>))"
proof (induction ms arbitrary: s)
  case Nil
  then show ?case by (simp add: push_received_def)
next
  case (Cons m ms)
  let ?n = "next_addr s"
  have up: "[?n..<?n + length (m # ms)] = ?n # [Suc ?n..<Suc ?n + length ms]"
    by (subst upt_conv_Cons) auto
  have "map_of (zip [Suc ?n..<Suc ?n + length ms] ms) ?n = None"
    by (auto simp: map_of_eq_None_iff dest!: set_zip_leftD)
  then have m: "(mem s)(?n \<mapsto> m) ++ map_of (zip [Suc ?n..<Suc ?n + length ms] ms) =
      mem s ++ map_of (zip [?n..<?n + length (m # ms)] (m # ms))"
    unfolding up by (simp add: map_add_upd_left dom_def del: upt_Suc)
  let ?s = "s\<lparr>mem := (mem s)(?n \<mapsto> m), next_addr := Suc ?n\<rparr>"
  have step: "on_message (Some m) s = rbind (Push (role_id (base m)) (Some ?n) (recv_msg_dispatcher s))
      (\<lambda>d. Inr (?s\<lparr>recv_msg_dispatcher := d\<rparr>))"
    by (simp add: on_message_def Let_def)
  show ?case
    unfolding m [symmetric] unfolding up
    by (cases "Push (role_id (base m)) (Some ?n) (recv_msg_dispatcher s)")
      (simp_all add: step Cons.IH push_received_def fun_upd_def del: upt_Suc)
qed

lemma Push_home:
  assumes "home d" "started d"
  obtains d' where "Push r (Some a) d = Inr d'" "home d'" "started d'"
proof -
  have i: "thread_num d \<noteq> 0" "thread_index r d < length (msg_threads d)"
    using assms home_index [of d r] by (auto simp: home_def)
  let ?m = "\<lparr>dispatch_id = r, base_message_ptr = Some a\<rparr>"
  let ?d = "d\<lparr>msg_threads := (msg_threads d)[thread_index r d := MsgThread_Push ?m (msg_threads d ! thread_index r d)]\<rparr>"
  have "Push r (Some a) d = Inr ?d" using assms i by (simp add: Push_def Let_def)
  moreover have "home ?d" using assms i by (auto simp: home_def nth_list_update)
  ultimately show ?thesis using that assms(2) by simp
qed

lemma push_received_home:
  assumes "home d" "started d"
  obtains d' where "push_received xs d = Inr d'" "home d'" "started d'"
proof -
  have "\<exists>d'. push_received xs d = Inr d' \<and> home d' \<and> started d'"
    using assms
  proof (induction xs arbitrary: d)
    case (Cons x xs)
    obtain m a where x: "x = (m, a)" by (cases x)
    obtain e where "Push (role_id (base m)) (Some a) d = Inr e" "home e" "started e"
      by (rule Push_home [OF Cons.prems])
    with Cons.IH [of e] show ?case by (simp add: push_received_def x)
  qed (simp add: push_received_def)
  then show ?thesis using that by blast
qed

text \<open>A message for closed examples.\<close>

definition demo_ping :: Message where
  "demo_ping = PingMessage (base PingMessage_new\<lparr>role_id := 7\<rparr>) 42"

section \<open>Properties\<close>

text \<open>
  C12: functional. From the socket to the queues: when the frames of a client's first messages have
  arrived at a connection, its handler enters the connection under the role of the first message,
  stores the decoded messages and pushes them to the receiving dispatcher in their order, each
  under the role it carries; the connection has used up the bytes and goes on receiving.
\<close>

theorem received_frames_are_dispatched:
  assumes "i < length (objects (game_server s))" "alive (game_server s) i"
    "objects (game_server s) ! i = \<lparr>tcp_conn = t, game_conn = c\<rparr>" "receiving t c" "conn_role_id c = 0"
    "readable (recv_buffer t) = []" "length (stream (m0 # ms)) \<le> unat (WritableSize (recv_buffer t))"
    "\<forall>m \<in> set (m0 # ms). well_typed m \<and> class_of m \<noteq> CBase" "role_id (base m0) \<noteq> 0"
    "home (recv_msg_dispatcher s)" "started (recv_msg_dispatcher s)"
  shows "\<exists>s' d t' c'. mk_on_read h df i Success (stream (m0 # ms)) s = Inr s' \<and>
    role_id_conn_map (game_server s') = (role_id_conn_map (game_server s))(role_id (base m0) \<mapsto> i) \<and>
    (let as = [next_addr s..<next_addr s + length (m0 # ms)] in
     push_received (zip (m0 # ms) as) (recv_msg_dispatcher s) = Inr d \<and> recv_msg_dispatcher s' = d \<and>
     mem s' = mem s ++ map_of (zip as (m0 # ms))) \<and>
    objects (game_server s') ! i = \<lparr>tcp_conn = t', game_conn = c'\<rparr> \<and>
    receiving t' c' \<and> readable (recv_buffer t') = [] \<and> conn_role_id c' = role_id (base m0)"
proof -
  let ?ms = "m0 # ms" and ?r = "role_id (base m0)"
  let ?reg = "\<lambda>r s. Inr (s\<lparr>game_server := AddConnToRoleMap r i (game_server s)\<rparr>) :: 'a MKServer res"
  let ?s1 = "s\<lparr>game_server := AddConnToRoleMap ?r i (game_server s)\<rparr>"
  let ?as = "[next_addr s..<next_addr s + length ?ms]"
  obtain d where d: "push_received (zip ?ms ?as) (recv_msg_dispatcher s) = Inr d"
    by (rule push_received_home [OF assms(10,11)])
  define s2 where "s2 = ?s1\<lparr>recv_msg_dispatcher := d, mem := mem s ++ map_of (zip ?as ?ms),
    next_addr := next_addr s + length ?ms\<rparr>"
  have "rfold (\<lambda>m. on_message (Some m)) ?ms ?s1 = Inr s2"
    using d unfolding on_messages [of ?ms ?s1] by (simp add: s2_def)
  then have del: "deliver ?reg (decoding_bytes on_message) 0 ?ms s = Inr (?r, s2)"
    using deliver_first_role [OF assms(9,8), of ?reg on_message s] by simp
  have "\<forall>m \<in> set ?ms. well_typed m" using assms(8) by blast
  from feed_stream [OF this, of ?reg "decoding_bytes on_message" 0 s] del
  have "feed ?reg (decoding_bytes on_message) (conn_role_id c) (readable (recv_buffer t) @ stream ?ms) s =
      Inr (?r, [], s2)"
    unfolding assms(5,6) append_Nil by simp
  from mk_on_read_data(2) [OF assms(1-4) assms(7) this, of h df] obtain t' where
    t': "mk_on_read h df i Success (stream ?ms) s = Inr (s2\<lparr>game_server :=
       set_object i \<lparr>tcp_conn = t', game_conn = c\<lparr>conn_role_id := ?r\<rparr>\<rparr> (game_server s2)\<rparr>)"
    "receiving t' (c\<lparr>conn_role_id := ?r\<rparr>)" "readable (recv_buffer t') = []" by blast
  let ?s' = "s2\<lparr>game_server := set_object i \<lparr>tcp_conn = t', game_conn = c\<lparr>conn_role_id := ?r\<rparr>\<rparr> (game_server s2)\<rparr>"
  have g: "role_id_conn_map (game_server ?s') = (role_id_conn_map (game_server s))(?r \<mapsto> i)"
    "recv_msg_dispatcher ?s' = d" "mem ?s' = mem s ++ map_of (zip ?as ?ms)"
    "objects (game_server ?s') ! i = \<lparr>tcp_conn = t', game_conn = c\<lparr>conn_role_id := ?r\<rparr>\<rparr>"
    "conn_role_id (c\<lparr>conn_role_id := ?r\<rparr>) = ?r"
    using assms(1) unfolding s2_def set_object_def AddConnToRoleMap_def by simp_all
  show ?thesis unfolding Let_def by (intro exI conjI) (fact t' g d)+
qed

theorem received_frames_are_dispatched_witness:
  "\<exists>t c s s' d t' c'.
    s = (MKServer_new () ''srv'' 4000 10 10)\<lparr>recv_msg_dispatcher := snd (Start (MsgDispatcher_new () 10 False)),
      game_server := (GameServer_new ''srv'' 4000)\<lparr>game_connection_map := [''srv#1'' \<mapsto> 0],
        objects := [\<lparr>tcp_conn = t, game_conn = c\<rparr>]\<rparr>\<rparr> \<and>
    mk_on_read LittleEndian (\<lambda>r s. Inr s) 0 Success (stream [demo_ping]) s = Inr s' \<and>
    role_id_conn_map (game_server s') = [7 \<mapsto> 0] \<and>
    push_received [(demo_ping, 0)] (recv_msg_dispatcher s) = Inr d \<and> recv_msg_dispatcher s' = d \<and>
    mem s' = [0 \<mapsto> demo_ping] \<and>
    objects (game_server s') ! 0 = \<lparr>tcp_conn = t', game_conn = c'\<rparr> \<and> conn_role_id c' = 7"
proof -
  obtain t c where c: "connected ''srv#1'' = Inr (t, c)" "receiving t c" "readable (recv_buffer t) = []"
    "conn_role_id c = 0" "unat (WritableSize (recv_buffer t)) = 4096" by (rule connected_receiving)
  let ?s = "(MKServer_new () ''srv'' 4000 10 10)\<lparr>recv_msg_dispatcher := snd (Start (MsgDispatcher_new () 10 False)),
      game_server := (GameServer_new ''srv'' 4000)\<lparr>game_connection_map := [''srv#1'' \<mapsto> 0],
        objects := [\<lparr>tcp_conn = t, game_conn = c\<rparr>]\<rparr>\<rparr>"
  have s: "alive (game_server ?s) 0" "home (recv_msg_dispatcher ?s)" "started (recv_msg_dispatcher ?s)"
    "length (stream [demo_ping]) \<le> unat (WritableSize (recv_buffer t))"
    "next_addr ?s = 0" "mem ?s = Map.empty" "role_id_conn_map (game_server ?s) = Map.empty"
    using c(5) by (simp_all add: alive_def home_def Start_def MsgDispatcher_new_def MKServer_new_def length_frame
        GameServer_new_def demo_ping_def)
  have m: "\<forall>m \<in> set [demo_ping]. well_typed m \<and> class_of m \<noteq> CBase" "role_id (base demo_ping) = 7"
    by (simp_all add: demo_ping_def well_typed_def PingMessage_new_def BaseMessage_new_def)
  have u: "[0..<0 + length [demo_ping]] = [0]" by simp
  have "role_id (base demo_ping) \<noteq> 0" "0 < length (objects (game_server ?s))"
    "objects (game_server ?s) ! 0 = \<lparr>tcp_conn = t, game_conn = c\<rparr>" using m(2) by simp_all
  from received_frames_are_dispatched [OF this(2) s(1) this(3) c(2,4,3) s(4) m(1) this(1) s(2,3),
      of LittleEndian "\<lambda>r s. Inr s", unfolded s(5-7) m(2) u Let_def]
  obtain s' d t' c' where r: "mk_on_read LittleEndian (\<lambda>r s. Inr s) 0 Success (stream [demo_ping]) ?s = Inr s'"
    "role_id_conn_map (game_server s') = [7 \<mapsto> 0]" "push_received (zip [demo_ping] [0]) (recv_msg_dispatcher ?s) = Inr d"
    "recv_msg_dispatcher s' = d" "mem s' = Map.empty ++ map_of (zip [0] [demo_ping])"
    "objects (game_server s') ! 0 = \<lparr>tcp_conn = t', game_conn = c'\<rparr>" "conn_role_id c' = 7" by blast
  then have "push_received [(demo_ping, 0)] (recv_msg_dispatcher ?s) = Inr d" "mem s' = [0 \<mapsto> demo_ping]" by simp_all
  with r show ?thesis by blast
qed

text \<open>
  error. A client whose frame has the valid type \<open>DEFAULT\<close> (a header without a body) ends the
  server: \<open>TransmitMessage\<close> returns the null pointer and the handler dereferences it. No role,
  no earlier message and no particular state of the server is needed.
\<close>

theorem default_message_crashes_server:
  assumes "i < length (objects (game_server s))" "alive (game_server s) i"
    "objects (game_server s) ! i = \<lparr>tcp_conn = t, game_conn = c\<rparr>" "receiving t c"
    "readable (recv_buffer t) = []" "length (frame (BaseMsg b)) \<le> unat (WritableSize (recv_buffer t))"
    "magic b = MAGIC" "message_type b = DEFAULT"
  shows "mk_on_read h df i Success (frame (BaseMsg b)) s = Inl NullDeref"
proof -
  let ?reg = "\<lambda>r s. Inr (s\<lparr>game_server := AddConnToRoleMap r i (game_server s)\<rparr>) :: 'a MKServer res"
  have "well_typed (BaseMsg b)" using assms(7,8) by (simp add: well_typed_def)
  from feed_frame [OF this, of ?reg "decoding_bytes on_message" "conn_role_id c" "[]" s]
  have "feed ?reg (decoding_bytes on_message) (conn_role_id c) (readable (recv_buffer t) @ frame (BaseMsg b)) s =
      Inl NullDeref"
    using assms(5,8) by (simp add: decoding_bytes_def decode_body_def on_message_def Let_def)
  from mk_on_read_data(1) [OF assms(1-4) assms(6) this] show ?thesis .
qed

theorem default_message_crashes_server_witness:
  "\<exists>t c. receiving t c \<and>
    mk_on_read LittleEndian (\<lambda>r s. Inr s) 0 Success (frame (BaseMsg (BaseMessage_new\<lparr>message_type := DEFAULT\<rparr>)))
      ((MKServer_new () ''srv'' 4000 10 10)\<lparr>game_server := (GameServer_new ''srv'' 4000)\<lparr>
         game_connection_map := [''srv#1'' \<mapsto> 0], objects := [\<lparr>tcp_conn = t, game_conn = c\<rparr>]\<rparr>\<rparr>) = Inl NullDeref"
proof -
  obtain t c where c: "connected ''srv#1'' = Inr (t, c)" "receiving t c" "readable (recv_buffer t) = []"
    "unat (WritableSize (recv_buffer t)) = 4096" by (rule connected_receiving)
  let ?s = "(MKServer_new () ''srv'' 4000 10 10)\<lparr>game_server := (GameServer_new ''srv'' 4000)\<lparr>
         game_connection_map := [''srv#1'' \<mapsto> 0], objects := [\<lparr>tcp_conn = t, game_conn = c\<rparr>]\<rparr>\<rparr>"
  let ?b = "BaseMessage_new\<lparr>message_type := DEFAULT\<rparr>"
  have "alive (game_server ?s) 0" by (simp add: alive_def)
  moreover have "length (frame (BaseMsg ?b)) \<le> unat (WritableSize (recv_buffer t))" "magic ?b = MAGIC"
    using c(4) by (simp_all add: length_frame BaseMessage_new_def)
  ultimately have "mk_on_read LittleEndian (\<lambda>r s. Inr s) 0 Success (frame (BaseMsg ?b)) ?s = Inl NullDeref"
    using c by (intro default_message_crashes_server [where t = t and c = c]) simp_all
  with c(2) show ?thesis by blast
qed

text \<open>
  C18: functional. From a queue to the socket: when a thread of the sending dispatcher handles a message
  for a role, exactly the frame of the message, as it is at that moment, is sent on the connection of
  that role (or the unknown role is logged), and nothing else changes.
\<close>

theorem sent_message_is_framed:
  assumes "default_message_callback (send_msg_dispatcher s) = EncodeAndSend"
    "\<forall>cb \<in> set (msg_callbacks (send_msg_dispatcher s)). cb = None"
    "\<not> enable_sync (send_msg_dispatcher s)" "mem s a = Some m"
    "unat (type_byte (message_type (base m))) < length (msg_callbacks (send_msg_dispatcher s))"
  shows "rbind (Dispatch (mem s) \<lparr>dispatch_id = r, base_message_ptr = Some a\<rparr> (send_msg_dispatcher s)) (\<lambda>(call, d).
      run_send_call h call (s\<lparr>send_msg_dispatcher := d\<rparr>)) =
    (let (g, line) = SendMessageById r (frame m) (game_server s) in Inr (s\<lparr>game_server := g\<rparr>, line))"
proof -
  let ?d = "send_msg_dispatcher s"
  have "msg_callbacks ?d ! unat (type_byte (message_type (base m))) = None"
    using assms(2,5) nth_mem by blast
  then have "Dispatch (mem s) \<lparr>dispatch_id = r, base_message_ptr = Some a\<rparr> ?d = Inr (Invoke EncodeAndSend r (Some a), ?d)"
    using assms(1,3-5) by (simp add: Dispatch_def deref_def Let_def)
  then show ?thesis
    using encode_and_send_frame [of "s\<lparr>send_msg_dispatcher := ?d\<rparr>" a m h r] assms(4)
    by (simp add: run_send_call_def)
qed

theorem sent_message_is_framed_witness:
  "let s = (MKServer_new () ''srv'' 4000 10 10)\<lparr>mem := [0 \<mapsto> PingMessage_new]\<rparr>;
     s = s\<lparr>game_server := (game_server s)\<lparr>role_id_conn_map := [7 \<mapsto> 3]\<rparr>\<rparr>
   in rbind (Dispatch (mem s) \<lparr>dispatch_id = 7, base_message_ptr = Some 0\<rparr> (send_msg_dispatcher s)) (\<lambda>(call, d).
      run_send_call LittleEndian call (s\<lparr>send_msg_dispatcher := d\<rparr>)) =
     Inr (s\<lparr>game_server := (game_server s)\<lparr>sent := [(3, frame PingMessage_new)]\<rparr>\<rparr>, None)"
proof -
  let ?s0 = "(MKServer_new () ''srv'' 4000 10 10)\<lparr>mem := [0 \<mapsto> PingMessage_new]\<rparr>"
  let ?s = "?s0\<lparr>game_server := (game_server ?s0)\<lparr>role_id_conn_map := [7 \<mapsto> 3]\<rparr>\<rparr>"
  have "SendMessageById 7 (frame PingMessage_new) (game_server ?s) =
      ((game_server ?s)\<lparr>sent := [(3, frame PingMessage_new)]\<rparr>, None)"
    by (simp add: SendMessageById_def MKServer_new_def GameServer_new_def Server_SetOnNewMsgWithBufferFunc_def)
  moreover have "unat (type_byte (message_type (base PingMessage_new))) < length (msg_callbacks (send_msg_dispatcher ?s))"
    by (simp add: MKServer_new_def MsgDispatcher_new_def SetDefaultMsgCallback_def PingMessage_new_def)
  ultimately show ?thesis
    using sent_message_is_framed [of ?s 0 PingMessage_new 7 LittleEndian]
    by (simp add: MKServer_new_def MsgDispatcher_new_def SetDefaultMsgCallback_def Let_def)
qed

end
