(* ===== verification/GameServerExample.thy ===== *)
theory GameServerExample
  imports MKServer "HOL-Library.Multiset"
begin

text \<open>
  \<^verbatim>\<open>GameServer/GameServerExample.h\<close> and \<^verbatim>\<open>GameServer/GameServerExample.cpp\<close>: the lockstep game
  server. Threads of the receiving dispatcher run the callbacks, the main thread runs \<open>Update\<close>; the
  functions are also given in the pieces in which the threads interleave. Messages are shared objects: the pointers in the queues
  and in the record of the frames lead to the same object in the message store.
\<close>

section \<open>State\<close>

record FrameInput =
  frame_number :: u32
  input_msgs :: "BaseMessagePtr list"

datatype example_cb = DefaultCb | PingCb | ControlCb | EnterRoomCb

record GameServerExample =
  mk :: "example_cb MKServer"
  role_ids :: "ROLE_ID list"
  running :: bool
  control_msg :: "BaseMessagePtr list"
  send_msg :: "BaseMessagePtr list"
  frame_counter :: u32
  frame_input_record_vec :: "FrameInput list"

text \<open>The constructor: \<open>frame_counter_\<close> is initialised with \<open>true\<close>.\<close>

definition GameServerExample_new :: "string \<Rightarrow> 16 word \<Rightarrow> GameServerExample res" where
  "GameServerExample_new name p =
     rbind (MKServer_SetMsgCallback PING (Some PingCb) (MKServer_new DefaultCb name p 10 10)) (\<lambda>m.
     rbind (MKServer_SetMsgCallback CONTROL (Some ControlCb) m) (\<lambda>m.
     rbind (MKServer_SetMsgCallback ENTER_ROOM (Some EnterRoomCb) m) (\<lambda>m.
     Inr \<lparr>mk = MKServer_SetOnRoleDisconnectFunc True m, role_ids = [], running = True, control_msg = [],
          send_msg = [], frame_counter = 1, frame_input_record_vec = []\<rparr>)))"

section \<open>Operations\<close>

text \<open>Lift an operation of \<open>MKServer\<close>.\<close>

definition on_mk :: "(example_cb MKServer \<Rightarrow> example_cb MKServer res) \<Rightarrow> GameServerExample \<Rightarrow> GameServerExample res" where
  "on_mk f s = rbind (f (mk s)) (\<lambda>m. Inr (s\<lparr>mk := m\<rparr>))"

definition store_msg :: "addr \<Rightarrow> Message \<Rightarrow> GameServerExample \<Rightarrow> GameServerExample" where
  "store_msg a m s = s\<lparr>mk := (mk s)\<lparr>mem := (mem (mk s))(a \<mapsto> m)\<rparr>\<rparr>"

definition Ping :: "ROLE_ID \<Rightarrow> BaseMessagePtr \<Rightarrow> GameServerExample \<Rightarrow> GameServerExample res" where
  "Ping r msg s = on_mk (SendMessageByRoleId r msg) s"

definition Control :: "ROLE_ID \<Rightarrow> BaseMessagePtr \<Rightarrow> GameServerExample \<Rightarrow> GameServerExample res" where
  "Control r msg s = Inr (s\<lparr>control_msg := control_msg s @ [msg]\<rparr>)"

definition RePlay :: "ROLE_ID \<Rightarrow> GameServerExample \<Rightarrow> GameServerExample res" where
  "RePlay r s =
     rfold (\<lambda>frame_input. rfold (\<lambda>msg. on_mk (SendMessageByRoleId r msg)) (input_msgs frame_input))
       (frame_input_record_vec s) s"

text \<open>A new message object with the current time \<open>now\<close>.\<close>

definition spawn_game_start :: "u64 \<Rightarrow> GameServerExample \<Rightarrow> addr \<times> GameServerExample" where
  "spawn_game_start now s =
     (let a = next_addr (mk s); s = s\<lparr>mk := (mk s)\<lparr>next_addr := a + 1\<rparr>\<rparr>
      in (a, store_msg a (GameStartMessage (base GameStartMessage_new) now) s))"

fun set_result :: "u32 \<Rightarrow> Message \<Rightarrow> Message" where
  "set_result e (EnterRoomMessage b r _) = EnterRoomMessage b r e"
| "set_result e m = m"

text \<open>The two blocks of \<open>EnterRoom\<close> for the roles 2 and 3.\<close>

definition start_game :: "u64 \<Rightarrow> GameServerExample \<Rightarrow> GameServerExample res" where
  "start_game now s =
     (let (start_msg, s) = spawn_game_start now s; s = s\<lparr>frame_counter := 0\<rparr>
      in on_mk (SendMessageByRoleIds (role_ids s) (Some start_msg)) s)"

definition start_replay :: "u64 \<Rightarrow> ROLE_ID \<Rightarrow> GameServerExample \<Rightarrow> GameServerExample res" where
  "start_replay now r s =
     (let (start_msg, s) = spawn_game_start now s
      in rbind (on_mk (SendMessageByRoleId r (Some start_msg)) s) (RePlay r))"

definition mark_entered :: "ROLE_ID \<Rightarrow> BaseMessagePtr \<Rightarrow> GameServerExample \<Rightarrow> GameServerExample res" where
  "mark_entered r msg s =
     rbind (deref (mem (mk s)) msg) (\<lambda>m.
     case CastBaseMsgTo CEnterRoom m of
       None \<Rightarrow> Inl NullDeref
     | Some enter_msg \<Rightarrow>
         let s = store_msg (the msg) (set_result 0 enter_msg) s
         in Inr (s\<lparr>role_ids := role_ids s @ [r]\<rparr>))"

definition EnterRoom :: "u64 \<Rightarrow> ROLE_ID \<Rightarrow> BaseMessagePtr \<Rightarrow> GameServerExample \<Rightarrow> GameServerExample res" where
  "EnterRoom now r msg s =
     rbind (mark_entered r msg s) (\<lambda>s.
     rbind (if r = 2 then start_game now s else Inr s) (\<lambda>s.
     rbind (if r = 3 then start_replay now r s else Inr s) (\<lambda>s.
     on_mk (SendMessageByRoleId r msg) s)))"

definition OnRoleDisconnect :: "ROLE_ID \<Rightarrow> GameServerExample \<Rightarrow> GameServerExample" where
  "OnRoleDisconnect r s = s\<lparr>role_ids := remove1 r (role_ids s)\<rparr>"

fun set_tick :: "u32 \<Rightarrow> Message \<Rightarrow> Message" where
  "set_tick t (ControlMessage b _ d) = ControlMessage b t d"
| "set_tick t m = m"

text \<open>The body of the loop in \<open>Update\<close>, which writes the tick and then sends, and the parts before the loop.\<close>

definition stamp :: "BaseMessagePtr \<Rightarrow> GameServerExample \<Rightarrow> GameServerExample res" where
  "stamp msg s =
     rbind (deref (mem (mk s)) msg) (\<lambda>m.
     case CastBaseMsgTo CControl m of
       None \<Rightarrow> Inl NullDeref
     | Some cont_msg \<Rightarrow> Inr (store_msg (the msg) (set_tick (frame_counter s) cont_msg) s))"

definition stamp_and_send :: "BaseMessagePtr \<Rightarrow> GameServerExample \<Rightarrow> GameServerExample res" where
  "stamp_and_send msg s = rbind (stamp msg s) (\<lambda>s. on_mk (SendMessageByRoleIds (role_ids s) msg) s)"

definition update_swap :: "GameServerExample \<Rightarrow> GameServerExample" where
  "update_swap s = s\<lparr>send_msg := control_msg s, control_msg := send_msg s\<rparr>"

definition update_record :: "GameServerExample \<Rightarrow> GameServerExample" where
  "update_record s =
     s\<lparr>frame_input_record_vec := frame_input_record_vec s @ [\<lparr>frame_number = frame_counter s, input_msgs = send_msg s\<rparr>]\<rparr>"

definition Update :: "GameServerExample \<Rightarrow> GameServerExample res" where
  "Update s =
     (let s = s\<lparr>frame_counter := frame_counter s + 1\<rparr>; s = update_swap s; s = update_record s
      in rbind (rfold stamp_and_send (send_msg s) s) (\<lambda>s. Inr (s\<lparr>send_msg := []\<rparr>)))"

text \<open>The callback that \<open>Dispatch\<close> of the receiving dispatcher invokes.\<close>

definition run_callback :: "u64 \<Rightarrow> example_cb call \<Rightarrow> GameServerExample \<Rightarrow> GameServerExample res" where
  "run_callback now c s =
     (case c of
        NoCall \<Rightarrow> Inr s
      | Invoke DefaultCb r p \<Rightarrow> rbind (deref (mem (mk s)) p) (\<lambda>m. Inr s)
      | Invoke PingCb r p \<Rightarrow> Ping r p s
      | Invoke ControlCb r p \<Rightarrow> Control r p s
      | Invoke EnterRoomCb r p \<Rightarrow> EnterRoom now r p s)"

section \<open>The game as a transition system\<close>

text \<open>
  Where the main thread is in \<open>Update\<close>: before it, after reading \<open>frame_counter_\<close> for the increment, after
  writing it, after the swap under the lock, and in the loop, before an iteration and between the tick
  and the sending.
\<close>

datatype update_pc = Idle | Counting u32 | Counted | Swapped | Stamping "BaseMessagePtr list"
  | Sending BaseMessagePtr "BaseMessagePtr list"

fun update_step :: "GameServerExample \<Rightarrow> update_pc \<Rightarrow> (GameServerExample \<times> update_pc) res" where
  "update_step s Idle = Inr (s, Counting (frame_counter s))"
| "update_step s (Counting n) = Inr (s\<lparr>frame_counter := n + 1\<rparr>, Counted)"
| "update_step s Counted = Inr (update_swap s, Swapped)"
| "update_step s Swapped = Inr (update_record s, Stamping (send_msg s))"
| "update_step s (Stamping []) = Inr (s\<lparr>send_msg := []\<rparr>, Idle)"
| "update_step s (Stamping (p # ps)) = rbind (stamp p s) (\<lambda>s. Inr (s, Sending p ps))"
| "update_step s (Sending p ps) = rbind (on_mk (SendMessageByRoleIds (role_ids s) p) s) (\<lambda>s. Inr (s, Stamping ps))"

text \<open>
  The steps of all threads: a message arrives and gets an address; a control message that has not been
  handled before is queued under the lock (every message is handled once, \<open>dispatcher_keeps_role_order\<close>);
  the pieces of \<open>EnterRoom\<close>, \<open>Ping\<close> and \<open>RePlay\<close>, which are to enter a role, to make a start message, to
  reset the frame counter and to send, in any order and between any two steps of \<open>Update\<close>; a role leaves; and
  the main thread goes on.
\<close>

datatype game_event = Arrives Message | Controls ROLE_ID addr | Marks ROLE_ID addr | Spawns u64 | Resets
  | Sends ROLE_ID BaseMessagePtr | Leaves ROLE_ID | Main update_pc

definition input_addrs :: "GameServerExample \<Rightarrow> BaseMessagePtr list" where
  "input_addrs s = concat (map input_msgs (frame_input_record_vec s)) @ control_msg s"

text \<open>The inputs that are in neither place, between the swap and their entry into the record.\<close>

fun pending_inputs :: "GameServerExample \<Rightarrow> update_pc \<Rightarrow> BaseMessagePtr list" where
  "pending_inputs s Swapped = send_msg s"
| "pending_inputs s pos = []"

inductive game_step :: "GameServerExample \<times> update_pc \<Rightarrow> game_event \<Rightarrow> GameServerExample \<times> update_pc \<Rightarrow> bool" where
  arrives: "on_mk (on_message (Some m)) s = Inr s' \<Longrightarrow> game_step (s, pos) (Arrives m) (s', pos)"
| controls: "mem (mk s) a = Some (ControlMessage b t d) \<Longrightarrow> Some a \<notin> set (input_addrs s @ pending_inputs s pos) \<Longrightarrow>
    Control r (Some a) s = Inr s' \<Longrightarrow> game_step (s, pos) (Controls r a) (s', pos)"
| marks: "mark_entered r (Some a) s = Inr s' \<Longrightarrow> game_step (s, pos) (Marks r a) (s', pos)"
| spawns: "game_step (s, pos) (Spawns now) (snd (spawn_game_start now s), pos)"
| resets: "game_step (s, pos) Resets (s\<lparr>frame_counter := 0\<rparr>, pos)"
| sends: "on_mk (SendMessageByRoleId r p) s = Inr s' \<Longrightarrow> game_step (s, pos) (Sends r p) (s', pos)"
| leaves: "game_step (s, pos) (Leaves r) (OnRoleDisconnect r s, pos)"
| main: "update_step s pos = Inr (s', pos') \<Longrightarrow> game_step (s, pos) (Main pos) (s', pos')"

section \<open>Lemmas\<close>

text \<open>What sending changes: only the queues of the sending dispatcher.\<close>

definition sends_only :: "GameServerExample \<Rightarrow> GameServerExample \<Rightarrow> bool" where
  "sends_only s s' \<longleftrightarrow> (\<exists>d. s' = s\<lparr>mk := (mk s)\<lparr>send_msg_dispatcher := d\<rparr>\<rparr>)"

lemma sends_only_refl [simp]: "sends_only s s"
  unfolding sends_only_def by (rule exI [of _ "send_msg_dispatcher (mk s)"]) simp

lemma sends_only_trans: "sends_only s t \<Longrightarrow> sends_only t u \<Longrightarrow> sends_only s u"
  by (auto simp: sends_only_def)

lemma send_one_sends_only: "on_mk (SendMessageByRoleId r p) s = Inr s' \<Longrightarrow> sends_only s s'"
  by (auto simp: on_mk_def SendMessageByRoleId_def sends_only_def rbind_simps)

lemma send_all_sends_only: "on_mk (SendMessageByRoleIds rs p) s = Inr s' \<Longrightarrow> sends_only s s'"
  by (auto simp: on_mk_def SendMessageByRoleIds_def sends_only_def rbind_simps)

lemma rfold_sends_only:
  assumes "\<And>x s s'. f x s = Inr s' \<Longrightarrow> sends_only s s'" "rfold f xs s = Inr s'"
  shows "sends_only s s'"
proof (rule rfold_inv [where P = "sends_only s", OF _ _ assms(2)])
  show "sends_only s t'" if "sends_only s t" "f x t = Inr t'" for x t t'
    using that assms(1) sends_only_trans by blast
qed simp

lemma RePlay_sends_only: "RePlay r s = Inr s' \<Longrightarrow> sends_only s s'"
  unfolding RePlay_def by (erule rfold_sends_only [rotated]) (erule rfold_sends_only [rotated], erule send_one_sends_only)

text \<open>The messages of the store after \<open>Update\<close> has stamped those at \<open>ps\<close>.\<close>

definition stamped :: "u32 \<Rightarrow> BaseMessagePtr list \<Rightarrow> msg_store \<Rightarrow> msg_store" where
  "stamped n ps st = (\<lambda>a. if Some a \<in> set ps then map_option (set_tick n) (st a) else st a)"

definition holds_control :: "msg_store \<Rightarrow> BaseMessagePtr \<Rightarrow> bool" where
  "holds_control st p \<longleftrightarrow> (\<exists>a b t d. p = Some a \<and> st a = Some (ControlMessage b t d))"

lemma set_tick_idem [simp]: "set_tick n (set_tick n m) = set_tick n m"
  by (cases m) simp_all

lemma stamped_Cons:
  "st a = Some m \<Longrightarrow> stamped n ps (st(a \<mapsto> set_tick n m)) = stamped n (Some a # ps) st"
  by (rule ext) (auto simp: stamped_def)

lemma holds_control_upd: "holds_control st p \<Longrightarrow> holds_control (st(a \<mapsto> ControlMessage b t d)) p"
  by (cases p) (auto simp: holds_control_def)

lemma stamp_loop:
  assumes "\<forall>p \<in> set ps. holds_control (mem (mk s)) p"
  shows "rfold stamp_and_send ps s =
    rbind (rfold (Push_all (role_ids s)) ps (send_msg_dispatcher (mk s))) (\<lambda>d.
    Inr (s\<lparr>mk := (mk s)\<lparr>send_msg_dispatcher := d, mem := stamped (frame_counter s) ps (mem (mk s))\<rparr>\<rparr>))"
  using assms
proof (induction ps arbitrary: s)
  case Nil
  then show ?case by (simp add: stamped_def)
next
  case (Cons p ps)
  then obtain a b t d where p: "p = Some a" "mem (mk s) a = Some (ControlMessage b t d)"
    by (auto simp: holds_control_def)
  let ?st = "(mem (mk s))(a \<mapsto> ControlMessage b (frame_counter s) d)"
  have st: "stamped (frame_counter s) ps ?st = stamped (frame_counter s) (p # ps) (mem (mk s))"
    using stamped_Cons [of "mem (mk s)" a "ControlMessage b t d" "frame_counter s" ps] p by simp
  have one: "stamp_and_send p s = rbind (Push_all (role_ids s) p (send_msg_dispatcher (mk s))) (\<lambda>e.
      Inr (s\<lparr>mk := (mk s)\<lparr>mem := ?st, send_msg_dispatcher := e\<rparr>\<rparr>))"
    using p by (simp add: stamp_and_send_def stamp_def deref_def CastBaseMsgTo_def on_mk_def SendMessageByRoleIds_def
        store_msg_def rbind_assoc)
  have h: "\<forall>q \<in> set ps. holds_control ?st q"
    using Cons.prems holds_control_upd by auto
  show ?case
    unfolding rfold.simps one st [symmetric]
    by (cases "Push_all (role_ids s) p (send_msg_dispatcher (mk s))")
      (simp_all add: Cons.IH h del: fun_upd_apply)
qed

lemma Update_eq:
  assumes "\<forall>p \<in> set (control_msg s). holds_control (mem (mk s)) p" "send_msg s = []"
  shows "Update s =
    rbind (rfold (Push_all (role_ids s)) (control_msg s) (send_msg_dispatcher (mk s))) (\<lambda>d.
    Inr (s\<lparr>frame_counter := frame_counter s + 1, control_msg := [],
      frame_input_record_vec := frame_input_record_vec s @
        [\<lparr>frame_number = frame_counter s + 1, input_msgs = control_msg s\<rparr>],
      mk := (mk s)\<lparr>send_msg_dispatcher := d, mem := stamped (frame_counter s + 1) (control_msg s) (mem (mk s))\<rparr>,
      send_msg := []\<rparr>))"
  using assms stamp_loop [of "control_msg s"
      "s\<lparr>frame_counter := frame_counter s + 1, send_msg := control_msg s, control_msg := [],
         frame_input_record_vec := frame_input_record_vec s @
           [\<lparr>frame_number = frame_counter s + 1, input_msgs = control_msg s\<rparr>]\<rparr>"]
  by (simp add: Update_def update_swap_def update_record_def Let_def rbind_assoc)

subsection \<open>The invariant of the recorded game\<close>

definition mem_bounded :: "GameServerExample \<Rightarrow> bool" where
  "mem_bounded s \<longleftrightarrow> (\<forall>a \<in> dom (mem (mk s)). a < next_addr (mk s))"

definition frames_stamped :: "GameServerExample \<Rightarrow> bool" where
  "frames_stamped s \<longleftrightarrow> (\<forall>f \<in> set (frame_input_record_vec s). \<forall>p \<in> set (input_msgs f).
     \<exists>a b d. p = Some a \<and> mem (mk s) a = Some (ControlMessage b (frame_number f) d))"

definition game_inv :: "GameServerExample \<Rightarrow> bool" where
  "game_inv s \<longleftrightarrow> send_msg s = [] \<and> mem_bounded s \<and> distinct (input_addrs s) \<and>
     (\<forall>p \<in> set (control_msg s). holds_control (mem (mk s)) p) \<and> frames_stamped s"

text \<open>A step that leaves the inputs and every control message as they are.\<close>

definition keeps :: "GameServerExample \<Rightarrow> GameServerExample \<Rightarrow> bool" where
  "keeps s s' \<longleftrightarrow> control_msg s' = control_msg s \<and> send_msg s' = send_msg s \<and>
     frame_input_record_vec s' = frame_input_record_vec s \<and>
     (mem_bounded s \<longrightarrow> mem_bounded s' \<and> (\<forall>a m. mem (mk s) a = Some m \<longrightarrow> class_of m = CControl \<longrightarrow>
        mem (mk s') a = Some m))"

lemma keeps_refl [simp]: "keeps s s"
  by (simp add: keeps_def)

lemma keeps_trans: "keeps s t \<Longrightarrow> keeps t u \<Longrightarrow> keeps s u"
  by (auto simp: keeps_def)

lemma sends_only_keeps: "sends_only s s' \<Longrightarrow> keeps s s'"
  by (auto simp: sends_only_def keeps_def mem_bounded_def)

lemma keeps_inv:
  assumes "keeps s s'" "game_inv s"
  shows "game_inv s'"
proof -
  have k: "control_msg s' = control_msg s" "send_msg s' = send_msg s"
    "frame_input_record_vec s' = frame_input_record_vec s" "mem_bounded s'"
    and m: "\<And>a b t d. mem (mk s) a = Some (ControlMessage b t d) \<Longrightarrow> mem (mk s') a = Some (ControlMessage b t d)"
    using assms by (auto simp: keeps_def game_inv_def)
  have "frames_stamped s'"
    using assms(2) m unfolding game_inv_def frames_stamped_def k by blast
  moreover have "\<forall>p \<in> set (control_msg s'). holds_control (mem (mk s')) p"
    using assms(2) m unfolding game_inv_def holds_control_def k by blast
  moreover have "input_addrs s' = input_addrs s" by (simp add: input_addrs_def k)
  ultimately show ?thesis using assms(2) k by (simp add: game_inv_def)
qed

lemma spawn_keeps: "keeps s (snd (spawn_game_start now s))"
  by (auto simp: keeps_def spawn_game_start_def store_msg_def mem_bounded_def Let_def dom_def
      dest: less_SucI)

lemma start_game_keeps:
  assumes "start_game now s = Inr s'"
  shows "keeps s s'"
proof -
  let ?t = "(snd (spawn_game_start now s))\<lparr>frame_counter := 0\<rparr>"
  have "keeps s ?t" using spawn_keeps [of s now] by (simp add: keeps_def mem_bounded_def)
  moreover have "sends_only ?t s'"
    using assms by (auto simp: start_game_def Let_def split_def intro!: send_all_sends_only)
  ultimately show ?thesis using keeps_trans sends_only_keeps by blast
qed

lemma start_replay_keeps:
  assumes "start_replay now r s = Inr s'"
  shows "keeps s s'"
proof -
  let ?t = "snd (spawn_game_start now s)"
  obtain u where "on_mk (SendMessageByRoleId r (Some (fst (spawn_game_start now s)))) ?t = Inr u" "RePlay r u = Inr s'"
    using assms by (auto simp: start_replay_def Let_def split_def rbind_simps)
  then have "sends_only ?t u" "sends_only u s'" by (auto intro: send_one_sends_only RePlay_sends_only)
  then show ?thesis
    using spawn_keeps [of s now] keeps_trans sends_only_keeps by blast
qed

lemma keeps_mark_entered: "mark_entered r (Some a) s = Inr s' \<Longrightarrow> keeps s s'"
  by (auto simp: mark_entered_def deref_def CastBaseMsgTo_def rbind_simps keeps_def store_msg_def mem_bounded_def Let_def
      split: option.splits if_splits)

lemma keeps_arrives: "on_mk (on_message (Some m)) s = Inr s' \<Longrightarrow> keeps s s'"
  by (auto simp: on_mk_def on_message_def keeps_def mem_bounded_def dom_def Let_def rbind_simps less_Suc_eq
      split: if_splits)

text \<open>None of the pieces touches the frame counter, but the reset.\<close>

lemma counter_simps:
  "sends_only s s' \<Longrightarrow> frame_counter s' = frame_counter s"
  "mark_entered r p s = Inr s' \<Longrightarrow> frame_counter s' = frame_counter s"
  "on_mk (on_message m) s = Inr s' \<Longrightarrow> frame_counter s' = frame_counter s"
  "frame_counter (snd (spawn_game_start now s)) = frame_counter s"
  by (auto simp: sends_only_def mark_entered_def on_mk_def spawn_game_start_def store_msg_def Let_def rbind_simps
      split: option.splits)

subsection \<open>The whole functions are runs of their pieces\<close>

definition runs_to :: "GameServerExample \<times> update_pc \<Rightarrow> GameServerExample \<times> update_pc \<Rightarrow> bool" where
  "runs_to x y \<longleftrightarrow> (\<exists>es. lts_run game_step x es y)"

lemma runs_to_refl [simp]: "runs_to x x"
  unfolding runs_to_def by (blast intro: lts_run.lts_nil)

lemma runs_to_step: "game_step x e y \<Longrightarrow> runs_to x y"
  unfolding runs_to_def by (blast intro: lts_one)

lemma runs_to_trans: "runs_to x y \<Longrightarrow> runs_to y z \<Longrightarrow> runs_to x z"
  unfolding runs_to_def by (blast intro: lts_append)

lemma rfold_runs:
  assumes "\<And>x s s'. f x s = Inr s' \<Longrightarrow> runs_to (s, pos) (s', pos)" "rfold f xs s = Inr s'"
  shows "runs_to (s, pos) (s', pos)"
  by (rule rfold_inv [where P = "\<lambda>t. runs_to (s, pos) (t, pos)", OF _ _ assms(2)]) (auto intro: runs_to_trans assms(1))

lemma send_runs: "on_mk (SendMessageByRoleId r p) s = Inr s' \<Longrightarrow> runs_to (s, pos) (s', pos)"
  by (rule runs_to_step [OF game_step.sends])

lemma send_all_runs: "on_mk (SendMessageByRoleIds rs p) s = Inr s' \<Longrightarrow> runs_to (s, pos) (s', pos)"
proof (induction rs arbitrary: s)
  case Nil
  then show ?case by (simp add: on_mk_def SendMessageByRoleIds_def Push_all_def)
next
  case (Cons r rs)
  obtain d d' where d: "Push r p (send_msg_dispatcher (mk s)) = Inr d" "Push_all rs p d = Inr d'"
    "s' = s\<lparr>mk := (mk s)\<lparr>send_msg_dispatcher := d'\<rparr>\<rparr>"
    using Cons.prems by (auto simp: on_mk_def SendMessageByRoleIds_def Push_all_def rbind_simps)
  let ?t = "s\<lparr>mk := (mk s)\<lparr>send_msg_dispatcher := d\<rparr>\<rparr>"
  have "on_mk (SendMessageByRoleId r p) s = Inr ?t" using d(1) by (simp add: on_mk_def SendMessageByRoleId_def)
  moreover have "on_mk (SendMessageByRoleIds rs p) ?t = Inr s'" using d(2,3) by (simp add: on_mk_def SendMessageByRoleIds_def)
  ultimately show ?case using Cons.IH send_runs runs_to_trans by blast
qed

lemma EnterRoom_runs:
  assumes "EnterRoom now r (Some a) s = Inr s'"
  shows "runs_to (s, pos) (s', pos)"
proof -
  obtain s1 s2 s3 where e: "mark_entered r (Some a) s = Inr s1" "(if r = 2 then start_game now s1 else Inr s1) = Inr s2"
    "(if r = 3 then start_replay now r s2 else Inr s2) = Inr s3" "on_mk (SendMessageByRoleId r (Some a)) s3 = Inr s'"
    using assms unfolding EnterRoom_def rbind_simps by blast
  have spawn: "runs_to (t, pos) (snd (spawn_game_start now t), pos)" for t by (rule runs_to_step [OF game_step.spawns])
  have "runs_to (s1, pos) (s2, pos)"
  proof (cases "r = 2")
    case True
    let ?t = "snd (spawn_game_start now s1)"
    have "on_mk (SendMessageByRoleIds (role_ids ?t) (Some (fst (spawn_game_start now s1)))) (?t\<lparr>frame_counter := 0\<rparr>) = Inr s2"
      using e(2) True by (simp add: start_game_def Let_def split_def)
    from send_all_runs [OF this] have "runs_to (?t\<lparr>frame_counter := 0\<rparr>, pos) (s2, pos)" .
    then show ?thesis using spawn [of s1] runs_to_step [OF game_step.resets [of ?t pos]] runs_to_trans by blast
  qed (use e(2) in simp)
  moreover have "runs_to (s2, pos) (s3, pos)"
  proof (cases "r = 3")
    case True
    let ?t = "snd (spawn_game_start now s2)"
    obtain u where u: "on_mk (SendMessageByRoleId r (Some (fst (spawn_game_start now s2)))) ?t = Inr u" "RePlay r u = Inr s3"
      using e(3) True by (auto simp: start_replay_def Let_def split_def rbind_simps)
    have "runs_to (u, pos) (s3, pos)"
      using u(2) unfolding RePlay_def by (rule rfold_runs [rotated]) (erule rfold_runs [rotated], erule send_runs)
    then show ?thesis using spawn [of s2] send_runs [OF u(1), of pos] runs_to_trans by blast
  qed (use e(3) in simp)
  moreover have "runs_to (s, pos) (s1, pos)" by (rule runs_to_step [OF game_step.marks [OF e(1)]])
  ultimately show ?thesis using send_runs [OF e(4)] runs_to_trans by blast
qed

lemma main_runs: "update_step s pos = Inr (s', pos') \<Longrightarrow> runs_to (s', pos') y \<Longrightarrow> runs_to (s, pos) y"
  using runs_to_step [OF game_step.main] runs_to_trans by blast

lemma stamping_runs:
  "rfold stamp_and_send ps s = Inr s' \<Longrightarrow> runs_to (s, Stamping ps) (s'\<lparr>send_msg := []\<rparr>, Idle)"
proof (induction ps arbitrary: s)
  case Nil
  then show ?case by (intro main_runs [of s "Stamping []" "s'\<lparr>send_msg := []\<rparr>" Idle]) simp_all
next
  case (Cons p ps)
  then obtain t u where "stamp p s = Inr t" "on_mk (SendMessageByRoleIds (role_ids t) p) t = Inr u" "rfold stamp_and_send ps u = Inr s'"
    unfolding rfold.simps rbind_simps by (auto simp: stamp_and_send_def [of p] rbind_simps)
  then show ?case using Cons.IH
    by (intro main_runs [of s "Stamping (p # ps)" t "Sending p ps"] main_runs [of t "Sending p ps" u "Stamping ps"]) simp_all
qed

lemma Update_runs:
  assumes "Update s = Inr s'"
  shows "runs_to (s, Idle) (s', Idle)"
proof -
  let ?s1 = "s\<lparr>frame_counter := frame_counter s + 1\<rparr>" and ?s2 = "update_swap (s\<lparr>frame_counter := frame_counter s + 1\<rparr>)"
  obtain u where u: "rfold stamp_and_send (send_msg (update_record ?s2)) (update_record ?s2) = Inr u" "s' = u\<lparr>send_msg := []\<rparr>"
    using assms by (auto simp: Update_def Let_def rbind_simps)
  have "send_msg (update_record ?s2) = send_msg ?s2" by (simp add: update_record_def)
  with stamping_runs [OF u(1)] u(2) show ?thesis
    by (intro main_runs [of s Idle s "Counting (frame_counter s)"] main_runs [of s "Counting (frame_counter s)" ?s1 Counted]
        main_runs [of ?s1 Counted ?s2 Swapped] main_runs [of ?s2 Swapped "update_record ?s2" "Stamping (send_msg ?s2)"]) simp_all
qed

subsection \<open>The invariant of a run\<close>

fun to_stamp :: "update_pc \<Rightarrow> BaseMessagePtr list" where
  "to_stamp (Stamping ps) = ps"
| "to_stamp (Sending p ps) = ps"
| "to_stamp pos = []"

fun in_loop :: "update_pc \<Rightarrow> bool" where
  "in_loop (Stamping ps) = True"
| "in_loop (Sending p ps) = True"
| "in_loop pos = False"

definition recorded_ok :: "GameServerExample \<Rightarrow> update_pc \<Rightarrow> bool" where
  "recorded_ok s pos \<longleftrightarrow> (\<forall>f \<in> set (frame_input_record_vec s). \<forall>p \<in> set (input_msgs f).
     \<exists>a b t d. p = Some a \<and> mem (mk s) a = Some (ControlMessage b t d) \<and> (p \<notin> set (to_stamp pos) \<longrightarrow> t = frame_number f))"

definition loop_ok :: "GameServerExample \<Rightarrow> update_pc \<Rightarrow> bool" where
  "loop_ok s pos \<longleftrightarrow>
     (if in_loop pos then frame_input_record_vec s \<noteq> [] \<and> frame_number (last (frame_input_record_vec s)) = frame_counter s \<and>
        set (to_stamp pos) \<subseteq> set (input_msgs (last (frame_input_record_vec s)))
      else pos = Swapped \<or> send_msg s = [])"

definition frames_inv :: "GameServerExample \<Rightarrow> update_pc \<Rightarrow> bool" where
  "frames_inv s pos \<longleftrightarrow> mem_bounded s \<and> distinct (input_addrs s @ pending_inputs s pos) \<and>
     (\<forall>p \<in> set (control_msg s @ pending_inputs s pos). holds_control (mem (mk s)) p) \<and> recorded_ok s pos \<and> loop_ok s pos"

lemma frames_inv_keeps:
  assumes "keeps s s'" "frame_counter s' = frame_counter s" "frames_inv s pos"
  shows "frames_inv s' pos"
proof -
  have k: "control_msg s' = control_msg s" "send_msg s' = send_msg s"
    "frame_input_record_vec s' = frame_input_record_vec s" "mem_bounded s'"
    and m: "\<And>a b t d. mem (mk s) a = Some (ControlMessage b t d) \<Longrightarrow> mem (mk s') a = Some (ControlMessage b t d)"
    using assms by (auto simp: keeps_def frames_inv_def)
  have "recorded_ok s' pos" using assms(3) m unfolding frames_inv_def recorded_ok_def k by blast
  moreover have p: "pending_inputs s' pos = pending_inputs s pos" by (cases pos) (simp_all add: k)
  moreover have "\<forall>p \<in> set (control_msg s' @ pending_inputs s' pos). holds_control (mem (mk s')) p"
    using assms(3) m unfolding frames_inv_def holds_control_def k p by blast
  moreover have "input_addrs s' = input_addrs s" "loop_ok s' pos = loop_ok s pos"
    by (simp_all add: input_addrs_def loop_ok_def k assms(2))
  ultimately show ?thesis using assms(3) k(4) by (simp add: frames_inv_def)
qed

lemma frames_inv_controls:
  assumes "frames_inv s pos" "mem (mk s) a = Some (ControlMessage b t d)" "Some a \<notin> set (input_addrs s @ pending_inputs s pos)"
  shows "frames_inv (s\<lparr>control_msg := control_msg s @ [Some a]\<rparr>) pos"
proof -
  have "pending_inputs (s\<lparr>control_msg := control_msg s @ [Some a]\<rparr>) pos = pending_inputs s pos" by (cases pos) simp_all
  then show ?thesis using assms
    by (auto simp: frames_inv_def mem_bounded_def recorded_ok_def loop_ok_def input_addrs_def holds_control_def)
qed

text \<open>A tick is written: the message belongs to the last frame only.\<close>

lemma frames_inv_stamp:
  assumes inv: "frames_inv s (Stamping (p # ps))" and st: "stamp p s = Inr s'"
  shows "frames_inv s' (Sending p ps)"
proof -
  let ?n = "frame_counter s" and ?fs = "frame_input_record_vec s"
  have l: "?fs \<noteq> []" "frame_number (last ?fs) = ?n" "p \<in> set (input_msgs (last ?fs))" "set ps \<subseteq> set (input_msgs (last ?fs))"
    using inv by (simp_all add: frames_inv_def loop_ok_def)
  have rec: "recorded_ok s (Stamping (p # ps))" using inv by (simp add: frames_inv_def)
  then obtain a b t d where a: "p = Some a" "mem (mk s) a = Some (ControlMessage b t d)"
    using l(1,3) unfolding recorded_ok_def by (metis last_in_set)
  have s': "s' = store_msg a (ControlMessage b ?n d) s"
    using st a by (simp add: stamp_def deref_def CastBaseMsgTo_def)
  have only: "f = last ?fs" if "f \<in> set ?fs" "p \<in> set (input_msgs f)" for f
  proof -
    have "distinct (concat (map input_msgs (butlast ?fs @ [last ?fs])))"
      using inv l(1) by (simp add: frames_inv_def input_addrs_def)
    then have "p \<notin> set (concat (map input_msgs (butlast ?fs)))" using l(3) by auto
    moreover have "f \<in> set (butlast ?fs) \<or> f = last ?fs" using that(1) l(1) by (metis append_butlast_last_id rotate1.simps(2) set_ConsD set_rotate1)
    ultimately show ?thesis using that(2) by auto
  qed
  have "recorded_ok s' (Sending p ps)"
    unfolding recorded_ok_def
  proof (intro ballI)
    fix f q assume f: "f \<in> set (frame_input_record_vec s')" "q \<in> set (input_msgs f)"
    then have f': "f \<in> set ?fs" by (simp add: s' store_msg_def)
    show "\<exists>a b t d. q = Some a \<and> mem (mk s') a = Some (ControlMessage b t d) \<and> (q \<notin> set (to_stamp (Sending p ps)) \<longrightarrow> t = frame_number f)"
    proof (cases "q = p")
      case True
      then show ?thesis using only [OF f'] f(2) a(1) l(2) by (simp add: s' store_msg_def)
    next
      case False
      then show ?thesis using rec f' f(2) a(1) unfolding recorded_ok_def by (fastforce simp: s' store_msg_def)
    qed
  qed
  moreover have "mem_bounded s'" using inv a(2) by (auto simp: frames_inv_def mem_bounded_def s' store_msg_def)
  moreover have "\<forall>q \<in> set (control_msg s'). holds_control (mem (mk s')) q"
    using inv by (auto simp: frames_inv_def s' store_msg_def holds_control_upd)
  ultimately show ?thesis using inv l by (simp add: frames_inv_def loop_ok_def input_addrs_def s' store_msg_def)
qed

text \<open>The swapped inputs become a record, all of them still to stamp.\<close>

lemma frames_inv_record:
  assumes "frames_inv s Swapped"
  shows "frames_inv (update_record s) (Stamping (send_msg s))"
proof -
  let ?s = "update_record s"
  have i: "mem_bounded s" "distinct (input_addrs s @ send_msg s)"
    "\<forall>p \<in> set (control_msg s) \<union> set (send_msg s). holds_control (mem (mk s)) p" "recorded_ok s Swapped"
    using assms by (auto simp: frames_inv_def)
  have "recorded_ok ?s (Stamping (send_msg s))"
    using i(3,4) by (fastforce simp: recorded_ok_def update_record_def holds_control_def)
  moreover have "mset (input_addrs ?s) = mset (input_addrs s @ send_msg s)" by (simp add: input_addrs_def update_record_def)
  then have "distinct (input_addrs ?s)" using i(2) mset_eq_imp_distinct_iff by blast
  moreover have "mem_bounded ?s" "control_msg ?s = control_msg s" "mem (mk ?s) = mem (mk s)"
    using i(1) by (simp_all add: update_record_def mem_bounded_def)
  moreover have "loop_ok ?s (Stamping (send_msg s))" by (simp add: loop_ok_def update_record_def)
  ultimately show ?thesis using i(3) by (simp add: frames_inv_def)
qed

lemma frames_inv_main:
  assumes step: "update_step s pos = Inr (s', pos')" and inv: "frames_inv s pos"
  shows "frames_inv s' pos'"
proof (cases pos)
  case Idle
  then have "s' = s" "pos' = Counting (frame_counter s)" using step by auto
  then show ?thesis using inv Idle by (simp add: frames_inv_def recorded_ok_def loop_ok_def)
next
  case (Counting n)
  then have "s' = s\<lparr>frame_counter := n + 1\<rparr>" "pos' = Counted" using step by simp_all
  then show ?thesis using inv Counting by (simp add: frames_inv_def recorded_ok_def loop_ok_def input_addrs_def mem_bounded_def)
next
  case Counted
  then have "s' = update_swap s" "pos' = Swapped" "send_msg s = []" using assms by (simp_all add: frames_inv_def loop_ok_def)
  then show ?thesis using inv Counted
    by (simp add: frames_inv_def recorded_ok_def loop_ok_def input_addrs_def mem_bounded_def update_swap_def)
next
  case Swapped
  then show ?thesis using assms frames_inv_record by auto
next
  case (Stamping ps)
  show ?thesis
  proof (cases ps)
    case Nil
    then have "s' = s\<lparr>send_msg := []\<rparr>" "pos' = Idle" using step Stamping by simp_all
    then show ?thesis using inv Nil Stamping by (simp add: frames_inv_def recorded_ok_def loop_ok_def input_addrs_def mem_bounded_def)
  next
    case (Cons p qs)
    then show ?thesis using assms Stamping frames_inv_stamp by (auto simp: rbind_simps)
  qed
next
  case (Sending p ps)
  then have u: "on_mk (SendMessageByRoleIds (role_ids s) p) s = Inr s'" "pos' = Stamping ps"
    using step by (auto simp: rbind_simps)
  have "sends_only s s'" using send_all_sends_only [OF u(1)] .
  then have "frames_inv s' (Sending p ps)"
    using inv Sending counter_simps(1) sends_only_keeps frames_inv_keeps by metis
  then show ?thesis by (simp add: u(2) frames_inv_def recorded_ok_def loop_ok_def)
qed

text \<open>A reset of the counter is harmless outside the loop.\<close>

definition quiet_step :: "GameServerExample \<times> update_pc \<Rightarrow> game_event \<Rightarrow> GameServerExample \<times> update_pc \<Rightarrow> bool" where
  "quiet_step x e y \<longleftrightarrow> game_step x e y \<and> (e = Resets \<longrightarrow> \<not> in_loop (snd x))"

lemma frames_inv_step:
  assumes "quiet_step (s, pos) e (s', pos')" "frames_inv s pos"
  shows "frames_inv s' pos'"
proof -
  have "game_step (s, pos) e (s', pos')" and quiet: "e = Resets \<Longrightarrow> \<not> in_loop pos" using assms(1) by (simp_all add: quiet_step_def)
  from this(1) show ?thesis
  proof cases
    case (arrives m)
    then show ?thesis using assms(2) keeps_arrives counter_simps(3) frames_inv_keeps by metis
  next
    case (controls a b t d r)
    then show ?thesis using frames_inv_controls [OF assms(2) controls(3,4)] by (auto simp: Control_def)
  next
    case (marks r a)
    then show ?thesis using assms(2) keeps_mark_entered counter_simps(2) frames_inv_keeps by metis
  next
    case (spawns now)
    then show ?thesis using assms(2) spawn_keeps counter_simps(4) frames_inv_keeps by metis
  next
    case resets
    then have "\<not> in_loop pos" using quiet by simp
    then show ?thesis using assms(2) unfolding resets
      by (cases pos) (simp_all add: frames_inv_def recorded_ok_def loop_ok_def input_addrs_def mem_bounded_def)
  next
    case (sends r p)
    then show ?thesis using assms(2) send_one_sends_only counter_simps(1) sends_only_keeps frames_inv_keeps by metis
  next
    case (leaves r)
    then show ?thesis using assms(2)
      by (cases pos) (simp_all add: OnRoleDisconnect_def frames_inv_def recorded_ok_def loop_ok_def input_addrs_def mem_bounded_def)
  next
    case main
    then show ?thesis using frames_inv_main assms(2) by blast
  qed
qed

lemma records_step:
  assumes "game_step (s, pos) e (s', pos')"
  shows "length (frame_input_record_vec s') = length (frame_input_record_vec s) + (if e = Main Swapped then 1 else 0)"
  using assms
proof cases
  case (arrives m)
  with keeps_arrives show ?thesis by (auto simp: keeps_def)
next
  case (marks r a)
  with keeps_mark_entered show ?thesis by (auto simp: keeps_def)
next
  case (spawns now)
  with spawn_keeps [of s now] show ?thesis by (auto simp: keeps_def)
next
  case (sends r p)
  then have "keeps s s'" by (auto intro: sends_only_keeps send_one_sends_only)
  with sends show ?thesis by (simp add: keeps_def)
next
  case main
  show ?thesis
  proof (cases pos)
    case (Sending p ps)
    then have "on_mk (SendMessageByRoleIds (role_ids s) p) s = Inr s'" using main by (auto simp: rbind_simps)
    then have "keeps s s'" by (auto intro: sends_only_keeps send_all_sends_only)
    with main Sending show ?thesis by (simp add: keeps_def)
  next
    case (Stamping ps)
    then show ?thesis using main
      by (cases ps) (auto simp: stamp_def store_msg_def rbind_simps split: option.splits)
  qed (use main in \<open>auto simp: update_swap_def update_record_def\<close>)
qed (auto simp: Control_def OnRoleDisconnect_def)

text \<open>Between two frames the invariant is the one of the functions as a whole.\<close>

lemma frames_inv_idle: "frames_inv s Idle \<Longrightarrow> game_inv s"
  unfolding frames_inv_def game_inv_def recorded_ok_def frames_stamped_def loop_ok_def by fastforce

definition new_game :: "GameServerExample \<times> update_pc \<Rightarrow> bool" where
  "new_game x \<longleftrightarrow> frames_inv (fst x) (snd x) \<and> frame_input_record_vec (fst x) = []"

lemma GameServerExample_new_ok:
  obtains s where "GameServerExample_new name p = Inr s" "new_game (s, Idle)" "frame_counter s = 1"
    "next_addr (mk s) = 0" "mem (mk s) = Map.empty" "control_msg s = []" "role_ids s = []" "send_msg s = []"
    "\<not> started (recv_msg_dispatcher (mk s))"
  by (auto simp: GameServerExample_new_def MKServer_SetMsgCallback_def MKServer_new_def SetMsgCallback_def
      MsgDispatcher_new_def MKServer_SetOnRoleDisconnectFunc_def less_MessageType_def new_game_def frames_inv_def
      mem_bounded_def recorded_ok_def loop_ok_def input_addrs_def)

interpretation recorded_game: trace_invariant quiet_step new_game
    "\<lambda>es x. frames_inv (fst x) (snd x) \<and> length (frame_input_record_vec (fst x)) = length (filter (\<lambda>e. e = Main Swapped) es)"
proof unfold_locales
  fix es x e y
  assume a: "frames_inv (fst x) (snd x) \<and> length (frame_input_record_vec (fst x)) = length (filter (\<lambda>e. e = Main Swapped) es)"
    and st: "quiet_step x e y"
  obtain s pos s' pos' where xy: "x = (s, pos)" "y = (s', pos')" by (cases x, cases y)
  have "game_step (s, pos) e (s', pos')" using st xy by (simp add: quiet_step_def)
  from records_step [OF this] frames_inv_step [OF st [unfolded xy]] a
  show "frames_inv (fst y) (snd y) \<and> length (frame_input_record_vec (fst y)) = length (filter (\<lambda>e. e = Main Swapped) (es @ [e]))"
    by (simp add: xy)
qed (auto simp: new_game_def)

lemma Push_all_home:
  assumes "home d" "started d"
  obtains d' where "Push_all rs (Some a) d = Inr d'" "home d'" "started d'"
proof -
  have "\<exists>d'. Push_all rs (Some a) d = Inr d' \<and> home d' \<and> started d'"
    using assms
  proof (induction rs arbitrary: d)
    case (Cons r rs)
    obtain e where "Push r (Some a) d = Inr e" "home e" "started e" by (rule Push_home [OF Cons.prems])
    with Cons.IH [of e] show ?case by (simp add: Push_all_def)
  qed (simp add: Push_all_def)
  then show ?thesis using that by blast
qed

lemma broadcast_home:
  assumes "home d" "started d" "\<forall>p \<in> set ps. p \<noteq> None"
  obtains d' where "rfold (Push_all rs) ps d = Inr d'"
proof -
  have "\<exists>d'. rfold (Push_all rs) ps d = Inr d'"
    using assms
  proof (induction ps arbitrary: d)
    case (Cons p ps)
    then obtain a where "p = Some a" by auto
    moreover obtain e where "Push_all rs (Some a) d = Inr e" "home e" "started e"
      by (rule Push_all_home [OF Cons.prems(1,2)])
    ultimately show ?case using Cons.IH [of e] Cons.prems(3) by simp
  qed simp
  then show ?thesis using that by blast
qed

section \<open>Properties\<close>


text \<open>One input, with another one that arrives in the middle of its frame.\<close>

lemma demo_game_run:
  obtains s0 s where "GameServerExample_new ''srv'' 4000 = Inr s0"
    "lts_run quiet_step (s0, Idle) [Arrives ControlMessage_new, Controls 0 0, Main Idle, Main (Counting 1), Main Counted,
       Main Swapped, Arrives ControlMessage_new, Controls 0 1, Main (Stamping [Some 0])] (s, Sending (Some 0) [])"
    "frame_input_record_vec s = [\<lparr>frame_number = 2, input_msgs = [Some 0]\<rparr>]" "control_msg s = [Some 1]"
proof -
  obtain s0 where s0: "GameServerExample_new ''srv'' 4000 = Inr s0" "new_game (s0, Idle)" "frame_counter s0 = 1" "next_addr (mk s0) = 0"
    "mem (mk s0) = Map.empty" "control_msg s0 = []" "role_ids s0 = []" "send_msg s0 = []"
    "\<not> started (recv_msg_dispatcher (mk s0))"
    by (rule GameServerExample_new_ok)
  have r0: "frame_input_record_vec s0 = []" using s0(2) by (simp add: new_game_def)
  define g where "g m n c q fr fs = s0\<lparr>mk := (mk s0)\<lparr>mem := m, next_addr := n\<rparr>, frame_counter := c, control_msg := q,
    send_msg := fr, frame_input_record_vec := fs\<rparr>" for m n c q fr fs
  have s0g: "g Map.empty 0 1 [] [] [] = s0" 
  proof -
    have "mk s0\<lparr>mem := Map.empty, next_addr := 0\<rparr> = mk s0" using s0(4,5) by (intro MKServer.equality) simp_all
    then show ?thesis using s0(3-8) r0 unfolding g_def by (intro GameServerExample.equality) simp_all
  qed
  have [simp]: "mem (mk (g m n c q fr fs)) = m" "next_addr (mk (g m n c q fr fs)) = n" "frame_counter (g m n c q fr fs) = c"
    "control_msg (g m n c q fr fs) = q" "send_msg (g m n c q fr fs) = fr" "frame_input_record_vec (g m n c q fr fs) = fs"
    "store_msg a x (g m n c q fr fs) = g (m(a \<mapsto> x)) n c q fr fs" for m n c q fr fs a x
    by (simp_all add: g_def store_msg_def)
  have q: "quiet_step x e y" if "game_step x e y" "e \<noteq> Resets" for x e y using that by (simp add: quiet_step_def)
  have arr: "quiet_step (g m n c qs fr fs, pos) (Arrives ControlMessage_new) (g (m(n \<mapsto> ControlMessage_new)) (n + 1) c qs fr fs, pos)"
    for m n c qs fr fs pos
    using s0(9) by (intro q game_step.arrives) (simp_all add: on_mk_def on_message_def g_def Push_def Let_def)
  have ctl: "quiet_step (g m n c qs fr fs, pos) (Controls 0 a) (g m n c (qs @ [Some a]) fr fs, pos)"
    if "m a = Some ControlMessage_new" "Some a \<notin> set (input_addrs (g m n c qs fr fs) @ pending_inputs (g m n c qs fr fs) pos)"
    for m n c qs fr fs pos a
    using that by (intro q game_step.controls [where t = "0x12345678" and d = DIR_NONE and b = "base ControlMessage_new"])
      (simp_all add: ControlMessage_new_def Control_def g_def)
  have mn: "quiet_step (s, pos) (Main pos) (s', pos')" if "update_step s pos = Inr (s', pos')" for s s' pos pos'
    using that by (intro q game_step.main) simp_all
  let ?C = ControlMessage_new and ?f = "\<lparr>frame_number = 2, input_msgs = [Some 0]\<rparr>"
  let ?m1 = "[0 \<mapsto> ?C]" and ?m2 = "[0 \<mapsto> ?C, Suc 0 \<mapsto> ?C]"
  have r1: "quiet_step (s0, Idle) (Arrives ?C) (g ?m1 1 1 [] [] [], Idle)"
    using arr [of Map.empty 0 1 "[]" "[]" "[]" Idle] by (simp add: s0g)
  have r2: "quiet_step (g ?m1 1 1 [] [] [], Idle) (Controls 0 0) (g ?m1 1 1 [Some 0] [] [], Idle)"
    using ctl [of ?m1 0 1 1 "[]" "[]" "[]" Idle] by (simp add: input_addrs_def)
  have r3: "quiet_step (g ?m1 1 1 [Some 0] [] [], Idle) (Main Idle) (g ?m1 1 1 [Some 0] [] [], Counting 1)"
    by (rule mn) simp
  have r4: "quiet_step (g ?m1 1 1 [Some 0] [] [], Counting 1) (Main (Counting 1)) (g ?m1 1 2 [Some 0] [] [], Counted)"
    by (rule mn) (simp add: g_def)
  have r5: "quiet_step (g ?m1 1 2 [Some 0] [] [], Counted) (Main Counted) (g ?m1 1 2 [] [Some 0] [], Swapped)"
    by (rule mn) (simp add: g_def update_swap_def)
  have r6: "quiet_step (g ?m1 1 2 [] [Some 0] [], Swapped) (Main Swapped) (g ?m1 1 2 [] [Some 0] [?f], Stamping [Some 0])"
    by (rule mn) (simp add: g_def update_record_def)
  have r7: "quiet_step (g ?m1 1 2 [] [Some 0] [?f], Stamping [Some 0]) (Arrives ?C) (g ?m2 2 2 [] [Some 0] [?f], Stamping [Some 0])"
    using arr [of ?m1 1 2 "[]" "[Some 0]" "[?f]" "Stamping [Some 0]"] by (simp add: numeral_2_eq_2)
  have r8: "quiet_step (g ?m2 2 2 [] [Some 0] [?f], Stamping [Some 0]) (Controls 0 1) (g ?m2 2 2 [Some 1] [Some 0] [?f], Stamping [Some 0])"
    using ctl [of ?m2 1 2 2 "[]" "[Some 0]" "[?f]" "Stamping [Some 0]"] by (simp add: input_addrs_def)
  have r9: "quiet_step (g ?m2 2 2 [Some 1] [Some 0] [?f], Stamping [Some 0]) (Main (Stamping [Some 0]))
      (g (?m2(0 \<mapsto> set_tick 2 ?C)) 2 2 [Some 1] [Some 0] [?f], Sending (Some 0) [])"
    by (rule mn) (simp add: stamp_def deref_def CastBaseMsgTo_def ControlMessage_new_def)
  note snoc = lts_run.lts_snoc [where step = quiet_step]
  note x1 = lts_one [of quiet_step, OF r1]
  note x2 = snoc [OF x1 r2]
  note x3 = snoc [OF x2 r3]
  note x4 = snoc [OF x3 r4]
  note x5 = snoc [OF x4 r5]
  note x6 = snoc [OF x5 r6]
  note x7 = snoc [OF x6 r7]
  note x8 = snoc [OF x7 r8]
  note x9 = snoc [OF x8 r9]
  define fin where "fin = g (?m2(0 \<mapsto> set_tick 2 ?C)) 2 2 [Some 1] [Some 0] [?f]"
  have run: "lts_run quiet_step (s0, Idle) [Arrives ControlMessage_new, Controls 0 0, Main Idle, Main (Counting 1), Main Counted,
       Main Swapped, Arrives ControlMessage_new, Controls 0 1, Main (Stamping [Some 0])] (fin, Sending (Some 0) [])"
    using x9 unfolding fin_def append_Cons append_Nil .
  have "frame_input_record_vec fin = [?f]" "control_msg fin = [Some 1]" by (simp_all add: fin_def)
  with that [OF s0(1) run] show thesis by blast
qed


text \<open>
  Without the proviso it fails: a reset of the counter between the entry into the record and the tick gives
  the input the tick 0, whatever the number of its frame.
\<close>

lemma reset_in_the_loop_breaks_ticks:
  assumes "mem (mk s) a = Some (ControlMessage b t d)"
  shows "\<exists>s'. lts_run game_step (s, Stamping [Some a]) [Resets, Main (Stamping [Some a])] (s', Sending (Some a) []) \<and>
    frame_input_record_vec s' = frame_input_record_vec s \<and> mem (mk s') a = Some (ControlMessage b 0 d)"
proof -
  let ?s = "s\<lparr>frame_counter := 0\<rparr>"
  let ?s' = "store_msg a (ControlMessage b 0 d) ?s"
  have "game_step (s, Stamping [Some a]) Resets (?s, Stamping [Some a])" by (rule game_step.resets)
  moreover have "game_step (?s, Stamping [Some a]) (Main (Stamping [Some a])) (?s', Sending (Some a) [])"
    using assms by (intro game_step.main) (simp add: stamp_def deref_def CastBaseMsgTo_def)
  ultimately have "lts_run game_step (s, Stamping [Some a]) [Resets, Main (Stamping [Some a])] (?s', Sending (Some a) [])"
    using lts_run.lts_snoc [OF lts_one [of game_step]] by fastforce
  then show ?thesis by (intro exI [of _ ?s']) (simp add: store_msg_def)
qed

text \<open>
  C17: functional. One frame: \<open>Update\<close> takes all the inputs received since the last frame, stamps each
  with the number of the new frame and pushes them, in the order they came in, to every role in the
  room; it records the frame, leaves no input behind, changes no other message, and does not fault while
  the sending dispatcher runs.
\<close>

theorem update_broadcasts_stamped_inputs:
  assumes "game_inv s" "home (send_msg_dispatcher (mk s))" "started (send_msg_dispatcher (mk s))"
  shows "\<exists>s' d. Update s = Inr s' \<and>
    rfold (Push_all (role_ids s)) (control_msg s) (send_msg_dispatcher (mk s)) = Inr d \<and>
    send_msg_dispatcher (mk s') = d \<and> frame_counter s' = frame_counter s + 1 \<and>
    (\<forall>q \<in> set (control_msg s). \<exists>a b t dir. q = Some a \<and> mem (mk s) a = Some (ControlMessage b t dir) \<and>
       mem (mk s') a = Some (ControlMessage b (frame_counter s + 1) dir)) \<and>
    (\<forall>a. Some a \<notin> set (control_msg s) \<longrightarrow> mem (mk s') a = mem (mk s) a) \<and>
    control_msg s' = [] \<and> send_msg s' = [] \<and>
    frame_input_record_vec s' = frame_input_record_vec s @
      [\<lparr>frame_number = frame_counter s + 1, input_msgs = control_msg s\<rparr>]"
proof -
  have i: "send_msg s = []" "\<forall>q \<in> set (control_msg s). holds_control (mem (mk s)) q"
    using assms(1) by (auto simp: game_inv_def)
  then have ne: "\<forall>q \<in> set (control_msg s). q \<noteq> None" by (auto simp: holds_control_def)
  obtain d where d: "rfold (Push_all (role_ids s)) (control_msg s) (send_msg_dispatcher (mk s)) = Inr d"
    by (rule broadcast_home [OF assms(2,3) ne])
  have "\<exists>a b t dir. q = Some a \<and> mem (mk s) a = Some (ControlMessage b t dir) \<and>
      stamped (frame_counter s + 1) (control_msg s) (mem (mk s)) a = Some (ControlMessage b (frame_counter s + 1) dir)"
    if "q \<in> set (control_msg s)" for q
    using i(2) that unfolding holds_control_def stamped_def by fastforce
  then show ?thesis using Update_eq [OF i(2,1)] d by (auto simp: stamped_def)
qed

theorem update_broadcasts_stamped_inputs_witness:
  "let m = (MKServer_new DefaultCb ''srv'' 4000 10 10)\<lparr>mem := [0 \<mapsto> ControlMessage_new], next_addr := 1,
        send_msg_dispatcher := snd (Start (MsgDispatcher_new EncodeAndSend 10 False))\<rparr>;
     s = \<lparr>mk = m, role_ids = [1, 2], running = True, control_msg = [Some 0], send_msg = [], frame_counter = 1,
          frame_input_record_vec = []\<rparr>
   in \<exists>s'. Update s = Inr s' \<and> mem (mk s') 0 = Some (ControlMessage (base ControlMessage_new) 2 DIR_NONE) \<and>
        frame_input_record_vec s' = [\<lparr>frame_number = 2, input_msgs = [Some 0]\<rparr>]"
proof -
  let ?m = "(MKServer_new DefaultCb ''srv'' 4000 10 10)\<lparr>mem := [0 \<mapsto> ControlMessage_new], next_addr := 1,
        send_msg_dispatcher := snd (Start (MsgDispatcher_new EncodeAndSend 10 False))\<rparr>"
  let ?s = "\<lparr>mk = ?m, role_ids = [1, 2], running = True, control_msg = [Some 0], send_msg = [], frame_counter = 1,
          frame_input_record_vec = []\<rparr>"
  have "game_inv ?s" by (auto simp: game_inv_def mem_bounded_def input_addrs_def holds_control_def frames_stamped_def
        ControlMessage_new_def)
  moreover have "home (send_msg_dispatcher (mk ?s))" "started (send_msg_dispatcher (mk ?s))"
    by (simp_all add: home_def Start_def MsgDispatcher_new_def)
  ultimately show ?thesis
    using update_broadcasts_stamped_inputs [of ?s] by (auto simp: ControlMessage_new_def Let_def)
qed

end
