(* ===== verification/GameClient.thy ===== *)
theory GameClient
  imports Connection MsgDispatcher
begin

text \<open>
  \<^verbatim>\<open>GameClient/GameClient.h\<close> and \<^verbatim>\<open>GameClient/GameClient.cpp\<close>: the client with its connections by role,
  one message thread, the synchronous request, the measured delay and the promise for the start of the
  game. Resolving and connecting belong to the operating system; whether they succeed is an input.
  A call that blocks is split where it waits: the part before, and its result as an option.
\<close>

section \<open>State\<close>

text \<open>The functions of the constructor, the default one, and those a user sets.\<close>

datatype 'cb client_cb = ClientDefault | ClientPing | ClientGameStart | UserCb 'cb

record 'cb GameClient =
  client_name :: string
  client_dispatcher :: "'cb client_cb MsgDispatcher"
  conn_map :: "ROLE_ID \<rightharpoonup> nat"
  client_tcp :: "TcpConnection list"
  client_conns :: "GameConnection list"
  client_sent :: "(nat \<times> u8 list) list"
  delay_ms :: u32
  has_delay :: bool
  game_start_value :: "u64 option"
  game_start_retrieved :: bool
  ping_message_ptr :: BaseMessagePtr
  client_running :: bool
  client_guard :: bool
  context_stopped :: bool
  run_thread_joined :: bool
  client_mem :: msg_store
  client_next :: addr

definition GameClient_new :: "string \<Rightarrow> 'cb GameClient res" where
  "GameClient_new name =
     rbind (SetMsgCallback PING (Some ClientPing) (MsgDispatcher_new ClientDefault 1 True)) (\<lambda>d.
     rbind (SetMsgCallback GAME_START (Some ClientGameStart) d) (\<lambda>d.
     Inr \<lparr>client_name = name, client_dispatcher = snd (Start d), conn_map = Map.empty, client_tcp = [],
          client_conns = [], client_sent = [], delay_ms = 0, has_delay = False, game_start_value = None,
          game_start_retrieved = False, ping_message_ptr = None, client_running = True, client_guard = True,
          context_stopped = False, run_thread_joined = False, client_mem = Map.empty, client_next = 0\<rparr>))"

section \<open>Operations\<close>

definition alloc_client :: "Message \<Rightarrow> 'cb GameClient \<Rightarrow> addr \<times> 'cb GameClient" where
  "alloc_client m s =
     (let a = client_next s in (a, s\<lparr>client_mem := (client_mem s)(a \<mapsto> m), client_next := a + 1\<rparr>))"

text \<open>\<open>Connect\<close>; \<open>connects\<close> says whether the socket could be connected.\<close>

definition Connect :: "bool \<Rightarrow> ROLE_ID \<Rightarrow> 'cb GameClient \<Rightarrow> (bool \<times> 'cb GameClient) res" where
  "Connect connects r s =
     (case conn_map s r of
        Some i \<Rightarrow> Inr (False, s)
      | None \<Rightarrow>
          if connects
          then rbind TcpConnection_new (\<lambda>tcp_conn.
            let tcp_conn = SetConnectionName (client_name s @ ''-'' @ to_string_i32 r) tcp_conn;
                (tcp_conn, connection) = GameConnection_new tcp_conn;
                connection = SetOnNewMsgWithBufferFunc True connection;
                (connection, tcp_conn) = StartRecvData connection tcp_conn
            in Inr (True, s\<lparr>conn_map := (conn_map s)(r \<mapsto> length (client_conns s)),
                 client_tcp := client_tcp s @ [tcp_conn], client_conns := client_conns s @ [connection]\<rparr>))
          else Inr (False, s))"

text \<open>The function \<open>Connect\<close> registers, after \<open>TransmitMessage\<close>: the pointer is used without a test.\<close>

definition client_on_message :: "Message option \<Rightarrow> 'cb GameClient \<Rightarrow> 'cb GameClient res" where
  "client_on_message msg s =
     (case msg of
        None \<Rightarrow> Inl NullDeref
      | Some m \<Rightarrow>
          let (a, s) = alloc_client m s in
          rbind (Push (role_id (base m)) (Some a) (client_dispatcher s)) (\<lambda>d. Inr (s\<lparr>client_dispatcher := d\<rparr>)))"

text \<open>\<open>None\<close>: the message thread has not finished. Joining \<open>run_thread_\<close> twice throws.\<close>

definition Client_Stop :: "'cb GameClient \<Rightarrow> 'cb GameClient res option" where
  "Client_Stop s =
     map_option (\<lambda>r. rbind r (\<lambda>d.
       if run_thread_joined s then Inl SystemError
       else Inr (s\<lparr>client_running := False, client_dispatcher := d, client_guard := False, context_stopped := True,
                   run_thread_joined := True\<rparr>)))
       (Stop (client_dispatcher s))"

definition GameClient_destroy :: "'cb GameClient \<Rightarrow> 'cb GameClient res option" where
  "GameClient_destroy s = (if client_running s then Client_Stop s else Some (Inr s))"

definition Client_SetMsgCallback :: "MessageType \<Rightarrow> 'cb client_cb option \<Rightarrow> 'cb GameClient \<Rightarrow> 'cb GameClient res" where
  "Client_SetMsgCallback t callback s =
     rbind (SetMsgCallback t callback (client_dispatcher s)) (\<lambda>d. Inr (s\<lparr>client_dispatcher := d\<rparr>))"

text \<open>\<open>SendMsgAsync\<close>: the client, and the line it logs when there is no such connection.\<close>

definition SendMsgAsync :: "endian \<Rightarrow> ROLE_ID \<Rightarrow> BaseMessagePtr \<Rightarrow> 'cb GameClient \<Rightarrow>
    ('cb GameClient \<times> string option) res" where
  "SendMsgAsync h r msg_ptr s =
     (case conn_map s r of
        None \<Rightarrow> Inr (s, Some (''conn: '' @ to_string_i32 r @ '' not exist''))
      | Some conn \<Rightarrow>
          rbind TinyBuffer_new (\<lambda>buffer.
          rbind (deref (client_mem s) msg_ptr) (\<lambda>m.
          rbind (EncodeMessage h m buffer) (\<lambda>buffer.
          rbind (mem_read (ReadBegin buffer) (unat (ReadableSize buffer)) (vec buffer)) (\<lambda>data.
          Inr (s\<lparr>client_sent := client_sent s @ [(conn, data)]\<rparr>, None))))))"

text \<open>\<open>TestDelay\<close> at the time \<open>now\<close>, with one ping message that is reused.\<close>

fun set_ping :: "ROLE_ID \<Rightarrow> u64 \<Rightarrow> Message \<Rightarrow> Message" where
  "set_ping r now (PingMessage b t) = PingMessage (b\<lparr>role_id := r\<rparr>) now"
| "set_ping r now m = m"

definition TestDelay :: "endian \<Rightarrow> u64 \<Rightarrow> ROLE_ID \<Rightarrow> 'cb GameClient \<Rightarrow> ('cb GameClient \<times> string option) res" where
  "TestDelay h now r s =
     (let s = (case ping_message_ptr s of
            Some a \<Rightarrow> s
          | None \<Rightarrow> let (a, s) = alloc_client PingMessage_new s in s\<lparr>ping_message_ptr := Some a\<rparr>)
      in rbind (deref (client_mem s) (ping_message_ptr s)) (\<lambda>m.
         let s = s\<lparr>client_mem := (client_mem s)(the (ping_message_ptr s) \<mapsto> set_ping r now m)\<rparr>
         in SendMsgAsync h r (ping_message_ptr s) s))"

text \<open>\<open>None\<close>: no delay has been measured yet, and the call waits.\<close>

definition GetDelayMs :: "'cb GameClient \<Rightarrow> u32 option" where
  "GetDelayMs s = (if has_delay s then Some (delay_ms s) else None)"

text \<open>\<open>WaitForGameStart\<close>: \<open>get_future\<close>, then the value once it is there.\<close>

definition WaitForGameStart :: "'cb GameClient \<Rightarrow> (u64 option \<times> 'cb GameClient) res" where
  "WaitForGameStart s =
     (if game_start_retrieved s then Inl FutureError
      else Inr (game_start_value s, s\<lparr>game_start_retrieved := True\<rparr>))"

text \<open>The two callbacks of the constructor, at the time \<open>now\<close>.\<close>

definition on_ping :: "u64 \<Rightarrow> BaseMessagePtr \<Rightarrow> 'cb GameClient \<Rightarrow> 'cb GameClient res" where
  "on_ping now ping_msg_ptr s =
     rbind (deref (client_mem s) ping_msg_ptr) (\<lambda>m.
     case CastBaseMsgTo CPing m of
       Some (PingMessage b t) \<Rightarrow> Inr (s\<lparr>delay_ms := ucast (now - t), has_delay := True\<rparr>)
     | _ \<Rightarrow> Inl NullDeref)"

definition on_game_start :: "BaseMessagePtr \<Rightarrow> 'cb GameClient \<Rightarrow> 'cb GameClient res" where
  "on_game_start start_msg s =
     rbind (deref (client_mem s) start_msg) (\<lambda>m.
     case CastBaseMsgTo CGameStart m of
       Some (GameStartMessage b t) \<Rightarrow>
         (case game_start_value s of
            None \<Rightarrow> Inr (s\<lparr>game_start_value := Some t\<rparr>)
          | Some v \<Rightarrow> Inl FutureError)
     | _ \<Rightarrow> Inl NullDeref)"

text \<open>The message thread handles a message; \<open>user\<close> gives the user's callbacks their meaning.\<close>

definition client_handles :: "('cb \<Rightarrow> ROLE_ID \<Rightarrow> BaseMessagePtr \<Rightarrow> 'cb GameClient \<Rightarrow> 'cb GameClient res) \<Rightarrow> u64 \<Rightarrow>
    MsgForDispatch \<Rightarrow> 'cb GameClient \<Rightarrow> 'cb GameClient res" where
  "client_handles user now msg s =
     rbind (Dispatch (client_mem s) msg (client_dispatcher s)) (\<lambda>(c, d).
     let s = s\<lparr>client_dispatcher := d\<rparr> in
     case c of
       NoCall \<Rightarrow> Inr s
     | Invoke ClientDefault r p \<Rightarrow> rbind (deref (client_mem s) p) (\<lambda>m. Inr s)
     | Invoke ClientPing r p \<Rightarrow> on_ping now p s
     | Invoke ClientGameStart r p \<Rightarrow> on_game_start p s
     | Invoke (UserCb f) r p \<Rightarrow> user f r p s)"

text \<open>\<open>SendMsgSync\<close> up to the wait: the future, the client, and what is logged.\<close>

definition SendMsgSync :: "endian \<Rightarrow> ROLE_ID \<Rightarrow> BaseMessagePtr \<Rightarrow> 'cb GameClient \<Rightarrow>
    (nat \<times> 'cb GameClient \<times> string option) res" where
  "SendMsgSync h r msg_ptr s =
     rbind (SetSyncMessageId r msg_ptr (client_mem s) (client_dispatcher s)) (\<lambda>(future, st, d).
     rbind (SendMsgAsync h r msg_ptr (s\<lparr>client_mem := st, client_dispatcher := d\<rparr>)) (\<lambda>(s, line).
     Inr (future, s, line)))"

fun set_room :: "ROLE_ID \<Rightarrow> u32 \<Rightarrow> Message \<Rightarrow> Message" where
  "set_room r room (EnterRoomMessage b _ e) = EnterRoomMessage (b\<lparr>role_id := r\<rparr>) room e"
| "set_room r room m = m"

text \<open>\<open>EnterRoom\<close>: the request, and the result made of the answer. \<open>None\<close>: the answer is not there.\<close>

definition Client_EnterRoom :: "endian \<Rightarrow> ROLE_ID \<Rightarrow> u32 \<Rightarrow> 'cb GameClient \<Rightarrow>
    (nat \<times> 'cb GameClient \<times> string option) res" where
  "Client_EnterRoom h r room s =
     (let (msg, s) = alloc_client (set_room r room EnterRoomMessage_new) s
      in SendMsgSync h r (Some msg) s)"

definition EnterRoom_result :: "nat \<Rightarrow> 'cb GameClient \<Rightarrow> bool res option" where
  "EnterRoom_result future s =
     map_option (\<lambda>v. rbind v (\<lambda>base_rsp. rbind (deref (client_mem s) base_rsp) (\<lambda>m.
       case CastBaseMsgTo CEnterRoom m of
         Some (EnterRoomMessage b room e) \<Rightarrow> Inr (e = 0)
       | _ \<Rightarrow> Inl NullDeref)))
       (future_get future (client_dispatcher s))"

section \<open>Lemmas\<close>

lemma SendMsgAsync_frame:
  assumes "conn_map s r = Some i" "client_mem s a = Some m"
  shows "SendMsgAsync h r (Some a) s = Inr (s\<lparr>client_sent := client_sent s @ [(i, frame m)]\<rparr>, None)"
proof -
  obtain t b where tb: "TinyBuffer_new = Inr t" "EncodeMessage h m t = Inr b"
    "mem_read (ReadBegin b) (unat (ReadableSize b)) (vec b) = Inr (frame m)" by (rule tiny_buffer_frame)
  then show ?thesis by (simp add: SendMsgAsync_def deref_def assms tb)
qed

lemma GameClient_new_ok:
  obtains c where "GameClient_new name = Inr c" "promises_ok (client_dispatcher c)"
    "enable_sync (client_dispatcher c)" "message_promise (client_dispatcher c) = Map.empty"
    "message_id_map (client_dispatcher c) = Map.empty" "client_sent c = []"
  by (auto simp: GameClient_new_def SetMsgCallback_def MsgDispatcher_new_def less_MessageType_def Start_def
      promises_ok_def)

end
