(* ===== verification/GameController.thy ===== *)
theory GameController
  imports GameClient
begin

text \<open>
  \<^verbatim>\<open>GameClient/GameController.h\<close> and \<^verbatim>\<open>GameClient/GameController.cpp\<close>: the player's inputs on their
  way to the server, and the inputs of all players on their way to the game, in a queue by logic frame.
\<close>

section \<open>State and operations\<close>

record Input =
  player_id :: ROLE_ID
  logic_frame :: u32
  direction :: MoveDirection

text \<open>The client is shared with the rest of the program; the callback of the controller is the unit.\<close>

record GameController =
  input_deque :: "Input list"
  game_client :: "unit GameClient"
  control_message_ptr :: addr

definition GameController_new :: "unit GameClient \<Rightarrow> GameController res" where
  "GameController_new client =
     (let (a, client) = alloc_client ControlMessage_new client
      in rbind (Client_SetMsgCallback CONTROL (Some (UserCb ())) client) (\<lambda>client.
         Inr \<lparr>input_deque = [], game_client = client, control_message_ptr = a\<rparr>))"

text \<open>The callback: the input of a control message joins the queue.\<close>

definition on_control :: "ROLE_ID \<Rightarrow> BaseMessagePtr \<Rightarrow> GameController \<Rightarrow> GameController res" where
  "on_control r msg s =
     rbind (deref (client_mem (game_client s)) msg) (\<lambda>m.
     case CastBaseMsgTo CControl m of
       Some (ControlMessage b t d) \<Rightarrow>
         Inr (s\<lparr>input_deque := input_deque s @ [\<lparr>player_id = r, logic_frame = t, direction = d\<rparr>]\<rparr>)
     | _ \<Rightarrow> Inl NullDeref)"

fun set_control :: "u32 \<Rightarrow> ROLE_ID \<Rightarrow> MoveDirection \<Rightarrow> Message \<Rightarrow> Message" where
  "set_control t r d (ControlMessage b _ _) = ControlMessage (b\<lparr>role_id := r\<rparr>) t d"
| "set_control t r d m = m"

definition PushInput :: "endian \<Rightarrow> ROLE_ID \<Rightarrow> u32 \<Rightarrow> MoveDirection \<Rightarrow> GameController \<Rightarrow>
    (GameController \<times> string option) res" where
  "PushInput h r frame_no d s =
     (let c = game_client s; a = control_message_ptr s in
      rbind (deref (client_mem c) (Some a)) (\<lambda>m.
      let c = c\<lparr>client_mem := (client_mem c)(a \<mapsto> set_control frame_no r d m)\<rparr> in
      rbind (SendMsgAsync h r (Some a) c) (\<lambda>(c, line). Inr (s\<lparr>game_client := c\<rparr>, line))))"

text \<open>
  \<open>PopInput\<close> on the queue and the result: the comparison of the \<open>int\<close> with the \<open>uint32_t\<close> is made
  on unsigned numbers.
\<close>

fun PopInput :: "u32 \<Rightarrow> Input list \<Rightarrow> Input list \<Rightarrow> Input list \<times> Input list" where
  "PopInput current_logic_frame [] res = ([], res)"
| "PopInput current_logic_frame (input # que) res =
     (if current_logic_frame \<ge> logic_frame input
      then PopInput current_logic_frame que (res @ [input])
      else (input # que, res))"

definition Controller_PopInput :: "u32 \<Rightarrow> Input list \<Rightarrow> GameController \<Rightarrow> Input list \<times> GameController" where
  "Controller_PopInput n res s =
     (let (que, res) = PopInput n (input_deque s) res in (res, s\<lparr>input_deque := que\<rparr>))"

section \<open>Lemmas\<close>

lemma PopInput_while:
  "PopInput n q res = (dropWhile (\<lambda>i. logic_frame i \<le> n) q, res @ takeWhile (\<lambda>i. logic_frame i \<le> n) q)"
  by (induction q arbitrary: res) auto

lemma takeWhile_sorted:
  "sorted (map logic_frame q) \<Longrightarrow> takeWhile (\<lambda>i. logic_frame i \<le> n) q = filter (\<lambda>i. logic_frame i \<le> n) q \<and>
     dropWhile (\<lambda>i. logic_frame i \<le> n) q = filter (\<lambda>i. \<not> logic_frame i \<le> n) q"
proof (induction q)
  case (Cons i q)
  have "filter (\<lambda>i. logic_frame i \<le> n) q = []" "filter (\<lambda>i. \<not> logic_frame i \<le> n) q = q" if "\<not> logic_frame i \<le> n"
    using that Cons.prems by (auto simp: filter_empty_conv filter_id_conv dest: order_trans)
  with Cons show ?case by auto
qed simp

lemma negative_unat: "sint (n :: u32) < 0 \<Longrightarrow> 2 ^ 31 \<le> unat n"
proof -
  assume "sint n < 0"
  then have "bit (uint n) 31" by (simp add: sint_uint signed_take_bit_negative_iff)
  then have ne: "uint n div 2 ^ 31 \<noteq> 0" by (auto simp: bit_iff_odd)
  have "uint n div 2 ^ 31 = 0" if "uint n < 2 ^ 31"
    using that uint_ge_0 [of n] by (rule div_pos_pos_trivial [rotated])
  with ne have "2 ^ 31 \<le> uint n" by linarith
  then have "int (2 ^ 31) \<le> int (unat n)" by (simp only: uint_nat [symmetric] of_nat_power of_nat_numeral)
  then show "2 ^ 31 \<le> unat n" by (simp only: of_nat_le_iff)
qed

text \<open>Popping for a row of frames: the results one after another.\<close>

definition pop_frames :: "u32 list \<Rightarrow> Input list \<Rightarrow> Input list \<times> Input list" where
  "pop_frames ns q = fold (\<lambda>n (q, res). PopInput n q res) ns (q, [])"

lemma PopInput_keeps: "PopInput n q res = (q', res') \<Longrightarrow> res' @ q' = res @ q"
  by (simp add: PopInput_while) auto

lemma fold_PopInput_keeps:
  "fold (\<lambda>n (q, res). PopInput n q res) ns (q, res) = (q', res') \<Longrightarrow> res' @ q' = res @ q"
proof (induction ns arbitrary: q res)
  case (Cons n ns)
  obtain q1 res1 where p: "PopInput n q res = (q1, res1)" by fastforce
  then show ?case using Cons PopInput_keeps [OF p] by simp
qed simp

section \<open>Properties\<close>

text \<open>
  functional. Taking the inputs for one frame after another loses, repeats and reorders nothing;
  and when the inputs in the queue are in the order of their frames, one call takes exactly those of
  the current frame and the earlier ones. A negative current frame is compared as a large unsigned number
  and takes every input of a frame below \<open>2 ^ 31\<close>.
\<close>

theorem inputs_are_popped_by_frame:
  assumes "sorted (map logic_frame (input_deque s))" "Controller_PopInput n res s = (res', s')"
  shows "res' = res @ filter (\<lambda>i. logic_frame i \<le> n) (input_deque s) \<and>
    input_deque s' = filter (\<lambda>i. \<not> logic_frame i \<le> n) (input_deque s) \<and>
    snd (pop_frames ns (input_deque s)) @ fst (pop_frames ns (input_deque s)) = input_deque s \<and>
    (sint n < 0 \<longrightarrow> (\<forall>i \<in> set (input_deque s). unat (logic_frame i) < 2 ^ 31) \<longrightarrow> input_deque s' = [])"
proof -
  have p: "res' = res @ takeWhile (\<lambda>i. logic_frame i \<le> n) (input_deque s)"
    "input_deque s' = dropWhile (\<lambda>i. logic_frame i \<le> n) (input_deque s)"
    using assms(2) by (auto simp: Controller_PopInput_def PopInput_while Let_def)
  have k: "snd (pop_frames ns (input_deque s)) @ fst (pop_frames ns (input_deque s)) = input_deque s"
    using fold_PopInput_keeps [of ns "input_deque s" "[]"] unfolding pop_frames_def
    by (metis append_Nil prod.collapse)
  have "input_deque s' = []" if "sint n < 0" "\<forall>i \<in> set (input_deque s). unat (logic_frame i) < 2 ^ 31"
  proof -
    have "2 ^ 31 \<le> unat n" using that(1) by (rule negative_unat)
    then have "\<forall>i \<in> set (input_deque s). logic_frame i \<le> n"
      using that(2) by (auto simp: word_le_nat_alt)
    then show ?thesis by (simp add: p(2))
  qed
  with p k takeWhile_sorted [OF assms(1), of n] show ?thesis by simp
qed

theorem inputs_are_popped_by_frame_witness:
  "let i = \<lparr>player_id = 1, logic_frame = 3, direction = DIR_UP\<rparr>; j = \<lparr>player_id = 2, logic_frame = 5, direction = DIR_DOWN\<rparr>
   in \<forall>client. Controller_PopInput 4 [] \<lparr>input_deque = [i, j], game_client = client, control_message_ptr = 0\<rparr> =
        ([i], \<lparr>input_deque = [j], game_client = client, control_message_ptr = 0\<rparr>)"
proof -
  let ?i = "\<lparr>player_id = 1, logic_frame = 3, direction = DIR_UP\<rparr>"
  let ?j = "\<lparr>player_id = 2, logic_frame = 5, direction = DIR_DOWN\<rparr>"
  let ?s = "\<lambda>client. \<lparr>input_deque = [?i, ?j], game_client = client, control_message_ptr = 0\<rparr>"
  have "Controller_PopInput 4 [] (?s client) = ([?i], (?s client)\<lparr>input_deque := [?j]\<rparr>)" for client
    using inputs_are_popped_by_frame [of "?s client" 4 "[]"]
    by (cases "Controller_PopInput 4 [] (?s client)") (auto simp: Controller_PopInput_def Let_def split: prod.splits)
  then show ?thesis by (simp add: Let_def)
qed

end
