(* ===== verification/EndToEnd.thy ===== *)
theory EndToEnd
  imports GameServerExample GameController
begin

text \<open>
  A request and its answer across client and server: \<^verbatim>\<open>GameClient::EnterRoom\<close>, the callback
  \<^verbatim>\<open>GameServerExample::EnterRoom\<close> and the promise of the client's dispatcher, joined by the frames
  that carry the messages.
\<close>

section \<open>From bytes to bytes\<close>

text \<open>
  The message that the bytes of a frame decode to (\<open>on_new_data_refines_feed\<close>); the server's work for a
  request: its read handler stores the message, the callback runs and pushes the answer, and the sending
  thread encodes what the pushed pointer leads to; the client's for an answer: its read handler stores it and
  the message thread hands it out. The queues between the threads hand over every message
  (\<open>dispatcher_keeps_role_order\<close>).
\<close>

definition read_frame :: "u8 list \<Rightarrow> Message option res" where
  "read_frame bs =
     (case parse_header bs of Parsed b n \<Rightarrow> decode_body b (take (unat n) (drop 21 bs)) | _ \<Rightarrow> Inr None)"

definition serve_enter_room :: "endian \<Rightarrow> u64 \<Rightarrow> ROLE_ID \<Rightarrow> u8 list \<Rightarrow> GameServerExample \<Rightarrow>
    (GameServerExample \<times> string option) res" where
  "serve_enter_room h now r bytes s =
     rbind (read_frame bytes) (\<lambda>m.
     let a = next_addr (mk s) in
     rbind (on_mk (on_message m) s) (\<lambda>s.
     rbind (EnterRoom now r (Some a) s) (\<lambda>s.
     rbind (encode_and_send h r (Some a) (mk s)) (\<lambda>(m, line). Inr (s\<lparr>mk := m\<rparr>, line)))))"

definition client_takes :: "('cb \<Rightarrow> ROLE_ID \<Rightarrow> BaseMessagePtr \<Rightarrow> 'cb GameClient \<Rightarrow> 'cb GameClient res) \<Rightarrow> u64 \<Rightarrow>
    ROLE_ID \<Rightarrow> u8 list \<Rightarrow> 'cb GameClient \<Rightarrow> 'cb GameClient res" where
  "client_takes user now r bytes c =
     rbind (read_frame bytes) (\<lambda>m.
     case m of
       None \<Rightarrow> Inl NullDeref
     | Some m \<Rightarrow> let (b, c) = alloc_client m c in client_handles user now \<lparr>dispatch_id = r, base_message_ptr = Some b\<rparr> c)"

lemma read_frame_frame: "well_typed m \<Longrightarrow> read_frame (frame m) = decode_body (base m) (body_bytes m)"
proof -
  assume m: "well_typed m"
  let ?n = "length (body_bytes m)"
  have n: "unat (of_nat ?n :: u32) = ?n" by (rule unat_of_nat_small) simp
  let ?P = "be_bytes (of_nat (17 + ?n) :: u32) @ header_bytes (base m)"
  have f: "frame m = ?P @ body_bytes m" by (simp add: frame_def)
  have "length ?P = 21" by simp
  then have "drop 21 (frame m) = body_bytes m" unfolding f by (metis append_eq_conv_conj)
  then show ?thesis
    using parse_frame [of m "[]"] well_typed_valid [OF m] n by (simp add: read_frame_def del: length_body_bytes)
qed

section \<open>Entering a room\<close>

text \<open>The message of the request, with the identifier of the synchronous call.\<close>

definition enter_request :: "ROLE_ID \<Rightarrow> u32 \<Rightarrow> u32 \<Rightarrow> Message" where
  "enter_request r room uid =
     map_base (\<lambda>b. b\<lparr>message_unique_id := uid\<rparr>) (set_room r room EnterRoomMessage_new)"

lemma enter_request_eq:
  "enter_request r room uid = EnterRoomMessage \<lparr>magic = MAGIC, message_unique_id = uid, role_id = r, version = 0,
     message_type = ENTER_ROOM\<rparr> room 0"
  by (simp add: enter_request_def EnterRoomMessage_new_def BaseMessage_new_def)

lemma enter_request_simps [simp]:
  "well_typed (enter_request r room uid)" "class_of (enter_request r room uid) = CEnterRoom"
  "set_result 0 (enter_request r room uid) = enter_request r room uid"
  "role_id (base (enter_request r room uid)) = r" "message_unique_id (base (enter_request r room uid)) = uid"
  by (simp_all add: enter_request_eq well_typed_def)

text \<open>The request leaves the client as a frame, and a future waits.\<close>

lemma Client_EnterRoom_sends:
  assumes "conn_map c r = Some i" "promises_ok (client_dispatcher c)"
    "message_promise (client_dispatcher c) (next_message_id r (client_dispatcher c)) = None"
  obtains f d st c1 where "Client_EnterRoom h r room c = Inr (f, c1, None)"
    "SetSyncMessageId r (Some (client_next c)) ((client_mem c)(client_next c \<mapsto> set_room r room EnterRoomMessage_new))
       (client_dispatcher c) = Inr (f, st, d)"
    "client_dispatcher c1 = d" "client_mem c1 = st"
    "st (client_next c) = Some (enter_request r room (next_message_id r (client_dispatcher c)))"
    "client_sent c1 = client_sent c @ [(i, frame (enter_request r room (next_message_id r (client_dispatcher c))))]"
    "conn_map c1 = conn_map c" "client_next c1 = client_next c + 1"
proof -
  let ?d = "client_dispatcher c" and ?a = "client_next c"
  let ?u = "next_message_id r ?d" and ?m = "set_room r room EnterRoomMessage_new"
  let ?st = "(client_mem c)(?a \<mapsto> ?m)"
  obtain f d where s: "SetSyncMessageId r (Some ?a) ?st ?d = Inr (f, ?st(?a \<mapsto> enter_request r room ?u), d)"
    using assms(3)
    by (simp add: SetSyncMessageId_def deref_def promise_at_def get_future_def enter_request_def Let_def)
  let ?st' = "?st(?a \<mapsto> enter_request r room ?u)"
  define c1 where "c1 = c\<lparr>client_mem := ?st', client_next := ?a + 1, client_dispatcher := d,
    client_sent := client_sent c @ [(i, frame (enter_request r room ?u))]\<rparr>"
  let ?c0 = "c\<lparr>client_mem := ?st, client_next := ?a + 1\<rparr>\<lparr>client_mem := ?st', client_dispatcher := d\<rparr>"
  have "SendMsgAsync h r (Some ?a) ?c0 =
      Inr (?c0\<lparr>client_sent := client_sent ?c0 @ [(i, frame (enter_request r room ?u))]\<rparr>, None)"
    by (rule SendMsgAsync_frame) (simp_all add: assms(1))
  then have "Client_EnterRoom h r room c = Inr (f, ?c0\<lparr>client_sent := client_sent ?c0 @ [(i, frame (enter_request r room ?u))]\<rparr>, None)"
    using s by (simp add: Client_EnterRoom_def alloc_client_def SendMsgSync_def Let_def)
  then show ?thesis
    by (rule that [OF _ s]) simp_all
qed

text \<open>An answer that carries the identifier decides the result.\<close>

lemma EnterRoom_answer:
  assumes "promises_ok (client_dispatcher c)" "enable_sync (client_dispatcher c)"
    "message_promise (client_dispatcher c) u = Some p" "u \<noteq> 0"
    "client_mem c b = Some (EnterRoomMessage bm room e)" "message_unique_id bm = u"
  obtains c' where "client_handles user now \<lparr>dispatch_id = r, base_message_ptr = Some b\<rparr> c = Inr c'"
    "EnterRoom_result (shared p) c' = Some (Inr (e = 0))" "client_sent c' = client_sent c"
    "shared_states (client_dispatcher c') = (shared_states (client_dispatcher c))[shared p := Ready (Some b)]"
proof -
  have u: "message_unique_id (base (EnterRoomMessage bm room e)) = u" using assms(6) by simp
  obtain d' where d: "Dispatch (client_mem c) \<lparr>dispatch_id = r, base_message_ptr = Some b\<rparr> (client_dispatcher c) = Inr (NoCall, d')"
    "shared_states d' = (shared_states (client_dispatcher c))[shared p := Ready (Some b)]"
    using Dispatch_sync [where st = "client_mem c" and a = b, OF assms(1,2,5) u assms(4), where r = r] assms(3) by metis
  have "shared p < length (shared_states (client_dispatcher c))"
    using promises_okD(1) [OF assms(1,3)] .
  then show ?thesis using d assms(5)
    by (intro that [of "c\<lparr>client_dispatcher := d'\<rparr>"])
      (simp_all add: client_handles_def EnterRoom_result_def future_get_def deref_def CastBaseMsgTo_def Let_def)
qed

text \<open>The server's callback for a role without a special meaning answers with the request itself.\<close>

lemma EnterRoom_echoes:
  assumes "mem (mk s) a = Some (enter_request r room uid)" "r \<noteq> 2" "r \<noteq> 3"
    "home (send_msg_dispatcher (mk s))" "started (send_msg_dispatcher (mk s))"
  obtains s' d where "EnterRoom now r (Some a) s = Inr s'" "role_ids s' = role_ids s @ [r]"
    "Push r (Some a) (send_msg_dispatcher (mk s)) = Inr d" "send_msg_dispatcher (mk s') = d"
    "mem (mk s') a = Some (enter_request r room uid)" "game_server (mk s') = game_server (mk s)"
proof -
  obtain d where d: "Push r (Some a) (send_msg_dispatcher (mk s)) = Inr d"
    by (rule Push_home [OF assms(4,5)])
  let ?s = "(store_msg a (enter_request r room uid) s)\<lparr>role_ids := role_ids s @ [r]\<rparr>"
  have "EnterRoom now r (Some a) s = Inr (?s\<lparr>mk := (mk ?s)\<lparr>send_msg_dispatcher := d\<rparr>\<rparr>)"
    using assms(1-3) d
    by (simp add: EnterRoom_def mark_entered_def deref_def CastBaseMsgTo_def on_mk_def SendMessageByRoleId_def store_msg_def Let_def)
  then show ?thesis by (rule that) (simp_all add: d store_msg_def)
qed


text \<open>The server's part as a whole, for a role whose connection is known.\<close>

lemma serves_enter_room:
  assumes "r \<noteq> 2" "r \<noteq> 3" "home (send_msg_dispatcher (mk s))" "started (send_msg_dispatcher (mk s))"
    "home (recv_msg_dispatcher (mk s))" "started (recv_msg_dispatcher (mk s))"
    "role_id_conn_map (game_server (mk s)) r = Some j"
  obtains s' where "serve_enter_room h now r (frame (enter_request r room uid)) s = Inr (s', None)" "role_ids s' = role_ids s @ [r]"
    "sent (game_server (mk s')) = sent (game_server (mk s)) @ [(j, frame (enter_request r room uid))]"
proof -
  let ?m = "enter_request r room uid" and ?a = "next_addr (mk s)"
  have dec: "read_frame (frame ?m) = Inr (Some ?m)"
    using read_frame_frame [of ?m] decode_body_bytes [of ?m "[]"] by simp
  obtain d where d: "Push r (Some ?a) (recv_msg_dispatcher (mk s)) = Inr d" by (rule Push_home [OF assms(5,6)])
  define s1 where "s1 = s\<lparr>mk := (mk s)\<lparr>mem := (mem (mk s))(?a \<mapsto> ?m), next_addr := ?a + 1, recv_msg_dispatcher := d\<rparr>\<rparr>"
  have s1: "on_mk (on_message (Some ?m)) s = Inr s1" using d by (simp add: on_mk_def on_message_def s1_def Let_def)
  have "mem (mk s1) ?a = Some ?m" "home (send_msg_dispatcher (mk s1))" "started (send_msg_dispatcher (mk s1))"
    using assms(3,4) by (simp_all add: s1_def)
  from EnterRoom_echoes [OF this(1) assms(1,2) this(2,3), where now = now] obtain s2 where
    s2: "EnterRoom now r (Some ?a) s1 = Inr s2" "role_ids s2 = role_ids s1 @ [r]" "mem (mk s2) ?a = Some ?m"
      "game_server (mk s2) = game_server (mk s1)" by metis
  have g: "game_server (mk s1) = game_server (mk s)" "role_ids s1 = role_ids s" by (simp_all add: s1_def)
  show ?thesis
    by (rule that [of "s2\<lparr>mk := (mk s2)\<lparr>game_server := (game_server (mk s))\<lparr>sent := sent (game_server (mk s)) @ [(j, frame ?m)]\<rparr>\<rparr>\<rparr>"])
      (use s2 g assms(7) encode_and_send_frame [OF s2(3), of h r]
       in \<open>simp_all add: serve_enter_room_def dec s1 SendMessageById_def Let_def\<close>)
qed

section \<open>Properties\<close>



end
