(* ===== verification/TimerQueue.thy ===== *)
theory TimerQueue
  imports Prelude "HOL-Library.Multiset"
begin

text \<open>
  The timer queue of the reactor, \<^verbatim>\<open>asio/detail/timer_queue.hpp\<close>: a binary heap in a vector, ordered by
  expiry time, whose entries point to the timers and whose timers know their index in the heap, and a
  doubly linked list of all active timers. Timers are named by numbers and their data is a function of
  the name; indices are natural numbers. The times are a linear order; \<open>is_inf\<close> tells the positive
  infinity of a time type that has one.
\<close>

section \<open>Data\<close>

type_synonym timer = nat

text \<open>An operation that waits on a timer, with its cancellation key, and the error it is completed with.\<close>

record wait_op =
  wait_op_id :: nat
  cancellation_key :: nat

datatype timer_error = TimerExpired | OperationAborted

type_synonym completed_ops = "(wait_op \<times> timer_error) list"

record per_timer_data =
  timer_ops :: "wait_op list"
  heap_index :: nat
  timer_next :: "timer option"
  timer_prev :: "timer option"

definition per_timer_data_new :: per_timer_data where
  "per_timer_data_new = \<lparr>timer_ops = [], heap_index = SIZE_T_MAX, timer_next = None, timer_prev = None\<rparr>"

record 't timer_queue =
  timers :: "timer option"
  timer_heap :: "('t \<times> timer) list"
  timer_data :: "timer \<Rightarrow> per_timer_data"

definition timer_queue_new :: "'t timer_queue" where
  "timer_queue_new = \<lparr>timers = None, timer_heap = [], timer_data = (\<lambda>t. per_timer_data_new)\<rparr>"

definition upd_timer :: "timer \<Rightarrow> (per_timer_data \<Rightarrow> per_timer_data) \<Rightarrow> 't timer_queue \<Rightarrow> 't timer_queue" where
  "upd_timer t f q = q\<lparr>timer_data := (timer_data q)(t := f (timer_data q t))\<rparr>"

text \<open>A pointer that may be null is followed only if it is not.\<close>

definition upd_opt :: "timer option \<Rightarrow> (per_timer_data \<Rightarrow> per_timer_data) \<Rightarrow> 't timer_queue \<Rightarrow> 't timer_queue" where
  "upd_opt p f q = (case p of None \<Rightarrow> q | Some t \<Rightarrow> upd_timer t f q)"

section \<open>The heap\<close>

definition swap_heap :: "nat \<Rightarrow> nat \<Rightarrow> 't timer_queue \<Rightarrow> 't timer_queue" where
  "swap_heap index1 index2 q =
     (let tmp = timer_heap q ! index1;
          q = q\<lparr>timer_heap := (timer_heap q)[index1 := timer_heap q ! index2]\<rparr>;
          q = q\<lparr>timer_heap := (timer_heap q)[index2 := tmp]\<rparr>;
          q = upd_timer (snd (timer_heap q ! index1)) (\<lambda>d. d\<lparr>heap_index := index1\<rparr>) q
      in upd_timer (snd (timer_heap q ! index2)) (\<lambda>d. d\<lparr>heap_index := index2\<rparr>) q)"

definition time_at :: "'t timer_queue \<Rightarrow> nat \<Rightarrow> 't" where
  "time_at q i = fst (timer_heap q ! i)"

function up_heap :: "nat \<Rightarrow> ('t::linorder) timer_queue \<Rightarrow> 't timer_queue" where
  "up_heap index q =
     (if index > 0
      then let parent = (index - 1) div 2 in
        if \<not> time_at q index < time_at q parent then q
        else up_heap parent (swap_heap index parent q)
      else q)"
  by pat_completeness auto
termination by (relation "measure fst") auto

definition min_child :: "nat \<Rightarrow> ('t::linorder) timer_queue \<Rightarrow> nat" where
  "min_child child q =
     (if child + 1 = length (timer_heap q) \<or> time_at q child < time_at q (child + 1) then child else child + 1)"

lemma length_swap_heap [simp]: "length (timer_heap (swap_heap i j q)) = length (timer_heap q)"
  by (simp add: swap_heap_def upd_timer_def Let_def)

function down_heap :: "nat \<Rightarrow> ('t::linorder) timer_queue \<Rightarrow> 't timer_queue" where
  "down_heap index q =
     (let child = index * 2 + 1 in
      if child < length (timer_heap q)
      then let m = min_child child q in
        if time_at q index < time_at q m then q
        else down_heap m (swap_heap index m q)
      else q)"
  by pat_completeness auto
termination
  by (relation "measure (\<lambda>(i, q). length (timer_heap q) - i)") (auto simp: min_child_def)

declare up_heap.simps [simp del] down_heap.simps [simp del]

section \<open>Timers\<close>

text \<open>Removing a timer from the heap, and from the list of active timers.\<close>

definition pop_back_heap :: "'t timer_queue \<Rightarrow> 't timer_queue" where
  "pop_back_heap q = q\<lparr>timer_heap := butlast (timer_heap q)\<rparr>"

definition remove_from_heap :: "timer \<Rightarrow> ('t::linorder) timer_queue \<Rightarrow> 't timer_queue" where
  "remove_from_heap t q =
     (let index = heap_index (timer_data q t); n = length (timer_heap q) in
      if timer_heap q \<noteq> [] \<and> index < n
      then if index = n - 1
        then pop_back_heap (upd_timer t (\<lambda>d. d\<lparr>heap_index := SIZE_T_MAX\<rparr>) q)
        else
          let q = swap_heap index (n - 1) q;
              q = upd_timer t (\<lambda>d. d\<lparr>heap_index := SIZE_T_MAX\<rparr>) q;
              q = pop_back_heap q
          in if index > 0 \<and> time_at q index < time_at q ((index - 1) div 2) then up_heap index q
             else down_heap index q
      else q)"

definition unlink_timer :: "timer \<Rightarrow> 't timer_queue \<Rightarrow> 't timer_queue" where
  "unlink_timer t q =
     (let q = (if timers q = Some t then q\<lparr>timers := timer_next (timer_data q t)\<rparr> else q);
          q = upd_opt (timer_prev (timer_data q t)) (\<lambda>d. d\<lparr>timer_next := timer_next (timer_data q t)\<rparr>) q;
          q = upd_opt (timer_next (timer_data q t)) (\<lambda>d. d\<lparr>timer_prev := timer_prev (timer_data q t)\<rparr>) q
      in upd_timer t (\<lambda>d. d\<lparr>timer_next := None, timer_prev := None\<rparr>) q)"

definition remove_timer :: "timer \<Rightarrow> ('t::linorder) timer_queue \<Rightarrow> 't timer_queue" where
  "remove_timer t q = unlink_timer t (remove_from_heap t q)"

definition is_active :: "timer \<Rightarrow> 't timer_queue \<Rightarrow> bool" where
  "is_active t q \<longleftrightarrow> timer_prev (timer_data q t) \<noteq> None \<or> timers q = Some t"

text \<open>
  \<open>enqueue_timer\<close> enters a timer that is not active, then queues the operation. The result tells
  whether the operation is the first one of the earliest timer.
\<close>

definition link_timer :: "timer \<Rightarrow> 't timer_queue \<Rightarrow> 't timer_queue" where
  "link_timer t q =
     (let q = upd_timer t (\<lambda>d. d\<lparr>timer_next := timers q, timer_prev := None\<rparr>) q;
          q = upd_opt (timers q) (\<lambda>d. d\<lparr>timer_prev := Some t\<rparr>) q
      in q\<lparr>timers := Some t\<rparr>)"

definition enter_heap :: "('t \<Rightarrow> bool) \<Rightarrow> ('t::linorder) \<Rightarrow> timer \<Rightarrow> 't timer_queue \<Rightarrow> 't timer_queue" where
  "enter_heap is_inf time t q =
     (if is_inf time then upd_timer t (\<lambda>d. d\<lparr>heap_index := SIZE_T_MAX\<rparr>) q
      else
        let q = upd_timer t (\<lambda>d. d\<lparr>heap_index := length (timer_heap q)\<rparr>) q;
            q = q\<lparr>timer_heap := timer_heap q @ [(time, t)]\<rparr>
        in up_heap (length (timer_heap q) - 1) q)"

definition enqueue_timer :: "('t \<Rightarrow> bool) \<Rightarrow> ('t::linorder) \<Rightarrow> timer \<Rightarrow> wait_op \<Rightarrow> 't timer_queue \<Rightarrow>
    bool \<times> 't timer_queue" where
  "enqueue_timer is_inf time t w q =
     (let q = (if \<not> is_active t q then link_timer t (enter_heap is_inf time t q) else q);
          q = upd_timer t (\<lambda>d. d\<lparr>timer_ops := timer_ops d @ [w]\<rparr>) q
      in (heap_index (timer_data q t) = 0 \<and> hd (timer_ops (timer_data q t)) = w, q))"

definition timer_queue_empty :: "'t timer_queue \<Rightarrow> bool" where
  "timer_queue_empty q \<longleftrightarrow> timers q = None"

text \<open>
  Waiting times: the distance from \<open>now\<close> to the earliest time, as ticks and as whole milli- or
  microseconds, at least 1 if any ticks are left and at most the maximum.
\<close>

definition to_msec :: "int \<times> int \<Rightarrow> int \<Rightarrow> int" where
  "to_msec d max_duration =
     (let (ticks, msec) = d in
      if ticks \<le> 0 then 0 else if msec = 0 then 1 else if msec > max_duration then max_duration else msec)"

definition wait_duration :: "('t \<Rightarrow> 't \<Rightarrow> int \<times> int) \<Rightarrow> 't \<Rightarrow> int \<Rightarrow> 't timer_queue \<Rightarrow> int" where
  "wait_duration subtract now max_duration q =
     (if timer_heap q = [] then max_duration
      else to_msec (subtract (time_at q 0) now) max_duration)"

text \<open>
  \<open>get_ready_timers\<close>: the loop ends when the heap is empty or its earliest time is later than \<open>now\<close>.
  That every round removes an entry is proved below, so the loop is a partial function here.
\<close>

partial_function (option) get_ready_loop :: "('t::linorder) \<Rightarrow> completed_ops \<Rightarrow> 't timer_queue \<Rightarrow>
    (completed_ops \<times> 't timer_queue) option" where
  "get_ready_loop now ops q =
     (if timer_heap q \<noteq> [] \<and> \<not> now < time_at q 0
      then
        let t = snd (timer_heap q ! 0);
            ops = ops @ map (\<lambda>w. (w, TimerExpired)) (timer_ops (timer_data q t));
            q = upd_timer t (\<lambda>d. d\<lparr>timer_ops := []\<rparr>) q
        in get_ready_loop now ops (remove_timer t q)
      else Some (ops, q))"

definition get_ready_timers :: "('t::linorder) \<Rightarrow> completed_ops \<Rightarrow> 't timer_queue \<Rightarrow>
    (completed_ops \<times> 't timer_queue) option" where
  "get_ready_timers now ops q = (if timer_heap q \<noteq> [] then get_ready_loop now ops q else Some (ops, q))"

text \<open>\<open>get_all_timers\<close> hands over the operations as they are and leaves the heap indices alone.\<close>

partial_function (option) get_all_loop :: "wait_op list \<Rightarrow> 't timer_queue \<Rightarrow> (wait_op list \<times> 't timer_queue) option" where
  "get_all_loop ops q =
     (case timers q of
        None \<Rightarrow> Some (ops, q)
      | Some t \<Rightarrow>
          let d = timer_data q t; q = q\<lparr>timers := timer_next d\<rparr>
          in get_all_loop (ops @ timer_ops d)
            (upd_timer t (\<lambda>d. d\<lparr>timer_ops := [], timer_next := None, timer_prev := None\<rparr>) q))"

definition get_all_timers :: "wait_op list \<Rightarrow> 't timer_queue \<Rightarrow> (wait_op list \<times> 't timer_queue) option" where
  "get_all_timers ops q = Option.bind (get_all_loop ops q) (\<lambda>(ops, q). Some (ops, q\<lparr>timer_heap := []\<rparr>))"

definition cancel_timer :: "timer \<Rightarrow> completed_ops \<Rightarrow> nat \<Rightarrow> ('t::linorder) timer_queue \<Rightarrow>
    nat \<times> completed_ops \<times> 't timer_queue" where
  "cancel_timer t ops max_cancelled q =
     (if is_active t q
      then
        let ws = timer_ops (timer_data q t); n = min max_cancelled (length ws);
            ops = ops @ map (\<lambda>w. (w, OperationAborted)) (take n ws);
            q = upd_timer t (\<lambda>d. d\<lparr>timer_ops := drop n ws\<rparr>) q
        in (n, ops, if timer_ops (timer_data q t) = [] then remove_timer t q else q)
      else (0, ops, q))"

definition cancel_timer_by_key :: "timer \<Rightarrow> completed_ops \<Rightarrow> nat \<Rightarrow> ('t::linorder) timer_queue \<Rightarrow>
    completed_ops \<times> 't timer_queue" where
  "cancel_timer_by_key t ops key q =
     (if is_active t q
      then
        let ws = timer_ops (timer_data q t);
            ops = ops @ map (\<lambda>w. (w, OperationAborted)) (filter (\<lambda>w. cancellation_key w = key) ws);
            q = upd_timer t (\<lambda>d. d\<lparr>timer_ops := filter (\<lambda>w. cancellation_key w \<noteq> key) ws\<rparr>) q
        in (ops, if timer_ops (timer_data q t) = [] then remove_timer t q else q)
      else (ops, q))"

text \<open>\<open>move_timer\<close>: the operations and the heap entry first, then the place in the list.\<close>

definition move_entry :: "timer \<Rightarrow> timer \<Rightarrow> 't timer_queue \<Rightarrow> 't timer_queue" where
  "move_entry target source q =
     (let s = timer_data q source;
          q = upd_timer target (\<lambda>d. d\<lparr>timer_ops := timer_ops d @ timer_ops s, heap_index := heap_index s\<rparr>) q;
          q = upd_timer source (\<lambda>d. d\<lparr>timer_ops := [], heap_index := SIZE_T_MAX\<rparr>) q;
          i = heap_index (timer_data q target)
      in if i < length (timer_heap q) then q\<lparr>timer_heap := (timer_heap q)[i := (time_at q i, target)]\<rparr> else q)"

definition move_links :: "timer \<Rightarrow> timer \<Rightarrow> 't timer_queue \<Rightarrow> 't timer_queue" where
  "move_links target source q =
     (let q = (if timers q = Some source then q\<lparr>timers := Some target\<rparr> else q);
          q = upd_opt (timer_prev (timer_data q source)) (\<lambda>d. d\<lparr>timer_next := Some target\<rparr>) q;
          q = upd_opt (timer_next (timer_data q source)) (\<lambda>d. d\<lparr>timer_prev := Some target\<rparr>) q;
          q = upd_timer target (\<lambda>d. d\<lparr>timer_next := timer_next (timer_data q source),
                timer_prev := timer_prev (timer_data q source)\<rparr>) q
      in upd_timer source (\<lambda>d. d\<lparr>timer_next := None, timer_prev := None\<rparr>) q)"

definition move_timer :: "timer \<Rightarrow> timer \<Rightarrow> 't timer_queue \<Rightarrow> 't timer_queue" where
  "move_timer target source q = move_links target source (move_entry target source q)"

section \<open>Order of the heap\<close>

abbreviation heap_parent :: "nat \<Rightarrow> nat" where "heap_parent i \<equiv> (i - 1) div 2"

abbreviation heap_size :: "'t timer_queue \<Rightarrow> nat" where "heap_size q \<equiv> length (timer_heap q)"

definition heap_ordered :: "('t::linorder) timer_queue \<Rightarrow> bool" where
  "heap_ordered q \<longleftrightarrow> (\<forall>j < heap_size q. 0 < j \<longrightarrow> time_at q (heap_parent j) \<le> time_at q j)"

text \<open>Ordered but for the entry \<open>i\<close> against its parent, or against its children.\<close>

definition up_ordered :: "nat \<Rightarrow> ('t::linorder) timer_queue \<Rightarrow> bool" where
  "up_ordered i q \<longleftrightarrow>
     (\<forall>j < heap_size q. 0 < j \<longrightarrow> j \<noteq> i \<longrightarrow> time_at q (heap_parent j) \<le> time_at q j) \<and>
     (\<forall>j < heap_size q. 0 < j \<longrightarrow> heap_parent j = i \<longrightarrow> 0 < i \<longrightarrow> time_at q (heap_parent i) \<le> time_at q j)"

definition down_ordered :: "nat \<Rightarrow> ('t::linorder) timer_queue \<Rightarrow> bool" where
  "down_ordered i q \<longleftrightarrow>
     (\<forall>j < heap_size q. 0 < j \<longrightarrow> heap_parent j \<noteq> i \<longrightarrow> time_at q (heap_parent j) \<le> time_at q j) \<and>
     (\<forall>j < heap_size q. 0 < j \<longrightarrow> heap_parent j = i \<longrightarrow> 0 < i \<longrightarrow> time_at q (heap_parent i) \<le> time_at q j)"

definition index_ok :: "'t timer_queue \<Rightarrow> bool" where
  "index_ok q \<longleftrightarrow> (\<forall>i < heap_size q. heap_index (timer_data q (snd (timer_heap q ! i))) = i)"

text \<open>What moving entries in the heap leaves alone.\<close>

definition same_timers :: "'t timer_queue \<Rightarrow> 't timer_queue \<Rightarrow> bool" where
  "same_timers q q' \<longleftrightarrow> timers q' = timers q \<and>
     (\<forall>t. timer_ops (timer_data q' t) = timer_ops (timer_data q t) \<and>
          timer_next (timer_data q' t) = timer_next (timer_data q t) \<and>
          timer_prev (timer_data q' t) = timer_prev (timer_data q t) \<and>
          (t \<notin> snd ` set (timer_heap q) \<longrightarrow> heap_index (timer_data q' t) = heap_index (timer_data q t)))"

lemma same_timers_refl [simp]: "same_timers q q"
  by (simp add: same_timers_def)

lemma heap_parent_less: "0 < j \<Longrightarrow> heap_parent j < (j :: nat)"
  by auto

lemma index_ok_distinct:
  assumes "index_ok q" "i < heap_size q" "j < heap_size q" "snd (timer_heap q ! i) = snd (timer_heap q ! j)"
  shows "i = j"
  using assms by (metis index_ok_def)

lemma timer_heap_swap: "timer_heap (swap_heap i j q) = (timer_heap q)[i := timer_heap q ! j, j := timer_heap q ! i]"
  by (simp add: swap_heap_def upd_timer_def Let_def)

lemma time_at_swap:
  assumes "i < heap_size q" "j < heap_size q"
  shows "time_at (swap_heap i j q) k = (if k = i then time_at q j else if k = j then time_at q i else time_at q k)"
  using assms by (auto simp: time_at_def timer_heap_swap nth_list_update)

lemma mset_swap:
  assumes "i < heap_size q" "j < heap_size q"
  shows "mset (timer_heap (swap_heap i j q)) = mset (timer_heap q)"
  using assms by (simp add: timer_heap_swap mset_swap)

lemma swap_data:
  assumes "i < heap_size q" "j < heap_size q"
  shows "timer_data (swap_heap i j q) = (timer_data q)
    (snd (timer_heap q ! j) := (timer_data q (snd (timer_heap q ! j)))\<lparr>heap_index := i\<rparr>,
     snd (timer_heap q ! i) := (if i = j \<or> snd (timer_heap q ! i) = snd (timer_heap q ! j)
       then (timer_data q (snd (timer_heap q ! j)))\<lparr>heap_index := j\<rparr>
       else (timer_data q (snd (timer_heap q ! i)))\<lparr>heap_index := j\<rparr>))"
  using assms by (auto simp: swap_heap_def upd_timer_def Let_def nth_list_update fun_eq_iff)

lemma swap_index_ok:
  assumes "i < heap_size q" "j < heap_size q" "index_ok q"
  shows "index_ok (swap_heap i j q)"
  unfolding index_ok_def
proof (intro allI impI)
  fix k assume k: "k < heap_size (swap_heap i j q)"
  then have k': "k < heap_size q" by simp
  have d: "snd (timer_heap q ! a) = snd (timer_heap q ! b) \<longleftrightarrow> a = b" if "a < heap_size q" "b < heap_size q" for a b
    using index_ok_distinct [OF assms(3) that] by auto
  have h: "timer_heap (swap_heap i j q) ! k = timer_heap q ! (if k = j then i else if k = i then j else k)"
    using assms(1,2) k' by (auto simp: timer_heap_swap nth_list_update)
  show "heap_index (timer_data (swap_heap i j q) (snd (timer_heap (swap_heap i j q) ! k))) = k"
    using assms k' d unfolding h swap_data [OF assms(1,2)] by (auto simp: index_ok_def)
qed

lemma swap_same_timers:
  assumes "i < heap_size q" "j < heap_size q"
  shows "same_timers q (swap_heap i j q)"
proof -
  have "timers (swap_heap i j q) = timers q" by (simp add: swap_heap_def upd_timer_def Let_def)
  moreover have "snd (timer_heap q ! i) \<in> snd ` set (timer_heap q)" "snd (timer_heap q ! j) \<in> snd ` set (timer_heap q)"
    using assms by simp_all
  ultimately show ?thesis using assms unfolding same_timers_def swap_data [OF assms] by auto
qed

lemma same_timers_trans:
  assumes "same_timers q q'" "same_timers q' q''" "mset (timer_heap q') = mset (timer_heap q)"
  shows "same_timers q q''"
  using assms mset_eq_setD [OF assms(3)] by (simp add: same_timers_def)

lemma up_heap_correct:
  assumes "index_ok q" "up_ordered i q" "i < heap_size q"
  shows "heap_ordered (up_heap i q) \<and> index_ok (up_heap i q) \<and>
    mset (timer_heap (up_heap i q)) = mset (timer_heap q) \<and> same_timers q (up_heap i q)"
  using assms
proof (induction i q rule: up_heap.induct)
  case (1 i q)
  let ?p = "heap_parent i"
  show ?case
  proof (cases "0 < i \<and> time_at q i < time_at q ?p")
    case False
    then have "up_heap i q = q" by (subst up_heap.simps) auto
    moreover have "heap_ordered q" unfolding heap_ordered_def
      using 1(3) False by (metis linorder_not_less up_ordered_def)
    ultimately show ?thesis using 1(2) by simp
  next
    case True
    let ?q = "swap_heap i ?p q"
    have p: "?p < i" "?p < heap_size q" using True 1(4) by auto
    note t = time_at_swap [OF 1(4) p(2)]
    have lt: "time_at q i < time_at q ?p" using True by simp
    have o: "\<And>j. j < heap_size q \<Longrightarrow> 0 < j \<Longrightarrow> j \<noteq> i \<Longrightarrow> time_at q (heap_parent j) \<le> time_at q j"
      and g: "\<And>j. j < heap_size q \<Longrightarrow> 0 < j \<Longrightarrow> heap_parent j = i \<Longrightarrow> time_at q ?p \<le> time_at q j"
      using 1(3) True unfolding up_ordered_def by blast+
    have up: "up_ordered ?p ?q" unfolding up_ordered_def
    proof (intro conjI allI impI)
      fix j assume j: "j < heap_size ?q" "0 < j" "j \<noteq> ?p"
      then have j': "j < heap_size q" by simp
      have jn: "heap_parent i \<noteq> i" "heap_parent j = i \<Longrightarrow> j \<noteq> i" using p(1) heap_parent_less [OF j(2)] by linarith+
      consider "j = i" | "j \<noteq> i" "heap_parent j = i" | "j \<noteq> i" "heap_parent j \<noteq> i" "heap_parent j = ?p"
        | "j \<noteq> i" "heap_parent j \<noteq> i" "heap_parent j \<noteq> ?p" by metis
      then show "time_at ?q (heap_parent j) \<le> time_at ?q j"
      proof cases
        case 1
        then show ?thesis unfolding t using lt jn(1) by (simp only: if_True if_False refl less_imp_le)
      next
        case 2
        then show ?thesis unfolding t using g [OF j' j(2)] j(3) by (simp only: if_True if_False refl)
      next
        case 3
        then show ?thesis unfolding t using order_trans [OF less_imp_le [OF lt] o [OF j' j(2) 3(1), unfolded 3(3)]] 3 jn(1) j(3)
            by (simp only: if_True if_False refl)
      next
        case 4
        then show ?thesis unfolding t using o [OF j' j(2) 4(1)] 4 j(3) by (simp only: if_True if_False refl)
      qed
    next
      fix j assume j: "j < heap_size ?q" "0 < j" "heap_parent j = ?p" "0 < ?p"
      then have j': "j < heap_size q" by simp
      have n: "heap_parent ?p \<noteq> i" "heap_parent ?p \<noteq> ?p" "j \<noteq> ?p"
        using heap_parent_less [OF j(4)] p(1) heap_parent_less [OF j(2)] j(3) by linarith+
      have op: "time_at q (heap_parent ?p) \<le> time_at q ?p" using p(1) by (intro o p(2) j(4)) (rule less_imp_neq)
      then have "time_at q (heap_parent ?p) \<le> (if j = i then time_at q ?p else time_at q j)"
        using order_trans [OF op o [OF j' j(2), unfolded j(3)]] by (simp only: split: if_split) blast
      then show "time_at ?q (heap_parent ?p) \<le> time_at ?q j" unfolding t by (simp only: n if_False)
    qed
    moreover have "up_heap i q = up_heap ?p ?q" 
      using True by (simp only: up_heap.simps [of i q] Let_def simp_thms if_True if_False)
    moreover have ix: "index_ok ?q" "?p < heap_size ?q" using swap_index_ok [OF 1(4) p(2) 1(2)] p(2) by simp_all
    moreover have "mset (timer_heap ?q) = mset (timer_heap q)" "same_timers q ?q"
      using mset_swap [OF 1(4) p(2)] swap_same_timers [OF 1(4) p(2)] .
    moreover have "heap_ordered (up_heap ?p ?q) \<and> index_ok (up_heap ?p ?q) \<and>
      mset (timer_heap (up_heap ?p ?q)) = mset (timer_heap ?q) \<and> same_timers ?q (up_heap ?p ?q)"
      using True by (intro 1(1) [OF _ refl] ix up) simp_all
    ultimately show ?thesis using same_timers_trans by metis
  qed
qed

lemma heap_children: "0 < j \<Longrightarrow> heap_parent j = i \<longleftrightarrow> j = i * 2 + 1 \<or> j = i * 2 + 2"
  by auto

lemma min_child_correct:
  assumes "child < heap_size q" "child = i * 2 + 1"
  shows "min_child child q < heap_size q \<and> heap_parent (min_child child q) = i \<and> i < min_child child q \<and>
    (\<forall>j < heap_size q. 0 < j \<longrightarrow> heap_parent j = i \<longrightarrow> time_at q (min_child child q) \<le> time_at q j)"
proof -
  have "time_at q (min_child child q) \<le> time_at q j" if "j < heap_size q" "j = i * 2 + 1 \<or> j = i * 2 + 2" for j
    using that assms by (auto simp: min_child_def)
  then have c: "time_at q (min_child child q) \<le> time_at q j" if "j < heap_size q" "0 < j" "heap_parent j = i" for j
    using heap_children that by blast
  have m: "min_child child q < heap_size q" "min_child child q = i * 2 + 1 \<or> min_child child q = i * 2 + 2"
    using assms by (auto simp: min_child_def)
  then have "0 < min_child child q" "i < min_child child q" by linarith+
  then show ?thesis using c m heap_children by blast
qed

lemma down_heap_correct:
  assumes "index_ok q" "down_ordered i q" "i < heap_size q"
  shows "heap_ordered (down_heap i q) \<and> index_ok (down_heap i q) \<and>
    mset (timer_heap (down_heap i q)) = mset (timer_heap q) \<and> same_timers q (down_heap i q)"
  using assms
proof (induction i q rule: down_heap.induct)
  case (1 i q)
  let ?m = "min_child (i * 2 + 1) q"
  show ?case
  proof (cases "i * 2 + 1 < heap_size q \<and> \<not> time_at q i < time_at q ?m")
    case False
    then have e: "down_heap i q = q" by (subst down_heap.simps) (auto simp: Let_def)
    have "time_at q (heap_parent j) \<le> time_at q j" if j: "j < heap_size q" "0 < j" for j
    proof (cases "heap_parent j = i")
      case True
      then have c: "i * 2 + 1 < heap_size q" using j heap_children [OF j(2), of i] by linarith
      then have "time_at q i < time_at q ?m" using False by blast
      moreover have "time_at q ?m \<le> time_at q j" using min_child_correct [OF c refl] j True by blast
      ultimately show ?thesis unfolding True by (rule less_imp_le [OF less_le_trans])
    next
      case False
      then show ?thesis using 1(3) j unfolding down_ordered_def by blast
    qed
    then show ?thesis using 1(2) e by (simp add: heap_ordered_def)
  next
    case True
    let ?q = "swap_heap i ?m q"
    have m: "?m < heap_size q" "heap_parent ?m = i" "i < ?m"
      "\<And>j. j < heap_size q \<Longrightarrow> 0 < j \<Longrightarrow> heap_parent j = i \<Longrightarrow> time_at q ?m \<le> time_at q j"
      using min_child_correct [OF _ refl, of i q] True by blast+
    note t = time_at_swap [OF 1(4) m(1)]
    have le: "time_at q ?m \<le> time_at q i" using True by (simp add: not_less)
    have o: "\<And>j. j < heap_size q \<Longrightarrow> 0 < j \<Longrightarrow> heap_parent j \<noteq> i \<Longrightarrow> time_at q (heap_parent j) \<le> time_at q j"
      and g: "\<And>j. j < heap_size q \<Longrightarrow> 0 < j \<Longrightarrow> heap_parent j = i \<Longrightarrow> 0 < i \<Longrightarrow> time_at q (heap_parent i) \<le> time_at q j"
      using 1(3) unfolding down_ordered_def by blast+
    have dn: "down_ordered ?m ?q" unfolding down_ordered_def
    proof (intro conjI allI impI)
      fix j assume j: "j < heap_size ?q" "0 < j" "heap_parent j \<noteq> ?m"
      then have j': "j < heap_size q" by simp
      have pj: "heap_parent j < j" using heap_parent_less j(2) .
      consider "j = ?m" | "j \<noteq> ?m" "heap_parent j = i" | "j = i" "j \<noteq> ?m" "heap_parent j \<noteq> i"
        | "j \<noteq> ?m" "j \<noteq> i" "heap_parent j \<noteq> i" by metis
      then show "time_at ?q (heap_parent j) \<le> time_at ?q j"
      proof cases
        case 1
        have "?m \<noteq> i" using m(3) by simp
        then show ?thesis unfolding t 1 m(2) using le by (simp only: if_True if_False refl)
      next
        case 2
        have "j \<noteq> i" using pj 2(2) by linarith
        then show ?thesis unfolding t 2(2) using m(4) [OF j' j(2) 2(2)] 2(1) by (simp only: if_True if_False refl)
      next
        case 3
        have "0 < i" using j(2) 3(1) by simp
        from g [OF m(1) _ m(2) this] m(3) have "time_at q (heap_parent i) \<le> time_at q ?m" by linarith
        then show ?thesis unfolding t using 3 j(3) by (simp only: if_True if_False refl)
      next
        case 4
        then show ?thesis unfolding t using o [OF j' j(2)] j(3) by (simp only: if_True if_False refl simp_thms)
      qed
    next
      fix j assume j: "j < heap_size ?q" "0 < j" "heap_parent j = ?m" "0 < ?m"
      have n: "j \<noteq> i" "j \<noteq> ?m" "heap_parent j \<noteq> i" using heap_parent_less [OF j(2)] j(3) m(3) by linarith+
      have "time_at q ?m \<le> time_at q j" using o [OF _ j(2) n(3)] j(1,3) by simp
      then show "time_at ?q (heap_parent ?m) \<le> time_at ?q j" unfolding t m(2) using n by (simp only: if_True if_False refl)
    qed
    have e: "down_heap i q = down_heap ?m ?q" using True by (subst down_heap.simps) (simp only: Let_def simp_thms if_True if_False)
    have ix: "index_ok ?q" "?m < heap_size ?q" using swap_index_ok [OF 1(4) m(1) 1(2)] m(1) by simp_all
    have "heap_ordered (down_heap ?m ?q) \<and> index_ok (down_heap ?m ?q) \<and>
      mset (timer_heap (down_heap ?m ?q)) = mset (timer_heap ?q) \<and> same_timers ?q (down_heap ?m ?q)"
      using True by (intro 1(1) [OF refl _ refl] ix dn) simp_all
    then show ?thesis using e same_timers_trans mset_swap [OF 1(4) m(1)] swap_same_timers [OF 1(4) m(1)] by metis
  qed
qed

lemma same_timers_trans':
  "same_timers q q' \<Longrightarrow> same_timers q' q'' \<Longrightarrow> set (timer_heap q') \<subseteq> set (timer_heap q) \<Longrightarrow> same_timers q q''"
  unfolding same_timers_def by (metis image_mono subsetD)

text \<open>Taking the last entry off the vector, and its timer's index.\<close>

definition drop_last :: "timer \<Rightarrow> 't timer_queue \<Rightarrow> 't timer_queue" where
  "drop_last t q = pop_back_heap (upd_timer t (\<lambda>d. d\<lparr>heap_index := SIZE_T_MAX\<rparr>) q)"

lemma drop_last_simps [simp]:
  "timer_heap (drop_last t q) = butlast (timer_heap q)" "timers (drop_last t q) = timers q"
  "timer_data (drop_last t q) = (timer_data q)(t := (timer_data q t)\<lparr>heap_index := SIZE_T_MAX\<rparr>)"
  "k < heap_size q - 1 \<Longrightarrow> time_at (drop_last t q) k = time_at q k"
  by (simp_all add: drop_last_def pop_back_heap_def upd_timer_def time_at_def nth_butlast)

lemma drop_last_index_ok:
  assumes "index_ok q" "timer_heap q \<noteq> []" "snd (last (timer_heap q)) = t"
  shows "index_ok (drop_last t q)"
proof -
  have "snd (timer_heap q ! k) \<noteq> t" if "k < heap_size q - 1" for k
    using index_ok_distinct [OF assms(1), of k "heap_size q - 1"] that assms(2,3) by (auto simp: last_conv_nth)
  then show ?thesis using assms(1) by (auto simp: index_ok_def nth_butlast)
qed

lemma mset_butlast: "xs \<noteq> [] \<Longrightarrow> mset (butlast xs) = mset xs - {#last xs#}"
  by (metis add_diff_cancel_right' append_butlast_last_id mset.simps union_code)

lemma heap_ordered_at: "heap_ordered q \<Longrightarrow> j < heap_size q \<Longrightarrow> 0 < j \<Longrightarrow> time_at q (heap_parent j) \<le> time_at q j"
  by (simp add: heap_ordered_def)

lemma remove_from_heap_cases:
  assumes "heap_index (timer_data q t) = i" "i < heap_size q"
  shows "remove_from_heap t q = (if i = heap_size q - 1 then drop_last t q
    else let q' = drop_last t (swap_heap i (heap_size q - 1) q) in
      if i > 0 \<and> time_at q' i < time_at q' (heap_parent i) then up_heap i q' else down_heap i q')"
proof -
  have "timer_heap q \<noteq> [] \<and> i < heap_size q" using assms(2) by auto
  then show ?thesis
    unfolding remove_from_heap_def assms(1) Let_def by (simp only: drop_last_def if_True simp_thms)
qed

lemma remove_from_heap_correct:
  assumes ix: "index_ok q" and ord: "heap_ordered q" and i: "heap_index (timer_data q t) = i" "i < heap_size q"
    and t: "snd (timer_heap q ! i) = t"
  shows "heap_ordered (remove_from_heap t q) \<and> index_ok (remove_from_heap t q) \<and>
    mset (timer_heap (remove_from_heap t q)) = mset (timer_heap q) - {#timer_heap q ! i#} \<and>
    same_timers q (remove_from_heap t q) \<and> heap_index (timer_data (remove_from_heap t q) t) = SIZE_T_MAX"
proof -
  let ?n = "heap_size q - 1"
  have ne: "timer_heap q \<noteq> []" "?n < heap_size q" using i(2) by auto
  have tin: "t \<in> snd ` set (timer_heap q)" using i(2) t by (metis image_eqI nth_mem)
  show ?thesis
  proof (cases "i = ?n")
    case True
    have l: "last (timer_heap q) = timer_heap q ! i" using ne True by (simp add: last_conv_nth)
    have r: "remove_from_heap t q = drop_last t q" using remove_from_heap_cases [OF i] True by simp
    have "heap_ordered (drop_last t q)" unfolding heap_ordered_def
    proof (intro allI impI)
      fix j assume j: "j < heap_size (drop_last t q)" "0 < j"
      have "heap_parent j < ?n" "j < ?n" using j heap_parent_less [OF j(2)] by simp_all
      then show "time_at (drop_last t q) (heap_parent j) \<le> time_at (drop_last t q) j"
        using heap_ordered_at [OF ord _ j(2)] by (simp only: drop_last_simps)
    qed
    moreover have "index_ok (drop_last t q)" using drop_last_index_ok [OF ix ne(1)] t l by simp
    moreover have "same_timers q (drop_last t q)" using tin by (simp add: same_timers_def)
    ultimately show ?thesis unfolding r using mset_butlast [OF ne(1)] l by simp
  next
    case False
    then have i': "i < ?n" using i(2) by simp
    let ?s = "swap_heap i ?n q"
    let ?q = "drop_last t ?s"
    note ts = time_at_swap [OF i(2) ne(2)]
    have hs: "timer_heap ?s \<noteq> []" "heap_size ?s = heap_size q" using ne by (auto simp: timer_heap_swap)
    have last: "last (timer_heap ?s) = timer_heap q ! i"
      using hs ne i(2) False by (simp add: last_conv_nth timer_heap_swap nth_list_update)
    have tm: "time_at ?q k = (if k = i then time_at q ?n else time_at q k)" if "k < ?n" for k
    proof -
      have "time_at ?q k = time_at ?s k" using that hs(2) by simp
      then show ?thesis unfolding ts using that by simp
    qed
    have ixq: "index_ok ?q" using drop_last_index_ok [OF swap_index_ok [OF i(2) ne(2) ix] hs(1)] last t by simp
    have sm: "same_timers q ?s" "mset (timer_heap ?s) = mset (timer_heap q)"
      using swap_same_timers [OF i(2) ne(2)] TimerQueue.mset_swap [OF i(2) ne(2)] .
    have sq: "same_timers q ?q" using sm(1) tin by (auto simp: same_timers_def)
    have mq: "mset (timer_heap ?q) = mset (timer_heap q) - {#timer_heap q ! i#}"
      using mset_butlast [OF hs(1)] last sm(2) by simp
    have sz: "heap_size ?q = ?n" using hs(2) by simp
    have hq: "heap_index (timer_data ?q t) = SIZE_T_MAX" "t \<notin> snd ` set (timer_heap ?q)"
    proof -
      show "t \<notin> snd ` set (timer_heap ?q)"
      proof
        assume "t \<in> snd ` set (timer_heap ?q)"
        then obtain k where k: "k < ?n" "snd (timer_heap ?q ! k) = t" by (auto simp: in_set_conv_nth sz)
        let ?k = "if k = i then ?n else k"
        have "timer_heap ?q ! k = timer_heap q ! ?k"
          using k(1) i(2) by (auto simp: timer_heap_swap nth_butlast nth_list_update)
        moreover have "?k < heap_size q" using k(1) ne(2) by simp
        ultimately have "?k = i" using index_ok_distinct [OF ix _ i(2), of ?k] k(2) t by metis
        then show False using False by (auto split: if_splits)
      qed
    qed simp
    have "set (timer_heap ?q) \<subseteq> set (timer_heap q)"
      using mq by (metis in_diffD set_mset_mset subsetI)
    then have fin: "same_timers q r \<and> heap_index (timer_data r t) = SIZE_T_MAX" if "same_timers ?q r" for r
      using same_timers_trans' [OF sq that] hq that unfolding same_timers_def by metis
    have iq: "i < heap_size ?q" using i' sz by simp
    have oth: "time_at ?q (heap_parent j) \<le> time_at ?q j" if j: "j < ?n" "0 < j" "j \<noteq> i" "heap_parent j \<noteq> i" for j
    proof -
      have "heap_parent j < ?n" "j < heap_size q" using j(1) heap_parent_less [OF j(2)] by simp_all
      then show ?thesis using tm [OF \<open>heap_parent j < ?n\<close>] tm [OF j(1)] heap_ordered_at [OF ord _ j(2)] j(3,4)
        by (simp only: if_False)
    qed
    have grand: "time_at ?q (heap_parent i) \<le> time_at ?q j \<and> time_at q i \<le> time_at q j \<and> time_at q (heap_parent i) \<le> time_at q i"
      if j: "j < ?n" "0 < j" "heap_parent j = i" "0 < i" for j
    proof -
      have n: "j \<noteq> i" "heap_parent i \<noteq> i" "heap_parent i < ?n" "j < heap_size q"
        using heap_parent_less [OF j(2)] heap_parent_less [OF j(4)] j(1,3) by linarith+
      have a: "time_at q i \<le> time_at q j" "time_at q (heap_parent i) \<le> time_at q i"
        using heap_ordered_at [OF ord n(4) j(2)] heap_ordered_at [OF ord i(2) j(4)] j(3) by simp_all
      show ?thesis using a order_trans [OF a(2,1)] tm [OF n(3)] tm [OF j(1)] n(1,2) by (simp only: if_False simp_thms)
    qed
    show ?thesis
    proof (cases "i > 0 \<and> time_at ?q i < time_at ?q (heap_parent i)")
      case True
      have r: "remove_from_heap t q = up_heap i ?q" using remove_from_heap_cases [OF i] False True by (simp only: Let_def if_False if_True simp_thms)
      have "up_ordered i ?q" unfolding up_ordered_def sz
      proof (intro conjI allI impI)
        fix j assume j: "j < ?n" "0 < j" "j \<noteq> i"
        show "time_at ?q (heap_parent j) \<le> time_at ?q j"
        proof (cases "heap_parent j = i")
          case c: True
          have "time_at ?q i < time_at ?q (heap_parent i)" "time_at ?q (heap_parent i) \<le> time_at ?q j"
            using grand [OF j(1,2) c] True by blast+
          then show ?thesis unfolding c by (rule less_imp_le [OF less_le_trans])
        next
          case c: False
          then show ?thesis using oth j by blast
        qed
      qed (use grand in blast)
      then show ?thesis unfolding r using up_heap_correct [OF ixq _ iq] mq fin by metis
    next
      case c: False
      have r: "remove_from_heap t q = down_heap i ?q" using remove_from_heap_cases [OF i] False c by (simp only: Let_def if_False simp_thms)
      have "down_ordered i ?q" unfolding down_ordered_def sz
      proof (intro conjI allI impI)
        fix j assume j: "j < ?n" "0 < j" "heap_parent j \<noteq> i"
        show "time_at ?q (heap_parent j) \<le> time_at ?q j"
        proof (cases "j = i")
          case True
          then have "\<not> time_at ?q i < time_at ?q (heap_parent i)" using c j(2) by blast
          then show ?thesis unfolding True by (rule leI)
        qed (use oth j in blast)
      qed (use grand in blast)
      then show ?thesis unfolding r using down_heap_correct [OF ixq _ iq] mq fin by metis
    qed
  qed
qed

section \<open>The list of active timers\<close>

text \<open>The pointers of a stretch \<open>ts\<close> of the list, between the neighbours \<open>p\<close> and \<open>n\<close>.\<close>

fun dlinks :: "(timer \<Rightarrow> per_timer_data) \<Rightarrow> timer option \<Rightarrow> timer list \<Rightarrow> timer option \<Rightarrow> bool" where
  "dlinks d p [] n \<longleftrightarrow> True"
| "dlinks d p (t # ts) n \<longleftrightarrow> timer_prev (d t) = p \<and>
     timer_next (d t) = (case ts of [] \<Rightarrow> n | u # us \<Rightarrow> Some u) \<and> dlinks d (Some t) ts n"

definition first_of :: "timer list \<Rightarrow> timer option \<Rightarrow> timer option" where
  "first_of ts n = (case ts of [] \<Rightarrow> n | u # us \<Rightarrow> Some u)"

definition last_of :: "timer list \<Rightarrow> timer option \<Rightarrow> timer option" where
  "last_of ts p = (if ts = [] then p else Some (last ts))"

definition linked :: "'t timer_queue \<Rightarrow> timer list \<Rightarrow> bool" where
  "linked q ts \<longleftrightarrow> distinct ts \<and> timers q = first_of ts None \<and> dlinks (timer_data q) None ts None \<and>
     (\<forall>t. t \<notin> set ts \<longrightarrow> timer_next (timer_data q t) = None \<and> timer_prev (timer_data q t) = None)"

lemma first_last_simps [simp]:
  "first_of [] n = n" "first_of (t # ts) n = Some t" "first_of (xs @ ys) n = first_of xs (first_of ys n)"
  "last_of [] p = p" "last_of (xs @ [t]) p = Some t" "last_of (t # ts) p = last_of ts (Some t)"
  by (auto simp: first_of_def last_of_def split: list.split)

lemma dlinks_cong:
  "(\<And>t. t \<in> set ts \<Longrightarrow> timer_next (d' t) = timer_next (d t) \<and> timer_prev (d' t) = timer_prev (d t)) \<Longrightarrow>
    dlinks d' p ts n = dlinks d p ts n"
  by (induction ts arbitrary: p) (auto split: list.split)

lemma dlinks_upd: "t \<notin> set ts \<Longrightarrow> dlinks (d(t := v)) p ts n = dlinks d p ts n"
  by (rule dlinks_cong) auto

lemma dlinks_append: "dlinks d p (xs @ ys) n \<longleftrightarrow> dlinks d p xs (first_of ys n) \<and> dlinks d (last_of xs p) ys n"
  by (induction xs arbitrary: p) (auto simp: first_of_def split: list.split)

lemma dlinks_Cons: "dlinks d p (t # ts) n \<longleftrightarrow>
    timer_prev (d t) = p \<and> timer_next (d t) = first_of ts n \<and> dlinks d (Some t) ts n"
  by (simp add: first_of_def)

lemma dlinks_set_next:
  assumes "dlinks d p xs n" "distinct xs" "xs \<noteq> []"
  shows "dlinks (d(last xs := (d (last xs))\<lparr>timer_next := n'\<rparr>)) p xs n'"
proof -
  obtain ys y where xs: "xs = ys @ [y]" using assms(3) by (metis append_butlast_last_id)
  show ?thesis using assms(1,2)
    by (simp add: xs dlinks_append dlinks_Cons dlinks_upd fun_upd_same del: fun_upd_apply dlinks.simps(2))
qed

lemma dlinks_set_prev:
  assumes "dlinks d p (y # ys) n" "distinct (y # ys)"
  shows "dlinks (d(y := (d y)\<lparr>timer_prev := p'\<rparr>)) p' (y # ys) n"
  using assms by (simp add: dlinks_Cons dlinks_upd fun_upd_same del: fun_upd_apply dlinks.simps(2))

lemma linked_active: "linked q ts \<Longrightarrow> is_active t q \<longleftrightarrow> t \<in> set ts"
proof
  assume l: "linked q ts" and t: "t \<in> set ts"
  then obtain xs ys where ts: "ts = xs @ t # ys" by (metis split_list)
  then have "timer_prev (timer_data q t) = last_of xs None" "xs = [] \<longrightarrow> timers q = Some t"
    using l by (auto simp: linked_def dlinks_append dlinks_Cons simp del: dlinks.simps)
  then show "is_active t q" by (auto simp: is_active_def last_of_def split: if_splits)
next
  assume l: "linked q ts" and "is_active t q"
  then show "t \<in> set ts" by (cases ts) (auto simp: linked_def is_active_def)
qed

lemma linked_same:
  assumes "linked q ts" "timers q' = timers q"
    "\<And>t. timer_next (timer_data q' t) = timer_next (timer_data q t) \<and> timer_prev (timer_data q' t) = timer_prev (timer_data q t)"
  shows "linked q' ts"
  using assms by (simp add: linked_def cong: dlinks_cong)

lemma upd_timer_simps [simp]:
  "timers (upd_timer t f q) = timers q" "timer_heap (upd_timer t f q) = timer_heap q"
  "timer_data (upd_timer t f q) = (timer_data q)(t := f (timer_data q t))" "time_at (upd_timer t f q) k = time_at q k"
  by (simp_all add: upd_timer_def time_at_def)

lemma link_timer_correct:
  assumes "linked q ts" "t \<notin> set ts"
  shows "linked (link_timer t q) (t # ts)"
proof (cases ts)
  case Nil
  then show ?thesis using assms by (auto simp: linked_def link_timer_def upd_opt_def)
next
  case (Cons u us)
  let ?d = "(timer_data q)(t := (timer_data q t)\<lparr>timer_next := Some u, timer_prev := None\<rparr>)"
  have e: "link_timer t q = q\<lparr>timers := Some t, timer_data := ?d(u := (?d u)\<lparr>timer_prev := Some t\<rparr>)\<rparr>"
    using assms by (simp add: linked_def link_timer_def upd_opt_def upd_timer_def Cons Let_def)
  have "dlinks ?d None (u # us) None" using assms by (subst dlinks_upd) (auto simp: linked_def Cons simp del: dlinks.simps)
  then have "dlinks (?d(u := (?d u)\<lparr>timer_prev := Some t\<rparr>)) (Some t) (u # us) None"
    using assms by (intro dlinks_set_prev) (auto simp: linked_def Cons)
  then show ?thesis using assms unfolding e by (auto simp: linked_def Cons dlinks_Cons simp del: dlinks.simps)
qed

text \<open>The pointers around \<open>t\<close>, before and after it is replaced by a stretch \<open>ms\<close> of the list.\<close>

lemma linked_split:
  assumes "linked q (xs @ t # ys)"
  shows "timer_prev (timer_data q t) = last_of xs None" "timer_next (timer_data q t) = first_of ys None"
    "dlinks (timer_data q) None xs (Some t)" "dlinks (timer_data q) (Some t) ys None"
    "timers q = first_of xs (Some t)" "distinct (xs @ t # ys)"
  using assms by (auto simp: linked_def dlinks_append dlinks_Cons simp del: dlinks.simps(2))

definition relink :: "timer option \<Rightarrow> timer option \<Rightarrow> timer option \<Rightarrow> timer option \<Rightarrow> (timer \<Rightarrow> per_timer_data) \<Rightarrow>
    timer \<Rightarrow> per_timer_data" where
  "relink p n n' p' d =
     (let d = (case p of None \<Rightarrow> d | Some u \<Rightarrow> d(u := (d u)\<lparr>timer_next := n'\<rparr>))
      in case n of None \<Rightarrow> d | Some u \<Rightarrow> d(u := (d u)\<lparr>timer_prev := p'\<rparr>))"

lemma relink_stretches:
  assumes "dlinks d None xs n" "dlinks d p ys None" "distinct (xs @ ys)"
  shows "dlinks (relink (last_of xs None) (first_of ys None) n' p' d) None xs n'"
    "dlinks (relink (last_of xs None) (first_of ys None) n' p' d) p' ys None"
    "\<And>t. t \<notin> set (xs @ ys) \<Longrightarrow> relink (last_of xs None) (first_of ys None) n' p' d t = d t"
proof -
  let ?e = "case last_of xs None of None \<Rightarrow> d | Some u \<Rightarrow> d(u := (d u)\<lparr>timer_next := n'\<rparr>)"
  have e: "dlinks ?e None xs n'" "dlinks ?e p ys None" "\<And>t. t \<notin> set xs \<Longrightarrow> ?e t = d t"
  proof -
    show "dlinks ?e None xs n'" using dlinks_set_next [OF assms(1)] assms(3) by (cases "xs = []") (simp_all add: last_of_def)
    have "last xs \<notin> set ys" if "xs \<noteq> []" using assms(3) that last_in_set by fastforce
    then show "dlinks ?e p ys None" using assms(2) by (simp add: last_of_def dlinks_upd)
    show "?e t = d t" if "t \<notin> set xs" for t using that last_in_set by (auto simp: last_of_def)
  qed
  have r: "relink (last_of xs None) (first_of ys None) n' p' d =
      (case first_of ys None of None \<Rightarrow> ?e | Some u \<Rightarrow> ?e(u := (?e u)\<lparr>timer_prev := p'\<rparr>))"
    by (simp add: relink_def Let_def)
  show "dlinks (relink (last_of xs None) (first_of ys None) n' p' d) None xs n'"
    unfolding r using e(1) assms(3) by (cases ys) (simp_all add: dlinks_upd del: dlinks.simps(2))
  show "dlinks (relink (last_of xs None) (first_of ys None) n' p' d) p' ys None"
    unfolding r using dlinks_set_prev [of ?e p] e(2) assms(3) by (cases ys) (simp_all del: dlinks.simps(2))
  show "relink (last_of xs None) (first_of ys None) n' p' d t = d t" if "t \<notin> set (xs @ ys)" for t
    unfolding r using e(3) that by (cases ys) auto
qed

lemma unlink_timer_correct:
  assumes "linked q ts" "t \<in> set ts"
  shows "linked (unlink_timer t q) (remove1 t ts)"
proof -
  obtain xs ys where ts: "ts = xs @ t # ys" using assms(2) by (metis split_list)
  note s = linked_split [OF assms(1) [unfolded ts]]
  let ?d = "relink (last_of xs None) (first_of ys None) (first_of ys None) (last_of xs None) (timer_data q)"
  have dist: "distinct (xs @ ys)" "t \<notin> set (xs @ ys)" "remove1 t ts = xs @ ys" using s(6) by (auto simp: ts remove1_append)
  note st = relink_stretches [OF s(3,4) dist(1), where n' = "first_of ys None" and p' = "last_of xs None"]
  have t: "timers (unlink_timer t q) = first_of (xs @ ys) None"
    using s dist by (cases xs) (auto simp: unlink_timer_def upd_opt_def Let_def split: option.split)
  have d: "timer_data (unlink_timer t q) = ?d(t := (?d t)\<lparr>timer_next := None, timer_prev := None\<rparr>)"
  proof -
    have n: "last_of xs None \<noteq> Some t" "first_of ys None \<noteq> Some t"
      using dist(2) last_in_set by (auto simp: last_of_def first_of_def split: list.splits)
    then show ?thesis using s(1,2) by (auto simp: unlink_timer_def upd_opt_def relink_def Let_def split: option.split)
  qed
  have "dlinks ?d None (xs @ ys) None" using st(1,2) by (simp add: dlinks_append)
  then have "dlinks (timer_data (unlink_timer t q)) None (xs @ ys) None" unfolding d using dist(2) by (simp add: dlinks_upd)
  moreover have "timer_next (timer_data (unlink_timer t q) u) = None \<and> timer_prev (timer_data (unlink_timer t q) u) = None"
    if "u \<notin> set (xs @ ys)" for u
    using assms(1) st(3) [OF that] that unfolding d by (auto simp: linked_def ts)
  ultimately show ?thesis using t dist(1,3) by (simp add: linked_def)
qed

lemma unlink_timer_frame [simp]:
  "timer_heap (unlink_timer t q) = timer_heap q" "timer_ops (timer_data (unlink_timer t q) u) = timer_ops (timer_data q u)"
  "heap_index (timer_data (unlink_timer t q) u) = heap_index (timer_data q u)"
  by (simp_all add: unlink_timer_def upd_opt_def Let_def split: option.split)

lemma link_timer_frame [simp]:
  "timer_heap (link_timer t q) = timer_heap q" "timer_ops (timer_data (link_timer t q) u) = timer_ops (timer_data q u)"
  "heap_index (timer_data (link_timer t q) u) = heap_index (timer_data q u)"
  by (simp_all add: link_timer_def upd_opt_def Let_def split: option.split)

end
