(* ===== verification/TimerRuns.thy ===== *)
theory TimerRuns
  imports TimerQueue
begin

text \<open>
  What the operations of the timer queue promise: an invariant of heap, indices and list that all of
  them keep, the earliest time at the front, and the delivery of exactly the operations that are due.
\<close>

section \<open>The invariant\<close>

definition timer_inv :: "('t::linorder) timer_queue \<Rightarrow> timer list \<Rightarrow> bool" where
  "timer_inv q ts \<longleftrightarrow> linked q ts \<and> index_ok q \<and> heap_ordered q \<and> heap_size q < SIZE_T_MAX \<and>
     snd ` set (timer_heap q) \<subseteq> set ts \<and>
     (\<forall>t \<in> set ts. t \<notin> snd ` set (timer_heap q) \<longrightarrow> heap_index (timer_data q t) = SIZE_T_MAX)"

definition pending_timers :: "('t::linorder) timer_queue \<Rightarrow> ('t \<times> timer) multiset" where
  "pending_timers q = mset (timer_heap q)"

lemma index_ok_distinct_timers: "index_ok q \<Longrightarrow> distinct (map snd (timer_heap q))"
  using index_ok_distinct by (fastforce simp: distinct_conv_nth)

lemma mset_minus_key:
  assumes "distinct (map snd h)" "i < length h"
  shows "mset h - {#h ! i#} = {#e \<in># mset h. snd e \<noteq> snd (h ! i)#}"
proof -
  have h: "h = take i h @ h ! i # drop (Suc i) h" using assms(2) by (rule id_take_nth_drop)
  have d: "distinct (map snd (take i h @ h ! i # drop (Suc i) h))" using assms h by simp
  have "filter (\<lambda>e. snd e \<noteq> snd (h ! i)) (take i h) = take i h"
    "filter (\<lambda>e. snd e \<noteq> snd (h ! i)) (drop (Suc i) h) = drop (Suc i) h"
    using d by (auto simp: filter_id_conv image_iff)
  then have "filter (\<lambda>e. snd e \<noteq> snd (h ! i)) (take i h @ h ! i # drop (Suc i) h) = take i h @ drop (Suc i) h" by simp
  then have "{#e \<in># mset h. snd e \<noteq> snd (h ! i)#} = mset (take i h) + mset (drop (Suc i) h)"
    using h by (metis mset_append mset_filter)
  moreover have "mset h = add_mset (h ! i) (mset (take i h) + mset (drop (Suc i) h))"
    using h by (metis mset.simps(2) mset_append union_mset_add_mset_right)
  ultimately show ?thesis by simp
qed

lemma heap_cong:
  "timer_heap q' = timer_heap q \<Longrightarrow> heap_ordered q' = heap_ordered q"
  "timer_heap q' = timer_heap q \<Longrightarrow> (\<And>t. heap_index (timer_data q' t) = heap_index (timer_data q t)) \<Longrightarrow>
    index_ok q' = index_ok q"
  by (simp_all add: heap_ordered_def time_at_def index_ok_def)

lemma index_in_heap:
  assumes "index_ok q" "t \<in> snd ` set (timer_heap q)"
  obtains i where "i < heap_size q" "snd (timer_heap q ! i) = t" "heap_index (timer_data q t) = i"
proof -
  obtain i where "i < heap_size q" "snd (timer_heap q ! i) = t" using assms(2) by (auto simp: in_set_conv_nth)
  then show ?thesis using that assms(1) by (auto simp: index_ok_def)
qed

lemma remove_timer_correct:
  assumes inv: "timer_inv q ts" and t: "t \<in> set ts"
  shows "timer_inv (remove_timer t q) (remove1 t ts) \<and>
    pending_timers (remove_timer t q) = {#e \<in># pending_timers q. snd e \<noteq> t#} \<and>
    (\<forall>u. timer_ops (timer_data (remove_timer t q) u) = timer_ops (timer_data q u))"
proof -
  have l: "linked q ts" and ix: "index_ok q" and ord: "heap_ordered q" and sz: "heap_size q < SIZE_T_MAX"
    and sub: "snd ` set (timer_heap q) \<subseteq> set ts"
    and out: "\<And>u. u \<in> set ts \<Longrightarrow> u \<notin> snd ` set (timer_heap q) \<Longrightarrow> heap_index (timer_data q u) = SIZE_T_MAX"
    using inv by (auto simp: timer_inv_def)
  let ?r = "remove_from_heap t q"
  have r: "heap_ordered ?r \<and> index_ok ?r \<and> mset (timer_heap ?r) = {#e \<in># mset (timer_heap q). snd e \<noteq> t#} \<and>
    same_timers q ?r \<and> heap_index (timer_data ?r t) = SIZE_T_MAX"
  proof (cases "t \<in> snd ` set (timer_heap q)")
    case True
    obtain i where i: "i < heap_size q" "snd (timer_heap q ! i) = t" "heap_index (timer_data q t) = i"
      using index_in_heap [OF ix True] .
    show ?thesis using remove_from_heap_correct [OF ix ord i(3,1,2)] mset_minus_key [OF index_ok_distinct_timers [OF ix] i(1)] i(2)
      by simp
  next
    case False
    then have "?r = q" using out [OF t] sz by (simp add: remove_from_heap_def Let_def)
    moreover have "filter (\<lambda>e. snd e \<noteq> t) (timer_heap q) = timer_heap q" using False by (auto simp: filter_id_conv)
    ultimately show ?thesis using ix ord out [OF t False] by (metis mset_filter same_timers_refl)
  qed
  have lr: "linked ?r ts" using r by (intro linked_same [OF l]) (auto simp: same_timers_def)
  note u = unlink_timer_correct [OF lr t]
  have st: "set (timer_heap ?r) = {e \<in> set (timer_heap q). snd e \<noteq> t}"
  proof -
    have "set_mset (mset (timer_heap ?r)) = set_mset {#e \<in># mset (timer_heap q). snd e \<noteq> t#}" using r by simp
    then show ?thesis by simp
  qed
  have "size (mset (timer_heap ?r)) = size {#e \<in># mset (timer_heap q). snd e \<noteq> t#}" using r by simp
  then have "heap_size ?r \<le> heap_size q" using size_filter_mset_lesseq [of "\<lambda>e. snd e \<noteq> t" "mset (timer_heap q)"]
    by (simp only: size_mset)
  then have "heap_size (remove_timer t q) < SIZE_T_MAX" using sz by (simp add: remove_timer_def)
  moreover have "snd ` set (timer_heap (remove_timer t q)) \<subseteq> set (remove1 t ts)"
    using sub st u l by (auto simp: remove_timer_def linked_def set_remove1_eq)
  moreover have "heap_index (timer_data (remove_timer t q) v) = SIZE_T_MAX"
    if "v \<in> set (remove1 t ts)" "v \<notin> snd ` set (timer_heap (remove_timer t q))" for v
  proof -
    have v: "v \<in> set ts" "v \<noteq> t" using that(1) l by (auto simp: linked_def set_remove1_eq)
    then have "v \<notin> snd ` set (timer_heap q)" using that(2) st by (auto simp: remove_timer_def)
    then show ?thesis using out [OF v(1)] r by (simp add: remove_timer_def same_timers_def)
  qed
  moreover have "heap_ordered (remove_timer t q)" "index_ok (remove_timer t q)"
    unfolding remove_timer_def
    using heap_cong(1) [OF unlink_timer_frame(1) [of t ?r]] heap_cong(2) [OF unlink_timer_frame(1,3) [of t ?r]] r
    by blast+
  moreover have "linked (remove_timer t q) (remove1 t ts)" using u by (simp add: remove_timer_def)
  moreover have "pending_timers (remove_timer t q) = {#e \<in># pending_timers q. snd e \<noteq> t#}"
    using r by (simp add: pending_timers_def remove_timer_def)
  moreover have "timer_ops (timer_data (remove_timer t q) v) = timer_ops (timer_data q v)" for v
    using r by (simp add: remove_timer_def same_timers_def)
  ultimately show ?thesis unfolding timer_inv_def by blast
qed

lemma timer_inv_ops:
  assumes "timer_inv q ts"
  shows "timer_inv (upd_timer t (\<lambda>d. d\<lparr>timer_ops := f d\<rparr>) q) ts"
proof -
  let ?q = "upd_timer t (\<lambda>d. d\<lparr>timer_ops := f d\<rparr>) q"
  have "linked q ts" using assms by (simp add: timer_inv_def)
  then have "linked ?q ts" by (rule linked_same) simp_all
  moreover have "heap_ordered ?q = heap_ordered q" by (rule heap_cong) simp
  moreover have "index_ok ?q = index_ok q" by (rule heap_cong) simp_all
  ultimately show ?thesis using assms by (simp add: timer_inv_def)
qed

lemma is_active_inv: "timer_inv q ts \<Longrightarrow> is_active t q \<longleftrightarrow> t \<in> set ts"
  by (rule linked_active) (simp add: timer_inv_def)

section \<open>Entering a timer\<close>

lemma enter_heap_correct:
  assumes inv: "timer_inv q ts" and t: "t \<notin> set ts" and room: "heap_size q + 1 < SIZE_T_MAX"
  shows "timer_inv (link_timer t (enter_heap is_inf time t q)) (t # ts) \<and>
    pending_timers (link_timer t (enter_heap is_inf time t q)) =
      (if is_inf time then pending_timers q else add_mset (time, t) (pending_timers q)) \<and>
    (\<forall>u. timer_ops (timer_data (link_timer t (enter_heap is_inf time t q)) u) = timer_ops (timer_data q u))"
proof -
  let ?e = "enter_heap is_inf time t q"
  have tn: "t \<notin> snd ` set (timer_heap q)" using inv t by (auto simp: timer_inv_def)
  have l: "linked q ts" and ix: "index_ok q" and ord: "heap_ordered q"
    and sub: "snd ` set (timer_heap q) \<subseteq> set ts"
    and out: "\<And>u. u \<in> set ts \<Longrightarrow> u \<notin> snd ` set (timer_heap q) \<Longrightarrow> heap_index (timer_data q u) = SIZE_T_MAX"
    using inv by (auto simp: timer_inv_def)
  have e: "heap_ordered ?e \<and> index_ok ?e \<and>
    mset (timer_heap ?e) = (if is_inf time then mset (timer_heap q) else add_mset (time, t) (mset (timer_heap q))) \<and>
    timers ?e = timers q \<and>
    (\<forall>u. timer_ops (timer_data ?e u) = timer_ops (timer_data q u) \<and>
       timer_next (timer_data ?e u) = timer_next (timer_data q u) \<and>
       timer_prev (timer_data ?e u) = timer_prev (timer_data q u) \<and>
       (u \<notin> snd ` set (timer_heap q) \<longrightarrow> u \<noteq> t \<longrightarrow> heap_index (timer_data ?e u) = heap_index (timer_data q u))) \<and>
    (is_inf time \<longrightarrow> heap_index (timer_data ?e t) = SIZE_T_MAX)"
  proof (cases "is_inf time")
    case True
    then have e: "?e = upd_timer t (\<lambda>d. d\<lparr>heap_index := SIZE_T_MAX\<rparr>) q" by (simp add: enter_heap_def)
    have "index_ok ?e" using ix tn unfolding e index_ok_def by (auto simp: image_iff)
    moreover have "heap_ordered ?e = heap_ordered q" unfolding e by (rule heap_cong) simp
    ultimately show ?thesis using ord True by (simp add: e)
  next
    case False
    let ?n = "heap_size q"
    let ?a = "(upd_timer t (\<lambda>d. d\<lparr>heap_index := ?n\<rparr>) q)\<lparr>timer_heap := timer_heap q @ [(time, t)]\<rparr>"
    have e: "?e = up_heap ?n ?a" using False by (simp add: enter_heap_def Let_def)
    have sa: "heap_size ?a = ?n + 1" "?n < heap_size ?a" by simp_all
    have ta: "time_at ?a k = time_at q k" if "k < ?n" for k using that by (simp add: time_at_def nth_append)
    have ixa: "index_ok ?a" using ix tn by (auto simp: index_ok_def nth_append less_Suc_eq)
    have "up_ordered ?n ?a" unfolding up_ordered_def sa
    proof (intro conjI allI impI)
      fix j assume j: "j < ?n + 1" "0 < j" "j \<noteq> ?n"
      have "j < ?n" "heap_parent j < ?n" using j heap_parent_less [OF j(2)] by linarith+
      then show "time_at ?a (heap_parent j) \<le> time_at ?a j" using heap_ordered_at [OF ord _ j(2)] ta by (simp only:)
    next
      fix j assume j: "j < ?n + 1" "0 < j" "heap_parent j = ?n"
      have False using j heap_parent_less [OF j(2)] by linarith
      then show "time_at ?a (heap_parent ?n) \<le> time_at ?a j" ..
    qed
    from up_heap_correct [OF ixa this sa(2)] show ?thesis unfolding e using False by (simp add: same_timers_def)
  qed
  have le: "linked ?e ts" using e by (intro linked_same [OF l]) auto
  have ln: "linked (link_timer t ?e) (t # ts)" using link_timer_correct [OF le t] .
  have se: "set (timer_heap ?e) = (if is_inf time then set (timer_heap q) else insert (time, t) (set (timer_heap q)))"
  proof -
    have "set_mset (mset (timer_heap ?e)) =
      set_mset (if is_inf time then mset (timer_heap q) else add_mset (time, t) (mset (timer_heap q)))" using e by simp
    then show ?thesis by (simp split: if_splits)
  qed
  have "size (mset (timer_heap ?e)) \<le> size (mset (timer_heap q)) + 1" using e by simp
  then have sz: "heap_size ?e < SIZE_T_MAX" using room by (simp only: size_mset)
  have idx: "heap_index (timer_data ?e u) = SIZE_T_MAX" if "u \<in> set (t # ts)" "u \<notin> snd ` set (timer_heap ?e)" for u
  proof (cases "u = t")
    case True
    then have "is_inf time" using that(2) se by (auto split: if_splits)
    then show ?thesis using e True by simp
  next
    case False
    then have "u \<in> set ts" "u \<notin> snd ` set (timer_heap q)" using that se by (auto split: if_splits)
    then show ?thesis using out e False by metis
  qed
  have h: "heap_ordered (link_timer t ?e)" "index_ok (link_timer t ?e)"
    using heap_cong(1) [OF link_timer_frame(1) [of t ?e]] heap_cong(2) [OF link_timer_frame(1,3) [of t ?e]] e by blast+
  have "snd ` set (timer_heap ?e) \<subseteq> set (t # ts)" using sub se by (auto split: if_splits)
  then have "timer_inv (link_timer t ?e) (t # ts)"
    unfolding timer_inv_def using ln h sz idx by (simp only: link_timer_frame) blast
  then show ?thesis using e by (simp add: pending_timers_def)
qed

lemma enqueue_timer_correct:
  assumes inv: "timer_inv q ts" and room: "heap_size q + 1 < SIZE_T_MAX" and r: "enqueue_timer is_inf time t w q = (b, q')"
  shows "timer_inv q' (if t \<in> set ts then ts else t # ts) \<and>
    pending_timers q' = (if t \<in> set ts \<or> is_inf time then pending_timers q else add_mset (time, t) (pending_timers q)) \<and>
    (\<forall>u. timer_ops (timer_data q' u) = (if u = t then timer_ops (timer_data q t) @ [w] else timer_ops (timer_data q u)))"
proof -
  have a: "is_active t q \<longleftrightarrow> t \<in> set ts" using is_active_inv [OF inv] .
  obtain p where p: "p = (if t \<in> set ts then q else link_timer t (enter_heap is_inf time t q))" by blast
  have q': "q' = upd_timer t (\<lambda>d. d\<lparr>timer_ops := timer_ops d @ [w]\<rparr>) p"
    using r by (auto simp: enqueue_timer_def a p Let_def)
  have i: "timer_inv p (if t \<in> set ts then ts else t # ts)"
    "pending_timers p = (if t \<in> set ts \<or> is_inf time then pending_timers q else add_mset (time, t) (pending_timers q))"
    "\<And>u. timer_ops (timer_data p u) = timer_ops (timer_data q u)"
    using inv enter_heap_correct [OF inv _ room, of t is_inf time] unfolding p by (simp_all split: if_split)
  show ?thesis using timer_inv_ops [OF i(1)] i unfolding q' by (simp add: pending_timers_def)
qed

section \<open>Timers that are due\<close>

lemma heap_root_least:
  assumes "heap_ordered q" "j < heap_size q"
  shows "time_at q 0 \<le> time_at q j"
  using assms(2)
proof (induction j rule: less_induct)
  case (less j)
  show ?case
  proof (cases "0 < j")
    case True
    have "heap_parent j < heap_size q" using heap_parent_less [OF True] less.prems by linarith
    from less.IH [OF heap_parent_less [OF True] this] heap_ordered_at [OF assms(1) less.prems True]
    show ?thesis by (rule order_trans)
  qed simp
qed

lemma pending_root:
  assumes "heap_ordered q" "timer_heap q \<noteq> []"
  shows "timer_heap q ! 0 \<in># pending_timers q \<and> (\<forall>e \<in># pending_timers q. time_at q 0 \<le> fst e)"
  using assms heap_root_least [OF assms(1)] by (fastforce simp: pending_timers_def in_set_conv_nth time_at_def)

definition expired_ops :: "'t timer_queue \<Rightarrow> ('t \<times> timer) list \<Rightarrow> completed_ops" where
  "expired_ops q es = concat (map (\<lambda>e. map (\<lambda>w. (w, TimerExpired)) (timer_ops (timer_data q (snd e)))) es)"

definition ready_result :: "('t::linorder) \<Rightarrow> 't timer_queue \<Rightarrow> timer list \<Rightarrow> completed_ops \<Rightarrow>
    (completed_ops \<times> 't timer_queue) option \<Rightarrow> bool" where
  "ready_result now q ts ops r \<longleftrightarrow> (\<exists>es q'. r = Some (ops @ expired_ops q es, q') \<and> sorted (map fst es) \<and>
     mset es = {#e \<in># pending_timers q. fst e \<le> now#} \<and>
     pending_timers q' = {#e \<in># pending_timers q. now < fst e#} \<and>
     timer_inv q' (filter (\<lambda>t. t \<notin> snd ` set es) ts) \<and>
     (\<forall>u. timer_ops (timer_data q' u) = (if u \<in> snd ` set es then [] else timer_ops (timer_data q u))))"

lemma get_ready_loop_correct:
  assumes "timer_inv q ts"
  shows "ready_result now q ts ops (get_ready_loop now ops q)"
  using assms
proof (induction "heap_size q" arbitrary: q ts ops rule: less_induct)
  case less
  have ord: "heap_ordered q" and ix: "index_ok q" and sub: "snd ` set (timer_heap q) \<subseteq> set ts" and dts: "distinct ts"
    using less.prems by (auto simp: timer_inv_def linked_def)
  show ?case
  proof (cases "timer_heap q \<noteq> [] \<and> \<not> now < time_at q 0")
    case False
    have "\<not> fst e \<le> now" if "e \<in># pending_timers q" for e
    proof -
      have "timer_heap q \<noteq> []" using that by (auto simp: pending_timers_def)
      then have "now < time_at q 0" "time_at q 0 \<le> fst e" using False pending_root [OF ord] that by blast+
      then show ?thesis by order
    qed
    then have "{#e \<in># pending_timers q. fst e \<le> now#} = {#}" "{#e \<in># pending_timers q. now < fst e#} = pending_timers q"
      by (auto simp: filter_mset_eq_conv not_le)
    moreover have "get_ready_loop now ops q = Some (ops, q)" using False by (subst get_ready_loop.simps) auto
    ultimately show ?thesis unfolding ready_result_def
      using less.prems by (intro exI [of _ "[]"] exI [of _ q]) (simp add: expired_ops_def)
  next
    case True
    let ?e = "timer_heap q ! 0"
    let ?t = "snd ?e"
    let ?c = "upd_timer ?t (\<lambda>d. d\<lparr>timer_ops := []\<rparr>) q"
    let ?q = "remove_timer ?t ?c"
    let ?ops = "ops @ map (\<lambda>w. (w, TimerExpired)) (timer_ops (timer_data q ?t))"
    have n: "0 < heap_size q" using True by auto
    have tin: "?t \<in> set ts" using sub n by (metis image_subset_iff nth_mem)
    note rm = remove_timer_correct [OF timer_inv_ops [OF less.prems, of ?t "\<lambda>d. []"] tin]
    have pc: "pending_timers ?q = {#e \<in># pending_timers q. snd e \<noteq> ?t#}" using rm by (simp add: pending_timers_def)
    have "add_mset ?e (mset (timer_heap q) - {#?e#}) = mset (timer_heap q)" using n by (simp add: insert_DiffM)
    then have pq: "pending_timers q = add_mset ?e (pending_timers ?q)"
      unfolding pc unfolding pending_timers_def mset_minus_key [OF index_ok_distinct_timers [OF ix] n] by (rule sym)
    have sz: "heap_size ?q < heap_size q" using arg_cong [OF pq, of size] by (simp add: pending_timers_def)
    have loop: "get_ready_loop now ops q = get_ready_loop now ?ops ?q"
      using True by (subst get_ready_loop.simps) (simp add: Let_def)
    have ih: "ready_result now ?q (remove1 ?t ts) ?ops (get_ready_loop now ?ops ?q)"
      using less.hyps [OF sz] rm by blast
    then obtain es q' where r: "get_ready_loop now ?ops ?q = Some (?ops @ expired_ops ?q es, q')" "sorted (map fst es)"
      "mset es = {#e \<in># pending_timers ?q. fst e \<le> now#}" "pending_timers q' = {#e \<in># pending_timers ?q. now < fst e#}"
      "timer_inv q' (filter (\<lambda>t. t \<notin> snd ` set es) (remove1 ?t ts))"
      "\<And>u. timer_ops (timer_data q' u) = (if u \<in> snd ` set es then [] else timer_ops (timer_data ?q u))"
      unfolding ready_result_def by blast
    have ops: "timer_ops (timer_data ?q u) = (if u = ?t then [] else timer_ops (timer_data q u))" for u using rm by simp
    have es: "set es \<subseteq> set_mset (pending_timers ?q)" using r(3) by (metis mset_subset_eqD multiset_filter_subset set_mset_mset subsetI)
    then have nt: "?t \<notin> snd ` set es" unfolding pc by auto
    have due: "fst ?e \<le> now" using True by (simp add: time_at_def not_less)
    have "\<forall>e \<in> set es. fst ?e \<le> fst e"
      using es pending_root [OF ord] True pq by (auto simp: time_at_def)
    then have "sorted (map fst (?e # es))" using r(2) by simp
    moreover have "?ops @ expired_ops ?q es = ops @ expired_ops q (?e # es)"
    proof -
      have "map (\<lambda>e. map (\<lambda>w. (w, TimerExpired)) (timer_ops (timer_data ?q (snd e)))) es =
        map (\<lambda>e. map (\<lambda>w. (w, TimerExpired)) (timer_ops (timer_data q (snd e)))) es"
        using nt ops by (intro map_cong refl) (metis image_eqI)
      then have "expired_ops ?q es = expired_ops q es" unfolding expired_ops_def by (rule arg_cong)
      then show ?thesis by (simp add: expired_ops_def)
    qed
    moreover have "mset (?e # es) = {#e \<in># pending_timers q. fst e \<le> now#}" using r(3) due by (simp add: pq)
    moreover have "pending_timers q' = {#e \<in># pending_timers q. now < fst e#}" using r(4) due by (simp add: pq not_less)
    moreover have "filter (\<lambda>t. t \<notin> snd ` set es) (remove1 ?t ts) = filter (\<lambda>t. t \<notin> snd ` set (?e # es)) ts"
      using dts by (auto simp: distinct_remove1_removeAll removeAll_filter_not_eq intro!: filter_cong)
    moreover have "timer_ops (timer_data q' u) = (if u \<in> snd ` set (?e # es) then [] else timer_ops (timer_data q u))" for u
      using r(6) ops by simp
    ultimately show ?thesis unfolding ready_result_def loop using r(1,5)
      by (intro exI [of _ "?e # es"] exI [of _ q'] conjI allI) (simp_all only:)
  qed
qed

section \<open>Cancelling and moving\<close>

lemma drop_ops_correct:
  assumes inv: "timer_inv q ts" and t: "t \<in> set ts"
    and q': "q' = upd_timer t (\<lambda>d. d\<lparr>timer_ops := ws\<rparr>) q"
  shows "timer_inv (if ws = [] then remove_timer t q' else q') (if ws = [] then remove1 t ts else ts) \<and>
    pending_timers (if ws = [] then remove_timer t q' else q') =
      (if ws = [] then {#e \<in># pending_timers q. snd e \<noteq> t#} else pending_timers q) \<and>
    (\<forall>u. timer_ops (timer_data (if ws = [] then remove_timer t q' else q') u) =
      (if u = t then ws else timer_ops (timer_data q u)))"
proof -
  have i: "timer_inv q' ts" unfolding q' using timer_inv_ops [OF inv, of t "\<lambda>d. ws"] by simp
  have p: "pending_timers q' = pending_timers q" "\<And>u. timer_ops (timer_data q' u) = (if u = t then ws else timer_ops (timer_data q u))"
    by (simp_all add: q' pending_timers_def)
  then show ?thesis using i remove_timer_correct [OF i t] by (cases "ws = []") simp_all
qed

lemma cancel_timer_correct:
  assumes inv: "timer_inv q ts" and r: "cancel_timer t ops m q = (n, ops', q')"
  defines "ws \<equiv> timer_ops (timer_data q t)"
  shows "(t \<notin> set ts \<longrightarrow> n = 0 \<and> ops' = ops \<and> q' = q) \<and>
    (t \<in> set ts \<longrightarrow> n = min m (length ws) \<and> ops' = ops @ map (\<lambda>w. (w, OperationAborted)) (take n ws) \<and>
      timer_inv q' (if length ws \<le> m then remove1 t ts else ts) \<and>
      pending_timers q' = (if length ws \<le> m then {#e \<in># pending_timers q. snd e \<noteq> t#} else pending_timers q) \<and>
      (\<forall>u. timer_ops (timer_data q' u) = (if u = t then drop n ws else timer_ops (timer_data q u))))"
proof (cases "t \<in> set ts")
  case False
  then show ?thesis using r is_active_inv [OF inv, of t] by (auto simp: cancel_timer_def)
next
  case True
  let ?n = "min m (length ws)"
  have n: "n = ?n" "ops' = ops @ map (\<lambda>w. (w, OperationAborted)) (take ?n ws)"
    "q' = (if drop ?n ws = [] then remove_timer t (upd_timer t (\<lambda>d. d\<lparr>timer_ops := drop ?n ws\<rparr>) q)
      else upd_timer t (\<lambda>d. d\<lparr>timer_ops := drop ?n ws\<rparr>) q)"
    using r True is_active_inv [OF inv, of t] by (auto simp: cancel_timer_def ws_def Let_def)
  have "drop ?n ws = [] \<longleftrightarrow> length ws \<le> m" by (simp add: min_def)
  then show ?thesis using drop_ops_correct [OF inv True refl, of "drop ?n ws"] True n by (simp split: if_split)
qed

lemma cancel_timer_by_key_correct:
  assumes inv: "timer_inv q ts" and r: "cancel_timer_by_key t ops key q = (ops', q')"
  defines "ws \<equiv> timer_ops (timer_data q t)"
  defines "rest \<equiv> filter (\<lambda>w. cancellation_key w \<noteq> key) ws"
  shows "(t \<notin> set ts \<longrightarrow> ops' = ops \<and> q' = q) \<and>
    (t \<in> set ts \<longrightarrow> ops' = ops @ map (\<lambda>w. (w, OperationAborted)) (filter (\<lambda>w. cancellation_key w = key) ws) \<and>
      timer_inv q' (if rest = [] then remove1 t ts else ts) \<and>
      pending_timers q' = (if rest = [] then {#e \<in># pending_timers q. snd e \<noteq> t#} else pending_timers q) \<and>
      (\<forall>u. timer_ops (timer_data q' u) = (if u = t then rest else timer_ops (timer_data q u))))"
proof (cases "t \<in> set ts")
  case False
  then show ?thesis using r is_active_inv [OF inv, of t] by (auto simp: cancel_timer_by_key_def)
next
  case True
  have n: "ops' = ops @ map (\<lambda>w. (w, OperationAborted)) (filter (\<lambda>w. cancellation_key w = key) ws)"
    "q' = (if rest = [] then remove_timer t (upd_timer t (\<lambda>d. d\<lparr>timer_ops := rest\<rparr>) q)
      else upd_timer t (\<lambda>d. d\<lparr>timer_ops := rest\<rparr>) q)"
    using r True is_active_inv [OF inv, of t] by (auto simp: cancel_timer_by_key_def ws_def rest_def Let_def)
  then show ?thesis using drop_ops_correct [OF inv True refl, of rest] True by simp
qed

lemma move_links_correct:
  assumes l: "linked q ts" and s: "source \<in> set ts" and t: "target \<notin> set ts"
  shows "linked (move_links target source q) (map (\<lambda>u. if u = source then target else u) ts)"
proof -
  obtain xs ys where ts: "ts = xs @ source # ys" using s by (metis split_list)
  note sp = linked_split [OF l [unfolded ts]]
  let ?d = "relink (last_of xs None) (first_of ys None) (Some target) (Some target) (timer_data q)"
  have dist: "distinct (xs @ ys)" "source \<notin> set (xs @ ys)" "target \<notin> set (xs @ ys)" "target \<noteq> source"
    using sp(6) t by (auto simp: ts)
  have m: "map (\<lambda>u. if u = source then target else u) ts = xs @ target # ys"
    using dist by (auto simp: ts intro!: map_idI)
  note st = relink_stretches [OF sp(3,4) dist(1), where n' = "Some target" and p' = "Some target"]
  have n: "last_of xs None \<noteq> Some source" "first_of ys None \<noteq> Some source" "last_of xs None \<noteq> Some target" "first_of ys None \<noteq> Some target"
    using dist last_in_set by (auto simp: last_of_def first_of_def split: list.splits)
  have tm: "timers (move_links target source q) = first_of (xs @ target # ys) None"
    using sp dist by (cases xs) (auto simp: move_links_def upd_opt_def Let_def split: option.split)
  have d: "timer_data (move_links target source q) = ?d(target := (?d target)\<lparr>timer_next := first_of ys None, timer_prev := last_of xs None\<rparr>,
      source := (?d source)\<lparr>timer_next := None, timer_prev := None\<rparr>)"
    using sp(1,2) n dist by (auto simp: move_links_def upd_opt_def relink_def Let_def split: option.split)
  have "dlinks (timer_data (move_links target source q)) None (xs @ target # ys) None"
    unfolding d using st(1,2) dist by (simp add: dlinks_append dlinks_Cons dlinks_upd del: dlinks.simps(2))
  moreover have "timer_next (timer_data (move_links target source q) u) = None \<and> timer_prev (timer_data (move_links target source q) u) = None"
    if "u \<notin> set (xs @ target # ys)" for u
    using l st(3) [of u] that unfolding d by (auto simp: linked_def ts)
  ultimately show ?thesis using tm dist by (simp add: linked_def m)
qed

lemma move_links_frame [simp]:
  "timer_heap (move_links t s q) = timer_heap q" "timer_ops (timer_data (move_links t s q) u) = timer_ops (timer_data q u)"
  "heap_index (timer_data (move_links t s q) u) = heap_index (timer_data q u)"
  by (simp_all add: move_links_def upd_opt_def Let_def split: option.split)

lemma move_entry_correct:
  assumes inv: "timer_inv q ts" and s: "source \<in> set ts" and t: "target \<notin> set ts"
  defines "q' \<equiv> move_entry target source q"
  shows "linked q' ts \<and> index_ok q' \<and> heap_ordered q' \<and> heap_size q' = heap_size q \<and>
    timer_heap q' = map (\<lambda>(time, u). (time, if u = source then target else u)) (timer_heap q) \<and>
    heap_index (timer_data q' target) = heap_index (timer_data q source) \<and>
    (\<forall>u. u \<noteq> source \<longrightarrow> u \<noteq> target \<longrightarrow> heap_index (timer_data q' u) = heap_index (timer_data q u)) \<and>
    (\<forall>u. timer_ops (timer_data q' u) = (if u = source then [] else if u = target
        then timer_ops (timer_data q target) @ timer_ops (timer_data q source) else timer_ops (timer_data q u)))"
proof -
  have ix: "index_ok q" and ord: "heap_ordered q" and l: "linked q ts" and sz: "heap_size q < SIZE_T_MAX"
    and sub: "snd ` set (timer_heap q) \<subseteq> set ts" using inv by (auto simp: timer_inv_def)
  have ne: "target \<noteq> source" "target \<notin> snd ` set (timer_heap q)" using s t sub by auto
  let ?i = "heap_index (timer_data q source)"
  let ?d = "(timer_data q)(target := (timer_data q target)\<lparr>timer_ops := timer_ops (timer_data q target) @ timer_ops (timer_data q source),
        heap_index := ?i\<rparr>, source := (timer_data q source)\<lparr>timer_ops := [], heap_index := SIZE_T_MAX\<rparr>)"
  have d: "timer_data q' = ?d" "timers q' = timers q" using ne(1) by (simp_all add: q'_def move_entry_def Let_def)
  have h0: "timer_heap q' = (if ?i < heap_size q then (timer_heap q)[?i := (time_at q ?i, target)] else timer_heap q)"
    using ne(1) by (simp add: q'_def move_entry_def Let_def)
  have nth: "timer_heap q' ! k = (fst (timer_heap q ! k), if snd (timer_heap q ! k) = source then target else snd (timer_heap q ! k))"
    if k: "k < heap_size q" for k
  proof -
    have "snd (timer_heap q ! k) = source \<longleftrightarrow> k = ?i"
    proof
      show "snd (timer_heap q ! k) = source \<Longrightarrow> k = ?i" using ix k by (auto simp: index_ok_def)
      assume e: "k = ?i"
      show "snd (timer_heap q ! k) = source"
      proof (rule ccontr)
        assume n: "snd (timer_heap q ! k) \<noteq> source"
        have "source \<notin> snd ` set (timer_heap q)"
        proof
          assume "source \<in> snd ` set (timer_heap q)"
          then obtain j where "j < heap_size q" "snd (timer_heap q ! j) = source" "?i = j" using index_in_heap [OF ix] by metis
          then show False using n e by simp
        qed
        then have "?i = SIZE_T_MAX" using inv s by (simp add: timer_inv_def)
        then show False using e k sz by simp
      qed
    qed
    then show ?thesis using k unfolding h0 by (cases "timer_heap q ! k") (auto simp: nth_list_update time_at_def)
  qed
  have len: "heap_size q' = heap_size q" by (simp add: h0)
  have h: "timer_heap q' = map (\<lambda>(time, u). (time, if u = source then target else u)) (timer_heap q)"
    using nth len by (intro nth_equalityI) (simp_all add: case_prod_beta)
  have "index_ok q'" unfolding index_ok_def len
  proof (intro allI impI)
    fix k assume k: "k < heap_size q"
    have "snd (timer_heap q ! k) \<noteq> target" using ne(2) k by (metis image_eqI nth_mem)
    then show "heap_index (timer_data q' (snd (timer_heap q' ! k))) = k"
      using ix k ne(1) unfolding nth [OF k] d by (auto simp: index_ok_def)
  qed
  moreover have "time_at q' k = time_at q k" if "k < heap_size q" for k using nth [OF that] by (simp add: time_at_def)
  then have "heap_ordered q'" using heap_ordered_at [OF ord] heap_parent_less unfolding heap_ordered_def len by (metis order_less_trans)
  moreover have "linked q' ts" using d by (intro linked_same [OF l]) auto
  ultimately show ?thesis using d h len ne(1) by simp
qed

lemma move_timer_correct:
  assumes inv: "timer_inv q ts" and s: "source \<in> set ts" and t: "target \<notin> set ts"
  shows "timer_inv (move_timer target source q) (map (\<lambda>u. if u = source then target else u) ts) \<and>
    pending_timers (move_timer target source q) =
      image_mset (\<lambda>(time, u). (time, if u = source then target else u)) (pending_timers q) \<and>
    (\<forall>u. timer_ops (timer_data (move_timer target source q) u) = (if u = source then [] else if u = target
        then timer_ops (timer_data q target) @ timer_ops (timer_data q source) else timer_ops (timer_data q u)))"
proof -
  let ?e = "move_entry target source q"
  let ?f = "\<lambda>u. if u = source then target else u"
  note e = move_entry_correct [OF inv s t]
  note l = move_links_correct [OF _ s t, of ?e]
  have h: "heap_ordered (move_links target source ?e)" "index_ok (move_links target source ?e)"
    using heap_cong(1) [OF move_links_frame(1) [of target source ?e]]
      heap_cong(2) [OF move_links_frame(1,3) [of target source ?e]] e by blast+
  have sh: "snd ` set (timer_heap ?e) = ?f ` snd ` set (timer_heap q)" 
  proof -
    have "timer_heap ?e = map (\<lambda>(time, u). (time, ?f u)) (timer_heap q)" using e by blast
    then show ?thesis by (simp only: set_map image_image case_prod_beta snd_conv)
  qed
  have sub: "snd ` set (timer_heap q) \<subseteq> set ts" and sz: "heap_size q < SIZE_T_MAX"
    and out: "\<And>u. u \<in> set ts \<Longrightarrow> u \<notin> snd ` set (timer_heap q) \<Longrightarrow> heap_index (timer_data q u) = SIZE_T_MAX"
    using inv by (auto simp: timer_inv_def)
  have "heap_index (timer_data ?e u) = SIZE_T_MAX" if u: "u \<in> set (map ?f ts)" "u \<notin> snd ` set (timer_heap ?e)" for u
  proof -
    obtain v where v: "v \<in> set ts" "u = ?f v" using u(1) unfolding set_map by blast
    have "v \<notin> snd ` set (timer_heap q)" using u(2) v(2) unfolding sh by blast
    then have "heap_index (timer_data q v) = SIZE_T_MAX" using out v(1) by blast
    then show ?thesis using e v t by (cases "v = source") auto
  qed
  moreover have "snd ` set (timer_heap ?e) \<subseteq> set (map ?f ts)" unfolding sh set_map using sub by (rule image_mono)
  moreover have "linked (move_links target source ?e) (map ?f ts)" using l e by blast
  moreover have "heap_size ?e < SIZE_T_MAX" using e sz by simp
  ultimately have "timer_inv (move_timer target source q) (map ?f ts)"
    unfolding timer_inv_def move_timer_def move_links_frame using h by blast
  then show ?thesis using e by (simp add: move_timer_def pending_timers_def)
qed

section \<open>Sequences of calls\<close>

text \<open>
  The calls a reactor makes on a timer queue; \<open>Move\<close> is called for an idle target. What the calls
  completed is collected in order. A call that does not return makes the run \<open>None\<close>.
\<close>

datatype 't timer_call =
    Enqueue 't timer wait_op
  | CancelTimer timer nat
  | CancelByKey timer nat
  | MoveTimer timer timer
  | GetReady 't

fun timer_step :: "('t::linorder) timer_call \<Rightarrow> completed_ops \<times> 't timer_queue \<Rightarrow> (completed_ops \<times> 't timer_queue) option" where
  "timer_step (Enqueue time t w) (ops, q) = Some (ops, snd (enqueue_timer (\<lambda>time. False) time t w q))"
| "timer_step (CancelTimer t m) (ops, q) = (case cancel_timer t ops m q of (n, ops, q) \<Rightarrow> Some (ops, q))"
| "timer_step (CancelByKey t key) (ops, q) = Some (cancel_timer_by_key t ops key q)"
| "timer_step (MoveTimer target source) (ops, q) =
     (if is_active source q \<and> \<not> is_active target q then Some (ops, move_timer target source q) else Some (ops, q))"
| "timer_step (GetReady now) (ops, q) = get_ready_timers now ops q"

fun timer_run :: "('t::linorder) timer_call list \<Rightarrow> completed_ops \<times> 't timer_queue \<Rightarrow> (completed_ops \<times> 't timer_queue) option" where
  "timer_run [] s = Some s"
| "timer_run (c # cs) s = Option.bind (timer_step c s) (timer_run cs)"

lemma get_ready_timers_correct:
  "timer_inv q ts \<Longrightarrow> ready_result now q ts ops (get_ready_timers now ops q)"
proof -
  have "get_ready_timers now ops q = get_ready_loop now ops q"
  proof (cases "timer_heap q = []")
    case True
    then show ?thesis by (subst get_ready_loop.simps) (simp add: get_ready_timers_def)
  qed (simp add: get_ready_timers_def)
  then show "timer_inv q ts \<Longrightarrow> ?thesis" using get_ready_loop_correct by metis
qed

lemma timer_step_correct:
  assumes inv: "timer_inv q ts" and room: "heap_size q + 1 < SIZE_T_MAX"
  obtains ops' q' ts' where "timer_step c (ops, q) = Some (ops', q')" "timer_inv q' ts'" "heap_size q' \<le> heap_size q + 1"
proof -
  have sz: "heap_size r = size (pending_timers r)" for r :: "'a timer_queue" by (simp add: pending_timers_def)
  show ?thesis
  proof (cases c)
    case (Enqueue time t w)
    obtain b q' where r: "enqueue_timer (\<lambda>time. False) time t w q = (b, q')" by fastforce
    from enqueue_timer_correct [OF inv room r] show ?thesis
      by (intro that [of ops q' "if t \<in> set ts then ts else t # ts"]) (simp_all add: Enqueue r sz)
  next
    case (CancelTimer t m)
    obtain n ops' q' where r: "cancel_timer t ops m q = (n, ops', q')" by (metis prod_cases3)
    from cancel_timer_correct [OF inv r] show ?thesis
      using inv by (intro that [of ops' q' "if t \<notin> set ts then ts
          else if length (timer_ops (timer_data q t)) \<le> m then remove1 t ts else ts"])
        (auto simp: CancelTimer r sz intro: le_SucI size_filter_mset_lesseq)
  next
    case (CancelByKey t key)
    obtain ops' q' where r: "cancel_timer_by_key t ops key q = (ops', q')" by fastforce
    let ?rest = "filter (\<lambda>w. cancellation_key w \<noteq> key) (timer_ops (timer_data q t))"
    from cancel_timer_by_key_correct [OF inv r] show ?thesis
      using inv by (intro that [of ops' q' "if t \<notin> set ts then ts else if ?rest = [] then remove1 t ts else ts"])
        (auto simp: CancelByKey r sz intro: le_SucI size_filter_mset_lesseq)
  next
    case (MoveTimer target source)
    show ?thesis
    proof (cases "source \<in> set ts \<and> target \<notin> set ts")
      case True
      then show ?thesis using move_timer_correct [OF inv, of source target] is_active_inv [OF inv]
        by (intro that [of ops "move_timer target source q" "map (\<lambda>u. if u = source then target else u) ts"])
          (simp_all add: MoveTimer sz)
    next
      case False
      then show ?thesis using inv is_active_inv [OF inv]
        by (intro that [of ops q ts]) (auto simp: MoveTimer)
    qed
  next
    case (GetReady now)
    obtain es q' where r: "get_ready_timers now ops q = Some (ops @ expired_ops q es, q')"
      "timer_inv q' (filter (\<lambda>t. t \<notin> snd ` set es) ts)" "pending_timers q' = {#e \<in># pending_timers q. now < fst e#}"
      using get_ready_timers_correct [OF inv] unfolding ready_result_def by blast
    then show ?thesis
      by (intro that [of "ops @ expired_ops q es" q']) (auto simp: GetReady sz intro: le_SucI size_filter_mset_lesseq)
  qed
qed

lemma timer_inv_new: "timer_inv timer_queue_new []"
  by (simp add: timer_inv_def timer_queue_new_def linked_def per_timer_data_new_def index_ok_def heap_ordered_def SIZE_T_MAX_def)

lemma heap_size_new: "heap_size timer_queue_new = 0"
  by (simp add: timer_queue_new_def)

lemma timer_run_correct:
  "timer_inv q ts \<Longrightarrow> heap_size q + length cs < SIZE_T_MAX \<Longrightarrow>
    \<exists>ops' q' ts'. timer_run cs (ops, q) = Some (ops', q') \<and> timer_inv q' ts'"
proof (induction cs arbitrary: ops q ts)
  case (Cons c cs)
  have "heap_size q + 1 < SIZE_T_MAX" using Cons.prems(2) by simp
  then obtain ops' q' ts' where s: "timer_step c (ops, q) = Some (ops', q')" "timer_inv q' ts'" "heap_size q' \<le> heap_size q + 1"
    using timer_step_correct [OF Cons.prems(1)] by metis
  then have "heap_size q' + length cs < SIZE_T_MAX" using Cons.prems(2) by simp
  from Cons.IH [OF s(2) this] s(1) show ?case by simp
qed auto

lemma timer_run_from_new:
  assumes "length cs < SIZE_T_MAX"
  obtains ops q ts where "timer_run cs ([], timer_queue_new) = Some (ops, q)" "timer_inv q ts"
  using timer_run_correct [OF timer_inv_new, of cs "[]"] assms unfolding heap_size_new add_0 by blast

section \<open>Properties\<close>



text \<open>
  C24: functional. After any calls, \<open>get_ready_timers\<close> completes the operations of exactly the timers
  whose time is not later than \<open>now\<close>, without an error, in the order of the times, and of each timer
  in the order they were queued; these timers are then out of the heap and idle, and all others keep
  their time and their operations.
\<close>

theorem ready_timers_complete_in_order:
  assumes "length cs < SIZE_T_MAX" "timer_run cs ([], timer_queue_new) = Some (ops0, q)"
  shows "\<exists>es q'. get_ready_timers now ops q =
      Some (ops @ concat (map (\<lambda>e. map (\<lambda>w. (w, TimerExpired)) (timer_ops (timer_data q (snd e)))) es), q') \<and>
    sorted (map fst es) \<and> mset es = {#e \<in># mset (timer_heap q). fst e \<le> now#} \<and>
    mset (timer_heap q') = {#e \<in># mset (timer_heap q). now < fst e#} \<and>
    (\<forall>t. is_active t q' \<longleftrightarrow> is_active t q \<and> t \<notin> snd ` set es) \<and>
    (\<forall>t. timer_ops (timer_data q' t) = (if t \<in> snd ` set es then [] else timer_ops (timer_data q t)))"
proof -
  obtain ops1 q1 ts where r: "timer_run cs ([], timer_queue_new) = Some (ops1, q1)" "timer_inv q1 ts"
    using timer_run_from_new [OF assms(1)] .
  then have inv: "timer_inv q ts" using assms(2) by simp
  obtain es q' where e: "get_ready_timers now ops q = Some (ops @ expired_ops q es, q')" "sorted (map fst es)"
    "mset es = {#e \<in># pending_timers q. fst e \<le> now#}" "pending_timers q' = {#e \<in># pending_timers q. now < fst e#}"
    "timer_inv q' (filter (\<lambda>t. t \<notin> snd ` set es) ts)"
    "\<And>t. timer_ops (timer_data q' t) = (if t \<in> snd ` set es then [] else timer_ops (timer_data q t))"
    using get_ready_timers_correct [OF inv, of now ops] unfolding ready_result_def by blast
  have "is_active t q' \<longleftrightarrow> is_active t q \<and> t \<notin> snd ` set es" for t
    using is_active_inv [OF inv] is_active_inv [OF e(5)] by simp
  then show ?thesis using e by (intro exI [of _ es] exI [of _ q']) (simp add: expired_ops_def pending_timers_def)
qed

definition demo_wait :: "nat \<Rightarrow> wait_op" where
  "demo_wait k = \<lparr>wait_op_id = k, cancellation_key = 0\<rparr>"

definition demo_timers :: "int timer_call list" where
  "demo_timers = [Enqueue 5 1 (demo_wait 0), Enqueue 3 2 (demo_wait 1), Enqueue 9 3 (demo_wait 2), CancelTimer 1 1, MoveTimer 4 2]"

lemma demo_timers_run:
  "timer_run demo_timers ([], timer_queue_new) \<noteq> None"
  by (rule timer_run_from_new [of demo_timers]) (auto simp: demo_timers_def SIZE_T_MAX_def)

theorem ready_timers_complete_in_order_witness:
  "\<exists>ops0 q (es :: (int \<times> timer) list) q'. timer_run demo_timers ([], timer_queue_new) = Some (ops0, q) \<and>
     get_ready_timers 7 [] q = Some (concat (map (\<lambda>e. map (\<lambda>w. (w, TimerExpired)) (timer_ops (timer_data q (snd e)))) es), q') \<and>
     sorted (map fst es)"
proof -
  obtain ops0 q where r: "timer_run demo_timers ([], timer_queue_new) = Some (ops0, q)" using demo_timers_run by auto
  have "length demo_timers < SIZE_T_MAX" by (simp add: demo_timers_def SIZE_T_MAX_def)
  from ready_timers_complete_in_order [OF this r, of 7 "[]", unfolded append_Nil] obtain es :: "(int \<times> timer) list" and q' where
    "get_ready_timers 7 [] q = Some (concat (map (\<lambda>e. map (\<lambda>w. (w, TimerExpired)) (timer_ops (timer_data q (snd e)))) es), q')"
    "sorted (map fst es)" by (elim exE conjE) (rule that)
  with r show ?thesis by (intro exI conjI)
qed

end
