(* ===== verification/TimeTraits.thy ===== *)
theory TimeTraits
  imports TimerRuns "HOL-Library.Signed_Division" "HOL-Library.Monad_Syntax"
begin

text \<open>
  Times and durations of the timers, \<^verbatim>\<open>asio/detail/chrono_time_traits.hpp\<close>: 64-bit counts of ticks with
  arithmetic that saturates. C++ leaves signed overflow undefined, so every operation on counts is
  checked here and gives \<open>None\<close> where it would overflow.
\<close>

section \<open>Checked arithmetic on 64-bit counts\<close>

definition INT64_MAX :: int where "INT64_MAX = 2 ^ 63 - 1"
definition INT64_MIN :: int where "INT64_MIN = - (2 ^ 63)"

definition in_int64 :: "int \<Rightarrow> bool" where
  "in_int64 x \<longleftrightarrow> INT64_MIN \<le> x \<and> x \<le> INT64_MAX"

definition checked :: "int \<Rightarrow> int option" where
  "checked x = (if in_int64 x then Some x else None)"

lemma int64_values: "INT64_MAX = 9223372036854775807" "INT64_MIN = - 9223372036854775808"
  by (simp_all add: INT64_MAX_def INT64_MIN_def)

section \<open>Saturating times\<close>

definition time_add :: "int \<Rightarrow> int \<Rightarrow> int option" where
  "time_add t d =
     (if t \<ge> 0
      then do { room \<leftarrow> checked (INT64_MAX - t); if room < d then Some INT64_MAX else checked (t + d) }
      else do { room \<leftarrow> checked (t - INT64_MIN); lowest \<leftarrow> checked (- room);
                if lowest > d then Some INT64_MIN else checked (t + d) })"

definition time_subtract :: "int \<Rightarrow> int \<Rightarrow> int option" where
  "time_subtract t1 t2 =
     (if t1 \<ge> 0
      then
        if t2 \<ge> 0 then checked (t1 - t2)
        else if t2 = INT64_MIN then Some INT64_MAX
        else do { room \<leftarrow> checked (INT64_MAX - t1); dist \<leftarrow> checked (0 - t2);
                  if room < dist then Some INT64_MAX else checked (t1 - t2) }
      else
        if t2 < 0 then checked (t1 - t2)
        else if t1 = INT64_MIN then Some INT64_MIN
        else do { room \<leftarrow> checked (INT64_MAX - t2); dist \<leftarrow> checked (0 - t1);
                  if room < dist then Some INT64_MIN
                  else do { d \<leftarrow> checked (t2 - t1); checked (- d) } })"

definition time_less_than :: "int \<Rightarrow> int \<Rightarrow> bool" where
  "time_less_than t1 t2 \<longleftrightarrow> t1 < t2"

definition saturate :: "int \<Rightarrow> int" where
  "saturate x = max INT64_MIN (min INT64_MAX x)"

lemma time_add_saturates:
  assumes "in_int64 t" "in_int64 d"
  shows "time_add t d = Some (saturate (t + d))"
  using assms by (auto simp: time_add_def checked_def in_int64_def saturate_def int64_values)

lemma time_subtract_saturates:
  assumes "in_int64 t1" "in_int64 t2"
  shows "time_subtract t1 t2 = Some (saturate (t1 - t2))"
  using assms by (auto simp: time_subtract_def checked_def in_int64_def saturate_def int64_values)

section \<open>Durations in other units\<close>

text \<open>\<open>gcd\<close> of the template, and the ratio of the clock's period \<open>pnum / pden\<close> to the unit \<open>Num / Den\<close>.\<close>

fun gcd_template :: "nat \<Rightarrow> nat \<Rightarrow> nat" where
  "gcd_template v1 v2 = (if v2 = 0 then v1 else gcd_template v2 (v1 mod v2))"

declare gcd_template.simps [simp del]

lemma gcd_template_eq: "gcd_template v1 v2 = gcd v1 v2"
  by (induction v1 v2 rule: gcd_template.induct) (simp add: gcd_template.simps gcd_red_nat flip: gcd_red_nat)

definition duration_cast :: "nat \<Rightarrow> nat \<Rightarrow> nat \<Rightarrow> nat \<Rightarrow> int \<Rightarrow> int option" where
  "duration_cast pnum pden Num Den ticks =
     (let num1 = pnum div gcd_template pnum Num;
          num2 = Num div gcd_template pnum Num;
          den1 = pden div gcd_template pden Den;
          den2 = Den div gcd_template pden Den;
          num = num1 * den2;
          den = num2 * den1
      in if num = 1 \<and> den = 1 then Some ticks
         else if num \<noteq> 1 \<and> den = 1 then checked (ticks * int num)
         else if num = 1 \<and> pden \<noteq> 1 then Some (ticks sdiv int den)
         else do { x \<leftarrow> checked (ticks * int num); Some (x sdiv int den) })"

definition total_seconds :: "nat \<Rightarrow> nat \<Rightarrow> int \<Rightarrow> int option" where
  "total_seconds pnum pden ticks = duration_cast pnum pden 1 1 ticks"

definition total_milliseconds :: "nat \<Rightarrow> nat \<Rightarrow> int \<Rightarrow> int option" where
  "total_milliseconds pnum pden ticks = duration_cast pnum pden 1 1000 ticks"

definition total_microseconds :: "nat \<Rightarrow> nat \<Rightarrow> int \<Rightarrow> int option" where
  "total_microseconds pnum pden ticks = duration_cast pnum pden 1 1000000 ticks"

text \<open>The clocks of the standard library on Linux count nanoseconds.\<close>

lemma nanosecond_casts:
  "total_seconds 1 1000000000 ticks = Some (ticks sdiv 1000000000)"
  "total_milliseconds 1 1000000000 ticks = Some (ticks sdiv 1000000)"
  "total_microseconds 1 1000000000 ticks = Some (ticks sdiv 1000)"
  by (simp_all add: total_seconds_def total_milliseconds_def total_microseconds_def duration_cast_def gcd_template_eq Let_def)

end
