(* ===== verification/OpQueue.thy ===== *)
theory OpQueue
  imports Prelude "HOL-Library.Monad_Syntax"
begin

text \<open>
  The intrusive queue of operations of \<^verbatim>\<open>asio/detail/op_queue.hpp\<close>, on which the scheduler, the
  reactor and the timers rest: every operation carries the pointer to its successor, and a queue is
  the pair of its ends. Operations are named by numbers, \<open>next_\<close> of all of them is one function, and
  a null pointer is \<open>None\<close>. The lemmas show that a queue represents the list of its operations.
\<close>

section \<open>Operations of the queue\<close>

type_synonym op = nat
type_synonym op_links = "op \<Rightarrow> op option"

record op_queue =
  op_front :: "op option"
  op_back :: "op option"

definition op_queue_new :: op_queue where
  "op_queue_new = \<lparr>op_front = None, op_back = None\<rparr>"

definition op_pop :: "op_links \<times> op_queue \<Rightarrow> op_links \<times> op_queue" where
  "op_pop = (\<lambda>(nx, q).
     case op_front q of
       None \<Rightarrow> (nx, q)
     | Some tmp \<Rightarrow>
         let q = q\<lparr>op_front := nx tmp\<rparr>;
             q = (if op_front q = None then q\<lparr>op_back := None\<rparr> else q)
         in (nx(tmp := None), q))"

definition op_push :: "op \<Rightarrow> op_links \<times> op_queue \<Rightarrow> op_links \<times> op_queue" where
  "op_push h = (\<lambda>(nx, q).
     let nx = nx(h := None) in
     case op_back q of
       Some b \<Rightarrow> (nx(b := Some h), q\<lparr>op_back := Some h\<rparr>)
     | None \<Rightarrow> (nx, q\<lparr>op_front := Some h, op_back := Some h\<rparr>))"

text \<open>\<open>push(q2)\<close>: all operations of the second queue go behind those of the first.\<close>

definition op_push_queue :: "op_links \<Rightarrow> op_queue \<Rightarrow> op_queue \<Rightarrow> op_links \<times> op_queue \<times> op_queue" where
  "op_push_queue nx q q2 =
     (case op_front q2 of
        None \<Rightarrow> (nx, q, q2)
      | Some other_front \<Rightarrow>
          let (nx, q) = (case op_back q of
                Some b \<Rightarrow> (nx(b := Some other_front), q)
              | None \<Rightarrow> (nx, q\<lparr>op_front := Some other_front\<rparr>));
              q = q\<lparr>op_back := op_back q2\<rparr>
          in (nx, q, q2\<lparr>op_front := None, op_back := None\<rparr>))"

definition op_empty :: "op_queue \<Rightarrow> bool" where
  "op_empty q \<longleftrightarrow> op_front q = None"

definition op_is_enqueued :: "op_links \<Rightarrow> op \<Rightarrow> op_queue \<Rightarrow> bool" where
  "op_is_enqueued nx h q \<longleftrightarrow> nx h \<noteq> None \<or> op_back q = Some h"

text \<open>
  The destructor pops and destroys until the queue is empty. On links that form a circle it would not
  end; the result lists the destroyed operations.
\<close>

partial_function (option) op_destroy_all :: "op_links \<times> op_queue \<Rightarrow> op list option" where
  "op_destroy_all s =
     (case op_front (snd s) of
        None \<Rightarrow> Some []
      | Some h \<Rightarrow> Option.bind (op_destroy_all (op_pop s)) (\<lambda>hs. Some (h # hs)))"

declare op_destroy_all.simps [code]

section \<open>The list a queue represents\<close>

fun links :: "op_links \<Rightarrow> op list \<Rightarrow> bool" where
  "links nx [] \<longleftrightarrow> True"
| "links nx [x] \<longleftrightarrow> nx x = None"
| "links nx (x # y # ys) \<longleftrightarrow> nx x = Some y \<and> links nx (y # ys)"

definition op_rep :: "op_links \<Rightarrow> op_queue \<Rightarrow> op list \<Rightarrow> bool" where
  "op_rep nx q xs \<longleftrightarrow> distinct xs \<and> links nx xs \<and>
     (if xs = [] then q = op_queue_new else q = \<lparr>op_front = Some (hd xs), op_back = Some (last xs)\<rparr>)"

lemma links_Cons: "links nx (x # xs) \<longleftrightarrow> nx x = (if xs = [] then None else Some (hd xs)) \<and> links nx xs"
  by (cases xs) auto

lemma links_fun_upd: "h \<notin> set xs \<Longrightarrow> links (nx(h := v)) xs = links nx xs"
  by (induction xs) (auto simp: links_Cons)

lemma links_append:
  assumes "xs \<noteq> []" "distinct xs" "set xs \<inter> set ys = {}" "links nx xs" "links nx ys" "ys \<noteq> []"
  shows "links (nx(last xs := Some (hd ys))) (xs @ ys)"
  using assms(1-4)
proof (induction xs)
  case (Cons x xs)
  show ?case
  proof (cases "xs = []")
    case True
    then show ?thesis using Cons.prems assms(5,6) links_fun_upd [of x ys nx] by (simp add: links_Cons fun_upd_def)
  next
    case False
    then show ?thesis using Cons by (auto simp: links_Cons)
  qed
qed simp

lemma op_rep_new: "op_rep nx op_queue_new []"
  by (simp add: op_rep_def)

lemma op_rep_empty: "op_rep nx q xs \<Longrightarrow> op_empty q \<longleftrightarrow> xs = []"
  by (auto simp: op_rep_def op_empty_def op_queue_new_def split: if_splits)

lemma op_rep_front: "op_rep nx q xs \<Longrightarrow> op_front q = (case xs of [] \<Rightarrow> None | x # _ \<Rightarrow> Some x)"
  by (auto simp: op_rep_def op_queue_new_def split: if_splits list.split)

lemma op_rep_fun_upd: "op_rep nx q xs \<Longrightarrow> h \<notin> set xs \<Longrightarrow> op_rep (nx(h := v)) q xs"
  by (simp add: op_rep_def links_fun_upd)

lemma op_rep_push:
  assumes "op_rep nx q xs" "h \<notin> set xs" "op_push h (nx, q) = (nx', q')"
  shows "op_rep nx' q' (xs @ [h]) \<and> (\<forall>x. x \<notin> set xs \<longrightarrow> x \<noteq> h \<longrightarrow> nx' x = nx x)"
proof (cases "xs = []")
  case False
  then have "nx' = nx(h := None, last xs := Some h)" "q' = \<lparr>op_front = Some (hd xs), op_back = Some h\<rparr>"
    using assms by (auto simp: op_rep_def op_push_def)
  moreover have "links (nx(h := None)) xs" using assms by (simp add: op_rep_def links_fun_upd)
  ultimately show ?thesis
    using links_append [of xs "[h]" "nx(h := None)"] assms False by (auto simp: op_rep_def)
qed (use assms in \<open>auto simp: op_rep_def op_push_def op_queue_new_def\<close>)

lemma op_rep_pop:
  assumes "op_rep nx q xs" "op_pop (nx, q) = (nx', q')"
  shows "op_rep nx' q' (tl xs) \<and> (\<forall>x. x \<notin> set xs \<longrightarrow> nx' x = nx x) \<and> (xs \<noteq> [] \<longrightarrow> nx' (hd xs) = None)"
proof (cases xs)
  case (Cons x ys)
  then show ?thesis
    using assms by (auto simp: op_rep_def op_pop_def op_queue_new_def links_Cons links_fun_upd Let_def split: if_splits)
qed (use assms in \<open>auto simp: op_rep_def op_pop_def op_queue_new_def\<close>)

lemma op_rep_push_queue:
  assumes "op_rep nx q xs" "op_rep nx q2 ys" "set xs \<inter> set ys = {}" "op_push_queue nx q q2 = (nx', q', q2')"
  shows "op_rep nx' q' (xs @ ys) \<and> op_rep nx' q2' [] \<and> (\<forall>x. x \<notin> set xs \<longrightarrow> nx' x = nx x)"
proof (cases "xs = [] \<or> ys = []")
  case True
  then show ?thesis using assms
    by (auto simp: op_rep_def op_push_queue_def op_queue_new_def split: if_splits)
next
  case False
  then have "nx' = nx(last xs := Some (hd ys))" "q' = \<lparr>op_front = Some (hd xs), op_back = Some (last ys)\<rparr>"
    "q2' = op_queue_new"
    using assms by (auto simp: op_rep_def op_push_queue_def op_queue_new_def)
  then show ?thesis using links_append [of xs ys nx] assms False by (auto simp: op_rep_def)
qed

lemma op_rep_destroy_all: "op_rep nx q xs \<Longrightarrow> op_destroy_all (nx, q) = Some xs"
proof (induction xs arbitrary: nx q)
  case Nil
  then show ?case by (subst op_destroy_all.simps) (simp add: op_rep_front)
next
  case (Cons x xs)
  obtain nx' q' where p: "op_pop (nx, q) = (nx', q')" by fastforce
  from op_rep_pop [OF Cons.prems p] have "op_destroy_all (nx', q') = Some xs" by (simp add: Cons.IH)
  then show ?case using Cons.prems by (subst op_destroy_all.simps) (simp add: op_rep_front p)
qed

section \<open>Sequences of calls on two queues\<close>

datatype op_call = Push1 op | Push2 op | Pop1 | Pop2 | Splice

fun op_call_step :: "op_call \<Rightarrow> op_links \<times> op_queue \<times> op_queue \<Rightarrow> op_links \<times> op_queue \<times> op_queue" where
  "op_call_step (Push1 h) (nx, q, q2) = (let (nx, q) = op_push h (nx, q) in (nx, q, q2))"
| "op_call_step (Push2 h) (nx, q, q2) = (let (nx, q2) = op_push h (nx, q2) in (nx, q, q2))"
| "op_call_step Pop1 (nx, q, q2) = (let (nx, q) = op_pop (nx, q) in (nx, q, q2))"
| "op_call_step Pop2 (nx, q, q2) = (let (nx, q2) = op_pop (nx, q2) in (nx, q, q2))"
| "op_call_step Splice (nx, q, q2) = op_push_queue nx q q2"

fun list_call_step :: "op_call \<Rightarrow> op list \<times> op list \<Rightarrow> op list \<times> op list" where
  "list_call_step (Push1 h) (xs, ys) = (xs @ [h], ys)"
| "list_call_step (Push2 h) (xs, ys) = (xs, ys @ [h])"
| "list_call_step Pop1 (xs, ys) = (tl xs, ys)"
| "list_call_step Pop2 (xs, ys) = (xs, tl ys)"
| "list_call_step Splice (xs, ys) = (xs @ ys, [])"

text \<open>What the callers observe: an operation is pushed only while no queue holds it.\<close>

fun pushes_fresh :: "op_call list \<Rightarrow> op list \<times> op list \<Rightarrow> bool" where
  "pushes_fresh [] s \<longleftrightarrow> True"
| "pushes_fresh (c # cs) s \<longleftrightarrow>
     (case c of Push1 h \<Rightarrow> h \<notin> set (fst s @ snd s) | Push2 h \<Rightarrow> h \<notin> set (fst s @ snd s) | _ \<Rightarrow> True) \<and>
     pushes_fresh cs (list_call_step c s)"

definition op_rep2 :: "op_links \<times> op_queue \<times> op_queue \<Rightarrow> op list \<times> op list \<Rightarrow> bool" where
  "op_rep2 = (\<lambda>(nx, q, q2) (xs, ys). op_rep nx q xs \<and> op_rep nx q2 ys \<and> set xs \<inter> set ys = {} \<and>
     (\<forall>h. h \<notin> set xs \<longrightarrow> h \<notin> set ys \<longrightarrow> nx h = None))"

lemma op_rep_links_cong: "op_rep nx q xs \<Longrightarrow> (\<And>h. h \<in> set xs \<Longrightarrow> nx' h = nx h) \<Longrightarrow> op_rep nx' q xs"
proof -
  have "(\<And>h. h \<in> set xs \<Longrightarrow> nx' h = nx h) \<Longrightarrow> links nx xs \<Longrightarrow> links nx' xs"
    by (induction xs) (auto simp: links_Cons)
  then show "op_rep nx q xs \<Longrightarrow> (\<And>h. h \<in> set xs \<Longrightarrow> nx' h = nx h) \<Longrightarrow> op_rep nx' q xs"
    by (simp add: op_rep_def)
qed

lemma op_call_refines:
  assumes "op_rep2 s l" "pushes_fresh [c] l"
  shows "op_rep2 (op_call_step c s) (list_call_step c l)"
proof -
  obtain nx q q2 where s: "s = (nx, q, q2)" by (cases s) auto
  obtain xs ys where l: "l = (xs, ys)" by (cases l) auto
  have r: "op_rep nx q xs" "op_rep nx q2 ys" "set xs \<inter> set ys = {}"
    "\<And>h. h \<notin> set xs \<Longrightarrow> h \<notin> set ys \<Longrightarrow> nx h = None"
    using assms(1) by (auto simp: s l op_rep2_def)
  note tls = list.set_sel(2)
  show ?thesis
  proof (cases c)
    case (Push1 h)
    obtain nx' q' where p: "op_push h (nx, q) = (nx', q')" by fastforce
    have h: "h \<notin> set xs" "h \<notin> set ys" using assms(2) by (auto simp: Push1 l)
    note f = op_rep_push [OF r(1) h(1) p]
    have "op_rep nx' q2 ys" using f h r(3) by (intro op_rep_links_cong [OF r(2)]) auto
    then show ?thesis using f r h by (auto simp: s l Push1 op_rep2_def p)
  next
    case (Push2 h)
    obtain nx' q' where p: "op_push h (nx, q2) = (nx', q')" by fastforce
    have h: "h \<notin> set xs" "h \<notin> set ys" using assms(2) by (auto simp: Push2 l)
    note f = op_rep_push [OF r(2) h(2) p]
    have "op_rep nx' q xs" using f h r(3) by (intro op_rep_links_cong [OF r(1)]) auto
    then show ?thesis using f r h by (auto simp: s l Push2 op_rep2_def p)
  next
    case Pop1
    obtain nx' q' where p: "op_pop (nx, q) = (nx', q')" by fastforce
    note f = op_rep_pop [OF r(1) p]
    have g: "op_rep nx' q2 ys" using f r(3) by (intro op_rep_links_cong [OF r(2)]) auto
    have "nx' h = None" if "h \<notin> set (tl xs)" "h \<notin> set ys" for h
      using f r(4) that by (cases xs; cases "h \<in> set xs") auto
    then show ?thesis using f g r by (cases xs) (auto simp: s l Pop1 op_rep2_def p)
  next
    case Pop2
    obtain nx' q' where p: "op_pop (nx, q2) = (nx', q')" by fastforce
    note f = op_rep_pop [OF r(2) p]
    have g: "op_rep nx' q xs" using f r(3) by (intro op_rep_links_cong [OF r(1)]) auto
    have "nx' h = None" if "h \<notin> set xs" "h \<notin> set (tl ys)" for h
      using f r(4) that by (cases ys; cases "h \<in> set ys") auto
    then show ?thesis using f g r by (cases ys) (auto simp: s l Pop2 op_rep2_def p)
  next
    case Splice
    obtain nx' q' q2' where p: "op_push_queue nx q q2 = (nx', q', q2')" by (metis prod_cases3)
    note f = op_rep_push_queue [OF r(1-3) p]
    then show ?thesis using r by (auto simp: s l Splice op_rep2_def p)
  qed
qed

lemma op_calls_refine:
  "op_rep2 s l \<Longrightarrow> pushes_fresh cs l \<Longrightarrow> op_rep2 (fold op_call_step cs s) (fold list_call_step cs l)"
proof (induction cs arbitrary: s l)
  case (Cons c cs)
  then have "op_rep2 (op_call_step c s) (list_call_step c l)" by (intro op_call_refines) auto
  then show ?case using Cons by simp
qed simp

lemma op_rep2_enqueued:
  assumes "op_rep2 (nx, q, q2) (xs, ys)" "h \<notin> set ys"
  shows "op_is_enqueued nx h q \<longleftrightarrow> h \<in> set xs"
proof -
  have "links nx xs \<Longrightarrow> xs \<noteq> [] \<Longrightarrow> h \<in> set xs \<Longrightarrow> nx h \<noteq> None \<or> last xs = h" for xs
    by (induction xs) (auto simp: links_Cons split: if_splits)
  then show ?thesis using assms
    by (cases "xs = []") (auto simp: op_rep2_def op_rep_def op_is_enqueued_def op_queue_new_def)
qed



end
