(* ===== verification/Scheduler.thy ===== *)
theory Scheduler
  imports OpQueue
begin

text \<open>
  The scheduler behind \<open>io_context\<close>: \<^verbatim>\<open>asio/detail/scheduler.hpp\<close>, \<^verbatim>\<open>asio/detail/impl/scheduler.ipp\<close>
  and the event of \<^verbatim>\<open>asio/detail/std_event.hpp\<close>. Queues of operations are the lists that the linked
  queues of \<open>OpQueue\<close> represent. Every stretch of code between taking and releasing the mutex is one
  function; the threads that run, poll and post are a transition system over these functions.
\<close>

unbundle bit_operations_syntax

section \<open>The event that wakes threads\<close>

text \<open>\<open>state_\<close> of the event holds the signalled flag in its lowest bit and the number of waiters above it.\<close>

record sched_event =
  signalled :: bool
  waiters :: nat

definition ev_new :: sched_event where
  "ev_new = \<lparr>signalled = False, waiters = 0\<rparr>"

definition ev_signal_all :: "sched_event \<Rightarrow> sched_event" where
  "ev_signal_all e = e\<lparr>signalled := True\<rparr>"

text \<open>The result says whether a waiter is notified.\<close>

definition ev_unlock_and_signal_one :: "sched_event \<Rightarrow> bool \<times> sched_event" where
  "ev_unlock_and_signal_one e = (let e = e\<lparr>signalled := True\<rparr> in (waiters e > 0, e))"

definition ev_maybe_unlock_and_signal_one :: "sched_event \<Rightarrow> bool \<times> sched_event" where
  "ev_maybe_unlock_and_signal_one e = (let e = e\<lparr>signalled := True\<rparr> in (waiters e > 0, e))"

definition ev_clear :: "sched_event \<Rightarrow> sched_event" where
  "ev_clear e = e\<lparr>signalled := False\<rparr>"

text \<open>
  \<open>wait\<close> counts itself as a waiter while it sleeps, and looks at the flag again when it is woken;
  the results say whether it goes on (\<open>True\<close>) or sleeps. The timed wait sleeps once.
\<close>

definition ev_wait :: "sched_event \<Rightarrow> bool \<times> sched_event" where
  "ev_wait e = (if \<not> signalled e then (False, e\<lparr>waiters := waiters e + 1\<rparr>) else (True, e))"

definition ev_wait_for_usec :: "sched_event \<Rightarrow> bool \<times> sched_event" where
  "ev_wait_for_usec e = (if \<not> signalled e then (False, e\<lparr>waiters := waiters e + 1\<rparr>) else (True, e))"

definition ev_unwait :: "sched_event \<Rightarrow> sched_event" where
  "ev_unwait e = e\<lparr>waiters := waiters e - 1\<rparr>"

section \<open>The scheduler's state\<close>

text \<open>
  What a queue holds: the marker of the task (the reactor), a completed operation of the user, for
  which work was counted when it was started, or the state of a descriptor that the reactor has found
  ready, for which no work is counted.
\<close>

datatype operation = TaskOperation | Completion op | DescriptorState nat

record scheduler =
  one_thread :: bool
  task :: bool
  task_interrupted :: bool
  interrupts :: nat
  outstanding_work :: int
  sched_queue :: "operation list"
  stopped :: bool
  shut_down :: bool
  wakeup_event :: sched_event

text \<open>
  The concurrency hint says whether locking is done at all and whether one thread runs. The event
  above is that of a scheduler with locking, such as \<open>io_context()\<close> makes with the hint \<open>- 1\<close>.
\<close>

definition CONCURRENCY_HINT_ID :: u32 where "CONCURRENCY_HINT_ID = 0xA5100000"
definition CONCURRENCY_HINT_ID_MASK :: u32 where "CONCURRENCY_HINT_ID_MASK = 0xFFFF0000"
definition LOCKING_SCHEDULER :: u32 where "LOCKING_SCHEDULER = 1"
definition LOCKING_REACTOR_IO :: u32 where "LOCKING_REACTOR_IO = 4"

definition hint_is_locking :: "u32 \<Rightarrow> u32 \<Rightarrow> bool" where
  "hint_is_locking facility hint \<longleftrightarrow>
     (hint AND (CONCURRENCY_HINT_ID_MASK OR facility)) XOR CONCURRENCY_HINT_ID \<noteq> 0"

definition scheduler_new :: "u32 \<Rightarrow> scheduler" where
  "scheduler_new concurrency_hint =
     \<lparr>one_thread = (concurrency_hint = 1 \<or> \<not> hint_is_locking LOCKING_SCHEDULER concurrency_hint \<or>
        \<not> hint_is_locking LOCKING_REACTOR_IO concurrency_hint), task = False, task_interrupted = True, interrupts = 0,
      outstanding_work = 0, sched_queue = [], stopped = False, shut_down = False, wakeup_event = ev_new\<rparr>"

text \<open>
  A thread inside \<open>run\<close>, \<open>run_one\<close>, \<open>wait_one\<close>, \<open>poll\<close> or \<open>poll_one\<close>: its \<open>thread_info\<close>, the count \<open>n\<close> of
  handlers it has run, and where it is.
\<close>

datatype run_call = Run | RunOne | WaitOne | Poll | PollOne

datatype place =
    Outside
  | Loop run_call
  | Sleeps run_call
  | InTask run_call
  | InHandler run_call operation
  | Returned size_t

record thread_info =
  private_outstanding_work :: int
  private_op_queue :: "operation list"
  handlers_run :: size_t
  place :: place

section \<open>Stopping, waking and work\<close>

definition interrupt_task :: "scheduler \<Rightarrow> scheduler" where
  "interrupt_task s =
     (if \<not> task_interrupted s \<and> task s
      then s\<lparr>task_interrupted := True, interrupts := interrupts s + 1\<rparr> else s)"

definition stop_all_threads :: "scheduler \<Rightarrow> scheduler" where
  "stop_all_threads s = interrupt_task (s\<lparr>stopped := True, wakeup_event := ev_signal_all (wakeup_event s)\<rparr>)"

definition sched_stop :: "scheduler \<Rightarrow> scheduler" where
  "sched_stop s = stop_all_threads s"

definition sched_restart :: "scheduler \<Rightarrow> scheduler" where
  "sched_restart s = s\<lparr>stopped := False\<rparr>"

definition wake_one_thread_and_unlock :: "scheduler \<Rightarrow> scheduler" where
  "wake_one_thread_and_unlock s =
     (let (woken, e) = ev_maybe_unlock_and_signal_one (wakeup_event s);
          s = s\<lparr>wakeup_event := e\<rparr>
      in if \<not> woken then interrupt_task s else s)"

definition work_started :: "scheduler \<Rightarrow> scheduler" where
  "work_started s = s\<lparr>outstanding_work := outstanding_work s + 1\<rparr>"

definition work_finished :: "scheduler \<Rightarrow> scheduler" where
  "work_finished s =
     (let s = s\<lparr>outstanding_work := outstanding_work s - 1\<rparr>
      in if outstanding_work s = 0 then sched_stop s else s)"

definition compensating_work_started :: "thread_info \<Rightarrow> thread_info" where
  "compensating_work_started t = t\<lparr>private_outstanding_work := private_outstanding_work t + 1\<rparr>"

definition init_task :: "scheduler \<Rightarrow> scheduler" where
  "init_task s =
     (if \<not> shut_down s \<and> \<not> task s
      then wake_one_thread_and_unlock (s\<lparr>task := True, sched_queue := sched_queue s @ [TaskOperation]\<rparr>)
      else s)"

text \<open>\<open>shutdown\<close> of a scheduler without a thread of its own: the operations it destroys, in order.\<close>

definition sched_shutdown :: "scheduler \<Rightarrow> operation list \<times> scheduler" where
  "sched_shutdown s =
     (let s = s\<lparr>shut_down := True\<rparr>
      in (filter (\<lambda>o'. o' \<noteq> TaskOperation) (sched_queue s), s\<lparr>sched_queue := [], task := False\<rparr>))"

section \<open>Posting operations\<close>

text \<open>
  \<open>this_thread\<close> is the calling thread's information if it is inside a run function of this scheduler,
  and \<open>None\<close> for any other thread.
\<close>

definition enqueue :: "operation list \<Rightarrow> scheduler \<Rightarrow> scheduler" where
  "enqueue ops s = wake_one_thread_and_unlock (s\<lparr>sched_queue := sched_queue s @ ops\<rparr>)"

definition post_immediate_completion :: "operation \<Rightarrow> bool \<Rightarrow> thread_info option \<times> scheduler \<Rightarrow>
    thread_info option \<times> scheduler" where
  "post_immediate_completion op' is_continuation = (\<lambda>(this_thread, s).
     case this_thread of
       Some t \<Rightarrow>
         if one_thread s \<or> is_continuation
         then (Some (t\<lparr>private_outstanding_work := private_outstanding_work t + 1,
                 private_op_queue := private_op_queue t @ [op']\<rparr>), s)
         else (Some t, enqueue [op'] (work_started s))
     | None \<Rightarrow> (None, enqueue [op'] (work_started s)))"

definition post_immediate_completions :: "operation list \<Rightarrow> bool \<Rightarrow> thread_info option \<times> scheduler \<Rightarrow>
    thread_info option \<times> scheduler" where
  "post_immediate_completions ops is_continuation = (\<lambda>(this_thread, s).
     let n = int (length ops); more = s\<lparr>outstanding_work := outstanding_work s + n\<rparr> in
     case this_thread of
       Some t \<Rightarrow>
         if one_thread s \<or> is_continuation
         then (Some (t\<lparr>private_outstanding_work := private_outstanding_work t + n,
                 private_op_queue := private_op_queue t @ ops\<rparr>), s)
         else (Some t, enqueue ops more)
     | None \<Rightarrow> (None, enqueue ops more))"

definition post_deferred_completion :: "operation \<Rightarrow> thread_info option \<times> scheduler \<Rightarrow>
    thread_info option \<times> scheduler" where
  "post_deferred_completion op' = (\<lambda>(this_thread, s).
     case this_thread of
       Some t \<Rightarrow>
         if one_thread s then (Some (t\<lparr>private_op_queue := private_op_queue t @ [op']\<rparr>), s)
         else (Some t, enqueue [op'] s)
     | None \<Rightarrow> (None, enqueue [op'] s))"

definition post_deferred_completions :: "operation list \<Rightarrow> thread_info option \<times> scheduler \<Rightarrow>
    thread_info option \<times> scheduler" where
  "post_deferred_completions ops = (\<lambda>(this_thread, s).
     if ops = [] then (this_thread, s)
     else case this_thread of
       Some t \<Rightarrow>
         if one_thread s then (Some (t\<lparr>private_op_queue := private_op_queue t @ ops\<rparr>), s)
         else (Some t, enqueue ops s)
     | None \<Rightarrow> (None, enqueue ops s))"

definition do_dispatch :: "operation \<Rightarrow> scheduler \<Rightarrow> scheduler" where
  "do_dispatch op' s = enqueue [op'] (work_started s)"

section \<open>Running\<close>

text \<open>The cleanups that run when the task or a handler is left, also by an exception.\<close>

definition task_cleanup :: "thread_info \<times> scheduler \<Rightarrow> thread_info \<times> scheduler" where
  "task_cleanup = (\<lambda>(t, s).
     let s = (if private_outstanding_work t > 0
              then s\<lparr>outstanding_work := outstanding_work s + private_outstanding_work t\<rparr> else s);
         s = s\<lparr>task_interrupted := True,
               sched_queue := sched_queue s @ private_op_queue t @ [TaskOperation]\<rparr>
     in (t\<lparr>private_outstanding_work := 0, private_op_queue := []\<rparr>, s))"

definition work_cleanup :: "thread_info \<times> scheduler \<Rightarrow> thread_info \<times> scheduler" where
  "work_cleanup = (\<lambda>(t, s).
     let w = private_outstanding_work t;
         s = (if w > 1 then s\<lparr>outstanding_work := outstanding_work s + (w - 1)\<rparr>
              else if w < 1 then work_finished s else s);
         s = (if private_op_queue t \<noteq> []
              then s\<lparr>sched_queue := sched_queue s @ private_op_queue t\<rparr> else s)
     in (t\<lparr>private_outstanding_work := 0, private_op_queue := []\<rparr>, s))"

text \<open>What a run function does with the result of one turn.\<close>

definition size_max :: size_t where "size_max = - 1"

definition turn_done :: "run_call \<Rightarrow> bool \<Rightarrow> thread_info \<Rightarrow> thread_info" where
  "turn_done c did t =
     (if c = Run \<or> c = Poll
      then if did
           then t\<lparr>handlers_run := (if handlers_run t \<noteq> size_max then handlers_run t + 1 else handlers_run t),
                  place := Loop c\<rparr>
           else t\<lparr>place := Returned (handlers_run t)\<rparr>
      else t\<lparr>place := Returned (if did then 1 else 0)\<rparr>)"

text \<open>
  The head of every run function. For the two that poll, \<open>outer\<close> is the information of the run
  function that the calling handler is in, if any: its private operations are moved to the queue.
\<close>

definition run_head :: "run_call \<Rightarrow> thread_info \<times> scheduler \<Rightarrow> thread_info \<times> scheduler" where
  "run_head c = (\<lambda>(t, s).
     if outstanding_work s = 0 then (t\<lparr>place := Returned 0\<rparr>, sched_stop s)
     else (t\<lparr>private_outstanding_work := 0, private_op_queue := [], handlers_run := 0, place := Loop c\<rparr>, s))"

definition poll_head :: "run_call \<Rightarrow> thread_info option \<Rightarrow> thread_info \<times> scheduler \<Rightarrow>
    thread_info option \<times> thread_info \<times> scheduler" where
  "poll_head c outer = (\<lambda>(t, s).
     let (t, s) = run_head c (t, s) in
     case outer of
       Some out \<Rightarrow>
         if place t = Loop c \<and> one_thread s
         then (Some (out\<lparr>private_op_queue := []\<rparr>), t, s\<lparr>sched_queue := sched_queue s @ private_op_queue out\<rparr>)
         else (Some out, t, s)
     | None \<Rightarrow> (None, t, s))"

text \<open>A handler from the front of the queue is about to run: \<open>ops\<close> is what is queued behind it.\<close>

definition start_handler :: "run_call \<Rightarrow> operation \<Rightarrow> operation list \<Rightarrow> thread_info \<times> scheduler \<Rightarrow>
    thread_info \<times> scheduler" where
  "start_handler c op' ops = (\<lambda>(t, s).
     let s = s\<lparr>sched_queue := ops\<rparr>; more_handlers = (ops \<noteq> []);
         s = (if more_handlers \<and> \<not> one_thread s then wake_one_thread_and_unlock s else s)
     in (t\<lparr>place := InHandler c op'\<rparr>, s))"

definition start_task :: "run_call \<Rightarrow> operation list \<Rightarrow> thread_info \<times> scheduler \<Rightarrow> thread_info \<times> scheduler" where
  "start_task c ops = (\<lambda>(t, s).
     let s = s\<lparr>sched_queue := ops\<rparr>; more_handlers = (ops \<noteq> []);
         s = s\<lparr>task_interrupted := more_handlers\<rparr>;
         s = (if more_handlers \<and> \<not> one_thread s
              then s\<lparr>wakeup_event := snd (ev_unlock_and_signal_one (wakeup_event s))\<rparr> else s)
     in (t\<lparr>place := InTask c\<rparr>, s))"

text \<open>One turn of \<open>do_run_one\<close>'s loop.\<close>

definition do_run_one :: "run_call \<Rightarrow> thread_info \<times> scheduler \<Rightarrow> thread_info \<times> scheduler" where
  "do_run_one c = (\<lambda>(t, s).
     if stopped s then (turn_done c False t, s)
     else case sched_queue s of
       op' # ops \<Rightarrow> if op' = TaskOperation then start_task c ops (t, s) else start_handler c op' ops (t, s)
     | [] \<Rightarrow>
         let (go_on, e) = ev_wait (ev_clear (wakeup_event s))
         in (if go_on then t else t\<lparr>place := Sleeps c\<rparr>, s\<lparr>wakeup_event := e\<rparr>))"

text \<open>
  \<open>do_wait_one\<close>: \<open>wait_one_front\<close> is the part after the only wait, \<open>wait_one_tail\<close> the one after the task.
\<close>

definition wait_one_tail :: "thread_info \<times> scheduler \<Rightarrow> thread_info \<times> scheduler" where
  "wait_one_tail = (\<lambda>(t, s).
     case sched_queue s of
       [] \<Rightarrow> (turn_done WaitOne False t, s)
     | op' # ops \<Rightarrow> start_handler WaitOne op' ops (t, s))"

definition wait_one_front :: "thread_info \<times> scheduler \<Rightarrow> thread_info \<times> scheduler" where
  "wait_one_front = (\<lambda>(t, s).
     case sched_queue s of
       op' # ops \<Rightarrow> if op' = TaskOperation then start_task WaitOne ops (t, s) else wait_one_tail (t, s)
     | [] \<Rightarrow> wait_one_tail (t, s))"

definition do_wait_one :: "thread_info \<times> scheduler \<Rightarrow> thread_info \<times> scheduler" where
  "do_wait_one = (\<lambda>(t, s).
     if stopped s then (turn_done WaitOne False t, s)
     else if sched_queue s = []
     then let (go_on, e) = ev_wait_for_usec (ev_clear (wakeup_event s)); s = s\<lparr>wakeup_event := e\<rparr>
          in if go_on then wait_one_front (t, s) else (t\<lparr>place := Sleeps WaitOne\<rparr>, s)
     else wait_one_front (t, s))"

definition do_poll_one :: "run_call \<Rightarrow> thread_info \<times> scheduler \<Rightarrow> thread_info \<times> scheduler" where
  "do_poll_one c = (\<lambda>(t, s).
     if stopped s then (turn_done c False t, s)
     else case sched_queue s of
       [] \<Rightarrow> (turn_done c False t, s)
     | op' # ops \<Rightarrow>
         if op' = TaskOperation then (t\<lparr>place := InTask c\<rparr>, s\<lparr>sched_queue := ops\<rparr>)
         else start_handler c op' ops (t, s))"

definition turn :: "run_call \<Rightarrow> thread_info \<times> scheduler \<Rightarrow> thread_info \<times> scheduler" where
  "turn c = (case c of Run \<Rightarrow> do_run_one c | RunOne \<Rightarrow> do_run_one c | WaitOne \<Rightarrow> do_wait_one
     | Poll \<Rightarrow> do_poll_one c | PollOne \<Rightarrow> do_poll_one c)"

text \<open>
  The task has returned: its operations, already in the thread's private queue, are queued with the
  task behind them, and the functions that run it for one handler at most look at the front again.
\<close>

definition after_task :: "run_call \<Rightarrow> thread_info \<times> scheduler \<Rightarrow> thread_info \<times> scheduler" where
  "after_task c = (\<lambda>(t, s).
     let (t, s) = task_cleanup (t, s) in
     if c = Run \<or> c = RunOne then (t\<lparr>place := Loop c\<rparr>, s)
     else case sched_queue s of
       [] \<Rightarrow> (turn_done c False t, s)
     | op' # ops \<Rightarrow>
         if op' = TaskOperation
         then (turn_done c False t,
               if c = WaitOne \<and> one_thread s then s
               else s\<lparr>wakeup_event := snd (ev_maybe_unlock_and_signal_one (wakeup_event s))\<rparr>)
         else start_handler c op' ops (t, s))"

text \<open>A sleeping thread has been woken and has the mutex again.\<close>

definition woken :: "run_call \<Rightarrow> thread_info \<times> scheduler \<Rightarrow> thread_info \<times> scheduler" where
  "woken c = (\<lambda>(t, s).
     let s = s\<lparr>wakeup_event := ev_unwait (wakeup_event s)\<rparr> in
     if c = WaitOne then wait_one_front (t, s)
     else let (go_on, e) = ev_wait (wakeup_event s); s = s\<lparr>wakeup_event := e\<rparr>
          in (if go_on then t\<lparr>place := Loop c\<rparr> else t, s))"

text \<open>The handler has returned.\<close>

definition after_handler :: "run_call \<Rightarrow> thread_info \<times> scheduler \<Rightarrow> thread_info \<times> scheduler" where
  "after_handler c = (\<lambda>(t, s). let (t, s) = work_cleanup (t, s) in (turn_done c True t, s))"

end
