(* ===== verification/TimerService.thy ===== *)
theory TimerService
  imports TimeTraits Scheduler
begin

text \<open>
  The timers of the reactor and the timer objects: the set of timer queues
  (\<^verbatim>\<open>asio/detail/impl/timer_queue_set.ipp\<close>), the timeouts and timer calls of the reactor
  (\<^verbatim>\<open>asio/detail/impl/epoll_reactor.ipp\<close> and \<^verbatim>\<open>.hpp\<close>) and \<^verbatim>\<open>asio/detail/deadline_timer_service.hpp\<close>, with
  times of a clock that counts nanoseconds.
\<close>

section \<open>How long to wait\<close>

definition steady_msec :: "int \<Rightarrow> int \<Rightarrow> int \<times> int" where
  "steady_msec t now = (let d = the (time_subtract t now) in (d, the (total_milliseconds 1 1000000000 d)))"

definition steady_usec :: "int \<Rightarrow> int \<Rightarrow> int \<times> int" where
  "steady_usec t now = (let d = the (time_subtract t now) in (d, the (total_microseconds 1 1000000000 d)))"

text \<open>The set is the linked list of queues, the last inserted first.\<close>

definition queue_set_insert :: "'q \<Rightarrow> 'q list \<Rightarrow> 'q list" where
  "queue_set_insert q qs = q # qs"

fun queue_set_erase :: "'q \<Rightarrow> 'q list \<Rightarrow> 'q list" where
  "queue_set_erase q [] = []"
| "queue_set_erase q (p # ps) = (if p = q then ps else p # queue_set_erase q ps)"

definition queue_set_all_empty :: "int timer_queue list \<Rightarrow> bool" where
  "queue_set_all_empty qs = list_all timer_queue_empty qs"

definition queue_set_wait_duration_msec :: "int \<Rightarrow> int \<Rightarrow> int timer_queue list \<Rightarrow> int" where
  "queue_set_wait_duration_msec now max_duration qs =
     fold (\<lambda>q min_duration. wait_duration steady_msec now min_duration q) qs max_duration"

definition queue_set_wait_duration_usec :: "int \<Rightarrow> int \<Rightarrow> int timer_queue list \<Rightarrow> int" where
  "queue_set_wait_duration_usec now max_duration qs =
     fold (\<lambda>q min_duration. wait_duration steady_usec now min_duration q) qs max_duration"

fun queue_set_get_ready :: "int \<Rightarrow> completed_ops \<Rightarrow> int timer_queue list \<Rightarrow>
    (completed_ops \<times> int timer_queue list) option" where
  "queue_set_get_ready now ops [] = Some (ops, [])"
| "queue_set_get_ready now ops (q # qs) =
     do {
       (ops, q) \<leftarrow> get_ready_timers now ops q;
       (ops, qs) \<leftarrow> queue_set_get_ready now ops qs;
       Some (ops, q # qs)
     }"

text \<open>Without a timer descriptor the wait is at most five minutes; with one, its time is never zero.\<close>

definition get_timeout :: "int \<Rightarrow> int timer_queue list \<Rightarrow> int \<Rightarrow> int" where
  "get_timeout now qs msec =
     (let max_msec = 5 * 60 * 1000
      in queue_set_wait_duration_msec now (if msec < 0 \<or> max_msec < msec then max_msec else msec) qs)"

definition TFD_TIMER_ABSTIME :: int where "TFD_TIMER_ABSTIME = 1"

record itimerspec =
  it_sec :: int
  it_nsec :: int

definition get_timeout_spec :: "int \<Rightarrow> int timer_queue list \<Rightarrow> itimerspec \<times> int" where
  "get_timeout_spec now qs =
     (let usec = queue_set_wait_duration_usec now (5 * 60 * 1000 * 1000) qs
      in (\<lparr>it_sec = usec sdiv 1000000, it_nsec = (if usec \<noteq> 0 then (usec smod 1000000) * 1000 else 1)\<rparr>,
          if usec \<noteq> 0 then 0 else TFD_TIMER_ABSTIME))"

section \<open>The reactor's timer calls\<close>

text \<open>
  One timer queue with the thread and scheduler it posts to, the wait operations that were given to the
  scheduler with their errors, and how often the reactor's timeout was updated.
\<close>

record timer_system =
  ts_queue :: "int timer_queue"
  ts_thread :: "thread_info option"
  ts_sched :: scheduler
  ts_completed :: completed_ops
  ts_updates :: nat
  ts_shutdown :: bool

definition ts_with_scheduler :: "(thread_info option \<times> scheduler \<Rightarrow> thread_info option \<times> scheduler) \<Rightarrow>
    timer_system \<Rightarrow> timer_system" where
  "ts_with_scheduler f s = (let (t, sc) = f (ts_thread s, ts_sched s) in s\<lparr>ts_thread := t, ts_sched := sc\<rparr>)"

definition ts_post_deferred :: "completed_ops \<Rightarrow> timer_system \<Rightarrow> timer_system" where
  "ts_post_deferred ops s =
     ts_with_scheduler (post_deferred_completions (map (\<lambda>(w, e). Completion (wait_op_id w)) ops))
       (s\<lparr>ts_completed := ts_completed s @ ops\<rparr>)"

definition schedule_timer :: "int \<Rightarrow> timer \<Rightarrow> wait_op \<Rightarrow> timer_system \<Rightarrow> timer_system" where
  "schedule_timer time t w s =
     (if ts_shutdown s
      then ts_with_scheduler (post_immediate_completion (Completion (wait_op_id w)) False)
             (s\<lparr>ts_completed := ts_completed s @ [(w, TimerExpired)]\<rparr>)
      else
        let (earliest, q) = enqueue_timer (\<lambda>t. False) time t w (ts_queue s);
            s = ts_with_scheduler (\<lambda>(t, sc). (t, work_started sc)) (s\<lparr>ts_queue := q\<rparr>)
        in if earliest then s\<lparr>ts_updates := ts_updates s + 1\<rparr> else s)"

definition reactor_cancel_timer :: "timer \<Rightarrow> nat \<Rightarrow> timer_system \<Rightarrow> nat \<times> timer_system" where
  "reactor_cancel_timer t max_cancelled s =
     (let (n, ops, q) = cancel_timer t [] max_cancelled (ts_queue s)
      in (n, ts_post_deferred ops (s\<lparr>ts_queue := q\<rparr>)))"

definition reactor_cancel_timer_by_key :: "timer \<Rightarrow> nat \<Rightarrow> timer_system \<Rightarrow> timer_system" where
  "reactor_cancel_timer_by_key t key s =
     (let (ops, q) = cancel_timer_by_key t [] key (ts_queue s)
      in ts_post_deferred ops (s\<lparr>ts_queue := q\<rparr>))"

definition reactor_move_timer :: "timer \<Rightarrow> timer \<Rightarrow> timer_system \<Rightarrow> timer_system" where
  "reactor_move_timer target source s =
     (let (n, ops, q) = cancel_timer target [] SIZE_T_MAX (ts_queue s)
      in ts_post_deferred ops (s\<lparr>ts_queue := move_timer target source q\<rparr>))"

section \<open>Timer objects\<close>

text \<open>\<open>timer_data\<close> of the implementation is the timer \<open>impl_timer\<close> of the queue.\<close>

record timer_impl =
  expiry :: int
  might_have_pending_waits :: bool
  impl_timer :: timer

definition timer_construct :: "timer_impl \<Rightarrow> timer_impl" where
  "timer_construct impl = impl\<lparr>expiry := 0, might_have_pending_waits := False\<rparr>"

definition service_cancel :: "timer_impl \<Rightarrow> timer_system \<Rightarrow> nat \<times> timer_impl \<times> timer_system" where
  "service_cancel impl s =
     (if \<not> might_have_pending_waits impl then (0, impl, s)
      else
        let (count, s) = reactor_cancel_timer (impl_timer impl) SIZE_T_MAX s
        in (count, impl\<lparr>might_have_pending_waits := False\<rparr>, s))"

definition timer_destroy :: "timer_impl \<Rightarrow> timer_system \<Rightarrow> timer_impl \<times> timer_system" where
  "timer_destroy impl s = snd (service_cancel impl s)"

definition cancel_one :: "timer_impl \<Rightarrow> timer_system \<Rightarrow> nat \<times> timer_impl \<times> timer_system" where
  "cancel_one impl s =
     (if \<not> might_have_pending_waits impl then (0, impl, s)
      else
        let (count, s) = reactor_cancel_timer (impl_timer impl) 1 s
        in (count, if count = 0 then impl\<lparr>might_have_pending_waits := False\<rparr> else impl, s))"

definition timer_move_construct :: "timer_impl \<Rightarrow> timer_impl \<Rightarrow> timer_system \<Rightarrow> timer_impl \<times> timer_impl \<times> timer_system" where
  "timer_move_construct impl other_impl s =
     (impl\<lparr>expiry := expiry other_impl, might_have_pending_waits := might_have_pending_waits other_impl\<rparr>,
      other_impl\<lparr>expiry := 0, might_have_pending_waits := False\<rparr>,
      reactor_move_timer (impl_timer impl) (impl_timer other_impl) s)"

text \<open>Within one service, \<open>move_assign\<close> leaves the cancelling to \<open>move_timer\<close>.\<close>

definition timer_move_assign :: "timer_impl \<Rightarrow> timer_impl \<Rightarrow> timer_system \<Rightarrow> timer_impl \<times> timer_impl \<times> timer_system" where
  "timer_move_assign impl other_impl s =
     (impl\<lparr>expiry := expiry other_impl, might_have_pending_waits := might_have_pending_waits other_impl\<rparr>,
      other_impl\<lparr>expiry := 0, might_have_pending_waits := False\<rparr>,
      reactor_move_timer (impl_timer impl) (impl_timer other_impl) s)"

definition expires_at :: "timer_impl \<Rightarrow> int \<Rightarrow> timer_system \<Rightarrow> nat \<times> timer_impl \<times> timer_system" where
  "expires_at impl expiry_time s =
     (let (count, impl, s) = service_cancel impl s in (count, impl\<lparr>expiry := expiry_time\<rparr>, s))"

definition expires_after :: "int \<Rightarrow> timer_impl \<Rightarrow> int \<Rightarrow> timer_system \<Rightarrow> (nat \<times> timer_impl \<times> timer_system) option" where
  "expires_after now impl d s = do { t \<leftarrow> time_add now d; Some (expires_at impl t s) }"

definition expires_from_now :: "int \<Rightarrow> timer_impl \<Rightarrow> int option" where
  "expires_from_now now impl = time_subtract (expiry impl) now"

definition async_wait :: "timer_impl \<Rightarrow> wait_op \<Rightarrow> timer_system \<Rightarrow> timer_impl \<times> timer_system" where
  "async_wait impl w s =
     (let impl = impl\<lparr>might_have_pending_waits := True\<rparr>
      in (impl, schedule_timer (expiry impl) (impl_timer impl) w s))"

end
