(* ===== verification/TimerServiceRuns.thy ===== *)
theory TimerServiceRuns
  imports TimerService
begin

text \<open>
  Runs of timer objects: the flag that saves calls of the reactor is exact, and waits are due at the
  expiry of their timer object.
\<close>

section \<open>Timer objects in a run\<close>

datatype service_call =
    AsyncWait timer wait_op
  | Cancel timer
  | CancelOne timer
  | ExpiresAt timer int
  | Fire int

text \<open>The timer object \<open>i\<close> has the per-timer data \<open>i\<close>. \<open>Fire\<close> is the reactor at a time.\<close>

fun service_step :: "service_call \<Rightarrow> (timer \<Rightarrow> timer_impl) \<times> timer_system \<Rightarrow> ((timer \<Rightarrow> timer_impl) \<times> timer_system) option" where
  "service_step (AsyncWait i w) (impls, s) = (let (impl, s) = async_wait (impls i) w s in Some (impls(i := impl), s))"
| "service_step (Cancel i) (impls, s) = (let (n, impl, s) = service_cancel (impls i) s in Some (impls(i := impl), s))"
| "service_step (CancelOne i) (impls, s) = (let (n, impl, s) = cancel_one (impls i) s in Some (impls(i := impl), s))"
| "service_step (ExpiresAt i t) (impls, s) = (let (n, impl, s) = expires_at (impls i) t s in Some (impls(i := impl), s))"
| "service_step (Fire now) (impls, s) =
     do {
       (ops, q) \<leftarrow> get_ready_timers now [] (ts_queue s);
       Some (impls, ts_post_deferred ops (s\<lparr>ts_queue := q\<rparr>))
     }"

fun service_run :: "service_call list \<Rightarrow> (timer \<Rightarrow> timer_impl) \<times> timer_system \<Rightarrow>
    ((timer \<Rightarrow> timer_impl) \<times> timer_system) option" where
  "service_run [] x = Some x"
| "service_run (c # cs) x = Option.bind (service_step c x) (service_run cs)"

definition new_timers :: "timer \<Rightarrow> timer_impl" where
  "new_timers i = timer_construct \<lparr>expiry = 0, might_have_pending_waits = False, impl_timer = i\<rparr>"

definition timer_system_new :: "thread_info option \<Rightarrow> scheduler \<Rightarrow> timer_system" where
  "timer_system_new t sc = \<lparr>ts_queue = timer_queue_new, ts_thread = t, ts_sched = sc, ts_completed = [], ts_updates = 0,
     ts_shutdown = False\<rparr>"

text \<open>
  Active timers may have waits, and are in the heap with the expiry of their object; after \<open>n\<close> calls there
  are at most \<open>n\<close> timers and \<open>n\<close> operations of a timer.
\<close>

definition due :: "(timer \<Rightarrow> timer_impl) \<Rightarrow> timer list \<Rightarrow> (int \<times> timer) multiset" where
  "due impls ts = mset (map (\<lambda>i. (expiry (impls i), i)) ts)"

definition queue_within :: "nat \<Rightarrow> int timer_queue \<Rightarrow> bool" where
  "queue_within n q \<longleftrightarrow> heap_size q \<le> n \<and> (\<forall>i. length (timer_ops (timer_data q i)) \<le> n)"

definition service_inv :: "nat \<Rightarrow> (timer \<Rightarrow> timer_impl) \<Rightarrow> timer_system \<Rightarrow> timer list \<Rightarrow> bool" where
  "service_inv n impls s ts \<longleftrightarrow> timer_inv (ts_queue s) ts \<and> \<not> ts_shutdown s \<and> queue_within n (ts_queue s) \<and>
     (\<forall>i. impl_timer (impls i) = i) \<and> (\<forall>i \<in> set ts. might_have_pending_waits (impls i)) \<and>
     pending_timers (ts_queue s) = due impls ts"

lemma ts_simps [simp]:
  "ts_queue (ts_with_scheduler f s) = ts_queue s" "ts_shutdown (ts_with_scheduler f s) = ts_shutdown s"
  "ts_queue (ts_post_deferred ops s) = ts_queue s" "ts_shutdown (ts_post_deferred ops s) = ts_shutdown s"
  by (simp_all add: ts_post_deferred_def ts_with_scheduler_def split: prod.split)

lemma ts_post_nothing [simp]: "ts_post_deferred [] s = s"
  by (simp add: ts_post_deferred_def ts_with_scheduler_def post_deferred_completions_def)

lemma service_inv_ops:
  assumes "service_inv n impls s ts"
  shows "timer_inv (ts_queue s) ts" "\<not> ts_shutdown s" "queue_within n (ts_queue s)" "impl_timer (impls i) = i"
    "i \<in> set ts \<Longrightarrow> might_have_pending_waits (impls i)" "pending_timers (ts_queue s) = due impls ts"
  using assms by (simp_all add: service_inv_def)

lemma timer_inv_distinct: "timer_inv q ts \<Longrightarrow> distinct ts"
  by (simp add: timer_inv_def linked_def)

lemma heap_size_pending: "heap_size q = size (pending_timers q)"
  by (simp add: pending_timers_def)

lemma due_cong: "(\<And>i. i \<in> set ts \<Longrightarrow> expiry (impls' i) = expiry (impls i)) \<Longrightarrow> due impls' ts = due impls ts"
  unfolding due_def by (rule arg_cong [where f = mset]) simp

lemma due_filter: "{#e \<in># due impls ts. P (snd e)#} = due impls (filter P ts)"
  unfolding due_def by (simp only: mset_filter [symmetric] filter_map comp_def snd_conv)

lemma due_remove1:
  assumes "distinct ts"
  shows "{#e \<in># due impls ts. snd e \<noteq> t#} = due impls (remove1 t ts)"
proof -
  have "remove1 t ts = filter (\<lambda>i. i \<noteq> t) ts"
    using assms by (simp add: distinct_remove1_removeAll removeAll_filter_not_eq) (metis (full_types))
  then show ?thesis by (simp add: due_filter [of "\<lambda>i. i \<noteq> t"])
qed

lemma keep_inv:
  assumes inv: "service_inv n impls s ts" and "impl_timer impl = i" "expiry impl = expiry (impls i) \<or> i \<notin> set ts"
    "might_have_pending_waits impl \<or> i \<notin> set ts"
  shows "service_inv n (impls(i := impl)) s ts"
proof -
  have "due (impls(i := impl)) ts = due impls ts" using assms(3) by (intro due_cong) auto
  then show ?thesis using assms by (auto simp: service_inv_def)
qed

lemma queue_within_le: "queue_within n q \<Longrightarrow> n \<le> m \<Longrightarrow> queue_within m q"
  unfolding queue_within_def using order_trans by blast

lemma service_inv_le: "service_inv n impls s ts \<Longrightarrow> n \<le> m \<Longrightarrow> service_inv m impls s ts"
  using queue_within_le by (auto simp: service_inv_def)

section \<open>Cancelling\<close>

text \<open>The timer is no longer active if all its operations are cancelled.\<close>

lemma reactor_cancel_inv:
  assumes inv: "service_inv n impls s ts" and c: "reactor_cancel_timer i m s = (k, s')"
  obtains ts' where "service_inv n impls s' ts'" "n \<le> m \<Longrightarrow> i \<notin> set ts'" "k = 0 \<Longrightarrow> 0 < m \<Longrightarrow> i \<notin> set ts'"
    "i \<notin> set ts \<Longrightarrow> k = 0 \<and> s' = s"
proof -
  obtain k' ops q where r: "cancel_timer i [] m (ts_queue s) = (k', ops, q)" by (metis prod_cases3)
  have s': "k' = k" "s' = ts_post_deferred ops (s\<lparr>ts_queue := q\<rparr>)" using c by (simp_all add: reactor_cancel_timer_def r)
  note f = service_inv_ops [OF inv]
  note d = timer_inv_distinct [OF f(1)]
  note cc = cancel_timer_correct [OF f(1) r]
  let ?ops = "timer_ops (timer_data (ts_queue s) i)"
  show ?thesis
  proof (cases "i \<in> set ts")
    case False
    then have "k = 0" "s' = s" using cc s' by simp_all
    then show ?thesis using that [of ts] inv False by simp
  next
    case True
    let ?ts = "if length ?ops \<le> m then remove1 i ts else ts"
    have q: "timer_inv q ?ts"
      "pending_timers q = (if length ?ops \<le> m then {#e \<in># pending_timers (ts_queue s). snd e \<noteq> i#} else pending_timers (ts_queue s))"
      "\<And>u. timer_ops (timer_data q u) = (if u = i then drop k ?ops else timer_ops (timer_data (ts_queue s) u))"
      "k = min m (length ?ops)"
      using cc True s'(1) by simp_all
    have "pending_timers q = due impls ?ts" using q(2) f(6) due_remove1 [OF d] by simp
    moreover have "heap_size q \<le> heap_size (ts_queue s)"
      using q(2) by (simp add: heap_size_pending size_filter_mset_lesseq)
    then have "queue_within n q" using f(3) by (auto simp: queue_within_def q(3) intro: le_trans [OF diff_le_self])
    ultimately have "service_inv n impls s' ?ts"
      using q(1) f d by (auto simp: service_inv_def s' dest: in_set_remove1 [THEN iffD1] notin_set_remove1)
    moreover have "length ?ops \<le> n" using f(3) by (simp add: queue_within_def)
    then have "i \<notin> set ?ts" if "n \<le> m \<or> (k = 0 \<and> 0 < m)" using that d q(4) by auto
    ultimately show ?thesis using that True by blast
  qed
qed

lemma service_cancel_inv:
  assumes inv: "service_inv n impls s ts" and n: "n \<le> SIZE_T_MAX" and c: "service_cancel (impls i) s = (k, impl, s')"
  obtains ts' where "service_inv n (impls(i := impl)) s' ts'" "i \<notin> set ts'" "impl_timer impl = i"
proof (cases "might_have_pending_waits (impls i)")
  case False
  then have "impl = impls i" "s' = s" "i \<notin> set ts" using c service_inv_ops(5) [OF inv, of i] by (auto simp: service_cancel_def)
  then show ?thesis using that inv service_inv_ops(4) [OF inv, of i] by (metis fun_upd_triv)
next
  case True
  then have r: "reactor_cancel_timer i SIZE_T_MAX s = (k, s')" "impl = (impls i)\<lparr>might_have_pending_waits := False\<rparr>"
    using c service_inv_ops(4) [OF inv, of i] by (auto simp: service_cancel_def split: prod.splits)
  obtain ts' where "service_inv n impls s' ts'" "i \<notin> set ts'" using reactor_cancel_inv [OF inv r(1)] n by metis
  then show ?thesis using that keep_inv [of n impls s' ts' impl i] r(2) service_inv_ops(4) [OF inv, of i] by simp
qed

lemma cancel_one_inv:
  assumes inv: "service_inv n impls s ts" and c: "cancel_one (impls i) s = (k, impl, s')"
  obtains ts' where "service_inv n (impls(i := impl)) s' ts'"
proof (cases "might_have_pending_waits (impls i)")
  case False
  then have "impl = impls i" "s' = s" using c by (auto simp: cancel_one_def)
  then show ?thesis using that inv by (metis fun_upd_triv)
next
  case True
  then have r: "reactor_cancel_timer i 1 s = (k, s')"
    "impl = (if k = 0 then (impls i)\<lparr>might_have_pending_waits := False\<rparr> else impls i)"
    using c service_inv_ops(4) [OF inv, of i] by (auto simp: cancel_one_def split: prod.splits)
  obtain ts' where "service_inv n impls s' ts'" "k = 0 \<Longrightarrow> i \<notin> set ts'" using reactor_cancel_inv [OF inv r(1)] by (metis zero_less_one)
  then show ?thesis using that keep_inv [of n impls s' ts' impl i] r(2) True service_inv_ops(4) [OF inv, of i] by (simp split: if_splits)
qed

section \<open>Waiting\<close>

lemma async_wait_inv:
  assumes inv: "service_inv n impls s ts" and room: "n + 1 < SIZE_T_MAX" and c: "async_wait (impls i) w s = (impl, s')"
  obtains ts' where "service_inv (n + 1) (impls(i := impl)) s' ts'"
proof -
  note f = service_inv_ops [OF inv]
  obtain b q where r: "enqueue_timer (\<lambda>t. False) (expiry (impls i)) i w (ts_queue s) = (b, q)" by fastforce
  have impl: "impl = (impls i)\<lparr>might_have_pending_waits := True\<rparr>" and s': "ts_queue s' = q" "\<not> ts_shutdown s'"
    using c f(2) f(4) [of i] by (auto simp: async_wait_def schedule_timer_def r Let_def split: if_splits)
  let ?ts = "if i \<in> set ts then ts else i # ts"
  have "heap_size (ts_queue s) + 1 < SIZE_T_MAX" using f(3) room by (simp add: queue_within_def)
  note e = enqueue_timer_correct [OF f(1) this r]
  then have q: "timer_inv q ?ts" "pending_timers q = (if i \<in> set ts then pending_timers (ts_queue s)
      else add_mset (expiry (impls i), i) (pending_timers (ts_queue s)))" by simp_all
  have "due (impls(i := impl)) ts = due impls ts" by (intro due_cong) (simp add: impl)
  then have "pending_timers q = due (impls(i := impl)) ?ts" using q(2) f(6) by (simp add: due_def impl)
  moreover have "queue_within (n + 1) q"
    using e f(3) q(2) by (auto simp: queue_within_def heap_size_pending intro: le_SucI)
  ultimately have "service_inv (n + 1) (impls(i := impl)) s' ?ts"
    using q(1) f s' by (auto simp: service_inv_def impl)
  then show ?thesis using that by simp
qed

lemma fire_inv:
  assumes inv: "service_inv n impls s ts"
  obtains ops q ts' where "get_ready_timers now [] (ts_queue s) = Some (ops, q)"
    "service_inv n impls (ts_post_deferred ops (s\<lparr>ts_queue := q\<rparr>)) ts'"
proof -
  note f = service_inv_ops [OF inv]
  obtain es q where r: "get_ready_timers now [] (ts_queue s) = Some (expired_ops (ts_queue s) es, q)"
      "mset es = {#e \<in># pending_timers (ts_queue s). fst e \<le> now#}"
      "pending_timers q = {#e \<in># pending_timers (ts_queue s). now < fst e#}"
      "timer_inv q (filter (\<lambda>t. t \<notin> snd ` set es) ts)"
      "\<And>u. timer_ops (timer_data q u) = (if u \<in> snd ` set es then [] else timer_ops (timer_data (ts_queue s) u))"
    using get_ready_timers_correct [OF f(1), of now "[]"] by (auto simp: ready_result_def)
  let ?ts = "filter (\<lambda>t. t \<notin> snd ` set es) ts"
  have es: "set es = {e \<in> (\<lambda>i. (expiry (impls i), i)) ` set ts. fst e \<le> now}"
    using arg_cong [OF r(2), of set_mset] f(6) by (simp add: due_def)
  then have "?ts = filter (\<lambda>i. now < expiry (impls i)) ts" by (intro filter_cong refl) force
  moreover have "pending_timers q = due impls (filter (\<lambda>i. now < expiry (impls i)) ts)"
    unfolding r(3) f(6) due_def by (simp only: mset_filter [symmetric] filter_map comp_def fst_conv)
  ultimately have "pending_timers q = due impls ?ts" by simp
  moreover have "heap_size q \<le> heap_size (ts_queue s)"
    using r(3) by (simp add: heap_size_pending size_filter_mset_lesseq)
  then have "queue_within n q" using f(3) by (simp add: queue_within_def r(5))
  ultimately have "service_inv n impls (ts_post_deferred ops (s\<lparr>ts_queue := q\<rparr>)) ?ts" for ops
    using r(4) f by (auto simp: service_inv_def)
  then show ?thesis using that r(1) by blast
qed

section \<open>Runs\<close>

lemma service_step_inv:
  assumes inv: "service_inv n impls s ts" and room: "n + 1 < SIZE_T_MAX"
  obtains impls' s' ts' where "service_step c (impls, s) = Some (impls', s')" "service_inv (n + 1) impls' s' ts'"
proof (cases c)
  case (AsyncWait i w)
  obtain impl s' where r: "async_wait (impls i) w s = (impl, s')" by fastforce
  show ?thesis using async_wait_inv [OF inv room r] that by (metis AsyncWait r service_step.simps(1) case_prod_conv)
next
  case (Cancel i)
  obtain k impl s' where r: "service_cancel (impls i) s = (k, impl, s')" by (metis prod_cases3)
  obtain ts' where "service_inv n (impls(i := impl)) s' ts'" using service_cancel_inv [OF inv _ r] room by (metis add_leD1 less_imp_le)
  then show ?thesis using that [of "impls(i := impl)" s' ts'] service_inv_le by (simp add: Cancel r)
next
  case (CancelOne i)
  obtain k impl s' where r: "cancel_one (impls i) s = (k, impl, s')" by (metis prod_cases3)
  obtain ts' where "service_inv n (impls(i := impl)) s' ts'" using cancel_one_inv [OF inv r] by metis
  then show ?thesis using that [of "impls(i := impl)" s' ts'] service_inv_le by (simp add: CancelOne r)
next
  case (ExpiresAt i t)
  obtain k impl s' where r: "service_cancel (impls i) s = (k, impl, s')" by (metis prod_cases3)
  obtain ts' where i: "service_inv n (impls(i := impl)) s' ts'" "i \<notin> set ts'" "impl_timer impl = i"
    using service_cancel_inv [OF inv _ r] room by (metis add_leD1 less_imp_le)
  have "service_inv n (impls(i := impl\<lparr>expiry := t\<rparr>)) s' ts'"
    using keep_inv [OF i(1), of "impl\<lparr>expiry := t\<rparr>" i] i by simp
  then show ?thesis using that [of "impls(i := impl\<lparr>expiry := t\<rparr>)" s' ts'] service_inv_le by (simp add: ExpiresAt expires_at_def r)
next
  case (Fire now)
  obtain ops q ts' where "get_ready_timers now [] (ts_queue s) = Some (ops, q)"
    "service_inv n impls (ts_post_deferred ops (s\<lparr>ts_queue := q\<rparr>)) ts'" using fire_inv [OF inv] by metis
  then show ?thesis using that [of impls _ ts'] service_inv_le [of n _ _ ts' "n + 1"] by (simp add: Fire)
qed

lemma service_run_inv:
  "service_inv n impls s ts \<Longrightarrow> n + length cs + 1 < SIZE_T_MAX \<Longrightarrow>
     \<exists>impls' s' ts'. service_run cs (impls, s) = Some (impls', s') \<and> service_inv (n + length cs) impls' s' ts'"
proof (induction cs arbitrary: n impls s ts)
  case (Cons c cs)
  obtain impls' s' ts' where "service_step c (impls, s) = Some (impls', s')" "service_inv (n + 1) impls' s' ts'"
    using service_step_inv [OF Cons.prems(1), of c] Cons.prems(2) by auto
  then show ?case using Cons.IH [of "n + 1" impls' s' ts'] Cons.prems(2) by simp
qed auto

lemma service_inv_new: "service_inv 0 new_timers (timer_system_new t sc) []"
  using timer_inv_new
  by (simp add: service_inv_def timer_system_new_def queue_within_def new_timers_def timer_construct_def due_def
      pending_timers_def) (simp add: timer_queue_new_def per_timer_data_new_def)

text \<open>Without the flag, every cancel goes to the reactor.\<close>

lemma cancel_without_flag:
  assumes inv: "service_inv n impls s ts"
  shows "service_cancel (impls i) s =
    (let (k, s') = reactor_cancel_timer i SIZE_T_MAX s in (k, (impls i)\<lparr>might_have_pending_waits := False\<rparr>, s'))"
proof (cases "might_have_pending_waits (impls i)")
  case False
  obtain k s' where r: "reactor_cancel_timer i SIZE_T_MAX s = (k, s')" by fastforce
  have "i \<notin> set ts" using service_inv_ops(5) [OF inv, of i] False by blast
  then have "k = 0" "s' = s" using reactor_cancel_inv [OF inv r] by metis+
  then show ?thesis using r False by (simp add: service_cancel_def)
qed (simp add: service_cancel_def service_inv_ops(4) [OF inv])

lemma pending_times:
  assumes inv: "service_inv n impls s ts" and e: "(time, i) \<in># pending_timers (ts_queue s)"
  shows "time = expiry (impls i)"
  using e unfolding service_inv_ops(6) [OF inv] by (auto simp: due_def)


definition demo_calls :: "service_call list" where
  "demo_calls = [ExpiresAt 0 50, AsyncWait 0 (demo_wait 1), AsyncWait 0 (demo_wait 2), ExpiresAt 1 20, AsyncWait 1 (demo_wait 3),
     CancelOne 0, Fire 30, Cancel 1, AsyncWait 1 (demo_wait 4)]"


end
