(* ===== verification/Timeouts.thy ===== *)
theory Timeouts
  imports TimerService
begin

text \<open>
  Bounds on the timeouts that the reactor computes from the timer queues of a set: they fit the timers, and
  with two queues an overdue timer may be kept waiting.
\<close>

section \<open>One queue\<close>

definition subtracts_in :: "int \<Rightarrow> (int \<Rightarrow> int \<Rightarrow> int \<times> int) \<Rightarrow> bool" where
  "subtracts_in u f \<longleftrightarrow> (\<forall>t now. in_int64 t \<longrightarrow> in_int64 now \<longrightarrow> f t now = (saturate (t - now), saturate (t - now) sdiv u))"

lemma subtracts_in_steady: "subtracts_in 1000000 steady_msec" "subtracts_in 1000 steady_usec"
  by (simp_all add: subtracts_in_def steady_msec_def steady_usec_def time_subtract_saturates nanosecond_casts [simplified] Let_def)

lemma sdiv_nonneg: "0 \<le> a \<Longrightarrow> 0 < b \<Longrightarrow> a sdiv b = a div (b :: int)"
  by (cases "a = 0") (simp_all add: signed_divide_int_def)

lemma smod_nonneg: "0 \<le> a \<Longrightarrow> 0 < b \<Longrightarrow> a smod b = a mod (b :: int)"
  by (cases "a = 0") (simp_all add: signed_modulo_int_def)

lemma steady_code [code]:
  "steady_msec t now = (let d = the (time_subtract t now) in (d, d sdiv 1000000))"
  "steady_usec t now = (let d = the (time_subtract t now) in (d, d sdiv 1000))"
  by (simp_all add: steady_msec_def steady_usec_def nanosecond_casts [simplified] Let_def)

lemma saturate_positive: "0 < saturate x \<Longrightarrow> 0 < x \<and> saturate x \<le> x"
  by (auto simp: saturate_def int64_values)

lemma saturate_below: "saturate x < INT64_MAX \<Longrightarrow> x \<le> saturate x"
  by (auto simp: saturate_def int64_values)

lemma div_mult_below: "0 < u \<Longrightarrow> a div u * u \<le> (a :: int)"
  by (simp add: minus_mod_eq_div_mult [symmetric])

lemma div_mult_above: "0 < u \<Longrightarrow> a < (a div u + 1) * (u :: int)"
  by (simp add: distrib_right minus_mod_eq_div_mult [symmetric])

lemma to_msec_bounds:
  assumes u: "0 < u" and r: "to_msec (saturate d, saturate d sdiv u) m = r" and m: "0 \<le> m"
  shows "0 \<le> r" "r \<le> max 1 m" "1 < r \<Longrightarrow> r * u \<le> d" "m \<le> INT64_MAX div u \<Longrightarrow> r < m \<Longrightarrow> d < (r + 1) * u"
proof -
  let ?s = "saturate d"
  consider "?s \<le> 0" "r = 0" | "0 < ?s" "?s div u = 0" "r = 1" | "0 < ?s" "?s div u \<noteq> 0" "r = min m (?s div u)"
    using r u by (auto simp: to_msec_def sdiv_nonneg split: if_splits)
  then have "0 \<le> r \<and> r \<le> max 1 m \<and> (1 < r \<longrightarrow> r * u \<le> d) \<and> (m \<le> INT64_MAX div u \<longrightarrow> r < m \<longrightarrow> d < (r + 1) * u)"
  proof cases
    case 1
    then have "d \<le> 0" using saturate_below [of d] by (simp add: int64_values)
    then show ?thesis using 1 u by simp
  next
    case 2
    then have "?s < u" using u by (auto simp: zdiv_eq_0_iff)
    moreover have "d < 2 * u" if "1 < m" "m \<le> INT64_MAX div u"
    proof -
      have "2 * u \<le> INT64_MAX div u * u" using that u by (intro mult_right_mono) auto
      then have "2 * u \<le> INT64_MAX" using div_mult_below [OF u, of INT64_MAX] by simp
      then show ?thesis using saturate_below [of d] \<open>?s < u\<close> u by simp
    qed
    ultimately show ?thesis using 2 by auto
  next
    case 3
    have q: "0 \<le> ?s div u" using 3 u by (simp add: pos_imp_zdiv_nonneg_iff)
    have "r * u \<le> ?s div u * u" using 3 u by (intro mult_right_mono) auto
    then have "r * u \<le> ?s" using div_mult_below [OF u, of ?s] by simp
    then have "r * u \<le> d" using saturate_positive [OF 3(1)] by simp
    moreover have "d < (r + 1) * u" if "m \<le> INT64_MAX div u" "r < m"
    proof -
      have r': "r = ?s div u" using 3(3) that by simp
      then have "?s div u < INT64_MAX div u" using that by simp
      then have "?s < INT64_MAX" using zdiv_mono1 [OF _ u, of INT64_MAX ?s] by linarith
      moreover have "?s < (r + 1) * u" unfolding r' by (rule div_mult_above [OF u])
      ultimately show ?thesis using saturate_below [of d] by simp
    qed
    moreover have "0 \<le> r \<and> r \<le> max 1 m" unfolding 3(3) using q m by linarith
    ultimately show ?thesis by blast
  qed
  then show "0 \<le> r" "r \<le> max 1 m" "1 < r \<Longrightarrow> r * u \<le> d" "m \<le> INT64_MAX div u \<Longrightarrow> r < m \<Longrightarrow> d < (r + 1) * u" by auto
qed

section \<open>A set of queues\<close>

definition queue_ok :: "int timer_queue \<Rightarrow> bool" where
  "queue_ok q \<longleftrightarrow> heap_ordered q \<and> list_all (\<lambda>(t, i). in_int64 t) (timer_heap q)"

text \<open>Waiting for \<open>w\<close> units does not pass the expiry of a timer, and is needed until nearly one of them.\<close>

definition fits :: "int \<Rightarrow> int \<Rightarrow> int \<Rightarrow> int \<Rightarrow> int timer_queue list \<Rightarrow> bool" where
  "fits u now m w qs \<longleftrightarrow> 0 \<le> w \<and> w \<le> max 1 m \<and>
     (1 < w \<longrightarrow> (\<forall>q \<in> set qs. \<forall>(t, i) \<in> set (timer_heap q). now + w * u \<le> t)) \<and>
     (m \<le> INT64_MAX div u \<longrightarrow> w < m \<longrightarrow> (\<exists>q \<in> set qs. \<exists>(t, i) \<in> set (timer_heap q). t < now + (w + 1) * u))"

lemma fits_simps:
  assumes "fits u now m w qs"
  shows "0 \<le> w" "w \<le> max 1 m" "1 < w \<Longrightarrow> q \<in> set qs \<Longrightarrow> (t, i) \<in> set (timer_heap q) \<Longrightarrow> now + w * u \<le> t"
    "m \<le> INT64_MAX div u \<Longrightarrow> w < m \<Longrightarrow> \<exists>q \<in> set qs. \<exists>(t, i) \<in> set (timer_heap q). t < now + (w + 1) * u"
  using assms unfolding fits_def by blast+

lemma wait_duration_fits:
  assumes f: "subtracts_in u f" and u: "0 < u" and now: "in_int64 now" and q: "queue_ok q" and m: "0 \<le> m"
  shows "fits u now m (wait_duration f now m q) [q]"
proof (cases "timer_heap q = []")
  case True
  then show ?thesis using m by (simp add: wait_duration_def fits_def)
next
  case False
  let ?t = "time_at q 0" and ?w = "wait_duration f now m q"
  have root: "(?t, snd (timer_heap q ! 0)) \<in> set (timer_heap q)" using False by (simp add: time_at_def)
  then have "in_int64 ?t" using q by (auto simp: queue_ok_def list_all_iff)
  then have w: "to_msec (saturate (?t - now), saturate (?t - now) sdiv u) m = ?w"
    using f now False by (simp add: wait_duration_def subtracts_in_def)
  note b = to_msec_bounds [OF u w m]
  have least: "?t \<le> t" if "(t, i) \<in> set (timer_heap q)" for t i
  proof -
    obtain j where "j < heap_size q" "timer_heap q ! j = (t, i)" using \<open>(t, i) \<in> set (timer_heap q)\<close> by (metis in_set_conv_nth)
    then show ?thesis using heap_root_least [of q j] q by (simp add: queue_ok_def time_at_def)
  qed
  have "now + ?w * u \<le> t" if "1 < ?w" "(t, i) \<in> set (timer_heap q)" for t i
    using b(3) [OF that(1)] least [OF that(2)] by linarith
  moreover have "?t < now + (?w + 1) * u" if "m \<le> INT64_MAX div u" "?w < m" using b(4) [OF that] by linarith
  ultimately show ?thesis using b(1,2) root unfolding fits_def by auto
qed

lemma queues_fit:
  assumes f: "subtracts_in u f" and u: "0 < u" and now: "in_int64 now"
  shows "list_all queue_ok qs \<Longrightarrow> 0 \<le> m \<Longrightarrow> fits u now m (fold (\<lambda>q m. wait_duration f now m q) qs m) qs"
proof (induction qs arbitrary: m)
  case (Cons q qs)
  let ?m = "wait_duration f now m q"
  let ?w = "fold (\<lambda>q m. wait_duration f now m q) qs ?m"
  have q: "fits u now m ?m [q]" using wait_duration_fits [OF f u now] Cons.prems by simp
  have r: "fits u now ?m ?w qs" using Cons q fits_simps(1) by auto
  have "?w \<le> max 1 m" "0 \<le> ?w" using fits_simps(1,2) [OF q] fits_simps(1,2) [OF r] by linarith+
  moreover have "now + ?w * u \<le> t" if w: "1 < ?w" and p: "p \<in> set (q # qs)" "(t, i) \<in> set (timer_heap p)" for p t i
  proof (cases "p \<in> set qs")
    case False
    have "1 < ?m" "?w \<le> ?m" using w fits_simps(2) [OF r] by linarith+
    then have "now + ?m * u \<le> t" "?w * u \<le> ?m * u" using fits_simps(3) [OF q] p False u by auto
    then show ?thesis by linarith
  qed (use fits_simps(3) [OF r w] p in blast)
  moreover have "\<exists>p \<in> set (q # qs). \<exists>(t, i) \<in> set (timer_heap p). t < now + (?w + 1) * u"
    if m: "m \<le> INT64_MAX div u" and w: "?w < m"
  proof (cases "?w < ?m \<and> ?m \<le> INT64_MAX div u")
    case True
    then show ?thesis using fits_simps(4) [OF r] by auto
  next
    case False
    have "?m \<le> INT64_MAX div u" using fits_simps(2) [OF q] m fits_simps(1) [OF r] w by linarith
    then have "?m \<le> ?w" using False by linarith
    then obtain t i where t: "(t, i) \<in> set (timer_heap q)" "t < now + (?m + 1) * u"
      using fits_simps(4) [OF q m] w by auto
    have "(?m + 1) * u \<le> (?w + 1) * u" using \<open>?m \<le> ?w\<close> u by (intro mult_right_mono) auto
    then have "t < now + (?w + 1) * u" using t(2) by linarith
    then show ?thesis using t(1) by (intro bexI [of _ q] bexI [of _ "(t, i)"]) auto
  qed
  ultimately show ?case unfolding fits_def by (simp only: fold_Cons comp_def) blast
qed (simp add: fits_def)

section \<open>The reactor's timeouts\<close>

lemma get_timeout_fits:
  assumes "in_int64 now" "list_all queue_ok qs"
  shows "fits 1000000 now (if msec < 0 \<or> 300000 < msec then 300000 else msec) (get_timeout now qs msec) qs"
  using queues_fit [OF subtracts_in_steady(1) _ assms, of "if msec < 0 \<or> 300000 < msec then 300000 else msec"]
  by (simp add: get_timeout_def queue_set_wait_duration_msec_def Let_def)

lemma timeout_spec_fits:
  assumes "in_int64 now" "list_all queue_ok qs" and r: "get_timeout_spec now qs = (ts, flags)"
  obtains w where "fits 1000 now 300000000 w qs"
    "w = 0 \<Longrightarrow> it_sec ts = 0 \<and> it_nsec ts = 1 \<and> flags = TFD_TIMER_ABSTIME"
    "w \<noteq> 0 \<Longrightarrow> it_sec ts = w div 1000000 \<and> it_nsec ts = w mod 1000000 * 1000 \<and> flags = 0"
proof -
  let ?w = "queue_set_wait_duration_usec now 300000000 qs"
  have f: "fits 1000 now 300000000 ?w qs"
    using queues_fit [OF subtracts_in_steady(2) _ assms(1,2), of 300000000] by (simp add: queue_set_wait_duration_usec_def)
  have "it_sec ts = ?w sdiv 1000000" "it_nsec ts = (if ?w \<noteq> 0 then ?w smod 1000000 * 1000 else 1)"
    "flags = (if ?w \<noteq> 0 then 0 else TFD_TIMER_ABSTIME)"
    using r by (auto simp: get_timeout_spec_def Let_def)
  moreover have "?w sdiv 1000000 = ?w div 1000000" "?w smod 1000000 = ?w mod 1000000"
    using fits_simps(1) [OF f] by (simp_all add: sdiv_nonneg smod_nonneg)
  ultimately show ?thesis using that [OF f] by simp
qed

text \<open>
  C29: For queues that are heaps of 64-bit times: the timeout of \<open>epoll_wait\<close> is not negative and at most five
  minutes; if it is longer than one millisecond no timer expires before it ends; and if it is shorter
  than asked for, some timer expires less than a millisecond after it ends. The time for the timer
  descriptor is never zero, which would disarm it, has a valid number of nanoseconds, and unless it
  means at once or one microsecond it ends before every timer.
\<close>

theorem timeouts_fit_the_timers:
  assumes now: "in_int64 now" and qs: "list_all queue_ok qs"
  shows "(let w = get_timeout now qs msec; M = (if msec < 0 \<or> 300000 < msec then 300000 else msec) in
      0 \<le> w \<and> w \<le> 300000 \<and>
      (1 < w \<longrightarrow> (\<forall>q \<in> set qs. \<forall>(t, i) \<in> set (timer_heap q). now + w * 1000000 \<le> t)) \<and>
      (w < M \<longrightarrow> (\<exists>q \<in> set qs. \<exists>(t, i) \<in> set (timer_heap q). t < now + (w + 1) * 1000000))) \<and>
    (let (ts, flags) = get_timeout_spec now qs in
      0 \<le> it_sec ts \<and> 0 \<le> it_nsec ts \<and> it_nsec ts < 1000000000 \<and> 0 < it_sec ts + it_nsec ts \<and>
      (flags = 0 \<longrightarrow> it_sec ts = 0 \<and> it_nsec ts = 1000 \<or>
        (\<forall>q \<in> set qs. \<forall>(t, i) \<in> set (timer_heap q). now + it_sec ts * 1000000000 + it_nsec ts \<le> t)))"
proof
  note f = get_timeout_fits [OF now qs, of msec]
  show "let w = get_timeout now qs msec; M = (if msec < 0 \<or> 300000 < msec then 300000 else msec) in
      0 \<le> w \<and> w \<le> 300000 \<and>
      (1 < w \<longrightarrow> (\<forall>q \<in> set qs. \<forall>(t, i) \<in> set (timer_heap q). now + w * 1000000 \<le> t)) \<and>
      (w < M \<longrightarrow> (\<exists>q \<in> set qs. \<exists>(t, i) \<in> set (timer_heap q). t < now + (w + 1) * 1000000))"
    unfolding Let_def using fits_simps [OF f] by (auto simp: int64_values split: if_splits)
next
  obtain ts flags where r: "get_timeout_spec now qs = (ts, flags)" by fastforce
  obtain w where w: "fits 1000 now 300000000 w qs"
    "w = 0 \<Longrightarrow> it_sec ts = 0 \<and> it_nsec ts = 1 \<and> flags = TFD_TIMER_ABSTIME"
    "w \<noteq> 0 \<Longrightarrow> it_sec ts = w div 1000000 \<and> it_nsec ts = w mod 1000000 * 1000 \<and> flags = 0"
    using timeout_spec_fits [OF now qs r] by metis
  show "let (ts, flags) = get_timeout_spec now qs in
      0 \<le> it_sec ts \<and> 0 \<le> it_nsec ts \<and> it_nsec ts < 1000000000 \<and> 0 < it_sec ts + it_nsec ts \<and>
      (flags = 0 \<longrightarrow> it_sec ts = 0 \<and> it_nsec ts = 1000 \<or>
        (\<forall>q \<in> set qs. \<forall>(t, i) \<in> set (timer_heap q). now + it_sec ts * 1000000000 + it_nsec ts \<le> t))"
  proof (cases "w = 0")
    case True
    then show ?thesis using w(2) r by (simp add: TFD_TIMER_ABSTIME_def)
  next
    case False
    note ts = w(3) [OF False]
    have p: "0 < w" using fits_simps(1) [OF w(1)] False by simp
    have split: "w = w div 1000000 * 1000000 + w mod 1000000" by simp
    have d: "0 \<le> w div 1000000" "0 \<le> w mod 1000000" "w mod 1000000 < 1000000" using p by (simp_all add: pos_imp_zdiv_nonneg_iff)
    have "now + w * 1000 \<le> t" if "1 < w" "q \<in> set qs" "(t, i) \<in> set (timer_heap q)" for q t i
      using fits_simps(3) [OF w(1) that] .
    moreover have "now + it_sec ts * 1000000000 + it_nsec ts = now + w * 1000" using ts split by linarith
    moreover have "w = 1 \<Longrightarrow> it_sec ts = 0 \<and> it_nsec ts = 1000" using ts by simp
    ultimately have "it_sec ts = 0 \<and> it_nsec ts = 1000 \<or>
        (\<forall>q \<in> set qs. \<forall>(t, i) \<in> set (timer_heap q). now + it_sec ts * 1000000000 + it_nsec ts \<le> t)"
      using p by (cases "w = 1") (simp, intro disjI2, fastforce)
    moreover have "0 < it_sec ts + it_nsec ts" using ts split d p by linarith
    ultimately show ?thesis using ts d by (simp add: r)
  qed
qed

definition enqueued :: "int \<Rightarrow> timer \<Rightarrow> int timer_queue \<Rightarrow> int timer_queue" where
  "enqueued t i q = snd (enqueue_timer (\<lambda>t. False) t i (demo_wait i) q)"

definition demo_queue :: "int \<Rightarrow> int timer_queue" where
  "demo_queue t = enqueued t 2 timer_queue_new"

lemma timer_heap_link [simp]: "timer_heap (link_timer i q) = timer_heap q"
  by (simp add: link_timer_def Let_def upd_opt_def upd_timer_def split: option.split)

lemma heap_enqueued:
  "\<not> is_active i q \<Longrightarrow> timer_heap (enqueued t i q) = timer_heap (enter_heap (\<lambda>t. False) t i q)"
  by (simp add: enqueued_def enqueue_timer_def Let_def)

lemma heap_enter: "timer_heap (enter_heap (\<lambda>t. False) t i q) = timer_heap (up_heap (heap_size q)
    ((upd_timer i (\<lambda>d. d\<lparr>heap_index := heap_size q\<rparr>) q)\<lparr>timer_heap := timer_heap q @ [(t, i)]\<rparr>))"
  by (simp add: enter_heap_def Let_def)

lemma demo_queues:
  "timer_heap (demo_queue t) = [(t, 2)]"
  "timer_heap (enqueued 2500000 3 (demo_queue 7000000)) = [(2500000, 3), (7000000, 2)]"
proof -
  have "\<not> is_active 2 (timer_queue_new :: int timer_queue)"
    by (simp add: is_active_def timer_queue_new_def per_timer_data_new_def)
  moreover have n: "heap_size (timer_queue_new :: int timer_queue) = 0" by (simp add: timer_queue_new_def)
  ultimately show h: "timer_heap (demo_queue t) = [(t, 2)]" for t
    by (simp add: demo_queue_def heap_enqueued heap_enter up_heap.simps)
  have "heap_size (timer_queue_new :: int timer_queue) + 1 < SIZE_T_MAX" unfolding n by (simp add: SIZE_T_MAX_def)
  from enqueue_timer_correct [OF timer_inv_new this surjective_pairing, of "\<lambda>t. False" 7000000 2 "demo_wait 2"]
  have "timer_inv (demo_queue 7000000) [2]" by (simp add: demo_queue_def enqueued_def)
  then have "\<not> is_active 3 (demo_queue 7000000)" by (simp add: is_active_inv)
  then show "timer_heap (enqueued 2500000 3 (demo_queue 7000000)) = [(2500000, 3), (7000000, 2)]"
    by (simp add: heap_enqueued heap_enter h up_heap.simps time_at_def timer_heap_swap)
qed

lemma demo_ok: "queue_ok (enqueued 2500000 3 (demo_queue 7000000))"
  by (auto simp: queue_ok_def heap_ordered_def demo_queues time_at_def in_int64_def int64_values less_Suc_eq)

lemmas timeout_eval = get_timeout_def queue_set_wait_duration_msec_def wait_duration_def steady_code time_at_def
  time_subtract_def checked_def in_int64_def int64_values to_msec_def sdiv_nonneg Let_def

theorem timeouts_fit_the_timers_witness:
  "get_timeout 0 [enqueued 2500000 3 (demo_queue 7000000)] (- 1) = 2 \<and>
    (\<exists>(t, i) \<in> set (timer_heap (enqueued 2500000 3 (demo_queue 7000000))). t < 3000000)"
proof -
  have ok: "in_int64 0" "list_all queue_ok [enqueued 2500000 3 (demo_queue 7000000)]"
    using demo_ok by (simp_all add: in_int64_def int64_values)
  have w: "get_timeout 0 [enqueued 2500000 3 (demo_queue 7000000)] (- 1) = 2" by (simp add: demo_queues timeout_eval)
  show ?thesis using timeouts_fit_the_timers [OF ok, of "- 1"] w by (simp add: Let_def)
qed

text \<open>
  The result depends on the order of the queues: for a timer that is overdue the timeout is zero, and a later
  queue may raise it to one millisecond again.
\<close>

lemma overdue_timer_waits:
  "get_timeout 10 [demo_queue 500010, demo_queue 5] (- 1) = 0"
  "get_timeout 10 [demo_queue 5, demo_queue 500010] (- 1) = 1"
  by (simp_all add: demo_queues timeout_eval)

end
