(* ===== verification/SocketOps.thy ===== *)
theory SocketOps
  imports Prelude
begin

text \<open>
  The attempts behind the socket operations, \<^verbatim>\<open>asio/detail/impl/socket_ops.ipp\<close> on Linux, and the
  \<open>do_perform\<close> functions of the reactor's operations that make them. A system call is a function of
  the record \<open>os\<close>: it gets the state \<open>'w\<close> of the operating system and gives its result, \<open>errno\<close> and
  the new state. A loop that tries again after a signal need not end, so it gives \<open>None\<close> if it does not.
\<close>

unbundle bit_operations_syntax

section \<open>Error codes\<close>

datatype error_category = SystemCategory | MiscCategory

datatype sys_error = SysError (ec_category: error_category) (ec_value: int)

definition no_error :: sys_error where "no_error = SysError SystemCategory 0"
definition interrupted :: sys_error where "interrupted = SysError SystemCategory 4"
definition bad_descriptor :: sys_error where "bad_descriptor = SysError SystemCategory 9"
definition try_again :: sys_error where "try_again = SysError SystemCategory 11"
definition would_block :: sys_error where "would_block = SysError SystemCategory 11"
definition invalid_argument :: sys_error where "invalid_argument = SysError SystemCategory 22"
definition operation_not_supported :: sys_error where "operation_not_supported = SysError SystemCategory 95"
definition connection_aborted :: sys_error where "connection_aborted = SysError SystemCategory 103"
definition no_buffer_space :: sys_error where "no_buffer_space = SysError SystemCategory 105"
definition in_progress :: sys_error where "in_progress = SysError SystemCategory 115"
definition operation_aborted :: sys_error where "operation_aborted = SysError SystemCategory 125"
definition already_open :: sys_error where "already_open = SysError MiscCategory 1"
definition eof :: sys_error where "eof = SysError MiscCategory 2"

definition EPERM :: int where "EPERM = 1"
definition EPROTO :: int where "EPROTO = 71"

text \<open>\<open>ec.assign(0, ec.category())\<close> keeps the category.\<close>

definition get_last_error :: "sys_error \<Rightarrow> int \<Rightarrow> bool \<Rightarrow> sys_error" where
  "get_last_error ec errno is_error_condition =
     (if \<not> is_error_condition then SysError (ec_category ec) 0 else SysError SystemCategory errno)"

section \<open>Sockets and system calls\<close>

type_synonym fd = int
type_synonym state_type = u8

definition invalid_socket :: fd where "invalid_socket = -1"
definition socket_error_retval :: int where "socket_error_retval = -1"

definition user_set_non_blocking :: state_type where "user_set_non_blocking = 1"
definition internal_non_blocking :: state_type where "internal_non_blocking = 2"
definition non_blocking :: state_type where "non_blocking = user_set_non_blocking OR internal_non_blocking"
definition enable_connection_aborted :: state_type where "enable_connection_aborted = 4"
definition user_set_linger :: state_type where "user_set_linger = 8"
definition stream_oriented :: state_type where "stream_oriented = 16"
definition datagram_oriented :: state_type where "datagram_oriented = 32"
definition possible_dup :: state_type where "possible_dup = 64"

definition has_flag :: "state_type \<Rightarrow> state_type \<Rightarrow> bool" where
  "has_flag state flag \<longleftrightarrow> state AND flag \<noteq> 0"

text \<open>The requests to \<open>epoll_ctl\<close> carry the events and the descriptor's state object.\<close>

datatype epoll_request = EPOLL_CTL_ADD u32 nat | EPOLL_CTL_MOD u32 nat | EPOLL_CTL_DEL

record 'w os =
  sys_accept :: "fd \<Rightarrow> 'w \<Rightarrow> fd \<times> int \<times> 'w"
  sys_recv :: "fd \<Rightarrow> nat \<Rightarrow> int \<Rightarrow> 'w \<Rightarrow> int \<times> int \<times> u8 list \<times> 'w"
  sys_send :: "fd \<Rightarrow> u8 list \<Rightarrow> int \<Rightarrow> 'w \<Rightarrow> int \<times> int \<times> 'w"
  sys_connect :: "fd \<Rightarrow> u8 list \<Rightarrow> 'w \<Rightarrow> int \<times> int \<times> 'w"
  sys_poll_out :: "fd \<Rightarrow> int \<Rightarrow> 'w \<Rightarrow> int \<times> int \<times> 'w"
  sys_so_error :: "fd \<Rightarrow> 'w \<Rightarrow> int \<times> int \<times> int \<times> 'w"
  sys_fionbio :: "fd \<Rightarrow> bool \<Rightarrow> 'w \<Rightarrow> int \<times> int \<times> 'w"
  sys_unset_linger :: "fd \<Rightarrow> 'w \<Rightarrow> int \<times> int \<times> 'w"
  sys_socket :: "int \<Rightarrow> int \<Rightarrow> int \<Rightarrow> 'w \<Rightarrow> fd \<times> int \<times> 'w"
  sys_close :: "fd \<Rightarrow> 'w \<Rightarrow> int \<times> int \<times> 'w"
  sys_epoll_ctl :: "fd \<Rightarrow> epoll_request \<Rightarrow> 'w \<Rightarrow> int \<times> int \<times> 'w"

section \<open>The attempts\<close>

definition sock_accept :: "'w os \<Rightarrow> fd \<Rightarrow> sys_error \<Rightarrow> 'w \<Rightarrow> fd \<times> sys_error \<times> 'w" where
  "sock_accept os s ec w =
     (if s = invalid_socket then (invalid_socket, bad_descriptor, w)
      else
        let (new_s, errno, w) = sys_accept os s w;
            ec = get_last_error ec errno (new_s = invalid_socket)
        in (new_s, ec, w))"

partial_function (option) non_blocking_accept :: "'w os \<Rightarrow> fd \<Rightarrow> state_type \<Rightarrow> sys_error \<Rightarrow> 'w \<Rightarrow>
    (bool \<times> sys_error \<times> fd \<times> 'w) option" where
  "non_blocking_accept os s state ec w =
     (let (new_socket, ec, w) = sock_accept os s ec w in
      if new_socket \<noteq> invalid_socket then Some (True, ec, new_socket, w)
      else if ec = interrupted then non_blocking_accept os s state ec w
      else if ec = would_block \<or> ec = try_again then Some (False, ec, new_socket, w)
      else if ec = connection_aborted then Some (has_flag state enable_connection_aborted, ec, new_socket, w)
      else if ec_value ec = EPROTO then Some (has_flag state enable_connection_aborted, ec, new_socket, w)
      else Some (True, ec, new_socket, w))"

definition recv1 :: "'w os \<Rightarrow> fd \<Rightarrow> nat \<Rightarrow> int \<Rightarrow> sys_error \<Rightarrow> 'w \<Rightarrow> int \<times> sys_error \<times> u8 list \<times> 'w" where
  "recv1 os s sz flags ec w =
     (let (bytes, errno, received, w) = sys_recv os s sz flags w
      in (bytes, get_last_error ec errno (bytes < 0), received, w))"

text \<open>The result tells whether the operation is done, its error, bytes transferred and bytes received.\<close>

partial_function (option) non_blocking_recv1 :: "'w os \<Rightarrow> fd \<Rightarrow> nat \<Rightarrow> int \<Rightarrow> bool \<Rightarrow> sys_error \<Rightarrow> nat \<Rightarrow>
    'w \<Rightarrow> (bool \<times> sys_error \<times> nat \<times> u8 list \<times> 'w) option" where
  "non_blocking_recv1 os s sz flags is_stream ec bytes_transferred w =
     (let (bytes, ec, received, w) = recv1 os s sz flags ec w in
      if is_stream \<and> bytes = 0 then Some (True, eof, bytes_transferred, [], w)
      else if bytes \<ge> 0 then Some (True, ec, nat bytes, received, w)
      else if ec = interrupted then non_blocking_recv1 os s sz flags is_stream ec bytes_transferred w
      else if ec = would_block \<or> ec = try_again then Some (False, ec, bytes_transferred, [], w)
      else Some (True, ec, 0, [], w))"

text \<open>Every send is made with \<open>MSG_NOSIGNAL\<close>.\<close>

definition MSG_NOSIGNAL :: int where "MSG_NOSIGNAL = 0x4000"

definition send1 :: "'w os \<Rightarrow> fd \<Rightarrow> u8 list \<Rightarrow> int \<Rightarrow> sys_error \<Rightarrow> 'w \<Rightarrow> int \<times> sys_error \<times> 'w" where
  "send1 os s bs flags ec w =
     (let (bytes, errno, w) = sys_send os s bs (flags OR MSG_NOSIGNAL) w
      in (bytes, get_last_error ec errno (bytes < 0), w))"

partial_function (option) non_blocking_send1 :: "'w os \<Rightarrow> fd \<Rightarrow> u8 list \<Rightarrow> int \<Rightarrow> sys_error \<Rightarrow> nat \<Rightarrow>
    'w \<Rightarrow> (bool \<times> sys_error \<times> nat \<times> 'w) option" where
  "non_blocking_send1 os s bs flags ec bytes_transferred w =
     (let (bytes, ec, w) = send1 os s bs flags ec w in
      if bytes \<ge> 0 then Some (True, ec, nat bytes, w)
      else if ec = interrupted then non_blocking_send1 os s bs flags ec bytes_transferred w
      else if ec = would_block \<or> ec = try_again then Some (False, ec, bytes_transferred, w)
      else Some (True, ec, 0, w))"

text \<open>\<open>connect\<close> reports \<open>EAGAIN\<close> as \<open>no_buffer_space\<close>.\<close>

definition sock_connect :: "'w os \<Rightarrow> fd \<Rightarrow> u8 list \<Rightarrow> sys_error \<Rightarrow> 'w \<Rightarrow> int \<times> sys_error \<times> 'w" where
  "sock_connect os s addr ec w =
     (if s = invalid_socket then (socket_error_retval, bad_descriptor, w)
      else
        let (res, errno, w) = sys_connect os s addr w;
            ec = get_last_error ec errno (res \<noteq> 0);
            ec = (if res \<noteq> 0 \<and> ec = try_again then no_buffer_space else ec)
        in (res, ec, w))"

definition get_so_error :: "'w os \<Rightarrow> fd \<Rightarrow> sys_error \<Rightarrow> 'w \<Rightarrow> int \<times> int \<times> sys_error \<times> 'w" where
  "get_so_error os s ec w =
     (if s = invalid_socket then (socket_error_retval, 0, bad_descriptor, w)
      else
        let (res, connect_error, errno, w) = sys_so_error os s w
        in (res, connect_error, get_last_error ec errno (res \<noteq> 0), w))"

definition non_blocking_connect :: "'w os \<Rightarrow> fd \<Rightarrow> sys_error \<Rightarrow> 'w \<Rightarrow> bool \<times> sys_error \<times> 'w" where
  "non_blocking_connect os s ec w =
     (let (ready, _, w) = sys_poll_out os s 0 w in
      if ready = 0 then (False, ec, w)
      else
        let (res, connect_error, ec, w) = get_so_error os s ec w in
        if res = 0
        then if connect_error \<noteq> 0 then (True, SysError SystemCategory connect_error, w)
          else (True, SysError (ec_category ec) 0, w)
        else (True, ec, w))"

definition poll_connect :: "'w os \<Rightarrow> fd \<Rightarrow> int \<Rightarrow> sys_error \<Rightarrow> 'w \<Rightarrow> int \<times> sys_error \<times> 'w" where
  "poll_connect os s msec ec w =
     (if s = invalid_socket then (socket_error_retval, bad_descriptor, w)
      else
        let (res, errno, w) = sys_poll_out os s msec w
        in (res, get_last_error ec errno (res < 0), w))"

text \<open>The blocking connect of the client.\<close>

definition sync_connect :: "'w os \<Rightarrow> fd \<Rightarrow> u8 list \<Rightarrow> sys_error \<Rightarrow> 'w \<Rightarrow> sys_error \<times> 'w" where
  "sync_connect os s addr ec w =
     (let (_, ec, w) = sock_connect os s addr ec w in
      if ec \<noteq> in_progress \<and> ec \<noteq> would_block then (ec, w)
      else
        let (res, ec, w) = poll_connect os s (-1) ec w in
        if res < 0 then (ec, w)
        else
          let (res, connect_error, ec, w) = get_so_error os s ec w in
          if res = socket_error_retval then (ec, w)
          else (SysError SystemCategory connect_error, w))"

definition set_internal_non_blocking :: "'w os \<Rightarrow> fd \<Rightarrow> state_type \<Rightarrow> bool \<Rightarrow> sys_error \<Rightarrow> 'w \<Rightarrow>
    bool \<times> state_type \<times> sys_error \<times> 'w" where
  "set_internal_non_blocking os s state val ec w =
     (if s = invalid_socket then (False, state, bad_descriptor, w)
      else if \<not> val \<and> has_flag state user_set_non_blocking then (False, state, invalid_argument, w)
      else
        let (res, errno, w) = sys_fionbio os s val w;
            ec = get_last_error ec errno (res < 0)
        in if res \<ge> 0
           then (True, if val then state OR internal_non_blocking else state AND NOT internal_non_blocking, ec, w)
           else (False, state, ec, w))"

definition set_user_non_blocking :: "'w os \<Rightarrow> fd \<Rightarrow> state_type \<Rightarrow> bool \<Rightarrow> sys_error \<Rightarrow> 'w \<Rightarrow>
    bool \<times> state_type \<times> sys_error \<times> 'w" where
  "set_user_non_blocking os s state val ec w =
     (if s = invalid_socket then (False, state, bad_descriptor, w)
      else
        let (res, errno, w) = sys_fionbio os s val w;
            ec = get_last_error ec errno (res < 0)
        in if res \<ge> 0
           then (True, if val then state OR user_set_non_blocking
             else state AND NOT (user_set_non_blocking OR internal_non_blocking), ec, w)
           else (False, state, ec, w))"

definition sock_open :: "'w os \<Rightarrow> int \<Rightarrow> int \<Rightarrow> int \<Rightarrow> sys_error \<Rightarrow> 'w \<Rightarrow> fd \<times> sys_error \<times> 'w" where
  "sock_open os af type protocol ec w =
     (let (s, errno, w) = sys_socket os af type protocol w
      in (s, get_last_error ec errno (s < 0), w))"

definition sock_close :: "'w os \<Rightarrow> fd \<Rightarrow> state_type \<Rightarrow> bool \<Rightarrow> sys_error \<Rightarrow> 'w \<Rightarrow>
    int \<times> state_type \<times> sys_error \<times> 'w" where
  "sock_close os s state destruction ec w =
     (if s = invalid_socket then (0, state, ec, w)
      else
        let w = (if destruction \<and> has_flag state user_set_linger then snd (snd (sys_unset_linger os s w)) else w);
            (res, errno, w) = sys_close os s w;
            ec = get_last_error ec errno (res \<noteq> 0)
        in if res \<noteq> 0 \<and> (ec = would_block \<or> ec = try_again)
           then
             let (_, _, w) = sys_fionbio os s False w;
                 state = state AND NOT non_blocking;
                 (res, errno, w) = sys_close os s w;
                 ec = get_last_error ec errno (res \<noteq> 0)
             in (res, state, ec, w)
           else (res, state, ec, w))"

text \<open>The loops are evaluated by their equations.\<close>

declare non_blocking_accept.simps [code] non_blocking_recv1.simps [code] non_blocking_send1.simps [code]

end
