(* ===== verification/Reactor.thy ===== *)
theory Reactor
  imports Scheduler SocketOps "HOL-Library.Monad_Syntax"
begin

text \<open>
  The reactor, \<^verbatim>\<open>asio/detail/impl/epoll_reactor.ipp\<close>: the state of every registered descriptor with a
  queue of operations for reading, writing and exceptions, the attempts made when an operation is
  started or the descriptor is ready, and the hand-over of finished operations to the scheduler.
  Every function is what is done under the descriptor's mutex, followed by the calls of the scheduler.
  A function gives \<open>None\<close> only if an attempt of an operation does not return.
\<close>

section \<open>Operations\<close>

text \<open>
  An operation object: what its \<open>perform_func_\<close> is with the arguments of its constructor, its error
  code, cancellation key and number of bytes; the received bytes and the accepted socket are what the
  attempts leave in the memory it points to.
\<close>

datatype op_kind =
    RecvOp fd state_type nat int
  | SendOp fd state_type "u8 list" int
  | AcceptOp fd state_type
  | ConnectOp fd
  | NullBuffersOp

record reactor_op =
  op_name :: op
  op_kind_of :: op_kind
  op_ec :: sys_error
  op_key :: nat
  op_bytes :: nat
  op_received :: "u8 list"
  op_new_socket :: fd

datatype perform_status = Not_done | Done | Done_and_exhausted

definition recv_op_perform :: "'w os \<Rightarrow> fd \<Rightarrow> state_type \<Rightarrow> nat \<Rightarrow> int \<Rightarrow> reactor_op \<Rightarrow> 'w \<Rightarrow>
    (perform_status \<times> reactor_op \<times> 'w) option" where
  "recv_op_perform os s state sz flags o' w =
     do {
       (ok, ec, n, received, w) \<leftarrow>
         non_blocking_recv1 os s sz flags (has_flag state stream_oriented) (op_ec o') (op_bytes o') w;
       let result = (if ok then Done else Not_done);
       let result = (if result = Done \<and> has_flag state stream_oriented \<and> n = 0 then Done_and_exhausted else result);
       Some (result, o'\<lparr>op_ec := ec, op_bytes := n, op_received := received\<rparr>, w)
     }"

definition send_op_perform :: "'w os \<Rightarrow> fd \<Rightarrow> state_type \<Rightarrow> u8 list \<Rightarrow> int \<Rightarrow> reactor_op \<Rightarrow> 'w \<Rightarrow>
    (perform_status \<times> reactor_op \<times> 'w) option" where
  "send_op_perform os s state bs flags o' w =
     do {
       (ok, ec, n, w) \<leftarrow> non_blocking_send1 os s bs flags (op_ec o') (op_bytes o') w;
       let result = (if ok then Done else Not_done);
       let result = (if result = Done \<and> has_flag state stream_oriented \<and> n < length bs
         then Done_and_exhausted else result);
       Some (result, o'\<lparr>op_ec := ec, op_bytes := n\<rparr>, w)
     }"

definition accept_op_perform :: "'w os \<Rightarrow> fd \<Rightarrow> state_type \<Rightarrow> reactor_op \<Rightarrow> 'w \<Rightarrow>
    (perform_status \<times> reactor_op \<times> 'w) option" where
  "accept_op_perform os s state o' w =
     do {
       (ok, ec, new_socket, w) \<leftarrow> non_blocking_accept os s state (op_ec o') w;
       Some (if ok then Done else Not_done, o'\<lparr>op_ec := ec, op_new_socket := new_socket\<rparr>, w)
     }"

definition connect_op_perform :: "'w os \<Rightarrow> fd \<Rightarrow> reactor_op \<Rightarrow> 'w \<Rightarrow> (perform_status \<times> reactor_op \<times> 'w) option" where
  "connect_op_perform os s o' w =
     (let (ok, ec, w) = non_blocking_connect os s (op_ec o') w
      in Some (if ok then Done else Not_done, o'\<lparr>op_ec := ec\<rparr>, w))"

definition null_buffers_op_perform :: "reactor_op \<Rightarrow> 'w \<Rightarrow> (perform_status \<times> reactor_op \<times> 'w) option" where
  "null_buffers_op_perform o' w = Some (Done, o', w)"

definition do_perform :: "'w os \<Rightarrow> reactor_op \<Rightarrow> 'w \<Rightarrow> (perform_status \<times> reactor_op \<times> 'w) option" where
  "do_perform os o' w =
     (case op_kind_of o' of
        RecvOp s state sz flags \<Rightarrow> recv_op_perform os s state sz flags o' w
      | SendOp s state bs flags \<Rightarrow> send_op_perform os s state bs flags o' w
      | AcceptOp s state \<Rightarrow> accept_op_perform os s state o' w
      | ConnectOp s \<Rightarrow> connect_op_perform os s o' w
      | NullBuffersOp \<Rightarrow> null_buffers_op_perform o' w)"

section \<open>Descriptors\<close>

text \<open>\<open>connect_op\<close> is the same number as \<open>write_op\<close>.\<close>

datatype op_type = read_op | write_op | except_op

definition connect_op :: op_type where "connect_op = write_op"

definition EPOLLIN :: u32 where "EPOLLIN = 0x1"
definition EPOLLPRI :: u32 where "EPOLLPRI = 0x2"
definition EPOLLOUT :: u32 where "EPOLLOUT = 0x4"
definition EPOLLERR :: u32 where "EPOLLERR = 0x8"
definition EPOLLHUP :: u32 where "EPOLLHUP = 0x10"
definition EPOLLET :: u32 where "EPOLLET = 0x80000000"

fun op_flag :: "op_type \<Rightarrow> u32" where
  "op_flag read_op = EPOLLIN"
| "op_flag write_op = EPOLLOUT"
| "op_flag except_op = EPOLLPRI"

record descriptor_state =
  descriptor :: fd
  registered_events :: u32
  op_queues :: "op_type \<Rightarrow> reactor_op list"
  try_speculative :: "op_type \<Rightarrow> bool"
  descr_shutdown :: bool
  task_result :: u32

definition descriptor_state_new :: descriptor_state where
  "descriptor_state_new = \<lparr>descriptor = 0, registered_events = 0, op_queues = (\<lambda>t. []), try_speculative = (\<lambda>t. False),
     descr_shutdown = False, task_result = 0\<rparr>"

text \<open>
  The reactor with what its functions change: the thread that calls them and the scheduler, the state
  of the operating system, and the operation objects that were given to the scheduler, in the order in
  which their fate was decided under the descriptor's mutex. Descriptor states are named by numbers;
  the pool keeps freed ones for reuse.
\<close>

record 'w reactor =
  this_thread :: "thread_info option"
  the_scheduler :: scheduler
  os_state :: 'w
  finished_ops :: "reactor_op list"
  live_list :: "nat list"
  free_list :: "nat list"
  created :: nat
  descriptors :: "nat \<Rightarrow> descriptor_state"
  reactor_shutdown :: bool

definition upd_descriptor :: "nat \<Rightarrow> (descriptor_state \<Rightarrow> descriptor_state) \<Rightarrow> 'w reactor \<Rightarrow> 'w reactor" where
  "upd_descriptor d f r = r\<lparr>descriptors := (descriptors r)(d := f (descriptors r d))\<rparr>"

definition set_queue :: "nat \<Rightarrow> op_type \<Rightarrow> reactor_op list \<Rightarrow> 'w reactor \<Rightarrow> 'w reactor" where
  "set_queue d t ops r = upd_descriptor d (\<lambda>s. s\<lparr>op_queues := (op_queues s)(t := ops)\<rparr>) r"

definition set_speculative :: "nat \<Rightarrow> op_type \<Rightarrow> bool \<Rightarrow> 'w reactor \<Rightarrow> 'w reactor" where
  "set_speculative d t b r = upd_descriptor d (\<lambda>s. s\<lparr>try_speculative := (try_speculative s)(t := b)\<rparr>) r"

text \<open>Calls of the scheduler by the current thread.\<close>

definition with_scheduler :: "(thread_info option \<times> scheduler \<Rightarrow> thread_info option \<times> scheduler) \<Rightarrow> 'w reactor \<Rightarrow> 'w reactor" where
  "with_scheduler f r = (let (t, s) = f (this_thread r, the_scheduler r) in r\<lparr>this_thread := t, the_scheduler := s\<rparr>)"

definition reactor_post_immediate_completion :: "reactor_op \<Rightarrow> bool \<Rightarrow> 'w reactor \<Rightarrow> 'w reactor" where
  "reactor_post_immediate_completion o' is_continuation r =
     with_scheduler (post_immediate_completion (Completion (op_name o')) is_continuation)
       (r\<lparr>finished_ops := finished_ops r @ [o']\<rparr>)"

definition post_deferred :: "reactor_op list \<Rightarrow> 'w reactor \<Rightarrow> 'w reactor" where
  "post_deferred ops r =
     with_scheduler (post_deferred_completions (map (\<lambda>o'. Completion (op_name o')) ops))
       (r\<lparr>finished_ops := finished_ops r @ ops\<rparr>)"

section \<open>The pool of descriptor states\<close>

definition pool_alloc :: "'w reactor \<Rightarrow> nat \<times> 'w reactor" where
  "pool_alloc r =
     (case free_list r of
        d # ds \<Rightarrow> (d, r\<lparr>free_list := ds, live_list := d # live_list r\<rparr>)
      | [] \<Rightarrow> let d = created r in
          (d, upd_descriptor d (\<lambda>_. descriptor_state_new) (r\<lparr>created := d + 1, live_list := d # live_list r\<rparr>)))"

definition pool_free :: "nat \<Rightarrow> 'w reactor \<Rightarrow> 'w reactor" where
  "pool_free d r = r\<lparr>live_list := remove1 d (live_list r), free_list := d # free_list r\<rparr>"

section \<open>Registration\<close>

definition all_events :: u32 where "all_events = EPOLLIN OR EPOLLERR OR EPOLLHUP OR EPOLLPRI OR EPOLLET"

definition epoll_ctl :: "'w os \<Rightarrow> fd \<Rightarrow> epoll_request \<Rightarrow> 'w reactor \<Rightarrow> int \<times> int \<times> 'w reactor" where
  "epoll_ctl os s req r =
     (let (result, errno, w) = sys_epoll_ctl os s req (os_state r) in (result, errno, r\<lparr>os_state := w\<rparr>))"

text \<open>The result is 0 or the error; \<open>EPERM\<close> is no error, but the descriptor is then not watched.\<close>

definition register_descriptor :: "'w os \<Rightarrow> fd \<Rightarrow> 'w reactor \<Rightarrow> int \<times> nat \<times> 'w reactor" where
  "register_descriptor os s r =
     (let (d, r) = pool_alloc r;
          r = upd_descriptor d (\<lambda>st. st\<lparr>descriptor := s, descr_shutdown := False,
                try_speculative := (\<lambda>t. True), registered_events := all_events\<rparr>) r;
          (res, errno, r) = epoll_ctl os s (EPOLL_CTL_ADD all_events d) r
      in if res \<noteq> 0
         then if errno = EPERM
           then (0, d, upd_descriptor d (\<lambda>st. st\<lparr>registered_events := 0\<rparr>) r)
           else (errno, d, r)
         else (0, d, r))"

definition register_internal_descriptor :: "'w os \<Rightarrow> op_type \<Rightarrow> fd \<Rightarrow> reactor_op \<Rightarrow> 'w reactor \<Rightarrow>
    int \<times> nat \<times> 'w reactor" where
  "register_internal_descriptor os t s o' r =
     (let (d, r) = pool_alloc r;
          r = upd_descriptor d (\<lambda>st. st\<lparr>descriptor := s, descr_shutdown := False,
                op_queues := (op_queues st)(t := op_queues st t @ [o']),
                try_speculative := (\<lambda>t. True), registered_events := all_events\<rparr>) r;
          (res, errno, r) = epoll_ctl os s (EPOLL_CTL_ADD all_events d) r
      in (if res \<noteq> 0 then errno else 0, d, r))"

text \<open>A pointer to a descriptor's state, \<open>per_descriptor_data\<close>, is null or names one.\<close>

definition move_descriptor :: "nat option \<Rightarrow> nat option \<Rightarrow> nat option \<times> nat option" where
  "move_descriptor target_data source_data = (source_data, None)"

section \<open>Starting an operation\<close>

text \<open>
  What \<open>start_op\<close> does for an operation that is first in its queue: it is finished at once (\<open>None\<close> as
  second result), or goes into the queue.
\<close>

definition first_attempt :: "(reactor_op \<Rightarrow> 'w \<Rightarrow> (perform_status \<times> reactor_op \<times> 'w) option) \<Rightarrow> op_type \<Rightarrow> nat \<Rightarrow>
    reactor_op \<Rightarrow> 'w reactor \<Rightarrow> (perform_status \<times> reactor_op \<times> 'w reactor) option" where
  "first_attempt perform t d o' r =
     (if try_speculative (descriptors r d) t
      then do {
        (status, o', w) \<leftarrow> perform o' (os_state r);
        let r = r\<lparr>os_state := w\<rparr>;
        Some (status, o',
          if status = Done_and_exhausted \<and> registered_events (descriptors r d) \<noteq> 0
          then set_speculative d t False r else r)
      }
      else Some (Not_done, o', r))"

definition watch_for_writing :: "'w os \<Rightarrow> fd \<Rightarrow> nat \<Rightarrow> 'w reactor \<Rightarrow> sys_error option \<times> 'w reactor" where
  "watch_for_writing os s d r =
     (let ev = registered_events (descriptors r d) in
      if ev AND EPOLLOUT = 0
      then
        let (res, errno, r) = epoll_ctl os s (EPOLL_CTL_MOD (ev OR EPOLLOUT) d) r
        in if res = 0
           then (None, upd_descriptor d (\<lambda>st. st\<lparr>registered_events := registered_events st OR (ev OR EPOLLOUT)\<rparr>) r)
           else (Some (SysError SystemCategory errno), r)
      else (None, r))"

definition enqueue_op :: "op_type \<Rightarrow> nat \<Rightarrow> reactor_op \<Rightarrow> 'w reactor \<Rightarrow> 'w reactor" where
  "enqueue_op t d o' r =
     (let r = set_queue d t (op_queues (descriptors r d) t @ [o']) r
      in with_scheduler (\<lambda>(t, s). (t, work_started s)) r)"

definition start_first :: "'w os \<Rightarrow> (reactor_op \<Rightarrow> 'w \<Rightarrow> (perform_status \<times> reactor_op \<times> 'w) option) \<Rightarrow> op_type \<Rightarrow>
    fd \<Rightarrow> nat \<Rightarrow> reactor_op \<Rightarrow> bool \<Rightarrow> 'w reactor \<Rightarrow> 'w reactor option" where
  "start_first os perform t s d o' is_continuation r =
     do {
       (status, o', r) \<leftarrow> first_attempt perform t d o' r;
       Some (if status \<noteq> Not_done then reactor_post_immediate_completion o' is_continuation r
         else if registered_events (descriptors r d) = 0
         then reactor_post_immediate_completion (o'\<lparr>op_ec := operation_not_supported\<rparr>) is_continuation r
         else if t = write_op
         then (case watch_for_writing os s d r of (ec, r) \<Rightarrow>
           (case ec of
              None \<Rightarrow> enqueue_op t d o' r
            | Some ec \<Rightarrow> reactor_post_immediate_completion (o'\<lparr>op_ec := ec\<rparr>) is_continuation r))
         else enqueue_op t d o' r)
     }"

definition start_unattempted :: "'w os \<Rightarrow> op_type \<Rightarrow> fd \<Rightarrow> nat \<Rightarrow> reactor_op \<Rightarrow> bool \<Rightarrow> 'w reactor \<Rightarrow> 'w reactor" where
  "start_unattempted os t s d o' is_continuation r =
     (if registered_events (descriptors r d) = 0
      then reactor_post_immediate_completion (o'\<lparr>op_ec := operation_not_supported\<rparr>) is_continuation r
      else
        let r = (if t = write_op
              then upd_descriptor d (\<lambda>st. st\<lparr>registered_events := registered_events st OR EPOLLOUT\<rparr>) r else r);
            (_, _, r) = epoll_ctl os s (EPOLL_CTL_MOD (registered_events (descriptors r d)) d) r
        in enqueue_op t d o' r)"

definition start_op :: "'w os \<Rightarrow> (reactor_op \<Rightarrow> 'w \<Rightarrow> (perform_status \<times> reactor_op \<times> 'w) option) \<Rightarrow> op_type \<Rightarrow> fd \<Rightarrow>
    nat option \<Rightarrow> reactor_op \<Rightarrow> bool \<Rightarrow> bool \<Rightarrow> 'w reactor \<Rightarrow> 'w reactor option" where
  "start_op os perform t s data o' is_continuation allow_speculative r =
     (case data of
        None \<Rightarrow> Some (reactor_post_immediate_completion (o'\<lparr>op_ec := bad_descriptor\<rparr>) is_continuation r)
      | Some d \<Rightarrow>
          if descr_shutdown (descriptors r d) then Some (reactor_post_immediate_completion o' is_continuation r)
          else if op_queues (descriptors r d) t = []
          then if allow_speculative \<and> (t \<noteq> read_op \<or> op_queues (descriptors r d) except_op = [])
            then start_first os perform t s d o' is_continuation r
            else Some (start_unattempted os t s d o' is_continuation r)
          else Some (enqueue_op t d o' r))"

section \<open>Cancelling\<close>

definition abort_op :: "reactor_op \<Rightarrow> reactor_op" where
  "abort_op o' = o'\<lparr>op_ec := operation_aborted\<rparr>"

definition abort_all :: "nat \<Rightarrow> 'w reactor \<Rightarrow> reactor_op list \<times> 'w reactor" where
  "abort_all d r =
     (let q = op_queues (descriptors r d)
      in (map abort_op (q read_op @ q write_op @ q except_op),
          upd_descriptor d (\<lambda>st. st\<lparr>op_queues := (\<lambda>t. [])\<rparr>) r))"

definition cancel_ops :: "nat option \<Rightarrow> 'w reactor \<Rightarrow> 'w reactor" where
  "cancel_ops data r =
     (case data of None \<Rightarrow> r | Some d \<Rightarrow> (case abort_all d r of (ops, r) \<Rightarrow> post_deferred ops r))"

definition cancel_ops_by_key :: "nat option \<Rightarrow> op_type \<Rightarrow> nat \<Rightarrow> 'w reactor \<Rightarrow> 'w reactor" where
  "cancel_ops_by_key data t key r =
     (case data of
        None \<Rightarrow> r
      | Some d \<Rightarrow>
          let q = op_queues (descriptors r d) t
          in post_deferred (map abort_op (filter (\<lambda>o'. op_key o' = key) q))
               (set_queue d t (filter (\<lambda>o'. op_key o' \<noteq> key) q) r))"

text \<open>The result is the new value of the pointer to the descriptor's state.\<close>

definition deregister_descriptor :: "'w os \<Rightarrow> fd \<Rightarrow> nat option \<Rightarrow> bool \<Rightarrow> 'w reactor \<Rightarrow> nat option \<times> 'w reactor" where
  "deregister_descriptor os s data closing r =
     (case data of
        None \<Rightarrow> (None, r)
      | Some d \<Rightarrow>
          if \<not> descr_shutdown (descriptors r d)
          then
            let r = (if \<not> closing \<and> registered_events (descriptors r d) \<noteq> 0
                  then snd (snd (epoll_ctl os s EPOLL_CTL_DEL r)) else r);
                (ops, r) = abort_all d r;
                r = upd_descriptor d (\<lambda>st. st\<lparr>descriptor := -1, descr_shutdown := True\<rparr>) r
            in (Some d, post_deferred ops r)
          else (None, r))"

text \<open>The operations of an internal descriptor are destroyed, not completed.\<close>

definition deregister_internal_descriptor :: "'w os \<Rightarrow> fd \<Rightarrow> nat option \<Rightarrow> 'w reactor \<Rightarrow> nat option \<times> 'w reactor" where
  "deregister_internal_descriptor os s data r =
     (case data of
        None \<Rightarrow> (None, r)
      | Some d \<Rightarrow>
          if \<not> descr_shutdown (descriptors r d)
          then
            let (_, _, r) = epoll_ctl os s EPOLL_CTL_DEL r
            in (Some d, upd_descriptor d (\<lambda>st. st\<lparr>op_queues := (\<lambda>t. []), descriptor := -1, descr_shutdown := True\<rparr>) r)
          else (None, r))"

definition cleanup_descriptor_data :: "nat option \<Rightarrow> 'w reactor \<Rightarrow> nat option \<times> 'w reactor" where
  "cleanup_descriptor_data data r =
     (case data of None \<Rightarrow> (None, r) | Some d \<Rightarrow> (None, pool_free d r))"

text \<open>\<open>shutdown\<close> takes the operations of all live descriptors; the scheduler destroys them.\<close>

definition shutdown_loop :: "nat list \<Rightarrow> 'w reactor \<Rightarrow> reactor_op list \<times> 'w reactor" where
  "shutdown_loop ds r =
     fold (\<lambda>d (ops, r).
         let q = op_queues (descriptors r d);
             r = upd_descriptor d (\<lambda>st. st\<lparr>op_queues := (\<lambda>t. []), descr_shutdown := True\<rparr>) r
         in (ops @ q read_op @ q write_op @ q except_op, pool_free d r)) ds ([], r)"

definition shutdown_reactor :: "'w reactor \<Rightarrow> reactor_op list \<times> 'w reactor" where
  "shutdown_reactor r = shutdown_loop (live_list r) (r\<lparr>reactor_shutdown := True\<rparr>)"

section \<open>Performing what is ready\<close>

text \<open>
  The attempts at the operations of one queue: the finished operations, the ones left, and whether the
  last one was the last that can be done now.
\<close>

fun perform_queue :: "(reactor_op \<Rightarrow> 'w \<Rightarrow> (perform_status \<times> reactor_op \<times> 'w) option) \<Rightarrow> reactor_op list \<Rightarrow> 'w \<Rightarrow>
    (reactor_op list \<times> reactor_op list \<times> bool \<times> 'w) option" where
  "perform_queue perform [] w = Some ([], [], False, w)"
| "perform_queue perform (o' # q) w =
     do {
       (status, o', w) \<leftarrow> perform o' w;
       (case status of
          Not_done \<Rightarrow> Some ([], o' # q, False, w)
        | Done_and_exhausted \<Rightarrow> Some ([o'], q, True, w)
        | Done \<Rightarrow> do {
            (finished, left, exhausted, w) \<leftarrow> perform_queue perform q w;
            Some (o' # finished, left, exhausted, w)
          })
     }"

definition perform_type :: "(reactor_op \<Rightarrow> 'w \<Rightarrow> (perform_status \<times> reactor_op \<times> 'w) option) \<Rightarrow> nat \<Rightarrow> u32 \<Rightarrow> op_type \<Rightarrow>
    reactor_op list \<times> 'w reactor \<Rightarrow> (reactor_op list \<times> 'w reactor) option" where
  "perform_type perform d events t = (\<lambda>(ops, r).
     if events AND (op_flag t OR EPOLLERR OR EPOLLHUP) \<noteq> 0
     then do {
       (finished, left, exhausted, w) \<leftarrow> perform_queue perform (op_queues (descriptors r d) t) (os_state r);
       Some (ops @ finished, set_speculative d t (\<not> exhausted) (set_queue d t left (r\<lparr>os_state := w\<rparr>)))
     }
     else Some (ops, r))"

text \<open>
  \<open>perform_io\<close> gives the first finished operation, which this handler completes; the others are
  posted when it returns. If there is none, the work that the scheduler will take off is made up for.
\<close>

definition io_cleanup :: "reactor_op list \<Rightarrow> 'w reactor \<Rightarrow> 'w reactor" where
  "io_cleanup ops r =
     (case ops of
        o' # ops \<Rightarrow> post_deferred ops (r\<lparr>finished_ops := finished_ops r @ [o']\<rparr>)
      | [] \<Rightarrow> r\<lparr>this_thread := map_option compensating_work_started (this_thread r)\<rparr>)"

definition perform_io :: "(reactor_op \<Rightarrow> 'w \<Rightarrow> (perform_status \<times> reactor_op \<times> 'w) option) \<Rightarrow> nat \<Rightarrow> u32 \<Rightarrow> 'w reactor \<Rightarrow>
    (reactor_op option \<times> 'w reactor) option" where
  "perform_io perform d events r =
     do {
       x \<leftarrow> perform_type perform d events except_op ([], r);
       x \<leftarrow> perform_type perform d events write_op x;
       (ops, r) \<leftarrow> perform_type perform d events read_op x;
       Some (case ops of [] \<Rightarrow> None | o' # _ \<Rightarrow> Some o', io_cleanup ops r)
     }"

text \<open>The handler of a descriptor's state: the operation it completes, if any.\<close>

definition descriptor_do_complete :: "(reactor_op \<Rightarrow> 'w \<Rightarrow> (perform_status \<times> reactor_op \<times> 'w) option) \<Rightarrow> nat \<Rightarrow>
    'w reactor \<Rightarrow> (reactor_op option \<times> 'w reactor) option" where
  "descriptor_do_complete perform d r = perform_io perform d (task_result (descriptors r d)) r"

section \<open>Waiting for events\<close>

datatype event_source = Interrupter | TimerFd | Ready nat

text \<open>
  \<open>run\<close> with what \<open>epoll_wait\<close> reported. A descriptor that is not yet among the operations of this
  call is added; a further event of it is merged. The timers are checked when their descriptor is ready,
  or at every interruption where there is no timer descriptor; \<open>ready_timers\<close> are the operations that
  \<open>get_ready_timers\<close> then completes.
\<close>

definition epoll_timeout :: "int \<Rightarrow> int" where
  "epoll_timeout usec = (if usec = 0 then 0 else if usec < 0 then -1 else (usec - 1) div 1000 + 1)"

fun dispatch_event :: "bool \<Rightarrow> event_source \<times> u32 \<Rightarrow> operation list \<times> bool \<times> 'w reactor \<Rightarrow>
    operation list \<times> bool \<times> 'w reactor" where
  "dispatch_event has_timer_fd (Interrupter, events) (ops, check_timers, r) =
     (ops, check_timers \<or> \<not> has_timer_fd, r)"
| "dispatch_event has_timer_fd (TimerFd, events) (ops, check_timers, r) = (ops, True, r)"
| "dispatch_event has_timer_fd (Ready d, events) (ops, check_timers, r) =
     (if DescriptorState d \<notin> set ops
      then (ops @ [DescriptorState d], check_timers, upd_descriptor d (\<lambda>st. st\<lparr>task_result := events\<rparr>) r)
      else (ops, check_timers, upd_descriptor d (\<lambda>st. st\<lparr>task_result := task_result st OR events\<rparr>) r))"

definition reactor_run :: "bool \<Rightarrow> (event_source \<times> u32) list \<Rightarrow> op list \<Rightarrow> 'w reactor \<Rightarrow> operation list \<times> 'w reactor" where
  "reactor_run has_timer_fd events ready_timers r =
     (let (ops, check_timers, r) = fold (dispatch_event has_timer_fd) (take 128 events) ([], \<not> has_timer_fd, r)
      in (if check_timers then ops @ map Completion ready_timers else ops, r))"

end
