(* ===== verification/SocketService.thy ===== *)
theory SocketService
  imports Reactor
begin

text \<open>
  The socket objects on top of the reactor, \<^verbatim>\<open>asio/detail/impl/reactive_socket_service_base.ipp\<close>:
  opening, closing and cancelling a socket and starting its operations.
\<close>

section \<open>The state of a socket\<close>

record socket_impl =
  sock_fd :: fd
  sock_state :: state_type
  reactor_data :: "nat option"

definition SOCK_STREAM :: int where "SOCK_STREAM = 1"
definition SOCK_DGRAM :: int where "SOCK_DGRAM = 2"

definition socket_construct :: "socket_impl \<Rightarrow> socket_impl" where
  "socket_construct impl = impl\<lparr>sock_fd := invalid_socket, sock_state := 0\<rparr>"

definition socket_is_open :: "socket_impl \<Rightarrow> bool" where
  "socket_is_open impl \<longleftrightarrow> sock_fd impl \<noteq> invalid_socket"

definition base_move_construct :: "socket_impl \<Rightarrow> socket_impl \<Rightarrow> socket_impl \<times> socket_impl" where
  "base_move_construct impl other_impl =
     (let (data, other_data) = move_descriptor (reactor_data impl) (reactor_data other_impl)
      in (\<lparr>sock_fd = sock_fd other_impl, sock_state = sock_state other_impl, reactor_data = data\<rparr>,
          \<lparr>sock_fd = invalid_socket, sock_state = 0, reactor_data = other_data\<rparr>))"

text \<open>The reactor's state is in \<open>r\<close>, the operating system's in \<open>os_state r\<close>.\<close>

definition close_descriptor :: "'w os \<Rightarrow> fd \<Rightarrow> state_type \<Rightarrow> bool \<Rightarrow> sys_error \<Rightarrow> 'w reactor \<Rightarrow>
    state_type \<times> sys_error \<times> 'w reactor" where
  "close_descriptor os s state destruction ec r =
     (let (_, state, ec, w) = sock_close os s state destruction ec (os_state r)
      in (state, ec, r\<lparr>os_state := w\<rparr>))"

definition socket_destroy :: "'w os \<Rightarrow> socket_impl \<Rightarrow> 'w reactor \<Rightarrow> socket_impl \<times> 'w reactor" where
  "socket_destroy os impl r =
     (if sock_fd impl \<noteq> invalid_socket
      then
        let (data, r) = deregister_descriptor os (sock_fd impl) (reactor_data impl)
              (\<not> has_flag (sock_state impl) possible_dup) r;
            (state, _, r) = close_descriptor os (sock_fd impl) (sock_state impl) True no_error r;
            (data, r) = cleanup_descriptor_data data r
        in (impl\<lparr>sock_state := state, reactor_data := data\<rparr>, r)
      else (impl, r))"

definition base_move_assign :: "'w os \<Rightarrow> socket_impl \<Rightarrow> socket_impl \<Rightarrow> 'w reactor \<Rightarrow>
    socket_impl \<times> socket_impl \<times> 'w reactor" where
  "base_move_assign os impl other_impl r =
     (let (impl, r) = socket_destroy os impl r;
          (impl, other_impl) = base_move_construct impl other_impl
      in (impl, other_impl, r))"

definition socket_close :: "'w os \<Rightarrow> socket_impl \<Rightarrow> sys_error \<Rightarrow> 'w reactor \<Rightarrow> socket_impl \<times> sys_error \<times> 'w reactor" where
  "socket_close os impl ec r =
     (if socket_is_open impl
      then
        let (data, r) = deregister_descriptor os (sock_fd impl) (reactor_data impl)
              (\<not> has_flag (sock_state impl) possible_dup) r;
            (state, ec, r) = close_descriptor os (sock_fd impl) (sock_state impl) False ec r;
            (data, r) = cleanup_descriptor_data data r
        in (socket_construct (impl\<lparr>sock_state := state, reactor_data := data\<rparr>), ec, r)
      else (socket_construct impl, no_error, r))"

definition socket_release :: "'w os \<Rightarrow> socket_impl \<Rightarrow> 'w reactor \<Rightarrow> fd \<times> socket_impl \<times> sys_error \<times> 'w reactor" where
  "socket_release os impl r =
     (if \<not> socket_is_open impl then (invalid_socket, impl, bad_descriptor, r)
      else
        let (data, r) = deregister_descriptor os (sock_fd impl) (reactor_data impl) False r;
            (data, r) = cleanup_descriptor_data data r
        in (sock_fd impl, socket_construct (impl\<lparr>reactor_data := data\<rparr>), no_error, r))"

definition socket_cancel :: "socket_impl \<Rightarrow> 'w reactor \<Rightarrow> sys_error \<times> 'w reactor" where
  "socket_cancel impl r =
     (if \<not> socket_is_open impl then (bad_descriptor, r)
      else (no_error, cancel_ops (reactor_data impl) r))"

fun state_of_type :: "int \<Rightarrow> state_type" where
  "state_of_type type =
     (if type = SOCK_STREAM then stream_oriented else if type = SOCK_DGRAM then datagram_oriented else 0)"

text \<open>A socket that cannot be registered is closed when the \<open>socket_holder\<close> is destroyed.\<close>

definition socket_do_open :: "'w os \<Rightarrow> socket_impl \<Rightarrow> int \<Rightarrow> int \<Rightarrow> int \<Rightarrow> sys_error \<Rightarrow> 'w reactor \<Rightarrow>
    socket_impl \<times> sys_error \<times> 'w reactor" where
  "socket_do_open os impl af type protocol ec r =
     (if socket_is_open impl then (impl, already_open, r)
      else
        let (s, ec, w) = sock_open os af type protocol ec (os_state r);
            r = r\<lparr>os_state := w\<rparr>
        in if s = invalid_socket then (impl, ec, r)
           else
             let (err, d, r) = register_descriptor os s r;
                 impl = impl\<lparr>reactor_data := Some d\<rparr>
             in if err \<noteq> 0
                then (impl, SysError SystemCategory err, snd (snd (close_descriptor os s 0 True no_error r)))
                else (impl\<lparr>sock_fd := s, sock_state := state_of_type type\<rparr>, no_error, r))"

definition socket_do_assign :: "'w os \<Rightarrow> socket_impl \<Rightarrow> int \<Rightarrow> fd \<Rightarrow> 'w reactor \<Rightarrow> socket_impl \<times> sys_error \<times> 'w reactor" where
  "socket_do_assign os impl type native_socket r =
     (if socket_is_open impl then (impl, already_open, r)
      else
        let (err, d, r) = register_descriptor os native_socket r;
            impl = impl\<lparr>reactor_data := Some d\<rparr>
        in if err \<noteq> 0 then (impl, SysError SystemCategory err, r)
           else (impl\<lparr>sock_fd := native_socket, sock_state := state_of_type type OR possible_dup\<rparr>, no_error, r))"

section \<open>Starting operations\<close>

text \<open>The socket is made non-blocking before the first attempt; a failure of that is the operation's error.\<close>

definition ensure_non_blocking :: "'w os \<Rightarrow> socket_impl \<Rightarrow> reactor_op \<Rightarrow> 'w reactor \<Rightarrow>
    bool \<times> socket_impl \<times> reactor_op \<times> 'w reactor" where
  "ensure_non_blocking os impl o' r =
     (if has_flag (sock_state impl) non_blocking then (True, impl, o', r)
      else
        let (ok, state, ec, w) = set_internal_non_blocking os (sock_fd impl) (sock_state impl) True (op_ec o') (os_state r)
        in (ok, impl\<lparr>sock_state := state\<rparr>, o'\<lparr>op_ec := ec\<rparr>, r\<lparr>os_state := w\<rparr>))"

definition socket_start_op :: "'w os \<Rightarrow> socket_impl \<Rightarrow> op_type \<Rightarrow> reactor_op \<Rightarrow> bool \<Rightarrow> bool \<Rightarrow> bool \<Rightarrow>
    'w reactor \<Rightarrow> (socket_impl \<times> 'w reactor) option" where
  "socket_start_op os impl t o' is_continuation is_non_blocking noop r =
     (if noop then Some (impl, reactor_post_immediate_completion o' is_continuation r)
      else case ensure_non_blocking os impl o' r of (ok, impl, o', r) \<Rightarrow>
        if ok
        then do {
          r \<leftarrow> start_op os (do_perform os) t (sock_fd impl) (reactor_data impl) o' is_continuation is_non_blocking r;
          Some (impl, r)
        }
        else Some (impl, reactor_post_immediate_completion o' is_continuation r))"

definition start_accept_op :: "'w os \<Rightarrow> socket_impl \<Rightarrow> reactor_op \<Rightarrow> bool \<Rightarrow> bool \<Rightarrow>
    'w reactor \<Rightarrow> (socket_impl \<times> 'w reactor) option" where
  "start_accept_op os impl o' is_continuation peer_is_open r =
     (if \<not> peer_is_open then socket_start_op os impl read_op o' is_continuation True False r
      else Some (impl, reactor_post_immediate_completion (o'\<lparr>op_ec := already_open\<rparr>) is_continuation r))"

definition start_connect_op :: "'w os \<Rightarrow> socket_impl \<Rightarrow> reactor_op \<Rightarrow> bool \<Rightarrow> u8 list \<Rightarrow>
    'w reactor \<Rightarrow> (socket_impl \<times> 'w reactor) option" where
  "start_connect_op os impl o' is_continuation addr r =
     (case ensure_non_blocking os impl o' r of (ok, impl, o', r) \<Rightarrow>
        if \<not> ok then Some (impl, reactor_post_immediate_completion o' is_continuation r)
        else case sock_connect os (sock_fd impl) addr (op_ec o') (os_state r) of (res, ec, w) \<Rightarrow>
          let o' = o'\<lparr>op_ec := ec\<rparr>; r = r\<lparr>os_state := w\<rparr> in
          if res \<noteq> 0 \<and> (ec = in_progress \<or> ec = would_block)
          then do {
            r \<leftarrow> start_op os (do_perform os) connect_op (sock_fd impl) (reactor_data impl)
                   (o'\<lparr>op_ec := no_error\<rparr>) is_continuation False r;
            Some (impl, r)
          }
          else Some (impl, reactor_post_immediate_completion o' is_continuation r))"

text \<open>The operations of the connections and of the listener: one buffer, no flags.\<close>

definition async_receive :: "'w os \<Rightarrow> socket_impl \<Rightarrow> reactor_op \<Rightarrow> bool \<Rightarrow> nat \<Rightarrow>
    'w reactor \<Rightarrow> (socket_impl \<times> 'w reactor) option" where
  "async_receive os impl o' is_continuation sz r =
     socket_start_op os impl read_op (o'\<lparr>op_kind_of := RecvOp (sock_fd impl) (sock_state impl) sz 0\<rparr>) is_continuation
       True (has_flag (sock_state impl) stream_oriented \<and> sz = 0) r"

definition async_send :: "'w os \<Rightarrow> socket_impl \<Rightarrow> reactor_op \<Rightarrow> bool \<Rightarrow> u8 list \<Rightarrow>
    'w reactor \<Rightarrow> (socket_impl \<times> 'w reactor) option" where
  "async_send os impl o' is_continuation bs r =
     socket_start_op os impl write_op (o'\<lparr>op_kind_of := SendOp (sock_fd impl) (sock_state impl) bs 0\<rparr>) is_continuation
       True (has_flag (sock_state impl) stream_oriented \<and> bs = []) r"

end
