(* ===== verification/ReactorRuns.thy ===== *)
theory ReactorRuns
  imports SocketService
begin

text \<open>
  Calls of the reactor in any order and from any thread: the order in which operations on a descriptor
  are finished. Between two calls the scheduler, the threads and the operating system may do anything.
\<close>

section \<open>Calls\<close>

datatype 'w reactor_call =
    StartOp op_type fd "nat option" reactor_op bool bool
  | CancelOps "nat option"
  | CancelOpsByKey "nat option" op_type nat
  | Register fd
  | Deregister fd "nat option" bool
  | Cleanup "nat option"
  | RunReactor bool "(event_source \<times> u32) list" "op list"
  | DescriptorReady nat
  | Meanwhile "thread_info option" scheduler 'w

text \<open>A call gives \<open>None\<close> if it uses the state of a descriptor that was freed or never made.\<close>

definition points_to_live :: "'w reactor \<Rightarrow> nat option \<Rightarrow> bool" where
  "points_to_live r data \<longleftrightarrow> (case data of None \<Rightarrow> True | Some d \<Rightarrow> d \<in> set (live_list r))"

fun do_call :: "'w os \<Rightarrow> 'w reactor_call \<Rightarrow> 'w reactor \<Rightarrow> 'w reactor option" where
  "do_call os (StartOp t s data o' is_continuation allow_speculative) r =
     (if points_to_live r data
      then start_op os (do_perform os) t s data o' is_continuation allow_speculative r else None)"
| "do_call os (CancelOps data) r = (if points_to_live r data then Some (cancel_ops data r) else None)"
| "do_call os (CancelOpsByKey data t key) r =
     (if points_to_live r data then Some (cancel_ops_by_key data t key r) else None)"
| "do_call os (Register s) r = Some (snd (snd (register_descriptor os s r)))"
| "do_call os (Deregister s data closing) r =
     (if points_to_live r data then Some (snd (deregister_descriptor os s data closing r)) else None)"
| "do_call os (Cleanup data) r =
     (if points_to_live r data then Some (snd (cleanup_descriptor_data data r)) else None)"
| "do_call os (RunReactor has_timer_fd events ready_timers) r =
     Some (snd (reactor_run has_timer_fd events ready_timers r))"
| "do_call os (DescriptorReady d) r =
     (if d < created r then map_option snd (descriptor_do_complete (do_perform os) d r) else None)"
| "do_call os (Meanwhile t s w) r = Some (r\<lparr>this_thread := t, the_scheduler := s, os_state := w\<rparr>)"

fun do_calls :: "'w os \<Rightarrow> 'w reactor_call list \<Rightarrow> 'w reactor \<Rightarrow> 'w reactor option" where
  "do_calls os [] r = Some r"
| "do_calls os (c # cs) r = Option.bind (do_call os c r) (do_calls os cs)"

definition reactor_new :: "scheduler \<Rightarrow> 'w \<Rightarrow> 'w reactor" where
  "reactor_new s w = \<lparr>this_thread = None, the_scheduler = s, os_state = w, finished_ops = [], live_list = [],
     free_list = [], created = 0, descriptors = (\<lambda>d. descriptor_state_new), reactor_shutdown = False\<rparr>"

section \<open>Who waits where\<close>

definition waiting_names :: "'w reactor \<Rightarrow> nat \<Rightarrow> op_type \<Rightarrow> op list" where
  "waiting_names r d t = map op_name (op_queues (descriptors r d) t)"

definition finished_names :: "'w reactor \<Rightarrow> op list" where
  "finished_names r = map op_name (finished_ops r)"

lemma waiting_upd [simp]:
  "waiting_names (r\<lparr>this_thread := a\<rparr>) = waiting_names r" "waiting_names (r\<lparr>the_scheduler := b\<rparr>) = waiting_names r"
  "waiting_names (r\<lparr>os_state := w\<rparr>) = waiting_names r" "waiting_names (r\<lparr>finished_ops := f\<rparr>) = waiting_names r"
  "waiting_names (r\<lparr>live_list := l\<rparr>) = waiting_names r" "waiting_names (r\<lparr>free_list := l\<rparr>) = waiting_names r"
  "waiting_names (r\<lparr>created := n\<rparr>) = waiting_names r" "waiting_names (r\<lparr>reactor_shutdown := v\<rparr>) = waiting_names r"
  by (auto simp: waiting_names_def fun_eq_iff)

lemma finished_upd [simp]:
  "finished_names (r\<lparr>this_thread := a\<rparr>) = finished_names r" "finished_names (r\<lparr>the_scheduler := b\<rparr>) = finished_names r"
  "finished_names (r\<lparr>os_state := w\<rparr>) = finished_names r" "finished_names (r\<lparr>descriptors := ds\<rparr>) = finished_names r"
  "finished_names (r\<lparr>live_list := l\<rparr>) = finished_names r" "finished_names (r\<lparr>free_list := l\<rparr>) = finished_names r"
  "finished_names (r\<lparr>created := n\<rparr>) = finished_names r" "finished_names (r\<lparr>finished_ops := f\<rparr>) = map op_name f"
  by (auto simp: finished_names_def)

lemma upd_descriptor_simps [simp]:
  "finished_ops (upd_descriptor d f r) = finished_ops r" "created (upd_descriptor d f r) = created r"
  "os_state (upd_descriptor d f r) = os_state r" "live_list (upd_descriptor d f r) = live_list r"
  "this_thread (upd_descriptor d f r) = this_thread r" "the_scheduler (upd_descriptor d f r) = the_scheduler r"
  "free_list (upd_descriptor d f r) = free_list r"
  "descriptors (upd_descriptor d f r) e = (if e = d then f (descriptors r d) else descriptors r e)"
  by (auto simp: upd_descriptor_def)

lemma set_queue_simps [simp]:
  "finished_ops (set_queue d t q r) = finished_ops r" "created (set_queue d t q r) = created r"
  "os_state (set_queue d t q r) = os_state r" "live_list (set_queue d t q r) = live_list r"
  "free_list (set_queue d t q r) = free_list r" "this_thread (set_queue d t q r) = this_thread r" "the_scheduler (set_queue d t q r) = the_scheduler r"
  "op_queues (descriptors (set_queue d t q r) e) u = (if e = d \<and> u = t then q else op_queues (descriptors r e) u)"
  "descr_shutdown (descriptors (set_queue d t q r) e) = descr_shutdown (descriptors r e)"
  by (auto simp: set_queue_def)

lemma set_speculative_simps [simp]:
  "finished_ops (set_speculative d t b r) = finished_ops r" "created (set_speculative d t b r) = created r"
  "os_state (set_speculative d t b r) = os_state r" "live_list (set_speculative d t b r) = live_list r"
  "free_list (set_speculative d t b r) = free_list r" "this_thread (set_speculative d t b r) = this_thread r" "the_scheduler (set_speculative d t b r) = the_scheduler r"
  "op_queues (descriptors (set_speculative d t b r) e) = op_queues (descriptors r e)"
  "registered_events (descriptors (set_speculative d t b r) e) = registered_events (descriptors r e)"
  "descr_shutdown (descriptors (set_speculative d t b r) e) = descr_shutdown (descriptors r e)"
  by (auto simp: set_speculative_def)

lemma with_scheduler_simps [simp]:
  "finished_ops (with_scheduler f r) = finished_ops r" "created (with_scheduler f r) = created r"
  "os_state (with_scheduler f r) = os_state r" "live_list (with_scheduler f r) = live_list r"
  "descriptors (with_scheduler f r) = descriptors r" "free_list (with_scheduler f r) = free_list r"
  by (auto simp: with_scheduler_def split: prod.split)

lemma epoll_ctl_keeps:
  assumes "epoll_ctl os s req r = (res, errno, r')"
  shows "finished_ops r' = finished_ops r" "created r' = created r" "live_list r' = live_list r"
    "free_list r' = free_list r" "descriptors r' = descriptors r" "this_thread r' = this_thread r" "the_scheduler r' = the_scheduler r"
  using assms by (simp_all add: epoll_ctl_def case_prod_beta) auto

section \<open>The order on one queue\<close>

text \<open>
  \<open>home\<close> is the queue an operation was started on. What was started on a queue is what was finished of
  it, then what waits in it.
\<close>

definition in_order :: "(op \<Rightarrow> (nat \<times> op_type) option) \<Rightarrow> (nat \<Rightarrow> op_type \<Rightarrow> op list) \<Rightarrow> op list \<Rightarrow>
    (nat \<Rightarrow> op_type \<Rightarrow> op list) \<Rightarrow> bool" where
  "in_order home st F W \<longleftrightarrow>
     (\<forall>d t. st d t = filter (\<lambda>k. home k = Some (d, t)) F @ W d t \<and> (\<forall>k \<in> set (W d t). home k = Some (d, t)))"

definition at :: "nat \<Rightarrow> op_type \<Rightarrow> 'a \<Rightarrow> (nat \<Rightarrow> op_type \<Rightarrow> 'a) \<Rightarrow> nat \<Rightarrow> op_type \<Rightarrow> 'a" where
  "at d t x W = W(d := (W d)(t := x))"

lemma at_simps [simp]: "at d t x W e u = (if e = d \<and> u = t then x else W e u)"
  by (simp add: at_def)

lemma at_at [simp]: "at d t x (at d t y W) = at d t x W"
  by (simp add: fun_eq_iff)

lemma in_order_finish:
  assumes "in_order home st F W" "W d t = ks @ rest"
  shows "in_order home st (F @ ks) (at d t rest W)"
proof -
  have h: "home k = Some (d, t)" if "k \<in> set ks \<or> k \<in> set rest" for k
    using assms(1) that unfolding in_order_def by (metis assms(2) Un_iff set_append)
  have f: "filter (\<lambda>k. home k = Some (e, u)) ks = (if e = d \<and> u = t then ks else [])" for e u
    using h by (auto simp: filter_id_conv filter_empty_conv)
  have "st e u = filter (\<lambda>k. home k = Some (e, u)) (F @ ks) @ at d t rest W e u" for e u
    using assms(1)[unfolded in_order_def, THEN spec, THEN spec, of e u] assms(2) by (simp add: f)
  moreover have "home k = Some (e, u)" if "k \<in> set (at d t rest W e u)" for e u k
    using assms(1)[unfolded in_order_def, THEN spec, THEN spec, of e u] h that by (simp split: if_splits)
  ultimately show ?thesis unfolding in_order_def by blast
qed

lemma in_order_enqueue:
  assumes "in_order home st F W" "home k = Some (d, t)"
  shows "in_order home (at d t (st d t @ [k]) st) F (at d t (W d t @ [k]) W)"
  using assms unfolding in_order_def by (simp add: ball_Un)

lemma in_order_finish_new:
  assumes "in_order home st F W" "home k = Some (d, t)" "W d t = []"
  shows "in_order home (at d t (st d t @ [k]) st) (F @ [k]) W"
  using assms by (auto simp: in_order_def)

lemma in_order_finish_homeless:
  "in_order home st F W \<Longrightarrow> home k = None \<Longrightarrow> in_order home st (F @ [k]) W"
  by (auto simp: in_order_def)

text \<open>Freed, future and shut down descriptors have nothing waiting.\<close>

definition pool_ok :: "'w reactor \<Rightarrow> bool" where
  "pool_ok r \<longleftrightarrow>
     (\<forall>d t. descr_shutdown (descriptors r d) \<or> created r \<le> d \<longrightarrow> waiting_names r d t = []) \<and>
     (\<forall>d \<in> set (live_list r) \<union> set (free_list r). d < created r)"

definition order_inv :: "(op \<Rightarrow> (nat \<times> op_type) option) \<Rightarrow> (nat \<Rightarrow> op_type \<Rightarrow> op list) \<Rightarrow> 'w reactor \<Rightarrow> bool" where
  "order_inv home st r \<longleftrightarrow> in_order home st (finished_names r) (waiting_names r) \<and> pool_ok r"

lemma waiting_set_queue: "waiting_names (set_queue d t q r) = at d t (map op_name q) (waiting_names r)"
  by (auto simp: fun_eq_iff waiting_names_def)

lemma waiting_other [simp]:
  "waiting_names (set_speculative d t b r) = waiting_names r" "waiting_names (with_scheduler f r) = waiting_names r"
  by (auto simp: fun_eq_iff waiting_names_def)

lemma finished_other [simp]:
  "finished_names (set_speculative d t b r) = finished_names r" "finished_names (with_scheduler f r) = finished_names r"
  "finished_names (set_queue d t q r) = finished_names r" "finished_names (upd_descriptor d g r) = finished_names r"
  by (auto simp: finished_names_def)

lemma post_immediate_names [simp]:
  "finished_names (reactor_post_immediate_completion o' c r) = finished_names r @ [op_name o']"
  "waiting_names (reactor_post_immediate_completion o' c r) = waiting_names r"
  "descriptors (reactor_post_immediate_completion o' c r) = descriptors r"
  "created (reactor_post_immediate_completion o' c r) = created r"
  "live_list (reactor_post_immediate_completion o' c r) = live_list r"
  "free_list (reactor_post_immediate_completion o' c r) = free_list r"
  by (simp_all add: reactor_post_immediate_completion_def finished_names_def)

lemma post_deferred_names [simp]:
  "finished_names (post_deferred ops r) = finished_names r @ map op_name ops"
  "waiting_names (post_deferred ops r) = waiting_names r" "descriptors (post_deferred ops r) = descriptors r"
  "created (post_deferred ops r) = created r" "live_list (post_deferred ops r) = live_list r"
  "free_list (post_deferred ops r) = free_list r"
  by (simp_all add: post_deferred_def finished_names_def)

lemma abort_names [simp]: "map op_name (map abort_op ops) = map op_name ops"
  by (simp add: abort_op_def)

lemma same_names:
  assumes "descriptors r' = descriptors r" "finished_ops r' = finished_ops r"
  shows "waiting_names r' = waiting_names r" "finished_names r' = finished_names r"
  using assms by (auto simp: fun_eq_iff waiting_names_def finished_names_def)

definition same_pool :: "'w reactor \<Rightarrow> 'w reactor \<Rightarrow> bool" where
  "same_pool r r' \<longleftrightarrow> created r' = created r \<and> live_list r' = live_list r \<and> free_list r' = free_list r \<and>
     (\<forall>d. descr_shutdown (descriptors r' d) = descr_shutdown (descriptors r d))"

lemma same_pool_refl [simp]: "same_pool r r"
  by (simp add: same_pool_def)

lemma same_pool_trans: "same_pool r r' \<Longrightarrow> same_pool r' r'' \<Longrightarrow> same_pool r r''"
  by (simp add: same_pool_def)

lemma same_pool_ok:
  assumes "same_pool r r'" "pool_ok r"
    "\<And>d t. descr_shutdown (descriptors r d) \<or> created r \<le> d \<Longrightarrow> waiting_names r d t = [] \<Longrightarrow> waiting_names r' d t = []"
  shows "pool_ok r'"
  using assms unfolding same_pool_def pool_ok_def by metis

lemma post_same_pool [simp]:
  "same_pool r (reactor_post_immediate_completion o' c r)" "same_pool r (post_deferred ops r)"
  by (simp_all add: same_pool_def)

lemma enqueue_names:
  "waiting_names (enqueue_op t d o' r) = at d t (waiting_names r d t @ [op_name o']) (waiting_names r)"
  "finished_names (enqueue_op t d o' r) = finished_names r" "same_pool r (enqueue_op t d o' r)"
  by (simp_all add: enqueue_op_def waiting_set_queue same_pool_def Let_def)
    (simp add: waiting_names_def set_queue_def)+

text \<open>What is done before an operation is decided changes neither queues nor the scheduler.\<close>

definition ctx :: "'w reactor \<Rightarrow> thread_info option \<times> scheduler" where
  "ctx r = (this_thread r, the_scheduler r)"

definition quiet :: "'w reactor \<Rightarrow> 'w reactor \<Rightarrow> bool" where
  "quiet r r' \<longleftrightarrow> same_pool r r' \<and> waiting_names r' = waiting_names r \<and> finished_names r' = finished_names r \<and> ctx r' = ctx r"

lemma quiet_refl [simp]: "quiet r r"
  by (simp add: quiet_def)

lemma quiet_trans [trans]: "quiet r r' \<Longrightarrow> quiet r' r'' \<Longrightarrow> quiet r r''"
  by (simp add: quiet_def same_pool_def)

lemma quiet_upd_events: "quiet r (upd_descriptor d (\<lambda>st. st\<lparr>registered_events := g st\<rparr>) r)"
  by (auto simp: quiet_def waiting_names_def same_pool_def fun_eq_iff ctx_def)

lemma quiet_epoll_ctl:
  assumes "epoll_ctl os s req r = (res, errno, r')"
  shows "quiet r r'"
  using same_names [OF epoll_ctl_keeps(5,1) [OF assms]] epoll_ctl_keeps [OF assms]
  unfolding quiet_def same_pool_def ctx_def by simp

lemma quiet_watch_for_writing:
  assumes "watch_for_writing os s d r = (e, r')"
  shows "quiet r r'"
proof -
  obtain res errno r1 where c: "epoll_ctl os s (EPOLL_CTL_MOD (registered_events (descriptors r d) OR EPOLLOUT) d) r = (res, errno, r1)"
    by (metis prod_cases3)
  note n = quiet_epoll_ctl [OF c]
  have "r' = r \<or> r' = r1 \<or>
      r' = upd_descriptor d (\<lambda>st. st\<lparr>registered_events := registered_events st OR (registered_events (descriptors r d) OR EPOLLOUT)\<rparr>) r1"
    using assms by (simp add: watch_for_writing_def Let_def c split: if_splits)
  then show ?thesis using n quiet_trans [OF n quiet_upd_events] by (elim disjE) simp_all
qed

text \<open>An operation is decided at once or waits as the last of its queue.\<close>

definition decided_or_waits :: "nat \<Rightarrow> op_type \<Rightarrow> op \<Rightarrow> bool \<Rightarrow> 'w reactor \<Rightarrow> 'w reactor \<Rightarrow> bool" where
  "decided_or_waits d t k c r r' \<longleftrightarrow> same_pool r r' \<and>
     (finished_names r' = finished_names r @ [k] \<and> waiting_names r' = waiting_names r \<and>
        ctx r' = post_immediate_completion (Completion k) c (ctx r) \<or>
      finished_names r' = finished_names r \<and> waiting_names r' = at d t (waiting_names r d t @ [k]) (waiting_names r) \<and>
        ctx r' = (this_thread r, work_started (the_scheduler r)))"

lemma ctx_with_scheduler [simp]: "ctx (with_scheduler f r) = f (ctx r)"
  by (simp add: ctx_def with_scheduler_def split: prod.split)

lemma decided_or_waits_post:
  assumes "quiet r r1" "op_name o' = k"
  shows "decided_or_waits d t k c r (reactor_post_immediate_completion o' c r1)"
proof -
  have "ctx (reactor_post_immediate_completion o' c r1) = post_immediate_completion (Completion k) c (ctx r1)"
    using assms(2) by (simp add: reactor_post_immediate_completion_def) (simp add: ctx_def)
  moreover have "same_pool r (reactor_post_immediate_completion o' c r1)"
    using same_pool_trans [OF _ post_same_pool(1)] assms(1) unfolding quiet_def by blast
  ultimately show ?thesis using assms by (simp add: decided_or_waits_def quiet_def)
qed

lemma decided_or_waits_enqueue:
  assumes "quiet r r1" "op_name o' = k"
  shows "decided_or_waits d t k c r (enqueue_op t d o' r1)"
proof -
  have "ctx (enqueue_op t d o' r1) = (this_thread r1, work_started (the_scheduler r1))"
    by (simp add: enqueue_op_def Let_def) (simp add: ctx_def)
  moreover have "same_pool r (enqueue_op t d o' r1)"
    using same_pool_trans [OF _ enqueue_names(3)] assms(1) unfolding quiet_def by blast
  ultimately show ?thesis using assms by (simp add: decided_or_waits_def enqueue_names quiet_def) (simp add: ctx_def)
qed

lemma io_cleanup_names:
  "finished_names (io_cleanup ops r) = finished_names r @ map op_name ops"
  "waiting_names (io_cleanup ops r) = waiting_names r" "same_pool r (io_cleanup ops r)"
  by (cases ops; simp add: io_cleanup_def same_pool_def; simp add: finished_names_def)
    (cases ops; simp add: io_cleanup_def same_pool_def)+

section \<open>Attempts\<close>

text \<open>What an attempt must do for the order to be kept: leave the identity of the operation alone.\<close>

locale performer =
  fixes perform :: "reactor_op \<Rightarrow> 'w \<Rightarrow> (perform_status \<times> reactor_op \<times> 'w) option"
  assumes attempt_name: "perform o' w = Some (status, o'', w') \<Longrightarrow> op_name o'' = op_name o'"
begin

lemma perform_queue_names:
  "perform_queue perform q w = Some (finished, left, exhausted, w') \<Longrightarrow>
    map op_name q = map op_name finished @ map op_name left"
proof (induction q arbitrary: w finished left exhausted w')
  case (Cons o' q)
  obtain status o'' w1 where a: "perform o' w = Some (status, o'', w1)"
    using Cons.prems by (cases "perform o' w") auto
  show ?case
  proof (cases status)
    case Done
    then obtain f l e w2 where "perform_queue perform q w1 = Some (f, l, e, w2)" "finished = o'' # f" "left = l"
      using Cons.prems a by (cases "perform_queue perform q w1") auto
    then show ?thesis using Cons.IH attempt_name [OF a] by simp
  qed (use Cons.prems a attempt_name [OF a] in auto)
qed auto

lemma quiet_first_attempt:
  assumes "first_attempt perform t d o' r = Some (status, o'', r')"
  shows "op_name o'' = op_name o'" "quiet r r'"
proof -
  have "op_name o'' = op_name o' \<and> quiet r r'"
  proof (cases "try_speculative (descriptors r d) t")
    case True
    then obtain o1 w where "perform o' (os_state r) = Some (status, o1, w)"
      using assms by (cases "perform o' (os_state r)") (auto simp: first_attempt_def Let_def)
    with True assms attempt_name [OF this] show ?thesis
      by (simp add: first_attempt_def quiet_def same_pool_def ctx_def Let_def split: if_splits) auto
  qed (use assms in \<open>simp add: first_attempt_def\<close>)
  then show "op_name o'' = op_name o'" "quiet r r'" by simp_all
qed

lemma start_first_decides:
  assumes "start_first os perform t s d o' c r = Some r'"
  shows "decided_or_waits d t (op_name o') c r r'"
proof -
  obtain status o1 r1 where a: "first_attempt perform t d o' r = Some (status, o1, r1)"
    using assms by (cases "first_attempt perform t d o' r") (auto simp: start_first_def)
  note n = quiet_first_attempt [OF a]
  obtain e r2 where w: "watch_for_writing os s d r1 = (e, r2)" by fastforce
  note m = quiet_trans [OF n(2) quiet_watch_for_writing [OF w]]
  have "r' = (if status \<noteq> Not_done then reactor_post_immediate_completion o1 c r1
      else if registered_events (descriptors r1 d) = 0
      then reactor_post_immediate_completion (o1\<lparr>op_ec := operation_not_supported\<rparr>) c r1
      else if t = write_op
      then (case e of None \<Rightarrow> enqueue_op t d o1 r2 | Some ec \<Rightarrow> reactor_post_immediate_completion (o1\<lparr>op_ec := ec\<rparr>) c r2)
      else enqueue_op t d o1 r1)"
    using assms by (simp add: start_first_def a w cong: if_cong)
  then show ?thesis
    using n(1) by (auto intro!: decided_or_waits_post decided_or_waits_enqueue n(2) m split: option.splits)
qed

lemma start_unattempted_decides:
  "decided_or_waits d t (op_name o') c r (start_unattempted os t s d o' c r)"
proof -
  define r1 where "r1 = (if t = write_op
    then upd_descriptor d (\<lambda>st. st\<lparr>registered_events := registered_events st OR EPOLLOUT\<rparr>) r else r)"
  have n: "quiet r r1" by (simp add: r1_def quiet_upd_events)
  obtain res errno r2 where e: "epoll_ctl os s (EPOLL_CTL_MOD (registered_events (descriptors r1 d)) d) r1 = (res, errno, r2)"
    by (metis prod_cases3)
  note m = quiet_trans [OF n quiet_epoll_ctl [OF e]]
  show ?thesis
    by (auto simp: start_unattempted_def Let_def e simp flip: r1_def intro!: decided_or_waits_post decided_or_waits_enqueue m)
qed

lemma start_op_decides:
  assumes "start_op os perform t s (Some d) o' c spec r = Some r'"
  shows "decided_or_waits d t (op_name o') c r r'"
    "descr_shutdown (descriptors r d) \<Longrightarrow> waiting_names r' = waiting_names r"
    "\<not> descr_shutdown (descriptors r d) \<Longrightarrow> waiting_names r d t \<noteq> [] \<Longrightarrow> finished_names r' = finished_names r"
proof -
  consider (shut) "descr_shutdown (descriptors r d)" "r' = reactor_post_immediate_completion o' c r"
    | (empty) "\<not> descr_shutdown (descriptors r d)" "waiting_names r d t = []"
      "start_first os perform t s d o' c r = Some r' \<or> r' = start_unattempted os t s d o' c r"
    | (behind) "\<not> descr_shutdown (descriptors r d)" "r' = enqueue_op t d o' r"
    using assms by (auto simp: start_op_def waiting_names_def split: if_splits)
  note cases = this
  from cases show "decided_or_waits d t (op_name o') c r r'"
  proof cases
    case shut then show ?thesis using decided_or_waits_post [OF quiet_refl refl] by simp
  next
    case empty
    from empty(3) show ?thesis by (elim disjE) (erule start_first_decides, simp add: start_unattempted_decides)
  next
    case behind then show ?thesis using decided_or_waits_enqueue [OF quiet_refl refl] by simp
  qed
  from cases show "waiting_names r' = waiting_names r" if "descr_shutdown (descriptors r d)"
    using that by cases simp_all
  from cases show "finished_names r' = finished_names r" if "\<not> descr_shutdown (descriptors r d)" "waiting_names r d t \<noteq> []"
    using that by cases (simp_all add: enqueue_names)
qed

lemma start_op_order:
  assumes inv: "order_inv home st r" and home: "home (op_name o') = map_option (\<lambda>d. (d, t)) data"
    and live: "points_to_live r data" and r': "start_op os perform t s data o' c spec r = Some r'"
  shows "order_inv home (case data of None \<Rightarrow> st | Some d \<Rightarrow> at d t (st d t @ [op_name o']) st) r'"
proof (cases data)
  case None
  have "r' = reactor_post_immediate_completion (o'\<lparr>op_ec := bad_descriptor\<rparr>) c r" using r' by (simp add: start_op_def None)
  moreover have "pool_ok (reactor_post_immediate_completion (o'\<lparr>op_ec := bad_descriptor\<rparr>) c r)"
    by (rule same_pool_ok [OF post_same_pool(1)]) (use inv in \<open>simp_all add: order_inv_def\<close>)
  ultimately show ?thesis using inv home by (simp add: order_inv_def None in_order_finish_homeless)
next
  case (Some d)
  let ?W = "waiting_names r d t"
  have d: "d < created r" using inv live by (auto simp: order_inv_def pool_ok_def points_to_live_def Some)
  note main = start_op_decides [OF r' [unfolded Some]]
  have shut: "?W = []" if "descr_shutdown (descriptors r d)" using inv that by (simp add: order_inv_def pool_ok_def)
  have no: "?W = []" if "finished_names r' = finished_names r @ [op_name o']"
    using main(3) shut that by (metis append_self_conv list.distinct(1))
  note dw = main(1)
  have home': "home (op_name o') = Some (d, t)" using home by (simp add: Some)
  from dw have pool: "same_pool r r'" by (simp add: decided_or_waits_def)
  from dw consider (decided) "finished_names r' = finished_names r @ [op_name o']" "waiting_names r' = waiting_names r"
    | (waits) "finished_names r' = finished_names r" "waiting_names r' = at d t (?W @ [op_name o']) (waiting_names r)"
    unfolding decided_or_waits_def by blast
  then show ?thesis
  proof cases
    case decided
    have "pool_ok r'" by (rule same_pool_ok [OF pool]) (use inv decided in \<open>simp_all add: order_inv_def\<close>)
    moreover have "in_order home (at d t (st d t @ [op_name o']) st) (finished_names r @ [op_name o']) (waiting_names r)"
      by (rule in_order_finish_new [where d = d and t = t]) (use home' no [OF decided(1)] inv decided in \<open>simp_all add: order_inv_def\<close>)
    ultimately show ?thesis using decided by (simp add: order_inv_def Some)
  next
    case waits
    have sd: "\<not> descr_shutdown (descriptors r d)"
    proof
      assume "descr_shutdown (descriptors r d)"
      then have "at d t (?W @ [op_name o']) (waiting_names r) = waiting_names r" using main(2) waits by simp
      then have "at d t (?W @ [op_name o']) (waiting_names r) d t = waiting_names r d t" by simp
      then show False by simp
    qed
    have "pool_ok r'" by (rule same_pool_ok [OF pool]) (use inv waits sd d in \<open>auto simp: order_inv_def\<close>)
    moreover have "in_order home (at d t (st d t @ [op_name o']) st) (finished_names r) (at d t (?W @ [op_name o']) (waiting_names r))"
      by (rule in_order_enqueue [where d = d and t = t]) (use home' inv in \<open>simp_all add: order_inv_def\<close>)
    ultimately show ?thesis using waits by (simp add: order_inv_def Some)
  qed
qed

lemma perform_type_order:
  assumes p: "perform_type perform d events t (ops, r) = Some (ops', r')"
    and o': "in_order home st (F @ map op_name ops) (waiting_names r)"
  shows "in_order home st (F @ map op_name ops') (waiting_names r')" "finished_ops r' = finished_ops r" "same_pool r r'"
    "\<And>e u. waiting_names r e u = [] \<Longrightarrow> waiting_names r' e u = []"
proof -
  have "in_order home st (F @ map op_name ops') (waiting_names r') \<and> finished_ops r' = finished_ops r \<and> same_pool r r' \<and>
    (\<forall>e u. waiting_names r e u = [] \<longrightarrow> waiting_names r' e u = [])"
  proof (cases "events AND (op_flag t OR EPOLLERR OR EPOLLHUP) = 0")
    case True
    then show ?thesis using p o' by (simp add: perform_type_def)
  next
    case False
    obtain f l e w where q: "perform_queue perform (op_queues (descriptors r d) t) (os_state r) = Some (f, l, e, w)"
      using p False by (cases "perform_queue perform (op_queues (descriptors r d) t) (os_state r)") (auto simp: perform_type_def)
    have n: "waiting_names r d t = map op_name f @ map op_name l"
      using perform_queue_names [OF q] by (simp add: waiting_names_def)
    have r': "ops' = ops @ f" "r' = set_speculative d t (\<not> e) (set_queue d t l (r\<lparr>os_state := w\<rparr>))"
      using p False q by (simp_all add: perform_type_def)
    have W: "waiting_names r' = at d t (map op_name l) (waiting_names r)"
      by (simp add: r' waiting_set_queue)
    have "in_order home st ((F @ map op_name ops) @ map op_name f) (waiting_names r')"
      unfolding W by (rule in_order_finish [OF o' n])
    moreover have "same_pool r r'" by (simp add: r' same_pool_def)
    moreover have "waiting_names r' e u = []" if "waiting_names r e u = []" for e u
      using n that unfolding W by (auto split: if_splits)
    moreover have "finished_ops r' = finished_ops r" by (simp add: r')
    ultimately show ?thesis unfolding r'(1) by simp
  qed
  then show "in_order home st (F @ map op_name ops') (waiting_names r')" "finished_ops r' = finished_ops r" "same_pool r r'"
    "\<And>e u. waiting_names r e u = [] \<Longrightarrow> waiting_names r' e u = []" by blast+
qed

lemma perform_io_order:
  assumes inv: "order_inv home st r" and p: "perform_io perform d events r = Some (res, r')"
  shows "order_inv home st r'"
proof -
  obtain ops1 r1 where 1: "perform_type perform d events except_op ([], r) = Some (ops1, r1)"
    using p by (cases "perform_type perform d events except_op ([], r)") (auto simp: perform_io_def)
  obtain ops2 r2 where 2: "perform_type perform d events write_op (ops1, r1) = Some (ops2, r2)"
    using p 1 by (cases "perform_type perform d events write_op (ops1, r1)") (auto simp: perform_io_def)
  obtain ops3 r3 where 3: "perform_type perform d events read_op (ops2, r2) = Some (ops3, r3)"
    using p 1 2 by (cases "perform_type perform d events read_op (ops2, r2)") (auto simp: perform_io_def)
  have r': "r' = io_cleanup ops3 r3" using p 1 2 3 by (simp add: perform_io_def)
  have "in_order home st (finished_names r @ map op_name []) (waiting_names r)" using inv by (simp add: order_inv_def)
  note o1 = perform_type_order [OF 1 this]
  note o2 = perform_type_order [OF 2 o1(1)]
  note o3 = perform_type_order [OF 3 o2(1)]
  note c = io_cleanup_names
  have f: "finished_names r3 = finished_names r" using o1(2) o2(2) o3(2) by (simp add: finished_names_def)
  have "same_pool r r'" using o1(3) o2(3) o3(3) c(3) unfolding r' by (meson same_pool_trans)
  moreover have "pool_ok r" using inv by (simp add: order_inv_def)
  moreover have "waiting_names r' e u = []" if "waiting_names r e u = []" for e u
    unfolding r' c(2) by (rule o3(4) [OF o2(4) [OF o1(4) [OF that]]])
  ultimately have "pool_ok r'" using same_pool_ok by blast
  then show ?thesis using o3(1) by (simp add: order_inv_def r' c f)
qed

end

section \<open>The attempts of the socket operations\<close>

lemma do_perform_name: "do_perform os o' w = Some (status, o'', w') \<Longrightarrow> op_name o'' = op_name o'"
  by (cases "op_kind_of o'")
    (auto simp: do_perform_def recv_op_perform_def send_op_perform_def accept_op_perform_def connect_op_perform_def
      null_buffers_op_perform_def Let_def bind_eq_Some_conv split: prod.splits)

interpretation socket_attempts: performer "do_perform os" for os :: "'w os"
  by unfold_locales (rule do_perform_name)

section \<open>Every call keeps the order\<close>

lemma abort_all_order:
  assumes inv: "order_inv home st r" and a: "abort_all d r = (ops, r1)" and pool: "same_pool r1 r2 \<or>
      (created r2 = created r \<and> live_list r2 = live_list r \<and> free_list r2 = free_list r \<and>
       (\<forall>e. e \<noteq> d \<longrightarrow> descr_shutdown (descriptors r2 e) = descr_shutdown (descriptors r e)))"
    and n: "waiting_names r2 = waiting_names r1" "finished_names r2 = finished_names r"
  shows "order_inv home st (post_deferred ops r2)"
proof -
  let ?W = "waiting_names r"
  have ops: "map op_name ops = ?W d read_op @ ?W d write_op @ ?W d except_op" and
    W1: "waiting_names r1 = (\<lambda>e u. if e = d then [] else ?W e u)" and
    r1: "same_pool r r1"
    using a by (auto simp: abort_all_def Let_def waiting_names_def fun_eq_iff same_pool_def abort_op_def split: if_splits)
  have W: "(\<lambda>e u. if e = d then [] else ?W e u) = at d except_op [] (at d write_op [] (at d read_op [] ?W))"
    by (intro ext) (metis (full_types) at_simps op_type.exhaust)
  have o1: "in_order home st (finished_names r) ?W" using inv by (simp add: order_inv_def)
  have o2: "in_order home st (finished_names r @ ?W d read_op) (at d read_op [] ?W)"
    by (rule in_order_finish [OF o1]) simp
  have o3: "in_order home st ((finished_names r @ ?W d read_op) @ ?W d write_op) (at d write_op [] (at d read_op [] ?W))"
    by (rule in_order_finish [OF o2]) simp
  have o4: "in_order home st (((finished_names r @ ?W d read_op) @ ?W d write_op) @ ?W d except_op)
      (at d except_op [] (at d write_op [] (at d read_op [] ?W)))"
    by (rule in_order_finish [OF o3]) simp
  have "in_order home st (finished_names (post_deferred ops r2)) (waiting_names (post_deferred ops r2))"
    using o4 by (simp only: post_deferred_names n W1 W ops append_assoc)
  moreover have "pool_ok (post_deferred ops r2)"
    using inv pool r1 unfolding order_inv_def pool_ok_def same_pool_def post_deferred_names n W1 by metis
  ultimately show ?thesis by (simp add: order_inv_def)
qed

lemma cancel_ops_order:
  assumes "order_inv home st r"
  shows "order_inv home st (cancel_ops data r)"
proof (cases data)
  case (Some d)
  obtain ops r1 where a: "abort_all d r = (ops, r1)" by fastforce
  have "finished_names r1 = finished_names r" using a by (auto simp: abort_all_def Let_def)
  then show ?thesis using abort_all_order [OF assms a _ refl] by (simp add: cancel_ops_def Some a)
qed (use assms in \<open>simp add: cancel_ops_def\<close>)

lemma epoll_ctl_order:
  assumes "order_inv home st r" "epoll_ctl os s req r = (res, errno, r')"
  shows "order_inv home st r'"
proof -
  note n = quiet_epoll_ctl [OF assms(2), unfolded quiet_def]
  have "pool_ok r'" by (rule same_pool_ok [OF n [THEN conjunct1]]) (use assms(1) n in \<open>simp_all add: order_inv_def\<close>)
  then show ?thesis using assms(1) n by (simp add: order_inv_def)
qed

lemma deregister_order:
  assumes inv: "order_inv home st r"
  shows "order_inv home st (snd (deregister_descriptor os s data closing r))"
proof (cases data)
  case (Some d)
  show ?thesis
  proof (cases "descr_shutdown (descriptors r d)")
    case False
    define r1 where "r1 = (if \<not> closing \<and> registered_events (descriptors r d) \<noteq> 0
      then snd (snd (epoll_ctl os s EPOLL_CTL_DEL r)) else r)"
    have i1: "order_inv home st r1"
      using inv epoll_ctl_order [OF inv, of os s EPOLL_CTL_DEL] by (auto simp: r1_def) (metis prod.collapse)
    obtain ops r2 where a: "abort_all d r1 = (ops, r2)" by fastforce
    let ?r3 = "upd_descriptor d (\<lambda>st. st\<lparr>descriptor := -1, descr_shutdown := True\<rparr>) r2"
    have "order_inv home st (post_deferred ops ?r3)"
      using a by (intro abort_all_order [OF i1 a])
        (auto simp: abort_all_def Let_def fun_eq_iff waiting_names_def)
    then show ?thesis using False by (simp add: deregister_descriptor_def Some a flip: r1_def)
  qed (use inv in \<open>simp add: deregister_descriptor_def Some\<close>)
qed (use inv in \<open>simp add: deregister_descriptor_def\<close>)

lemma cleanup_order:
  assumes inv: "order_inv home st r" and live: "points_to_live r data"
  shows "order_inv home st (snd (cleanup_descriptor_data data r))"
proof (cases data)
  case (Some d)
  have "set (remove1 d (live_list r)) \<subseteq> set (live_list r)" by (rule set_remove1_subset)
  then show ?thesis using inv live
    by (auto simp: cleanup_descriptor_data_def Some pool_free_def order_inv_def pool_ok_def points_to_live_def)
qed (use inv in \<open>simp add: cleanup_descriptor_data_def\<close>)

lemma quiet_order:
  assumes inv: "order_inv home st r" and n: "waiting_names r' = waiting_names r" "finished_names r' = finished_names r"
    and pool: "created r \<le> created r'" "set (live_list r') \<union> set (free_list r') \<subseteq> {..<created r'}"
      "\<And>e. descr_shutdown (descriptors r' e) \<Longrightarrow> descr_shutdown (descriptors r e) \<or> created r \<le> e"
  shows "order_inv home st r'"
proof -
  have "waiting_names r' e u = []" if "descr_shutdown (descriptors r' e) \<or> created r' \<le> e" for e u
    using that inv pool(1,3) unfolding n order_inv_def pool_ok_def by (metis order_trans)
  then have "pool_ok r'" using pool(2) by (auto simp: pool_ok_def)
  then show ?thesis using inv by (simp add: order_inv_def n)
qed

lemma pool_alloc_order:
  assumes inv: "order_inv home st r" and a: "pool_alloc r = (d, r')"
  shows "order_inv home st r'"
proof -
  have p: "\<forall>d \<in> set (live_list r) \<union> set (free_list r). d < created r" "\<And>e u. created r \<le> e \<Longrightarrow> waiting_names r e u = []"
    using inv by (simp_all add: order_inv_def pool_ok_def)
  have q: "op_queues (descriptors r (created r)) u = []" for u using p(2) [of "created r" u] by (simp add: waiting_names_def)
  show ?thesis
  proof (cases "free_list r")
    case Nil
    then have r': "r' = upd_descriptor (created r) (\<lambda>_. descriptor_state_new)
        (r\<lparr>created := created r + 1, live_list := created r # live_list r\<rparr>)"
      using a by (auto simp: pool_alloc_def Let_def)
    have "waiting_names r' = waiting_names r"
      using q by (auto simp: r' fun_eq_iff waiting_names_def descriptor_state_new_def)
    then show ?thesis
      using p(1) by (intro quiet_order [OF inv]) (auto simp: r' Nil descriptor_state_new_def finished_names_def less_Suc_eq split: if_splits)
  next
    case (Cons e es)
    then have r': "r' = r\<lparr>free_list := es, live_list := e # live_list r\<rparr>" using a by (auto simp: pool_alloc_def)
    show ?thesis using p(1) by (intro quiet_order [OF inv]) (auto simp: r' Cons finished_names_def)
  qed
qed

lemma upd_order:
  assumes inv: "order_inv home st r" and "\<And>st. op_queues (g st) = op_queues st" "\<And>st. descr_shutdown (g st) \<Longrightarrow> descr_shutdown st"
  shows "order_inv home st (upd_descriptor d g r)"
  using inv assms(2,3)
  by (intro quiet_order [OF inv]) (auto simp: waiting_names_def fun_eq_iff order_inv_def pool_ok_def split: if_splits)

lemma register_order:
  assumes inv: "order_inv home st r"
  shows "order_inv home st (snd (snd (register_descriptor os s r)))"
proof -
  obtain d r1 where a: "pool_alloc r = (d, r1)" by fastforce
  define r2 where "r2 = upd_descriptor d (\<lambda>st. st\<lparr>descriptor := s, descr_shutdown := False,
    try_speculative := (\<lambda>t. True), registered_events := all_events\<rparr>) r1"
  obtain res errno r3 where c: "epoll_ctl os s (EPOLL_CTL_ADD all_events d) r2 = (res, errno, r3)" by (metis prod_cases3)
  have i2: "order_inv home st r2" unfolding r2_def by (rule upd_order [OF pool_alloc_order [OF inv a]]) simp_all
  note i3 = epoll_ctl_order [OF i2 c]
  have "order_inv home st (upd_descriptor d (\<lambda>st. st\<lparr>registered_events := 0\<rparr>) r3)"
    by (rule upd_order [OF i3]) simp_all
  then show ?thesis using i3 by (simp add: register_descriptor_def a c flip: r2_def)
qed

lemma dispatch_event_order:
  "order_inv home st r \<Longrightarrow> dispatch_event b e (ops, c, r) = (ops', c', r') \<Longrightarrow> order_inv home st r'"
  by (cases "(b, e, ops, c, r)" rule: dispatch_event.cases) (auto split: if_splits intro!: upd_order)

lemma reactor_run_order:
  assumes "order_inv home st r"
  shows "order_inv home st (snd (reactor_run b events ready r))"
proof -
  have "order_inv home st (snd (snd (fold (dispatch_event b) es (ops, c, r))))" if "order_inv home st r" for es ops c r
    using that
  proof (induction es arbitrary: ops c r)
    case (Cons e es)
    obtain ops' c' r' where d: "dispatch_event b e (ops, c, r) = (ops', c', r')" by (metis prod_cases3)
    show ?case using Cons.IH [OF dispatch_event_order [OF Cons.prems d]] d by simp
  qed simp
  from this [OF assms, of "take 128 events" "[]" "\<not> b"] show ?thesis
    by (auto simp: reactor_run_def split: prod.split)
qed

lemma meanwhile_order:
  "order_inv home st r \<Longrightarrow> order_inv home st (r\<lparr>this_thread := t, the_scheduler := s, os_state := w\<rparr>)"
  by (auto simp: order_inv_def pool_ok_def)

section \<open>Properties\<close>

text \<open>The operations started on the queue \<open>t\<close> of the descriptor \<open>d\<close>, in order.\<close>

fun started_here :: "nat \<Rightarrow> op_type \<Rightarrow> 'w reactor_call \<Rightarrow> op list" where
  "started_here d t (StartOp u s data o' c spec) = (if data = Some d \<and> u = t then [op_name o'] else [])"
| "started_here d t _ = []"

fun at_home :: "(op \<Rightarrow> (nat \<times> op_type) option) \<Rightarrow> 'w reactor_call \<Rightarrow> bool" where
  "at_home home (StartOp u s data o' c spec) \<longleftrightarrow> home (op_name o') = map_option (\<lambda>d. (d, u)) data"
| "at_home home (CancelOpsByKey data t key) \<longleftrightarrow> False"
| "at_home home _ \<longleftrightarrow> True"

lemma do_call_order:
  assumes "order_inv home st r" "at_home home c" "do_call os c r = Some r'"
  shows "order_inv home (\<lambda>d t. st d t @ started_here d t c) r'"
proof (cases c)
  case (StartOp t s data o' cont spec)
  have h: "home (op_name o') = map_option (\<lambda>d. (d, t)) data" and l: "points_to_live r data"
    and e: "start_op os (do_perform os) t s data o' cont spec r = Some r'"
    using assms by (auto simp: StartOp split: if_splits)
  have "order_inv home (case data of None \<Rightarrow> st | Some d \<Rightarrow> at d t (st d t @ [op_name o']) st) r'"
    by (rule socket_attempts.start_op_order [OF assms(1) h l e])
  moreover have "(case data of None \<Rightarrow> st | Some d \<Rightarrow> at d t (st d t @ [op_name o']) st) =
      (\<lambda>e u. st e u @ started_here e u c)"
    by (auto simp: StartOp fun_eq_iff split: option.split)
  ultimately show ?thesis by simp
next
  case (DescriptorReady d)
  then obtain res where "perform_io (do_perform os) d (task_result (descriptors r d)) r = Some (res, r')"
    using assms(3) by (auto simp: descriptor_do_complete_def split: if_splits)
  then show ?thesis using socket_attempts.perform_io_order [OF assms(1)] by (simp add: DescriptorReady)
next
  case (Meanwhile t s w)
  then show ?thesis using meanwhile_order [OF assms(1)] assms(3) by auto
qed (use assms in \<open>auto intro: cancel_ops_order register_order deregister_order cleanup_order reactor_run_order split: if_splits\<close>)

lemma do_calls_order:
  "order_inv home st r \<Longrightarrow> list_all (at_home home) cs \<Longrightarrow> do_calls os cs r = Some r' \<Longrightarrow>
    order_inv home (\<lambda>d t. st d t @ concat (map (started_here d t) cs)) r'"
proof (induction cs arbitrary: st r)
  case (Cons c cs)
  obtain r1 where c: "do_call os c r = Some r1" "do_calls os cs r1 = Some r'"
    using Cons.prems(3) by (auto simp: bind_eq_Some_conv)
  show ?case using Cons.IH [OF do_call_order [OF Cons.prems(1) _ c(1)] _ c(2)] Cons.prems(2) by simp
qed simp

lemma order_inv_new: "order_inv home (\<lambda>d t. []) (reactor_new s w)"
  by (simp add: order_inv_def in_order_def pool_ok_def reactor_new_def finished_names_def waiting_names_def
      descriptor_state_new_def)

text \<open>
  C25: safety. Operations on a descriptor are done in the order in which they were started. For every
  sequence of calls from any threads, with attempts at the start, readiness events, cancellation and
  reuse of freed descriptors in between, what was started on a queue is what was finished of it (with a
  result or as aborted), in that order, followed by what still waits there: none is overtaken, lost or
  finished twice. Each operation is used for one queue, and cancellation by key, which the program does
  not use, is left aside.
\<close>

theorem operations_finish_in_start_order:
  assumes "list_all (at_home home) cs" "do_calls os cs (reactor_new s w) = Some r"
  shows "concat (map (started_here d t) cs) =
    filter (\<lambda>k. home k = Some (d, t)) (map op_name (finished_ops r)) @ map op_name (op_queues (descriptors r d) t)"
proof -
  have "order_inv home (\<lambda>d t. [] @ concat (map (started_here d t) cs)) r"
    by (rule do_calls_order [OF order_inv_new assms])
  then show ?thesis by (simp add: order_inv_def in_order_def finished_names_def waiting_names_def)
qed

text \<open>A system whose state is the bytes that have arrived on a socket.\<close>

definition demo_os :: "u8 list list os" where
  "demo_os = \<lparr>sys_accept = (\<lambda>s w. (-1, 11, w)),
     sys_recv = (\<lambda>s n f w. case w of [] \<Rightarrow> (-1, 11, [], w) | p # w \<Rightarrow> (int (length p), 0, p, w)),
     sys_send = (\<lambda>s bs f w. (int (length bs), 0, w)), sys_connect = (\<lambda>s a w. (0, 0, w)),
     sys_poll_out = (\<lambda>s m w. (1, 0, w)), sys_so_error = (\<lambda>s w. (0, 0, 0, w)), sys_fionbio = (\<lambda>s b w. (0, 0, w)),
     sys_unset_linger = (\<lambda>s w. (0, 0, w)), sys_socket = (\<lambda>a t p w. (3, 0, w)), sys_close = (\<lambda>s w. (0, 0, w)),
     sys_epoll_ctl = (\<lambda>s q w. (0, 0, w))\<rparr>"

definition demo_read :: "op \<Rightarrow> reactor_op" where
  "demo_read k = \<lparr>op_name = k, op_kind_of = RecvOp 3 stream_oriented 100 0, op_ec = no_error, op_key = 0, op_bytes = 0,
     op_received = [], op_new_socket = -1\<rparr>"

definition demo_calls :: "u8 list list reactor_call list" where
  "demo_calls = [Register 3, StartOp read_op 3 (Some 0) (demo_read 1) False True,
     StartOp read_op 3 (Some 0) (demo_read 2) False True, Meanwhile None (scheduler_new (- 1)) [[7]],
     RunReactor True [(Ready 0, EPOLLIN)] [], DescriptorReady 0]"

lemma demo_calls_return: "do_calls demo_os demo_calls (reactor_new (scheduler_new (- 1)) []) \<noteq> None"
  by code_simp

theorem operations_finish_in_start_order_witness:
  "\<exists>r. do_calls demo_os demo_calls (reactor_new (scheduler_new (- 1)) []) = Some r \<and>
     filter (\<lambda>k. k = 1 \<or> k = 2) (map op_name (finished_ops r)) @ map op_name (op_queues (descriptors r 0) read_op) = [1, 2]"
proof -
  obtain r where r: "do_calls demo_os demo_calls (reactor_new (scheduler_new (- 1)) []) = Some r"
    using demo_calls_return by blast
  let ?home = "\<lambda>k. if k = 1 \<or> k = 2 then Some (0, read_op) else None"
  have "list_all (at_home ?home) demo_calls" by (simp add: demo_calls_def demo_read_def)
  from operations_finish_in_start_order [OF this r, of 0 read_op] r show ?thesis
    by (auto simp: demo_calls_def demo_read_def)
qed

end
