(* ===== verification/SchedulerRuns.thy ===== *)
theory SchedulerRuns
  imports Scheduler
begin

text \<open>
  Runs of the scheduler: threads that run it, handlers and other threads that post operations and
  count work, the reactor that delivers completed operations, and calls of \<open>stop\<close> and \<open>restart\<close>, in
  any order. The lemmas are the accounting of work, the order of the handlers and the place of the task.
\<close>

section \<open>The transition system\<close>

text \<open>
  \<open>external\<close> counts the work that no queue shows: work guards, and operations started in the reactor
  that have not completed. The label of a step has the operations that entered the scheduler's queue,
  the handler that was started, and whether \<open>stop\<close> or \<open>restart\<close> was called.
\<close>

record sched_sys =
  sched :: scheduler
  sched_threads :: "thread_info list"
  external :: nat

datatype control = NoControl | StopCalled | RestartCalled

datatype label = Label (entered: "operation list") (started: "operation option") (control: control)

fun is_completion :: "operation \<Rightarrow> bool" where
  "is_completion (Completion k) = True"
| "is_completion _ = False"

definition completions :: "operation list \<Rightarrow> nat" where
  "completions ops = length (filter is_completion ops)"

definition idle_thread :: thread_info where
  "idle_thread = \<lparr>private_outstanding_work = 0, private_op_queue = [], handlers_run = 0, place = Outside\<rparr>"

definition put_thread :: "nat \<Rightarrow> thread_info \<times> scheduler \<Rightarrow> sched_sys \<Rightarrow> sched_sys" where
  "put_thread i ts x = x\<lparr>sched := snd ts, sched_threads := (sched_threads x)[i := fst ts]\<rparr>"

definition handler_started :: "thread_info \<Rightarrow> operation option" where
  "handler_started t = (case place t of InHandler c op' \<Rightarrow> Some op' | _ \<Rightarrow> None)"

definition appended :: "scheduler \<Rightarrow> scheduler \<Rightarrow> operation list" where
  "appended s s' = drop (length (sched_queue s)) (sched_queue s')"

text \<open>The functions that post are called by a handler of the thread \<open>i\<close> or by a thread outside.\<close>

definition runs_handler :: "thread_info \<Rightarrow> bool" where
  "runs_handler t \<longleftrightarrow> (case place t of InHandler c (Completion k) \<Rightarrow> True | _ \<Rightarrow> False)"

lemma runs_handler_iff: "runs_handler t \<longleftrightarrow> (\<exists>c k. place t = InHandler c (Completion k))"
  by (auto simp: runs_handler_def split: place.split operation.split)

definition may_post :: "nat option \<Rightarrow> sched_sys \<Rightarrow> bool" where
  "may_post i x \<longleftrightarrow> (case i of None \<Rightarrow> True
     | Some i \<Rightarrow> i < length (sched_threads x) \<and> runs_handler (sched_threads x ! i))"

definition post_from :: "nat option \<Rightarrow> (thread_info option \<times> scheduler \<Rightarrow> thread_info option \<times> scheduler) \<Rightarrow>
    sched_sys \<Rightarrow> sched_sys" where
  "post_from i f x =
     (case i of
        None \<Rightarrow> x\<lparr>sched := snd (f (None, sched x))\<rparr>
      | Some i \<Rightarrow> (case f (Some (sched_threads x ! i), sched x) of
            (Some t, s) \<Rightarrow> put_thread i (t, s) x
          | (None, s) \<Rightarrow> x\<lparr>sched := s\<rparr>))"

inductive sched_step :: "sched_sys \<Rightarrow> label \<Rightarrow> sched_sys \<Rightarrow> bool" where
  new_thread:
    "sched_step x (Label [] None NoControl) (x\<lparr>sched_threads := sched_threads x @ [idle_thread]\<rparr>)"
| enter:
    "i < length (sched_threads x) \<Longrightarrow> sched_threads x ! i = t \<Longrightarrow> place t = Outside \<or> place t = Returned n \<Longrightarrow>
     sched_step x (Label [] None NoControl) (put_thread i (run_head c (t, sched x)) x)"
| turns:
    "i < length (sched_threads x) \<Longrightarrow> sched_threads x ! i = t \<Longrightarrow> place t = Loop c \<Longrightarrow>
     turn c (t, sched x) = ts \<Longrightarrow>
     sched_step x (Label [] (handler_started (fst ts)) NoControl) (put_thread i ts x)"
| wakes:
    "i < length (sched_threads x) \<Longrightarrow> sched_threads x ! i = t \<Longrightarrow> place t = Sleeps c \<Longrightarrow>
     woken c (t, sched x) = ts \<Longrightarrow>
     sched_step x (Label [] (handler_started (fst ts)) NoControl) (put_thread i ts x)"
| task_done:
    "i < length (sched_threads x) \<Longrightarrow> sched_threads x ! i = t \<Longrightarrow> place t = InTask c \<Longrightarrow>
     TaskOperation \<notin> set ops \<Longrightarrow> completions ops \<le> external x \<Longrightarrow>
     after_task c (t\<lparr>private_op_queue := private_op_queue t @ ops\<rparr>, sched x) = ts \<Longrightarrow>
     sched_step x (Label (private_op_queue t @ ops) (handler_started (fst ts)) NoControl)
       (put_thread i ts x\<lparr>external := external x - completions ops\<rparr>)"
| handler_done:
    "i < length (sched_threads x) \<Longrightarrow> sched_threads x ! i = t \<Longrightarrow> place t = InHandler c (Completion k) \<Longrightarrow>
     sched_step x (Label (private_op_queue t) None NoControl)
       (put_thread i (after_handler c (t, sched x)) x)"
| descriptor_idle:
    "i < length (sched_threads x) \<Longrightarrow> sched_threads x ! i = t \<Longrightarrow> place t = InHandler c (DescriptorState d) \<Longrightarrow>
     sched_step x (Label (private_op_queue t) None NoControl)
       (put_thread i (after_handler c (compensating_work_started t, sched x)) x)"
| descriptor_completes:
    "i < length (sched_threads x) \<Longrightarrow> sched_threads x ! i = t \<Longrightarrow> place t = InHandler c (DescriptorState d) \<Longrightarrow>
     list_all is_completion ops \<Longrightarrow> Suc (length ops) \<le> external x \<Longrightarrow>
     post_deferred_completions ops (Some t, sched x) = (Some t', s') \<Longrightarrow>
     sched_step x (Label (appended (sched x) s') None NoControl)
       (put_thread i (t'\<lparr>place := InHandler c (Completion k)\<rparr>, s') x\<lparr>external := external x - Suc (length ops)\<rparr>)"
| posts:
    "may_post i x \<Longrightarrow> list_all is_completion ops \<Longrightarrow>
     f = post_immediate_completions ops cont \<or>
       (\<exists>op'. ops = [op'] \<and> (f = post_immediate_completion op' cont \<or> f = (\<lambda>(t, s). (t, do_dispatch op' s)))) \<Longrightarrow>
     x' = post_from i f x \<Longrightarrow>
     sched_step x (Label (appended (sched x) (sched x')) None NoControl) x'"
| posts_deferred:
    "may_post i x \<Longrightarrow> list_all is_completion ops \<Longrightarrow> length ops \<le> external x \<Longrightarrow>
     f = post_deferred_completions ops \<or> (\<exists>op'. ops = [op'] \<and> f = post_deferred_completion op') \<Longrightarrow>
     x' = post_from i f x \<Longrightarrow>
     sched_step x (Label (appended (sched x) (sched x')) None NoControl) (x'\<lparr>external := external x - length ops\<rparr>)"
| work_starts:
    "sched_step x (Label [] None NoControl) (x\<lparr>sched := work_started (sched x), external := external x + 1\<rparr>)"
| work_ends:
    "0 < external x \<Longrightarrow>
     sched_step x (Label [] None NoControl) (x\<lparr>sched := work_finished (sched x), external := external x - 1\<rparr>)"
| task_set:
    "sched_step x (Label [] None NoControl) (x\<lparr>sched := init_task (sched x)\<rparr>)"
| stops:
    "sched_step x (Label [] None StopCalled) (x\<lparr>sched := sched_stop (sched x)\<rparr>)"
| restarts:
    "sched_step x (Label [] None RestartCalled) (x\<lparr>sched := sched_restart (sched x)\<rparr>)"

text \<open>Handlers of the descriptor kind are started like the others; what matters below are all starts.\<close>

definition sched_init :: "sched_sys \<Rightarrow> bool" where
  "sched_init x \<longleftrightarrow> (\<exists>hint. sched x = scheduler_new hint) \<and> sched_threads x = [] \<and> external x = 0"

section \<open>What the functions change\<close>

lemma interrupt_task_simps [simp]:
  "sched_queue (interrupt_task s) = sched_queue s" "outstanding_work (interrupt_task s) = outstanding_work s"
  "task (interrupt_task s) = task s" "stopped (interrupt_task s) = stopped s" "shut_down (interrupt_task s) = shut_down s"
  by (simp_all add: interrupt_task_def)

lemma sched_stop_simps [simp]:
  "sched_queue (sched_stop s) = sched_queue s" "outstanding_work (sched_stop s) = outstanding_work s"
  "task (sched_stop s) = task s" "stopped (sched_stop s)" "shut_down (sched_stop s) = shut_down s"
  by (simp_all add: sched_stop_def stop_all_threads_def)

lemma wake_simps [simp]:
  "sched_queue (wake_one_thread_and_unlock s) = sched_queue s"
  "outstanding_work (wake_one_thread_and_unlock s) = outstanding_work s"
  "task (wake_one_thread_and_unlock s) = task s" "stopped (wake_one_thread_and_unlock s) = stopped s"
  by (simp_all add: wake_one_thread_and_unlock_def Let_def split: prod.split)

lemma enqueue_simps [simp]:
  "sched_queue (enqueue ops s) = sched_queue s @ ops" "outstanding_work (enqueue ops s) = outstanding_work s"
  "task (enqueue ops s) = task s" "stopped (enqueue ops s) = stopped s"
  by (simp_all add: enqueue_def)

lemma work_started_simps [simp]:
  "sched_queue (work_started s) = sched_queue s" "outstanding_work (work_started s) = outstanding_work s + 1"
  "task (work_started s) = task s" "stopped (work_started s) = stopped s"
  by (simp_all add: work_started_def)

lemma work_finished_simps [simp]:
  "sched_queue (work_finished s) = sched_queue s" "outstanding_work (work_finished s) = outstanding_work s - 1"
  "task (work_finished s) = task s" "stopped (work_finished s) \<longleftrightarrow> stopped s \<or> outstanding_work s = 1"
  by (auto simp: work_finished_def Let_def)

lemma sched_restart_simps [simp]:
  "sched_queue (sched_restart s) = sched_queue s" "outstanding_work (sched_restart s) = outstanding_work s"
  "task (sched_restart s) = task s" "stopped (sched_restart s) = False"
  by (simp_all add: sched_restart_def)

lemma turn_done_simps [simp]:
  "private_op_queue (turn_done c r t) = private_op_queue t"
  "private_outstanding_work (turn_done c r t) = private_outstanding_work t"
  "place (turn_done c r t) \<noteq> InHandler c' op'" "place (turn_done c r t) \<noteq> InTask c'" "place (turn_done c r t) \<noteq> Outside"
  "place (turn_done c r t) = Loop c' \<Longrightarrow> r"
  by (auto simp: turn_done_def split: if_splits)

text \<open>
  Picking from the queue, the common part of all turns: nothing of the accounts changes, and either
  nothing is taken, or the front operation, to be run as a handler or as the task.
\<close>

definition same_accounts :: "thread_info \<times> scheduler \<Rightarrow> thread_info \<times> scheduler \<Rightarrow> bool" where
  "same_accounts = (\<lambda>(t, s) (t', s'). private_op_queue t' = private_op_queue t \<and>
     private_outstanding_work t' = private_outstanding_work t \<and> outstanding_work s' = outstanding_work s \<and>
     task s' = task s \<and> stopped s' = stopped s)"

definition in_task :: "thread_info \<Rightarrow> bool" where
  "in_task t \<longleftrightarrow> (case place t of InTask c \<Rightarrow> True | _ \<Rightarrow> False)"

lemma in_task_iff: "in_task t \<longleftrightarrow> (\<exists>c. place t = InTask c)"
  by (auto simp: in_task_def split: place.split)

definition picks :: "thread_info \<times> scheduler \<Rightarrow> thread_info \<times> scheduler \<Rightarrow> bool" where
  "picks ts ts' \<longleftrightarrow> same_accounts ts ts' \<and>
     (let q = sched_queue (snd ts); q' = sched_queue (snd ts'); h = handler_started (fst ts') in
      (h = None \<and> \<not> in_task (fst ts') \<and> q' = q) \<or>
      (\<exists>op'. h = Some op' \<and> op' \<noteq> TaskOperation \<and> q = op' # q') \<or>
      (h = None \<and> in_task (fst ts') \<and> q = TaskOperation # q'))"

lemma handler_started_None [simp]: "handler_started (turn_done c r t) = None"
  by (auto simp: handler_started_def split: place.split)

lemma picks_nothing:
  "same_accounts (t, s) (t', s') \<Longrightarrow> sched_queue s' = sched_queue s \<Longrightarrow> handler_started t' = None \<Longrightarrow>
   \<not> in_task t' \<Longrightarrow> picks (t, s) (t', s')"
  by (simp add: picks_def Let_def)

lemma picks_turn_done [intro]:
  "same_accounts (t, s) (t, s') \<Longrightarrow> sched_queue s' = sched_queue s \<Longrightarrow> picks (t, s) (turn_done c False t, s')"
  by (intro picks_nothing) (auto simp: same_accounts_def in_task_iff)

lemma picks_start_handler [intro]:
  "sched_queue s = op' # ops \<Longrightarrow> op' \<noteq> TaskOperation \<Longrightarrow> picks (t, s) (start_handler c op' ops (t, s))"
  by (simp add: picks_def start_handler_def same_accounts_def handler_started_def Let_def)

lemma picks_start_task [intro]:
  "sched_queue s = TaskOperation # ops \<Longrightarrow> picks (t, s) (start_task c ops (t, s))"
  by (simp add: picks_def start_task_def same_accounts_def handler_started_def in_task_iff Let_def)

lemma picks_same_left: "same_accounts ts us \<Longrightarrow> sched_queue (snd us) = sched_queue (snd ts) \<Longrightarrow> picks us vs \<Longrightarrow> picks ts vs"
  unfolding picks_def by (cases ts; cases us; cases vs) (auto simp: same_accounts_def Let_def)

lemma handler_started_place [simp]: "handler_started (t\<lparr>place := Sleeps c\<rparr>) = None" "handler_started (t\<lparr>place := Loop c\<rparr>) = None"
  "\<not> in_task (t\<lparr>place := Sleeps c\<rparr>)" "\<not> in_task (t\<lparr>place := Loop c\<rparr>)" "\<not> in_task (turn_done c r t)"
  by (simp_all add: handler_started_def in_task_iff)

lemma handler_started_at: "place t = Loop c \<or> place t = Sleeps c \<Longrightarrow> handler_started t = None \<and> \<not> in_task t"
  by (auto simp: handler_started_def in_task_iff)

lemma picks_do_run_one:
  assumes "place t = Loop c"
  shows "picks (t, s) (do_run_one c (t, s))"
proof (cases "stopped s \<or> sched_queue s = []")
  case True
  then show ?thesis using handler_started_at [of t c] assms
    by (auto simp: do_run_one_def ev_wait_def ev_clear_def Let_def same_accounts_def
        intro!: picks_nothing picks_turn_done split: list.split prod.split)
next
  case False
  then show ?thesis by (cases "sched_queue s") (auto simp: do_run_one_def)
qed

lemma picks_do_poll_one: "picks (t, s) (do_poll_one c (t, s))"
proof (cases "sched_queue s")
  case (Cons op' ops)
  then have "picks (t, s) (t\<lparr>place := InTask c\<rparr>, s\<lparr>sched_queue := ops\<rparr>)" if "op' = TaskOperation"
    using that by (simp add: picks_def same_accounts_def handler_started_def in_task_iff)
  then show ?thesis using Cons by (auto simp: do_poll_one_def same_accounts_def)
qed (auto simp: do_poll_one_def same_accounts_def)

lemma picks_wait_one_front: "picks (t, s) (wait_one_front (t, s))"
  by (auto simp: wait_one_front_def wait_one_tail_def same_accounts_def split: list.split)

lemma picks_do_wait_one:
  assumes "place t = Loop c"
  shows "picks (t, s) (do_wait_one (t, s))"
proof -
  have "picks (t, s) (wait_one_front (t, s\<lparr>wakeup_event := e\<rparr>))" for e
    by (rule picks_same_left [OF _ _ picks_wait_one_front]) (simp_all add: same_accounts_def)
  then show ?thesis using picks_wait_one_front [of t s]
    by (auto simp: do_wait_one_def Let_def same_accounts_def intro: picks_nothing split: prod.split)
qed

lemma picks_turn: "place t = Loop c \<Longrightarrow> picks (t, s) (turn c (t, s))"
  by (cases c) (auto simp: turn_def picks_do_run_one picks_do_poll_one picks_do_wait_one)

lemma picks_woken:
  assumes "place t = Sleeps c"
  shows "picks (t, s) (woken c (t, s))"
proof -
  have "picks (t, s) (wait_one_front (t, s\<lparr>wakeup_event := e\<rparr>))" for e
    by (rule picks_same_left [OF _ _ picks_wait_one_front]) (simp_all add: same_accounts_def)
  then show ?thesis using handler_started_at [of t c] assms
    by (auto simp: woken_def Let_def same_accounts_def intro!: picks_nothing split: prod.split)
qed

lemma picks_after_task: "picks (task_cleanup (t, s)) (after_task c (t, s))"
proof (cases "task_cleanup (t, s)")
  case (Pair t' s')
  then show ?thesis
    by (auto simp: after_task_def same_accounts_def intro!: picks_nothing split: list.split)
qed

section \<open>The accounts\<close>

definition thread_work :: "thread_info \<Rightarrow> int" where
  "thread_work t = int (completions (private_op_queue t)) - private_outstanding_work t + (if runs_handler t then 1 else 0)"

definition total_work :: "sched_sys \<Rightarrow> int" where
  "total_work x = int (completions (sched_queue (sched x))) + sum_list (map thread_work (sched_threads x)) +
     int (external x)"

definition thread_ok :: "thread_info \<Rightarrow> bool" where
  "thread_ok t \<longleftrightarrow> 0 \<le> private_outstanding_work t \<and>
     private_outstanding_work t \<le> int (completions (private_op_queue t)) \<and>
     TaskOperation \<notin> set (private_op_queue t) \<and>
     (\<not> runs_handler t \<longrightarrow> private_outstanding_work t = 0 \<and> private_op_queue t = []) \<and>
     handler_started t \<noteq> Some TaskOperation"

definition tasks :: "sched_sys \<Rightarrow> nat" where
  "tasks x = length (filter (\<lambda>op'. op' = TaskOperation) (sched_queue (sched x))) +
     length (filter in_task (sched_threads x))"

definition handlers_in :: "operation list \<Rightarrow> operation list" where
  "handlers_in ops = filter (\<lambda>op'. op' \<noteq> TaskOperation) ops"

definition entered_run :: "label list \<Rightarrow> operation list" where
  "entered_run es = concat (map (\<lambda>e. handlers_in (entered e)) es)"

definition started_run :: "label list \<Rightarrow> operation list" where
  "started_run es = concat (map (\<lambda>e. case started e of None \<Rightarrow> [] | Some op' \<Rightarrow> [op']) es)"

definition sched_inv :: "label list \<Rightarrow> sched_sys \<Rightarrow> bool" where
  "sched_inv es x \<longleftrightarrow> outstanding_work (sched x) = total_work x \<and> list_all thread_ok (sched_threads x) \<and>
     tasks x = (if task (sched x) then 1 else 0) \<and>
     entered_run es = started_run es @ handlers_in (sched_queue (sched x))"

lemma completions_simps [simp]:
  "completions [] = 0" "completions (x # xs) = (if is_completion x then 1 else 0) + completions xs"
  "completions (xs @ ys) = completions xs + completions ys"
  by (simp_all add: completions_def)

lemma handlers_in_simps [simp]:
  "handlers_in [] = []" "handlers_in (x # xs) = (if x = TaskOperation then handlers_in xs else x # handlers_in xs)"
  "handlers_in (xs @ ys) = handlers_in xs @ handlers_in ys"
  by (simp_all add: handlers_in_def)

lemma completions_all [simp]: "list_all is_completion ops \<Longrightarrow> completions ops = length ops"
  by (induction ops) auto

lemma handlers_in_all [simp]: "TaskOperation \<notin> set ops \<Longrightarrow> handlers_in ops = ops"
  by (induction ops) auto

lemma completions_no_task: "list_all is_completion ops \<Longrightarrow> TaskOperation \<notin> set ops"
  by (auto simp: list_all_iff)

lemma filter_task_none [simp]: "TaskOperation \<notin> set ops \<Longrightarrow> filter (\<lambda>op'. op' = TaskOperation) ops = []"
  by (auto simp: filter_empty_conv)

lemma run_labels_simps [simp]:
  "entered_run [] = []" "started_run [] = []"
  "entered_run (es @ [e]) = entered_run es @ handlers_in (entered e)"
  "started_run (es @ [e]) = started_run es @ (case started e of None \<Rightarrow> [] | Some op' \<Rightarrow> [op'])"
  by (simp_all add: entered_run_def started_run_def)

lemma sum_list_update_int: "i < length xs \<Longrightarrow> sum_list (map f (xs[i := y])) = sum_list (map f xs) - f (xs ! i) + (f y :: int)"
  by (induction xs arbitrary: i) (auto split: nat.split)

lemma filter_update_count:
  "i < length xs \<Longrightarrow> length (filter P (xs[i := y])) + (if P (xs ! i) then 1 else 0) =
    length (filter P xs) + (if P y then 1 else 0)"
proof (induction xs arbitrary: i)
  case (Cons x xs)
  then show ?case using Cons.IH [of "i - 1"] by (cases i) auto
qed simp

lemma runs_handler_started: "runs_handler t \<longleftrightarrow> (\<exists>k. handler_started t = Some (Completion k))"
  by (auto simp: runs_handler_iff handler_started_def split: place.split)

text \<open>One thread's step keeps the accounts if it does so locally.\<close>

lemma sched_inv_put:
  assumes inv: "sched_inv es x" and i: "i < length (sched_threads x)"
    and work: "outstanding_work s' + int (completions (sched_queue (sched x))) + thread_work (sched_threads x ! i) +
        int (external x) =
      outstanding_work (sched x) + int (completions (sched_queue s')) + thread_work t' + int e'"
    and ok: "thread_ok t'" "task s' = task (sched x)"
    and task: "length (filter (\<lambda>op'. op' = TaskOperation) (sched_queue s')) + (if in_task t' then 1 else 0) =
      length (filter (\<lambda>op'. op' = TaskOperation) (sched_queue (sched x))) + (if in_task (sched_threads x ! i) then 1 else 0)"
    and order: "handlers_in (sched_queue (sched x)) @ handlers_in (entered l) =
      (case started l of None \<Rightarrow> [] | Some op' \<Rightarrow> [op']) @ handlers_in (sched_queue s')"
  shows "sched_inv (es @ [l]) (put_thread i (t', s') x\<lparr>external := e'\<rparr>)"
proof -
  let ?x = "put_thread i (t', s') x\<lparr>external := e'\<rparr>"
  have 1: "outstanding_work (sched ?x) = total_work ?x"
    using inv work i by (simp add: sched_inv_def total_work_def put_thread_def sum_list_update_int)
  have 2: "list_all thread_ok (sched_threads ?x)"
    using inv ok(1) set_update_subset_insert [of "sched_threads x" i t']
    by (auto simp: sched_inv_def put_thread_def list_all_iff)
  have 3: "tasks ?x = (if task (sched ?x) then 1 else 0)"
    using inv task ok(2) filter_update_count [OF i, of in_task t']
    by (auto simp: sched_inv_def tasks_def put_thread_def split: if_splits)
  have 4: "entered_run (es @ [l]) = started_run (es @ [l]) @ handlers_in (sched_queue (sched ?x))"
    using inv order by (simp add: sched_inv_def put_thread_def)
  show ?thesis unfolding sched_inv_def using 1 2 3 4 by blast
qed

lemma sched_inv_thread_ok: "sched_inv es x \<Longrightarrow> i < length (sched_threads x) \<Longrightarrow> thread_ok (sched_threads x ! i)"
  by (simp add: sched_inv_def list_all_length)

lemma sched_inv_picks:
  assumes inv: "sched_inv es x" and i: "i < length (sched_threads x)" "sched_threads x ! i = t"
    and t: "handler_started t = None" "\<not> in_task t" and p: "picks (t, sched x) ts"
  shows "sched_inv (es @ [Label [] (handler_started (fst ts)) NoControl]) (put_thread i ts x)"
proof -
  obtain t' s' where ts: "ts = (t', s')" by fastforce
  have nr: "\<not> runs_handler t" using t(1) by (simp add: runs_handler_started)
  have ok: "private_outstanding_work t = 0" "private_op_queue t = []"
    using sched_inv_thread_ok [OF inv i(1)] nr i(2) by (auto simp: thread_ok_def)
  have a: "private_op_queue t' = []" "private_outstanding_work t' = 0" "outstanding_work s' = outstanding_work (sched x)"
    "task s' = task (sched x)" using p ok by (auto simp: picks_def ts same_accounts_def)
  consider "handler_started t' = None" "\<not> in_task t'" "sched_queue s' = sched_queue (sched x)"
    | op' where "handler_started t' = Some op'" "op' \<noteq> TaskOperation" "sched_queue (sched x) = op' # sched_queue s'"
    | "handler_started t' = None" "in_task t'" "sched_queue (sched x) = TaskOperation # sched_queue s'"
    using p by (auto simp: picks_def ts Let_def)
  then have "sched_inv (es @ [Label [] (handler_started t') NoControl]) (put_thread i (t', s') x\<lparr>external := external x\<rparr>)"
  proof cases
    case 1
    then show ?thesis using inv i t a nr ok
      by (intro sched_inv_put) (auto simp: thread_ok_def thread_work_def runs_handler_started)
  next
    case 2
    moreover from this have "\<not> in_task t'" by (auto simp: handler_started_def in_task_iff)
    ultimately show ?thesis using inv i t a nr ok
      by (intro sched_inv_put) (auto simp: thread_ok_def thread_work_def runs_handler_started elim: is_completion.elims)
  next
    case 3
    then show ?thesis using inv i t a nr ok
      by (intro sched_inv_put) (auto simp: thread_ok_def thread_work_def runs_handler_started)
  qed
  then show ?thesis by (simp add: ts put_thread_def)
qed

lemma put_thread_twice: "i < length (sched_threads x) \<Longrightarrow> put_thread i ts (put_thread i us x) = put_thread i ts x"
  by (simp add: put_thread_def)

lemma sched_inv_relabel:
  "sched_inv (es @ [Label a None NoControl, Label [] b c]) x \<Longrightarrow> sched_inv (es @ [Label a b c]) x"
  by (simp add: sched_inv_def entered_run_def started_run_def)

lemma sched_inv_sched:
  assumes "sched_inv es x"
    and "outstanding_work s' + int (completions (sched_queue (sched x))) + int (external x) =
      outstanding_work (sched x) + int (completions (sched_queue s')) + int e'"
    and "length (filter (\<lambda>op'. op' = TaskOperation) (sched_queue s')) + (if task (sched x) then 1 else 0) =
      length (filter (\<lambda>op'. op' = TaskOperation) (sched_queue (sched x))) + (if task s' then 1 else 0)"
    and "handlers_in (sched_queue (sched x)) @ handlers_in (entered l) = handlers_in (sched_queue s')" "started l = None"
  shows "sched_inv (es @ [l]) (x\<lparr>sched := s', external := e'\<rparr>)"
  using assms by (auto simp: sched_inv_def total_work_def tasks_def split: if_splits)

text \<open>Posting \<open>ops\<close>, with \<open>d\<close> work counted: behind the queue, or privately.\<close>

definition posting :: "operation list \<Rightarrow> int \<Rightarrow> (thread_info option \<times> scheduler \<Rightarrow> thread_info option \<times> scheduler) \<Rightarrow> bool" where
  "posting ops d f \<longleftrightarrow>
     (let queued = (\<lambda>s s'. sched_queue s' = sched_queue s @ ops \<and> outstanding_work s' = outstanding_work s + d \<and>
            task s' = task s \<and> stopped s' = stopped s)
      in (\<forall>s. \<exists>s'. f (None, s) = (None, s') \<and> queued s s') \<and>
         (\<forall>t s. \<exists>t' s'. f (Some t, s) = (Some t', s') \<and>
            ((t' = t \<and> queued s s') \<or>
             (s' = s \<and> t' = t\<lparr>private_outstanding_work := private_outstanding_work t + d,
                private_op_queue := private_op_queue t @ ops\<rparr>))))"

lemma posting_None:
  assumes "posting ops d f"
  obtains s' where "f (None, s) = (None, s')" "sched_queue s' = sched_queue s @ ops"
    "outstanding_work s' = outstanding_work s + d" "task s' = task s" "stopped s' = stopped s"
  using assms unfolding posting_def Let_def by metis

lemma posting_Some:
  assumes "posting ops d f"
  obtains t' s' where "f (Some t, s) = (Some t', s')"
    "(t' = t \<and> sched_queue s' = sched_queue s @ ops \<and> outstanding_work s' = outstanding_work s + d \<and>
        task s' = task s \<and> stopped s' = stopped s) \<or>
     (s' = s \<and> t' = t\<lparr>private_outstanding_work := private_outstanding_work t + d,
        private_op_queue := private_op_queue t @ ops\<rparr>)"
  using assms unfolding posting_def Let_def by blast

lemma posting_post_immediate_completion: "posting [op'] 1 (post_immediate_completion op' cont)"
  by (auto simp: posting_def post_immediate_completion_def Let_def)

lemma posting_post_immediate_completions: "posting ops (int (length ops)) (post_immediate_completions ops cont)"
  by (auto simp: posting_def post_immediate_completions_def Let_def)

lemma posting_do_dispatch: "posting [op'] 1 (\<lambda>(t, s). (t, do_dispatch op' s))"
  by (auto simp: posting_def do_dispatch_def Let_def)

lemma posting_post_deferred_completion: "posting [op'] 0 (post_deferred_completion op')"
  by (auto simp: posting_def post_deferred_completion_def Let_def)

lemma posting_post_deferred_completions: "posting ops 0 (post_deferred_completions ops)"
  by (auto simp: posting_def post_deferred_completions_def Let_def)

lemma runs_handler_cong: "place t' = place t \<Longrightarrow> runs_handler t' = runs_handler t"
  by (simp add: runs_handler_iff)

lemma handler_started_cong: "place t' = place t \<Longrightarrow> handler_started t' = handler_started t"
  by (simp add: handler_started_def)

lemma in_task_cong: "place t' = place t \<Longrightarrow> in_task t' = in_task t"
  by (simp add: in_task_iff)

lemma put_thread_external [simp]:
  "put_thread i ts x\<lparr>external := external x\<rparr> = put_thread i ts x" "sched (put_thread i ts x) = snd ts"
  by (simp_all add: put_thread_def)

lemma sched_inv_post:
  assumes inv: "sched_inv es x" and may: "may_post i x" and f: "posting ops d f"
    and ops: "list_all is_completion ops" and d: "0 \<le> d" "d \<le> int (length ops)"
    and e: "int (external x) + d = int e' + int (length ops)"
  shows "sched_inv (es @ [Label (appended (sched x) (sched (post_from i f x))) None NoControl])
    (post_from i f x\<lparr>external := e'\<rparr>)"
proof (cases i)
  case None
  obtain s' where s': "f (None, sched x) = (None, s')" "sched_queue s' = sched_queue (sched x) @ ops"
    "outstanding_work s' = outstanding_work (sched x) + d" "task s' = task (sched x)"
    using posting_None [OF f] by metis
  have "sched_inv (es @ [Label (appended (sched x) s') None NoControl]) (x\<lparr>sched := s', external := e'\<rparr>)"
    using e ops completions_no_task [OF ops]
    by (intro sched_inv_sched [OF inv]) (auto simp: s' appended_def)
  then show ?thesis by (simp add: None post_from_def s')
next
  case (Some j)
  let ?t = "sched_threads x ! j"
  have j: "j < length (sched_threads x)" "runs_handler ?t" using may by (simp_all add: may_post_def Some)
  obtain t' s' where p: "f (Some ?t, sched x) = (Some t', s')"
    "(t' = ?t \<and> sched_queue s' = sched_queue (sched x) @ ops \<and> outstanding_work s' = outstanding_work (sched x) + d \<and>
        task s' = task (sched x)) \<or>
     (s' = sched x \<and> t' = ?t\<lparr>private_outstanding_work := private_outstanding_work ?t + d,
        private_op_queue := private_op_queue ?t @ ops\<rparr>)"
    using posting_Some [OF f] by metis
  have pl: "place t' = place ?t" using p(2) by auto
  note ok = sched_inv_thread_ok [OF inv j(1)]
  have "sched_inv (es @ [Label (appended (sched x) s') None NoControl]) (put_thread j (t', s') x\<lparr>external := e'\<rparr>)"
    using p(2)
  proof
    assume q: "t' = ?t \<and> sched_queue s' = sched_queue (sched x) @ ops \<and> outstanding_work s' = outstanding_work (sched x) + d \<and>
        task s' = task (sched x)"
    show ?thesis using q e ok ops completions_no_task [OF ops]
      by (intro sched_inv_put [OF inv j(1)]) (auto simp: appended_def)
  next
    assume q: "s' = sched x \<and> t' = ?t\<lparr>private_outstanding_work := private_outstanding_work ?t + d,
        private_op_queue := private_op_queue ?t @ ops\<rparr>"
    show ?thesis using q e d ok ops completions_no_task [OF ops] j(2)
        runs_handler_cong [OF pl] handler_started_cong [OF pl] in_task_cong [OF pl]
      by (intro sched_inv_put [OF inv j(1)]) (auto simp: appended_def thread_ok_def thread_work_def)
  qed
  then show ?thesis by (simp add: Some post_from_def p(1))
qed

section \<open>Every step keeps the accounts\<close>

lemma thread_at:
  "place t = Outside \<or> place t = Returned n \<or> place t = Loop c \<or> place t = Sleeps c \<Longrightarrow>
    handler_started t = None \<and> \<not> in_task t \<and> \<not> runs_handler t"
  by (auto simp: handler_started_def in_task_iff runs_handler_iff)

lemma not_running_private:
  "sched_inv es x \<Longrightarrow> i < length (sched_threads x) \<Longrightarrow> \<not> runs_handler (sched_threads x ! i) \<Longrightarrow>
    private_outstanding_work (sched_threads x ! i) = 0 \<and> private_op_queue (sched_threads x ! i) = []"
  using sched_inv_thread_ok by (auto simp: thread_ok_def)

lemma sched_inv_enter:
  assumes inv: "sched_inv es x" and i: "i < length (sched_threads x)" "sched_threads x ! i = t"
    and t: "place t = Outside \<or> place t = Returned n"
  shows "sched_inv (es @ [Label [] None NoControl]) (put_thread i (run_head c (t, sched x)) x)"
proof -
  have pt: "handler_started t = None" "\<not> in_task t" "\<not> runs_handler t"
    using t by (auto simp: handler_started_def in_task_iff runs_handler_iff)
  have pr: "private_outstanding_work t = 0" "private_op_queue t = []"
    using not_running_private [OF inv i(1)] pt i(2) by auto
  obtain t' s' where r: "run_head c (t, sched x) = (t', s')" by fastforce
  then have "place t' = Returned 0 \<or> place t' = Loop c" "private_outstanding_work t' = 0" "private_op_queue t' = []"
    "sched_queue s' = sched_queue (sched x)" "outstanding_work s' = outstanding_work (sched x)" "task s' = task (sched x)"
    using pr by (auto simp: run_head_def split: if_splits)
  then have "sched_inv (es @ [Label [] None NoControl]) (put_thread i (t', s') x\<lparr>external := external x\<rparr>)"
    using thread_at [of t' 0 c] pt pr i(2)
    by (intro sched_inv_put [OF inv i(1)]) (auto simp: thread_ok_def thread_work_def)
  then show ?thesis by (simp add: r)
qed

lemma picks_place: "picks (t, s) ts \<Longrightarrow> picks (t\<lparr>place := p\<rparr>, s) ts"
  by (cases ts) (simp add: picks_def same_accounts_def)

lemma sched_inv_task_done:
  assumes inv: "sched_inv es x" and i: "i < length (sched_threads x)" "sched_threads x ! i = t"
    and t: "place t = InTask c" and ops: "TaskOperation \<notin> set ops" "completions ops \<le> external x"
    and ts: "after_task c (t\<lparr>private_op_queue := private_op_queue t @ ops\<rparr>, sched x) = ts"
  shows "sched_inv (es @ [Label (private_op_queue t @ ops) (handler_started (fst ts)) NoControl])
    (put_thread i ts x\<lparr>external := external x - completions ops\<rparr>)"
proof -
  have nr: "\<not> runs_handler t" "in_task t" using t by (auto simp: runs_handler_iff in_task_iff)
  have pr: "private_outstanding_work t = 0" "private_op_queue t = []"
    using not_running_private [OF inv i(1)] nr i(2) by auto
  obtain t1 s1 where c: "task_cleanup (t\<lparr>private_op_queue := private_op_queue t @ ops\<rparr>, sched x) = (t1, s1)" by fastforce
  let ?t = "t1\<lparr>place := Loop c\<rparr>"
  let ?y = "put_thread i (?t, s1) x\<lparr>external := external x - completions ops\<rparr>"
  have y: "sched_inv (es @ [Label (private_op_queue t @ ops) None NoControl]) ?y"
    using c pr nr i ops
    by (intro sched_inv_put [OF inv i(1)])
      (auto simp: task_cleanup_def Let_def thread_ok_def thread_work_def handler_started_def in_task_iff runs_handler_iff)
  have "picks (t1, s1) ts" using picks_after_task [of "t\<lparr>private_op_queue := private_op_queue t @ ops\<rparr>" "sched x" c]
    by (simp add: c ts)
  from picks_place [OF this] have p: "picks (?t, sched ?y) ts" by (simp add: put_thread_def)
  have "sched_inv ((es @ [Label (private_op_queue t @ ops) None NoControl]) @ [Label [] (handler_started (fst ts)) NoControl])
    (put_thread i ts ?y)"
    using i by (intro sched_inv_picks [OF y _ _ _ _ p]) (auto simp: put_thread_def)
  moreover have "put_thread i ts ?y = put_thread i ts x\<lparr>external := external x - completions ops\<rparr>"
    by (simp add: put_thread_def)
  ultimately show ?thesis using sched_inv_relabel by simp
qed

lemma sched_inv_cleanup:
  assumes inv: "sched_inv es x" and i: "i < length (sched_threads x)"
    and t: "private_op_queue t = private_op_queue (sched_threads x ! i)"
      "thread_work (sched_threads x ! i) = int (completions (private_op_queue t)) - private_outstanding_work t + 1"
      "0 \<le> private_outstanding_work t" "\<not> in_task (sched_threads x ! i)"
  shows "sched_inv (es @ [Label (private_op_queue t) None NoControl]) (put_thread i (after_handler c (t, sched x)) x)"
proof -
  have tn: "TaskOperation \<notin> set (private_op_queue t)"
    using sched_inv_thread_ok [OF inv i] by (simp add: thread_ok_def t(1))
  obtain t' s' where a: "after_handler c (t, sched x) = (t', s')" by fastforce
  then have "private_outstanding_work t' = 0" "private_op_queue t' = []" "handler_started t' = None" "\<not> in_task t'"
    "sched_queue s' = sched_queue (sched x) @ private_op_queue t" "task s' = task (sched x)"
    "outstanding_work s' = outstanding_work (sched x) + private_outstanding_work t - 1"
    using t(3) by (auto simp: after_handler_def work_cleanup_def Let_def split: if_splits)
  then have "sched_inv (es @ [Label (private_op_queue t) None NoControl]) (put_thread i (t', s') x\<lparr>external := external x\<rparr>)"
    using t tn by (intro sched_inv_put [OF inv i]) (auto simp: thread_ok_def thread_work_def runs_handler_started)
  then show ?thesis by (simp add: a)
qed

lemma init_task_cases:
  "init_task s = s \<or> (\<not> task s \<and> sched_queue (init_task s) = sched_queue s @ [TaskOperation] \<and> task (init_task s) \<and>
     outstanding_work (init_task s) = outstanding_work s \<and> stopped (init_task s) = stopped s)"
  by (auto simp: init_task_def)

lemma sched_inv_step:
  assumes step: "sched_step x e x'" and inv: "sched_inv es x"
  shows "sched_inv (es @ [e]) x'"
  using step
proof cases
  case new_thread
  then show ?thesis using inv
    by (auto simp: sched_inv_def total_work_def thread_work_def tasks_def idle_thread_def thread_ok_def in_task_iff
        runs_handler_iff handler_started_def)
next
  case (enter i t n c)
  then show ?thesis using sched_inv_enter [OF inv] by simp
next
  case (turns i t c ts)
  then show ?thesis using sched_inv_picks [OF inv, of i t ts] picks_turn [of t c "sched x"] thread_at [of t 0 c] by simp
next
  case (wakes i t c ts)
  then show ?thesis using sched_inv_picks [OF inv, of i t ts] picks_woken [of t c "sched x"] thread_at [of t 0 c] by simp
next
  case (task_done i t c ops ts)
  then show ?thesis using sched_inv_task_done [OF inv] by simp
next
  case (handler_done i t c k)
  then have "runs_handler t" "\<not> in_task t" by (auto simp: runs_handler_iff in_task_iff)
  then show ?thesis using handler_done sched_inv_cleanup [OF inv, of i t c] sched_inv_thread_ok [OF inv, of i]
    by (simp add: thread_work_def thread_ok_def)
next
  case (descriptor_idle i t c d)
  then have nr: "\<not> runs_handler t" "\<not> in_task t" by (auto simp: runs_handler_iff in_task_iff)
  then have "private_outstanding_work t = 0" "private_op_queue t = []"
    using not_running_private [OF inv] descriptor_idle by auto
  then show ?thesis using descriptor_idle nr sched_inv_cleanup [OF inv, of i "compensating_work_started t" c]
    by (simp add: thread_work_def compensating_work_started_def)
next
  case (descriptor_completes i t c d ops t' s' k)
  then have nr: "\<not> runs_handler t" "\<not> in_task t" by (auto simp: runs_handler_iff in_task_iff)
  then have pr: "private_outstanding_work t = 0" "private_op_queue t = []"
    using not_running_private [OF inv] descriptor_completes by auto
  let ?t = "t'\<lparr>place := InHandler c (Completion k)\<rparr>"
  have tn: "TaskOperation \<notin> set ops" using completions_no_task descriptor_completes by blast
  have p: "(t' = t \<and> sched_queue s' = sched_queue (sched x) @ ops \<and> outstanding_work s' = outstanding_work (sched x) \<and>
      task s' = task (sched x)) \<or>
    (s' = sched x \<and> t' = t\<lparr>private_outstanding_work := private_outstanding_work t + 0,
        private_op_queue := private_op_queue t @ ops\<rparr>)"
    using posting_Some [OF posting_post_deferred_completions [of ops], of t "sched x"] descriptor_completes(8)
    by (metis Pair_inject add.right_neutral option.inject)
  have "runs_handler ?t" "handler_started ?t = Some (Completion k)" "\<not> in_task ?t"
    by (auto simp: runs_handler_iff handler_started_def in_task_iff)
  then have "sched_inv (es @ [Label (appended (sched x) s') None NoControl])
    (put_thread i (?t, s') x\<lparr>external := external x - Suc (length ops)\<rparr>)"
    using p pr nr tn descriptor_completes
    by (intro sched_inv_put [OF inv]) (auto simp: thread_ok_def thread_work_def appended_def)
  then show ?thesis using descriptor_completes by simp
next
  case (posts i ops f cont)
  then have "posting ops (int (length ops)) f"
    using posting_post_immediate_completion posting_post_immediate_completions posting_do_dispatch by fastforce
  moreover have "may_post i x" "list_all is_completion ops" using posts by simp_all
  ultimately have "sched_inv (es @ [Label (appended (sched x) (sched (post_from i f x))) None NoControl])
    (post_from i f x\<lparr>external := external x\<rparr>)" by (intro sched_inv_post [OF inv, where ops = ops and d = "int (length ops)"]) simp_all
  with posts
  have "sched_inv (es @ [e]) (x'\<lparr>external := external x\<rparr>)" by simp
  moreover have "external x' = external x" using posts by (auto simp: post_from_def put_thread_def split: option.split prod.split)
  ultimately show ?thesis by (metis sched_sys.surjective sched_sys.update_convs(3))
next
  case (posts_deferred i ops f y)
  then have "posting ops 0 f"
    using posting_post_deferred_completion posting_post_deferred_completions by fastforce
  moreover have "may_post i x" "list_all is_completion ops" "length ops \<le> external x" using posts_deferred by simp_all
  ultimately have "sched_inv (es @ [Label (appended (sched x) (sched (post_from i f x))) None NoControl])
    (post_from i f x\<lparr>external := external x - length ops\<rparr>)" by (intro sched_inv_post [OF inv, where ops = ops and d = 0]) (simp_all add: of_nat_diff)
  then show ?thesis using posts_deferred by simp
next
  case work_starts
  then show ?thesis using sched_inv_sched [OF inv, of "work_started (sched x)" "external x + 1" e] by simp
next
  case work_ends
  then show ?thesis using sched_inv_sched [OF inv, of "work_finished (sched x)" "external x - 1" e] by simp
next
  case task_set
  then show ?thesis using sched_inv_sched [OF inv, of "init_task (sched x)" "external x" e] init_task_cases [of "sched x"]
    by auto
next
  case stops
  then show ?thesis using sched_inv_sched [OF inv, of "sched_stop (sched x)" "external x" e] by simp
next
  case restarts
  then show ?thesis using sched_inv_sched [OF inv, of "sched_restart (sched x)" "external x" e] by simp
qed

interpretation scheduler_accounts: trace_invariant sched_step sched_init sched_inv
proof
  show "sched_init x \<Longrightarrow> sched_inv [] x" for x
    by (auto simp: sched_init_def sched_inv_def total_work_def tasks_def scheduler_new_def)
qed (rule sched_inv_step)

section \<open>Properties of the runs\<close>

text \<open>Work that is left: completed operations queued, private or running, and everything external.\<close>

definition work_left :: "sched_sys \<Rightarrow> nat" where
  "work_left x = completions (sched_queue (sched x)) +
     sum_list (map (\<lambda>t. completions (private_op_queue t) + (if runs_handler t then 1 else 0)) (sched_threads x)) + external x"

lemma no_work_left:
  assumes "sched_inv es x" "outstanding_work (sched x) \<le> 0"
  shows "outstanding_work (sched x) = 0 \<and> work_left x = 0"
proof -
  have ok: "thread_ok t" if "t \<in> set (sched_threads x)" for t using assms(1) that by (simp add: sched_inv_def list_all_iff)
  have nn: "0 \<le> sum_list (map thread_work (sched_threads x))"
    using ok by (intro sum_list_nonneg) (auto simp: thread_work_def thread_ok_def)
  have eq: "outstanding_work (sched x) = int (completions (sched_queue (sched x))) +
    sum_list (map thread_work (sched_threads x)) + int (external x)"
    using assms(1) by (simp add: sched_inv_def total_work_def)
  then have z: "completions (sched_queue (sched x)) = 0" "sum_list (map thread_work (sched_threads x)) = 0" "external x = 0"
    "outstanding_work (sched x) = 0" using nn assms(2) by linarith+
  have "thread_work t = 0" if "t \<in> set (sched_threads x)" for t
    using z(2) ok that
    by (subst (asm) sum_list_nonneg_eq_0_iff) (auto simp: thread_work_def thread_ok_def)
  then have "completions (private_op_queue t) + (if runs_handler t then 1 else 0) = 0" if "t \<in> set (sched_threads x)" for t
    using ok that by (fastforce simp: thread_work_def thread_ok_def split: if_splits)
  then show ?thesis using z by (simp add: work_left_def)
qed

text \<open>
  C20: invariant. The count of outstanding work is exact enough to end a run: in every run of the
  scheduler, with any threads, handlers that post, operations of the reactor, work guards and calls
  of \<open>stop\<close> and \<open>restart\<close>, it is never negative, and whenever it is zero, no completed operation is
  queued, in a thread's private queue or running, no operation waits in the reactor, and no work guard
  is held.
\<close>

theorem no_outstanding_work_means_idle:
  assumes "sched_init x0" "lts_run sched_step x0 es x"
  shows "0 \<le> outstanding_work (sched x) \<and> (outstanding_work (sched x) = 0 \<longrightarrow> work_left x = 0)"
  using no_work_left [OF scheduler_accounts.inv_run [OF assms(2,1)]] by linarith


text \<open>
  safety. The reactor is never run by two threads at once: once it is set, its marker is in the
  queue exactly once while no thread runs it, and is not in the queue while one thread does.
\<close>

theorem reactor_run_by_one_thread:
  assumes "sched_init x0" "lts_run sched_step x0 es x" "task (sched x)"
  shows "length (filter in_task (sched_threads x)) \<le> 1 \<and>
    length (filter (\<lambda>op'. op' = TaskOperation) (sched_queue (sched x))) =
      1 - length (filter in_task (sched_threads x))"
proof -
  have "length (filter (\<lambda>op'. op' = TaskOperation) (sched_queue (sched x))) + length (filter in_task (sched_threads x)) = 1"
    using scheduler_accounts.inv_run [OF assms(2,1)] assms(3) by (simp add: sched_inv_def tasks_def)
  then show ?thesis by linarith
qed

text \<open>A step that changes the flag \<open>stopped\<close>, and one that does not.\<close>

lemma stopped_after_handler:
  "after_handler c (t, s) = (t', s') \<Longrightarrow> stopped s' = (stopped s \<or> (private_outstanding_work t < 1 \<and> outstanding_work s = 1))"
  by (auto simp: after_handler_def work_cleanup_def Let_def split: if_splits)

lemma stopped_turns:
  "place t = Loop c \<Longrightarrow> turn c (t, s) = (t', s') \<Longrightarrow> stopped s' = stopped s"
  "place t = Sleeps c \<Longrightarrow> woken c (t, s) = (t', s') \<Longrightarrow> stopped s' = stopped s"
  using picks_turn [of t c s] picks_woken [of t c s] by (auto simp: picks_def same_accounts_def)

lemma stopped_after_task: "after_task c (t, s) = (t', s') \<Longrightarrow> stopped s' = stopped s"
  using picks_after_task [of t s c] by (auto simp: picks_def same_accounts_def task_cleanup_def Let_def split: if_splits)

lemma stopped_post_from:
  assumes "posting ops d f"
  shows "stopped (sched (post_from i f x)) = stopped (sched x) \<and> external (post_from i f x) = external x \<and>
    map place (sched_threads (post_from i f x)) = map place (sched_threads x)"
proof (cases i)
  case None
  obtain s' where "f (None, sched x) = (None, s')" "stopped s' = stopped (sched x)"
    using posting_None [OF assms] by metis
  then show ?thesis by (simp add: None post_from_def)
next
  case (Some j)
  let ?t = "sched_threads x ! j"
  obtain t' s' where p: "f (Some ?t, sched x) = (Some t', s')"
    "(t' = ?t \<and> sched_queue s' = sched_queue (sched x) @ ops \<and> outstanding_work s' = outstanding_work (sched x) + d \<and>
        task s' = task (sched x) \<and> stopped s' = stopped (sched x)) \<or>
     (s' = sched x \<and> t' = ?t\<lparr>private_outstanding_work := private_outstanding_work ?t + d,
        private_op_queue := private_op_queue ?t @ ops\<rparr>)"
    using posting_Some [OF assms] .
  then have q: "stopped s' = stopped (sched x)" "place t' = place ?t" by auto
  have "map place ((sched_threads x)[j := t']) = map place (sched_threads x)"
    using q(2) by (cases "j < length (sched_threads x)") (auto intro: nth_equalityI simp: nth_list_update)
  then show ?thesis by (simp add: Some post_from_def put_thread_def p(1) q(1))
qed

text \<open>Only \<open>run\<close> and \<open>run_one\<close> look at \<open>stopped\<close> again after they have slept or run the task.\<close>

fun rechecks :: "place \<Rightarrow> bool" where
  "rechecks (Sleeps c) \<longleftrightarrow> c = Run \<or> c = RunOne"
| "rechecks (InTask c) \<longleftrightarrow> c = Run \<or> c = RunOne"
| "rechecks _ \<longleftrightarrow> True"

definition all_recheck :: "sched_sys \<Rightarrow> bool" where
  "all_recheck x \<longleftrightarrow> list_all rechecks (map place (sched_threads x))"

lemma all_recheck_put: "all_recheck x \<Longrightarrow> rechecks (place (fst ts)) \<Longrightarrow> all_recheck (put_thread i ts x)"
  using set_update_subset_insert [of "sched_threads x" i "fst ts"]
  by (auto simp: all_recheck_def put_thread_def list_all_iff)

lemma all_recheck_at: "all_recheck x \<Longrightarrow> i < length (sched_threads x) \<Longrightarrow> rechecks (place (sched_threads x ! i))"
  by (simp add: all_recheck_def list_all_length)

lemma all_recheck_simps [simp]: "all_recheck (x\<lparr>external := e\<rparr>) = all_recheck x" "all_recheck (x\<lparr>sched := s\<rparr>) = all_recheck x"
  by (simp_all add: all_recheck_def)

lemma rechecks_turn_done [simp]: "rechecks (place (turn_done c r t))"
  by (simp add: turn_done_def)

lemma turn_stopped: "stopped s \<Longrightarrow> turn c (t, s) = (turn_done c False t, s)"
  by (cases c) (simp_all add: turn_def do_run_one_def do_wait_one_def do_poll_one_def)

lemma stopped_step:
  assumes step: "sched_step x e x'" and s: "stopped (sched x)" "all_recheck x" "control e \<noteq> RestartCalled"
  shows "started e = None \<and> stopped (sched x') \<and> all_recheck x'"
  using step
proof cases
  case new_thread
  then show ?thesis using s by (auto simp: all_recheck_def idle_thread_def)
next
  case (enter i t n c)
  then show ?thesis using s by (auto simp: run_head_def intro!: all_recheck_put)
next
  case (turns i t c ts)
  then show ?thesis using s by (auto simp: turn_stopped intro!: all_recheck_put)
next
  case (wakes i t c ts)
  then have "c = Run \<or> c = RunOne" using all_recheck_at [OF s(2)] by fastforce
  then have p: "place (fst ts) = Loop c \<or> place (fst ts) = Sleeps c" "stopped (snd ts)" "rechecks (Sleeps c)"
    using wakes s by (auto simp: woken_def Let_def split: prod.splits if_splits)
  then have "handler_started (fst ts) = None" "rechecks (place (fst ts))" by (auto simp: handler_started_def)
  then show ?thesis using s p wakes by (simp add: all_recheck_put)
next
  case (task_done i t c ops ts)
  then have "c = Run \<or> c = RunOne" using all_recheck_at [OF s(2)] by fastforce
  then have "place (fst ts) = Loop c" using task_done by (auto simp: after_task_def split: prod.splits)
  then have "handler_started (fst ts) = None" "rechecks (place (fst ts))" by (simp_all add: handler_started_def)
  moreover have "stopped (snd ts)"
    using stopped_after_task [of c _ "sched x" "fst ts" "snd ts"] task_done s by (metis prod.collapse)
  ultimately show ?thesis using s task_done by (simp add: all_recheck_put)
next
  case (handler_done i t c k)
  then show ?thesis using s stopped_after_handler [of c t "sched x"]
    by (cases "after_handler c (t, sched x)")
      (auto simp: after_handler_def split: prod.splits intro!: all_recheck_put)
next
  case (descriptor_idle i t c d)
  then show ?thesis using s stopped_after_handler [of c "compensating_work_started t" "sched x"]
    by (cases "after_handler c (compensating_work_started t, sched x)")
      (auto simp: after_handler_def split: prod.splits intro!: all_recheck_put)
next
  case (descriptor_completes i t c d ops t' s' k)
  then have "stopped s' = stopped (sched x)"
    using posting_Some [OF posting_post_deferred_completions [of ops], of t "sched x"] by (metis Pair_inject)
  then show ?thesis using s descriptor_completes by (auto intro!: all_recheck_put)
next
  case (posts i ops f cont)
  then have "posting ops (int (length ops)) f"
    using posting_post_immediate_completion posting_post_immediate_completions posting_do_dispatch by fastforce
  from stopped_post_from [OF this, of i x] show ?thesis using s posts by (simp add: all_recheck_def)
next
  case (posts_deferred i ops f y)
  then have "posting ops 0 f"
    using posting_post_deferred_completion posting_post_deferred_completions by fastforce
  from stopped_post_from [OF this, of i x] show ?thesis using s posts_deferred by (simp add: all_recheck_def)
next
  case task_set
  then show ?thesis using s init_task_cases [of "sched x"] by auto
qed (use s in auto)

text \<open>
  safety. After a stop nothing is run any more: from a stopped scheduler on, as long as
  \<open>restart\<close> is not called, no handler is started, whatever is posted and whichever threads call
  whichever run function, and it stays stopped. (Threads that are then inside \<open>wait_one\<close>, \<open>poll\<close> or
  \<open>poll_one\<close> are excepted: these do not look at the flag again after their wait or the task.)
\<close>

theorem stopped_scheduler_starts_nothing:
  assumes "lts_run sched_step x es y" "stopped (sched x)" "all_recheck x" "\<forall>e \<in> set es. control e \<noteq> RestartCalled"
  shows "started_run es = [] \<and> stopped (sched y)"
proof -
  have "started_run es = [] \<and> stopped (sched y) \<and> all_recheck y" using assms
    by (induction rule: lts_run.induct) (auto dest: stopped_step)
  then show ?thesis by simp
qed

lemma self_stop_step:
  assumes step: "sched_step x e x'" and s: "\<not> stopped (sched x)" "stopped (sched x')" "control e \<noteq> StopCalled"
  shows "outstanding_work (sched x') = 0"
  using step
proof cases
  case (enter i t n c)
  then show ?thesis using s by (auto simp: run_head_def put_thread_def split: if_splits)
next
  case (turns i t c ts)
  then show ?thesis using s stopped_turns(1) [of t c "sched x" "fst ts" "snd ts"] by (simp add: put_thread_def)
next
  case (wakes i t c ts)
  then show ?thesis using s stopped_turns(2) [of t c "sched x" "fst ts" "snd ts"] by (simp add: put_thread_def)
next
  case (task_done i t c ops ts)
  then show ?thesis using s stopped_after_task [of c _ "sched x" "fst ts" "snd ts"]
    by (metis prod.collapse put_thread_external(2) sched_sys.select_convs(1) sched_sys.surjective sched_sys.update_convs(3))
next
  case (handler_done i t c k)
  then show ?thesis using s
    by (auto simp: after_handler_def work_cleanup_def Let_def put_thread_def split: if_splits)
next
  case (descriptor_idle i t c d)
  then show ?thesis using s
    by (auto simp: after_handler_def work_cleanup_def Let_def put_thread_def split: if_splits)
next
  case (descriptor_completes i t c d ops t' s' k)
  then have "stopped s' = stopped (sched x)"
    using posting_Some [OF posting_post_deferred_completions [of ops], of t "sched x"] by (metis Pair_inject)
  then show ?thesis using s descriptor_completes by (simp add: put_thread_def)
next
  case (posts i ops f cont)
  then have "posting ops (int (length ops)) f"
    using posting_post_immediate_completion posting_post_immediate_completions posting_do_dispatch by fastforce
  from stopped_post_from [OF this, of i x] show ?thesis using s posts by simp
next
  case (posts_deferred i ops f y)
  then have "posting ops 0 f"
    using posting_post_deferred_completion posting_post_deferred_completions by fastforce
  from stopped_post_from [OF this, of i x] show ?thesis using s posts_deferred by simp
next
  case task_set
  then show ?thesis using s init_task_cases [of "sched x"] by auto
qed (use s in auto)


section \<open>Witnesses\<close>

definition demo_start :: sched_sys where
  "demo_start = \<lparr>sched = scheduler_new (- 1), sched_threads = [], external = 0\<rparr>"

definition demo_posted :: sched_sys where
  "demo_posted = post_from None (post_immediate_completion (Completion 7) False)
     (demo_start\<lparr>sched := init_task (sched demo_start)\<rparr>)"

definition demo_entered :: sched_sys where
  "demo_entered = (let x = demo_posted\<lparr>sched_threads := sched_threads demo_posted @ [idle_thread]\<rparr>
     in put_thread 0 (run_head Run (idle_thread, sched x)) x)"

definition demo_in_task :: sched_sys where
  "demo_in_task = put_thread 0 (turn Run (sched_threads demo_entered ! 0, sched demo_entered)) demo_entered"

lemma demo_init: "sched_init demo_start"
  by (auto simp: sched_init_def demo_start_def)

lemma demo_entered_thread: "sched_threads demo_entered = [idle_thread\<lparr>place := Loop Run\<rparr>]"
  by code_simp

lemma demo_entered_run: "\<exists>es. lts_run sched_step demo_start es demo_entered"
proof -
  let ?a = "demo_start\<lparr>sched := init_task (sched demo_start)\<rparr>"
  let ?c = "demo_posted\<lparr>sched_threads := sched_threads demo_posted @ [idle_thread]\<rparr>"
  have t: "sched_threads ?c = [idle_thread]" by code_simp
  have "sched_step demo_start (Label [] None NoControl) ?a" by (rule task_set)
  from lts_one [of sched_step, OF this] obtain e1 where 1: "lts_run sched_step demo_start e1 ?a" by blast
  have "sched_step ?a (Label (appended (sched ?a) (sched demo_posted)) None NoControl) demo_posted"
    by (rule posts [where i = None and ops = "[Completion 7]"]) (auto simp: may_post_def demo_posted_def)
  with 1 obtain e2 where 2: "lts_run sched_step demo_start e2 demo_posted" by (blast intro: lts_snoc)
  have "sched_step demo_posted (Label [] None NoControl) ?c" by (rule new_thread)
  with 2 obtain e3 where 3: "lts_run sched_step demo_start e3 ?c" by (blast intro: lts_snoc)
  have "sched_step ?c (Label [] None NoControl) (put_thread 0 (run_head Run (idle_thread, sched ?c)) ?c)"
    using t by (intro sched_step.enter) (auto simp: idle_thread_def)
  with 3 show ?thesis unfolding demo_entered_def Let_def by (blast intro: lts_snoc)
qed

lemma demo_in_task_run: "\<exists>es. lts_run sched_step demo_start es demo_in_task"
proof -
  obtain es where es: "lts_run sched_step demo_start es demo_entered" using demo_entered_run by blast
  have "sched_step demo_entered (Label [] (handler_started (fst (turn Run (sched_threads demo_entered ! 0, sched demo_entered)))) NoControl)
     demo_in_task" unfolding demo_in_task_def
    by (intro sched_step.turns [OF _ refl]) (simp_all add: demo_entered_thread)
  with es show ?thesis by (blast intro: lts_snoc)
qed

theorem no_outstanding_work_means_idle_witness:
  "\<exists>es x. sched_init demo_start \<and> lts_run sched_step demo_start es x \<and> 0 \<le> outstanding_work (sched x) \<and> work_left x = 1"
proof -
  obtain es where "lts_run sched_step demo_start es demo_in_task" using demo_in_task_run by blast
  moreover have "work_left demo_in_task = 1" by code_simp
  ultimately show ?thesis using no_outstanding_work_means_idle [OF demo_init] demo_init by blast
qed


theorem reactor_run_by_one_thread_witness:
  "\<exists>es. lts_run sched_step demo_start es demo_in_task \<and> length (filter in_task (sched_threads demo_in_task)) \<le> 1"
proof -
  obtain es where "lts_run sched_step demo_start es demo_in_task" using demo_in_task_run by blast
  moreover have "task (sched demo_in_task)" by code_simp
  ultimately show ?thesis using reactor_run_by_one_thread [OF demo_init] by blast
qed

theorem stopped_scheduler_starts_nothing_witness:
  "let x = demo_entered\<lparr>sched := sched_stop (sched demo_entered)\<rparr>;
       y = put_thread 0 (turn Run (sched_threads x ! 0, sched x)) x
   in \<exists>e. lts_run sched_step x [e] y \<and> started_run [e] = [] \<and> stopped (sched y)"
proof -
  let ?x = "demo_entered\<lparr>sched := sched_stop (sched demo_entered)\<rparr>"
  let ?ts = "turn Run (sched_threads ?x ! 0, sched ?x)"
  let ?e = "Label [] (handler_started (fst ?ts)) NoControl"
  have "sched_step ?x ?e (put_thread 0 ?ts ?x)"
    by (intro sched_step.turns [OF _ refl]) (simp_all add: demo_entered_thread)
  then have r: "lts_run sched_step ?x [?e] (put_thread 0 ?ts ?x)" by (rule lts_one)
  have "all_recheck ?x" by (simp add: all_recheck_def demo_entered_thread)
  from stopped_scheduler_starts_nothing [OF r _ this] r show ?thesis by (auto simp: Let_def)
qed


end
