(* ===== verification/ReactorWork.thy ===== *)
theory ReactorWork
  imports ReactorRuns SchedulerRuns
begin

text \<open>
  The reactor and the scheduler together: what the reactor does to the count of outstanding work is what
  the runs of the scheduler assume of it, so that a run does not end while an operation waits.
\<close>

section \<open>How many operations wait\<close>

definition waiting_on :: "(nat \<Rightarrow> op_type \<Rightarrow> op list) \<Rightarrow> nat \<Rightarrow> nat" where
  "waiting_on W d = length (W d read_op) + length (W d write_op) + length (W d except_op)"

definition waiting_total :: "'w reactor \<Rightarrow> nat" where
  "waiting_total r = sum_list (map (waiting_on (waiting_names r)) [0..<created r])"

lemma waiting_on_at: "waiting_on (at d t q W) d + length (W d t) = waiting_on W d + length q"
  by (cases t) (simp_all add: waiting_on_def)

lemma waiting_on_other: "e \<noteq> d \<Longrightarrow> waiting_on (at d t q W) e = waiting_on W e"
  by (simp add: waiting_on_def)

lemma sum_at:
  assumes "d < n"
  shows "sum_list (map (waiting_on (at d t q W)) [0..<n]) + length (W d t) = sum_list (map (waiting_on W) [0..<n]) + length q"
proof -
  have "[0..<n] = [0..<d] @ d # [Suc d..<n]"
    using assms upt_add_eq_append [of 0 d "n - d"] by (simp add: upt_conv_Cons)
  moreover have "map (waiting_on (at d t q W)) [0..<d] = map (waiting_on W) [0..<d]"
    "map (waiting_on (at d t q W)) [Suc d..<n] = map (waiting_on W) [Suc d..<n]"
    by (auto intro: waiting_on_other)
  ultimately have "sum_list (map (waiting_on (at d t q W)) [0..<n]) =
      sum_list (map (waiting_on W) [0..<d]) + (waiting_on (at d t q W) d + sum_list (map (waiting_on W) [Suc d..<n]))"
    and "sum_list (map (waiting_on W) [0..<n]) =
      sum_list (map (waiting_on W) [0..<d]) + (waiting_on W d + sum_list (map (waiting_on W) [Suc d..<n]))"
    by (simp_all only: map_append list.map sum_list_append sum_list.Cons)
  then show ?thesis using waiting_on_at [of d t q W] by linarith
qed

lemma waiting_total_at:
  assumes "waiting_names r' = at d t q (waiting_names r)" "created r' = created r" "d < created r"
  shows "waiting_total r' + length (waiting_names r d t) = waiting_total r + length q"
  using sum_at [OF assms(3)] unfolding waiting_total_def assms(1,2) .

lemma waiting_total_same:
  "waiting_names r' = waiting_names r \<Longrightarrow> created r' = created r \<Longrightarrow> waiting_total r' = waiting_total r"
  by (simp add: waiting_total_def)

text \<open>A call that settles \<open>n\<close> operations: they wait no longer.\<close>

definition settles :: "nat \<Rightarrow> 'w reactor \<Rightarrow> 'w reactor \<Rightarrow> bool" where
  "settles n r r' \<longleftrightarrow> pool_ok r' \<and> waiting_total r' + n = waiting_total r"

lemma live_created: "pool_ok r \<Longrightarrow> points_to_live r (Some d) \<Longrightarrow> d < created r"
  by (auto simp: pool_ok_def points_to_live_def)

lemma settles_0:
  assumes "same_pool r r'" "pool_ok r" "waiting_names r' = waiting_names r"
  shows "settles 0 r r'"
proof -
  have "pool_ok r'" by (rule same_pool_ok [OF assms(1,2)]) (simp add: assms(3))
  moreover have "waiting_total r' = waiting_total r"
    using assms(1) by (intro waiting_total_same assms(3)) (simp add: same_pool_def)
  ultimately show ?thesis by (simp add: settles_def)
qed

lemma settles_quiet: "quiet r r' \<Longrightarrow> pool_ok r \<Longrightarrow> settles 0 r r'"
  by (simp add: quiet_def settles_0)

lemma settles_at:
  assumes "same_pool r r'" "pool_ok r" "d < created r" "waiting_names r' = at d t q (waiting_names r)"
    "length q + n = length (waiting_names r d t)"
  shows "settles n r r'"
proof -
  have "pool_ok r'" by (rule same_pool_ok [OF assms(1,2)]) (use assms(4,5) in auto)
  moreover have "waiting_total r' + length (waiting_names r d t) = waiting_total r + length q"
    using assms(1) by (intro waiting_total_at assms(3,4)) (simp add: same_pool_def)
  ultimately show ?thesis using assms(5) by (simp add: settles_def)
qed

lemma settles_trans: "settles m r r' \<Longrightarrow> settles n r' r'' \<Longrightarrow> settles (m + n) r r''"
  by (simp add: settles_def)

section \<open>What the calls settle\<close>

lemma ctx_post_deferred [simp]:
  "ctx (post_deferred ops r) = post_deferred_completions (map (\<lambda>o'. Completion (op_name o')) ops) (ctx r)"
  by (simp add: post_deferred_def) (simp add: ctx_def)

lemma settles_post_deferred: "settles n r r' \<Longrightarrow> settles n r (post_deferred ops r')"
  by (auto simp: settles_def waiting_total_def pool_ok_def)

lemma abort_all_settles:
  assumes a: "abort_all d r = (ops, r')" and "pool_ok r" "d < created r"
  shows "settles (length ops) r r'" "ctx r' = ctx r" "same_pool r r'" "waiting_names r' d t = []"
proof -
  let ?W = "waiting_names r"
  have r': "r' = upd_descriptor d (\<lambda>st. st\<lparr>op_queues := (\<lambda>t. [])\<rparr>) r"
    and l: "length ops = waiting_on ?W d"
    using a by (auto simp: abort_all_def Let_def waiting_on_def waiting_names_def)
  show pool: "same_pool r r'" by (auto simp: r' same_pool_def)
  show "ctx r' = ctx r" by (simp add: r' ctx_def)
  have W: "waiting_names r' = (\<lambda>e u. if e = d then [] else ?W e u)"
    by (auto simp: r' waiting_names_def fun_eq_iff)
  show "waiting_names r' d t = []" by (simp add: W)
  have "(\<lambda>e u. if e = d then [] else ?W e u) = at d except_op [] (at d write_op [] (at d read_op [] ?W))"
    by (intro ext) (metis (full_types) at_simps op_type.exhaust)
  then have W': "waiting_names r' = at d except_op [] (at d write_op [] (at d read_op [] ?W))" by (simp add: W)
  have "waiting_total r' + length ops = waiting_total r"
    using sum_at [OF assms(3), of read_op "[]" ?W] sum_at [OF assms(3), of write_op "[]" "at d read_op [] ?W"]
      sum_at [OF assms(3), of except_op "[]" "at d write_op [] (at d read_op [] ?W)"] pool
    by (simp add: waiting_total_def W' l waiting_on_def same_pool_def)
  moreover have "pool_ok r'" by (rule same_pool_ok [OF pool assms(2)]) (simp add: W)
  ultimately show "settles (length ops) r r'" by (simp add: settles_def)
qed

text \<open>Deferred posts: the context changes by one call of \<open>post_deferred_completions\<close>.\<close>

definition posts_settled :: "'w reactor \<Rightarrow> 'w reactor \<Rightarrow> bool" where
  "posts_settled r r' \<longleftrightarrow> (\<exists>ops. settles (length ops) r r' \<and>
     ctx r' = post_deferred_completions (map Completion ops) (ctx r))"

lemma posts_settled_none: "settles 0 r r' \<Longrightarrow> ctx r' = ctx r \<Longrightarrow> posts_settled r r'"
  unfolding posts_settled_def by (intro exI [of _ "[]"]) (simp add: post_deferred_completions_def ctx_def)

lemma posts_settled_post:
  "settles (length ops) r r1 \<Longrightarrow> ctx r1 = ctx r \<Longrightarrow> posts_settled r (post_deferred ops r1)"
  unfolding posts_settled_def by (intro exI [of _ "map op_name ops"]) (simp add: settles_post_deferred comp_def)

lemma cancel_ops_settles:
  assumes "pool_ok r" "points_to_live r data"
  shows "posts_settled r (cancel_ops data r)"
proof (cases data)
  case (Some d)
  obtain ops r1 where a: "abort_all d r = (ops, r1)" by fastforce
  note s = abort_all_settles [OF a assms(1) live_created [OF assms(1) assms(2) [unfolded Some]]]
  show ?thesis using posts_settled_post [OF s(1,2)] by (simp add: cancel_ops_def Some a)
qed (use assms(1) in \<open>simp add: cancel_ops_def posts_settled_none settles_0\<close>)

lemma cancel_ops_by_key_settles:
  assumes "pool_ok r" "points_to_live r data"
  shows "posts_settled r (cancel_ops_by_key data t key r)"
proof (cases data)
  case (Some d)
  let ?q = "op_queues (descriptors r d) t"
  let ?ops = "map abort_op (filter (\<lambda>o'. op_key o' = key) ?q)"
  let ?r1 = "set_queue d t (filter (\<lambda>o'. op_key o' \<noteq> key) ?q) r"
  have "settles (length ?ops) r ?r1"
    using live_created [OF assms(1) assms(2) [unfolded Some]] sum_length_filter_compl [of "\<lambda>o'. op_key o' = key" ?q]
    by (intro settles_at [OF _ assms(1) _ waiting_set_queue]) (simp_all add: same_pool_def waiting_names_def)
  moreover have "ctx ?r1 = ctx r" by (simp add: ctx_def)
  ultimately show ?thesis using posts_settled_post [of ?ops] by (simp add: cancel_ops_by_key_def Some Let_def)
qed (use assms(1) in \<open>simp add: cancel_ops_by_key_def posts_settled_none settles_0\<close>)

lemma deregister_settles:
  assumes "pool_ok r" "points_to_live r data"
  shows "posts_settled r (snd (deregister_descriptor os s data closing r))"
proof (cases data)
  case (Some d)
  show ?thesis
  proof (cases "descr_shutdown (descriptors r d)")
    case False
    define r1 where "r1 = (if \<not> closing \<and> registered_events (descriptors r d) \<noteq> 0
      then snd (snd (epoll_ctl os s EPOLL_CTL_DEL r)) else r)"
    have q: "quiet r r1" using quiet_epoll_ctl [of os s EPOLL_CTL_DEL r] by (auto simp: r1_def) (metis prod.collapse)
    note s1 = settles_quiet [OF q assms(1)]
    have d: "d < created r1" using live_created [OF assms(1) assms(2) [unfolded Some]] q by (simp add: quiet_def same_pool_def)
    obtain ops r2 where a: "abort_all d r1 = (ops, r2)" by fastforce
    note s2 = abort_all_settles [OF a _ d]
    have p1: "pool_ok r1" using s1 by (simp add: settles_def)
    let ?r3 = "upd_descriptor d (\<lambda>st. st\<lparr>descriptor := -1, descr_shutdown := True\<rparr>) r2"
    have W: "waiting_names ?r3 = waiting_names r2" by (auto simp: waiting_names_def fun_eq_iff)
    have "pool_ok ?r3" using s2(1,4) [OF p1] W by (auto simp: settles_def pool_ok_def)
    then have "settles (length ops) r1 ?r3" using s2(1) [OF p1] by (simp add: settles_def waiting_total_def W)
    then have "settles (length ops) r ?r3" using settles_trans [OF s1] by simp
    moreover have "ctx ?r3 = ctx r" using s2(2) [OF p1] q by (simp add: ctx_def quiet_def)
    ultimately show ?thesis using posts_settled_post False by (simp add: deregister_descriptor_def Some a flip: r1_def)
  qed (use assms(1) in \<open>simp add: deregister_descriptor_def Some posts_settled_none settles_0\<close>)
qed (use assms(1) in \<open>simp add: deregister_descriptor_def posts_settled_none settles_0\<close>)

text \<open>Registration and the pool leave queues and scheduler alone.\<close>

lemma pool_alloc_settles:
  assumes "pool_ok r" "pool_alloc r = (d, r')"
  shows "settles 0 r r'" "ctx r' = ctx r"
proof -
  have p: "\<forall>d \<in> set (live_list r) \<union> set (free_list r). d < created r" "\<And>e u. created r \<le> e \<Longrightarrow> waiting_names r e u = []"
    using assms(1) by (simp_all add: pool_ok_def)
  have "settles 0 r r' \<and> ctx r' = ctx r"
  proof (cases "free_list r")
    case Nil
    then have r': "r' = upd_descriptor (created r) (\<lambda>_. descriptor_state_new)
        (r\<lparr>created := created r + 1, live_list := created r # live_list r\<rparr>)"
      using assms(2) by (auto simp: pool_alloc_def Let_def)
    have q: "op_queues (descriptors r (created r)) u = []" for u using p(2) [of "created r" u] by (simp add: waiting_names_def)
    have W: "waiting_names r' = waiting_names r"
      using q by (auto simp: r' fun_eq_iff waiting_names_def descriptor_state_new_def)
    have "waiting_names r' e u = []" if "descr_shutdown (descriptors r' e) \<or> created r' \<le> e" for e u
      using assms(1) that p(2) unfolding W pool_ok_def
      by (cases "e = created r") (auto simp: r' descriptor_state_new_def Suc_le_eq)
    then have "pool_ok r'" using p(1) by (auto simp: pool_ok_def r' Nil less_Suc_eq)
    moreover have "waiting_total r' = waiting_total r"
      using p(2) by (simp add: waiting_total_def W) (simp add: r' waiting_on_def)
    ultimately show ?thesis by (simp add: settles_def r' ctx_def)
  next
    case (Cons e es)
    then have r': "r' = r\<lparr>free_list := es, live_list := e # live_list r\<rparr>" using assms(2) by (auto simp: pool_alloc_def)
    show ?thesis using assms(1) by (auto simp: settles_def pool_ok_def r' Cons waiting_total_def ctx_def)
  qed
  then show "settles 0 r r'" "ctx r' = ctx r" by simp_all
qed

lemma upd_settles:
  assumes "pool_ok r" "\<And>st. op_queues (g st) = op_queues st" "\<And>st. descr_shutdown (g st) \<Longrightarrow> descr_shutdown st"
  shows "settles 0 r (upd_descriptor d g r)" "ctx (upd_descriptor d g r) = ctx r"
proof -
  have W: "waiting_names (upd_descriptor d g r) = waiting_names r" using assms(2) by (auto simp: waiting_names_def fun_eq_iff)
  have "pool_ok (upd_descriptor d g r)" using assms(1,3) unfolding pool_ok_def W by auto
  then show "settles 0 r (upd_descriptor d g r)" by (simp add: settles_def waiting_total_def W)
qed (simp add: ctx_def)

lemma register_settles:
  assumes "pool_ok r"
  shows "posts_settled r (snd (snd (register_descriptor os s r)))"
proof -
  obtain d r1 where a: "pool_alloc r = (d, r1)" by fastforce
  define r2 where "r2 = upd_descriptor d (\<lambda>st. st\<lparr>descriptor := s, descr_shutdown := False,
    try_speculative := (\<lambda>t. True), registered_events := all_events\<rparr>) r1"
  obtain res errno r3 where c: "epoll_ctl os s (EPOLL_CTL_ADD all_events d) r2 = (res, errno, r3)" by (metis prod_cases3)
  let ?r4 = "upd_descriptor d (\<lambda>st. st\<lparr>registered_events := 0\<rparr>) r3"
  note s1 = pool_alloc_settles [OF assms a]
  then have p1: "pool_ok r1" by (simp add: settles_def)
  have s2: "settles 0 r1 r2" "ctx r2 = ctx r1" unfolding r2_def by (rule upd_settles [OF p1]; simp)+
  then have p2: "pool_ok r2" by (simp add: settles_def)
  note q = quiet_epoll_ctl [OF c]
  note s3 = settles_quiet [OF q p2]
  have p3: "pool_ok r3" using s3 by (simp add: settles_def)
  have s4: "settles 0 r3 ?r4" "ctx ?r4 = ctx r3" by (rule upd_settles [OF p3]; simp)+
  have "settles 0 r r3" "ctx r3 = ctx r"
    using s1 s2 s3 q unfolding settles_def quiet_def by simp_all
  moreover have "settles 0 r ?r4" "ctx ?r4 = ctx r"
    using calculation s4 unfolding settles_def by simp_all
  ultimately have "posts_settled r r3" "posts_settled r ?r4" by (blast intro: posts_settled_none)+
  then show ?thesis by (simp add: register_descriptor_def a c flip: r2_def)
qed

lemma cleanup_settles:
  assumes "pool_ok r" "points_to_live r data"
  shows "posts_settled r (snd (cleanup_descriptor_data data r))"
proof (cases data)
  case (Some d)
  have "set (remove1 d (live_list r)) \<subseteq> set (live_list r)" by (rule set_remove1_subset)
  then have "settles 0 r (pool_free d r)"
    using assms by (auto simp: Some settles_def pool_free_def pool_ok_def points_to_live_def waiting_total_def)
  then show ?thesis by (simp add: cleanup_descriptor_data_def Some posts_settled_none) (simp add: posts_settled_none pool_free_def ctx_def)
qed (use assms(1) in \<open>simp add: cleanup_descriptor_data_def posts_settled_none settles_0\<close>)

text \<open>Starting an operation settles it, or makes one more wait.\<close>

definition starts :: "op \<Rightarrow> bool \<Rightarrow> 'w reactor \<Rightarrow> 'w reactor \<Rightarrow> bool" where
  "starts k c r r' \<longleftrightarrow> pool_ok r' \<and>
     (waiting_total r' = waiting_total r \<and> ctx r' = post_immediate_completion (Completion k) c (ctx r) \<or>
      waiting_total r' = waiting_total r + 1 \<and> ctx r' = (this_thread r, work_started (the_scheduler r)))"

lemma start_op_starts:
  assumes "pool_ok r" "points_to_live r data" "start_op os (do_perform os) t s data o' c spec r = Some r'"
  shows "starts (op_name o') c r r'"
proof (cases data)
  case None
  let ?o = "o'\<lparr>op_ec := bad_descriptor\<rparr>"
  have r': "r' = reactor_post_immediate_completion ?o c r" using assms(3) by (simp add: start_op_def None)
  have "settles 0 r r'" unfolding r' by (rule settles_0 [OF post_same_pool(1) assms(1)]) simp
  moreover have "ctx r' = post_immediate_completion (Completion (op_name o')) c (ctx r)"
    by (simp add: r' reactor_post_immediate_completion_def) (simp add: ctx_def)
  ultimately show ?thesis by (simp add: starts_def settles_def)
next
  case (Some d)
  note m = socket_attempts.start_op_decides [OF assms(3) [unfolded Some]]
  have d: "d < created r" using live_created [OF assms(1)] assms(2) by (simp add: Some)
  have pool: "same_pool r r'" using m(1) by (simp add: decided_or_waits_def)
  from m(1) consider (decided) "waiting_names r' = waiting_names r"
      "ctx r' = post_immediate_completion (Completion (op_name o')) c (ctx r)"
    | (waits) "waiting_names r' = at d t (waiting_names r d t @ [op_name o']) (waiting_names r)"
      "ctx r' = (this_thread r, work_started (the_scheduler r))"
    unfolding decided_or_waits_def by blast
  then show ?thesis
  proof cases
    case decided
    then show ?thesis using settles_0 [OF pool assms(1) decided(1)] by (simp add: starts_def settles_def)
  next
    case waits
    have "\<not> descr_shutdown (descriptors r d)"
      using m(2) waits(1) at_simps [of d t "waiting_names r d t @ [op_name o']" "waiting_names r" d t] by fastforce
    then have "pool_ok r'"
      using d by (intro same_pool_ok [OF pool assms(1)]) (auto simp: waits(1))
    moreover have "waiting_total r' = waiting_total r + 1"
      using waiting_total_at [OF waits(1) _ d] pool by (simp add: same_pool_def)
    ultimately show ?thesis using waits(2) by (simp add: starts_def)
  qed
qed

lemma perform_type_settles:
  assumes p: "perform_type (do_perform os) d events t (ops, r) = Some (ops', r')" and "pool_ok r" "d < created r"
  shows "\<exists>n. settles n r r' \<and> length ops' = length ops + n \<and> ctx r' = ctx r \<and> created r' = created r"
proof (cases "events AND (op_flag t OR EPOLLERR OR EPOLLHUP) = 0")
  case True
  then show ?thesis using p assms(2) by (simp add: perform_type_def settles_0)
next
  case False
  obtain f l e w where q: "perform_queue (do_perform os) (op_queues (descriptors r d) t) (os_state r) = Some (f, l, e, w)"
    using p False by (cases "perform_queue (do_perform os) (op_queues (descriptors r d) t) (os_state r)") (auto simp: perform_type_def)
  have n: "waiting_names r d t = map op_name f @ map op_name l"
    using socket_attempts.perform_queue_names [OF q] by (simp add: waiting_names_def)
  have r': "ops' = ops @ f" "r' = set_speculative d t (\<not> e) (set_queue d t l (r\<lparr>os_state := w\<rparr>))"
    using p False q by (simp_all add: perform_type_def)
  have "settles (length f) r r'"
    using n by (intro settles_at [OF _ assms(2,3), of r' t "map op_name l"])
      (simp_all add: r' same_pool_def waiting_set_queue)
  then show ?thesis by (intro exI [of _ "length f"]) (simp add: r' ctx_def)
qed

lemma descriptor_do_complete_settles:
  assumes p: "descriptor_do_complete (do_perform os) d r = Some (res, r')" and pool: "pool_ok r" and d: "d < created r"
  shows "case res of
      None \<Rightarrow> settles 0 r r' \<and> ctx r' = (map_option compensating_work_started (this_thread r), the_scheduler r)
    | Some o' \<Rightarrow> \<exists>ops. settles (Suc (length ops)) r r' \<and> ctx r' = post_deferred_completions (map Completion ops) (ctx r)"
proof -
  let ?ev = "task_result (descriptors r d)"
  let ?p = "perform_type (do_perform os) d ?ev"
  have p': "perform_io (do_perform os) d ?ev r = Some (res, r')" using p by (simp add: descriptor_do_complete_def)
  obtain ops1 r1 where 1: "?p except_op ([], r) = Some (ops1, r1)"
    using p' by (cases "?p except_op ([], r)") (auto simp: perform_io_def)
  obtain ops2 r2 where 2: "?p write_op (ops1, r1) = Some (ops2, r2)"
    using p' 1 by (cases "?p write_op (ops1, r1)") (auto simp: perform_io_def)
  obtain ops3 r3 where 3: "?p read_op (ops2, r2) = Some (ops3, r3)"
    using p' 1 2 by (cases "?p read_op (ops2, r2)") (auto simp: perform_io_def)
  have r': "r' = io_cleanup ops3 r3" "res = (case ops3 of [] \<Rightarrow> None | o' # _ \<Rightarrow> Some o')"
    using p' 1 2 3 by (simp_all add: perform_io_def)
  obtain n1 where s1: "settles n1 r r1" "length ops1 = n1" "ctx r1 = ctx r" "created r1 = created r"
    using perform_type_settles [OF 1 pool d] by auto
  then have p1: "pool_ok r1" "d < created r1" using d by (simp_all add: settles_def)
  obtain n2 where s2: "settles n2 r1 r2" "length ops2 = n1 + n2" "ctx r2 = ctx r" "created r2 = created r"
    using perform_type_settles [OF 2 p1] s1 by auto
  then have p2: "pool_ok r2" "d < created r2" using d by (simp_all add: settles_def)
  obtain n3 where s3: "settles n3 r2 r3" "length ops3 = n1 + n2 + n3" "ctx r3 = ctx r"
    using perform_type_settles [OF 3 p2] s2 by auto
  have all: "settles (length ops3) r r3"
    using settles_trans [OF settles_trans [OF s1(1) s2(1)] s3(1)] s3(2) by simp
  show ?thesis
  proof (cases ops3)
    case Nil
    then have "settles 0 r r'" using all by (auto simp: r' io_cleanup_def settles_def waiting_total_def pool_ok_def)
    moreover have "ctx r' = (map_option compensating_work_started (this_thread r), the_scheduler r)"
      using s3(3) by (simp add: r' Nil io_cleanup_def ctx_def)
    ultimately show ?thesis by (simp add: r' Nil)
  next
    case (Cons o' ops)
    let ?r = "r3\<lparr>finished_ops := finished_ops r3 @ [o']\<rparr>"
    have "settles (Suc (length ops)) r ?r"
      using all by (auto simp: Cons settles_def waiting_total_def pool_ok_def)
    then have "settles (Suc (length ops)) r r'" by (simp add: r' Cons io_cleanup_def settles_post_deferred)
    moreover have "ctx r' = post_deferred_completions (map (\<lambda>o'. Completion (op_name o')) ops) (ctx r)"
      using s3(3) by (simp add: r' Cons io_cleanup_def) (simp add: ctx_def)
    ultimately show ?thesis by (auto simp: r' Cons comp_def intro!: exI [of _ "map op_name ops"])
  qed
qed

lemma reactor_run_settles:
  assumes "pool_ok r" "reactor_run b events ready r = (ops, r')"
  shows "settles 0 r r'" "ctx r' = ctx r" "TaskOperation \<notin> set ops" "completions ops \<le> length ready"
proof -
  have fold: "settles 0 r (snd (snd x)) \<and> ctx (snd (snd x)) = ctx r \<and> completions (fst x) = 0 \<and> TaskOperation \<notin> set (fst x)"
    if "x = fold (dispatch_event b) es (ops, c, r)" "pool_ok r" "completions ops = 0" "TaskOperation \<notin> set ops" for x es ops c and r :: "'a reactor"
    using that
  proof (induction es arbitrary: ops c r)
    case (Cons e es)
    obtain ops' c' r' where e: "dispatch_event b e (ops, c, r) = (ops', c', r')" by (metis prod_cases3)
    have "settles 0 r r' \<and> ctx r' = ctx r \<and> completions ops' = 0 \<and> TaskOperation \<notin> set ops'"
      using e Cons.prems by (cases "(b, e, ops, c, r)" rule: dispatch_event.cases)
        (auto simp: settles_0 intro!: upd_settles split: if_splits)
    then show ?case using Cons.IH [of ops' c' r'] Cons.prems(1) e settles_trans [of 0 r r' 0] by (simp add: settles_def)
  qed (simp add: settles_0)
  let ?x = "fold (dispatch_event b) (take 128 events) ([], \<not> b, r)"
  have x: "settles 0 r (snd (snd ?x)) \<and> ctx (snd (snd ?x)) = ctx r \<and> completions (fst ?x) = 0 \<and> TaskOperation \<notin> set (fst ?x)"
    by (rule fold [OF refl assms(1)]) simp_all
  have "completions (map Completion ready) = length ready" "TaskOperation \<notin> set (map Completion ready)"
    by (induction ready) (auto simp: completions_def)
  then show "settles 0 r r'" "ctx r' = ctx r" "TaskOperation \<notin> set ops" "completions ops \<le> length ready"
    using x assms(2) by (auto simp: reactor_run_def split: prod.splits if_splits)
qed

section \<open>Threads that run the scheduler and call the reactor\<close>

text \<open>
  The system: the scheduler with its threads, and the reactor. The reactor's calls are made by a handler
  of thread \<open>i\<close> or by a thread outside, in the context of that thread. \<open>external\<close> counts the operations
  that wait in the reactor and the work that others have started, such as work guards and timers; others
  end only work of their own.
\<close>

definition in_context :: "nat option \<Rightarrow> sched_sys \<Rightarrow> 'w reactor \<Rightarrow> 'w reactor" where
  "in_context i x r = r\<lparr>this_thread := map_option (nth (sched_threads x)) i, the_scheduler := sched x\<rparr>"

definition put_back :: "nat option \<Rightarrow> 'w reactor \<Rightarrow> sched_sys \<Rightarrow> sched_sys" where
  "put_back i r x =
     (case i of
        None \<Rightarrow> x\<lparr>sched := the_scheduler r\<rparr>
      | Some i \<Rightarrow> (case this_thread r of
            Some t \<Rightarrow> put_thread i (t, the_scheduler r) x
          | None \<Rightarrow> x\<lparr>sched := the_scheduler r\<rparr>))"

definition account :: "'w reactor \<Rightarrow> 'w reactor \<Rightarrow> sched_sys \<Rightarrow> sched_sys" where
  "account r r' x = x\<lparr>external := external x + waiting_total r' - waiting_total r\<rparr>"

fun user_call :: "'w reactor_call \<Rightarrow> bool" where
  "user_call (RunReactor b events ready_timers) \<longleftrightarrow> False"
| "user_call (DescriptorReady d) \<longleftrightarrow> False"
| "user_call (Meanwhile t s w) \<longleftrightarrow> False"
| "user_call _ \<longleftrightarrow> True"

datatype io_label = ByReactor | ByOthers label

inductive io_step :: "'w os \<Rightarrow> sched_sys \<times> 'w reactor \<Rightarrow> io_label \<Rightarrow> sched_sys \<times> 'w reactor \<Rightarrow> bool" for os where
  io_call:
    "may_post i x \<Longrightarrow> user_call c \<Longrightarrow> do_call os c (in_context i x r) = Some r' \<Longrightarrow>
     io_step os (x, r) ByReactor (account r r' (put_back i r' x), r')"
| io_ready:
    "i < length (sched_threads x) \<Longrightarrow> sched_threads x ! i = t \<Longrightarrow> place t = InHandler c (DescriptorState d) \<Longrightarrow>
     d < created r \<Longrightarrow>
     descriptor_do_complete (do_perform os) d (in_context (Some i) x r) = Some (res, r') \<Longrightarrow> this_thread r' = Some t' \<Longrightarrow>
     x' = (case res of
         None \<Rightarrow> put_thread i (after_handler c (t', the_scheduler r')) x
       | Some o' \<Rightarrow> put_thread i (t'\<lparr>place := InHandler c (Completion (op_name o'))\<rparr>, the_scheduler r') x) \<Longrightarrow>
     io_step os (x, r) ByReactor (account r r' x', r')"
| io_run:
    "i < length (sched_threads x) \<Longrightarrow> sched_threads x ! i = t \<Longrightarrow> place t = InTask c \<Longrightarrow>
     reactor_run b events ready_timers r = (ops, r') \<Longrightarrow> waiting_total r + completions ops \<le> external x \<Longrightarrow>
     after_task c (t\<lparr>private_op_queue := private_op_queue t @ ops\<rparr>, sched x) = ts \<Longrightarrow>
     io_step os (x, r) ByReactor (put_thread i ts x\<lparr>external := external x - completions ops\<rparr>, r')"
| io_system:
    "io_step os (x, r) ByReactor (x, r\<lparr>os_state := w\<rparr>)"
| io_others:
    "sched_step x l x' \<Longrightarrow> waiting_total r \<le> external x' \<Longrightarrow> io_step os (x, r) (ByOthers l) (x', r)"

lemma in_context_simps [simp]:
  "waiting_total (in_context i x r) = waiting_total r" "pool_ok (in_context i x r) = pool_ok r"
  "created (in_context i x r) = created r" "the_scheduler (in_context i x r) = sched x"
  "this_thread (in_context i x r) = map_option (nth (sched_threads x)) i"
  "ctx (in_context i x r) = (map_option (nth (sched_threads x)) i, sched x)"
  by (simp_all add: in_context_def waiting_total_def pool_ok_def ctx_def)

text \<open>A call that changes the context as \<open>f\<close> does is a call of \<open>f\<close>.\<close>

lemma put_back_post_from:
  assumes "ctx r' = f (map_option (nth (sched_threads x)) i, sched x)"
  shows "put_back i r' x = post_from i f x"
proof (cases i)
  case None
  have "f (None, sched x) = (this_thread r', the_scheduler r')" using assms by (simp add: None ctx_def)
  then show ?thesis by (simp add: None put_back_def post_from_def)
next
  case (Some j)
  have "f (Some (sched_threads x ! j), sched x) = (this_thread r', the_scheduler r')"
    using assms by (simp add: Some ctx_def)
  then show ?thesis by (simp add: Some put_back_def post_from_def split: option.split)
qed

lemma list_all_completion [simp]: "list_all is_completion (map Completion ops)"
  by (induction ops) auto

lemma settled_step:
  assumes "posts_settled (in_context i x r) r'" "may_post i x" "waiting_total r \<le> external x"
  shows "\<exists>l. sched_step x l (account r r' (put_back i r' x)) \<and> control l = NoControl"
    "pool_ok r'" "waiting_total r' \<le> external (account r r' (put_back i r' x))"
proof -
  obtain ops where s: "settles (length ops) (in_context i x r) r'"
    and c: "ctx r' = post_deferred_completions (map Completion ops) (ctx (in_context i x r))"
    using assms(1) unfolding posts_settled_def by blast
  let ?f = "post_deferred_completions (map Completion ops)"
  have b: "put_back i r' x = post_from i ?f x" by (rule put_back_post_from) (simp add: c)
  have w: "waiting_total r' + length ops = waiting_total r" "pool_ok r'" using s by (simp_all add: settles_def)
  have e: "external (put_back i r' x) = external x"
    unfolding b using stopped_post_from [OF posting_post_deferred_completions] by blast
  have a: "account r r' (put_back i r' x) = (post_from i ?f x)\<lparr>external := external x - length (map Completion ops)\<rparr>"
    using w(1) assms(3) by (simp add: account_def e b [symmetric])
  show "\<exists>l. sched_step x l (account r r' (put_back i r' x)) \<and> control l = NoControl"
  proof -
    have "length (map Completion ops) \<le> external x" using w(1) assms(3) by simp
    from posts_deferred [OF assms(2) list_all_completion this disjI1 [OF refl] refl] show ?thesis
      unfolding a by fastforce
  qed
  show "pool_ok r'" by (rule w)
  show "waiting_total r' \<le> external (account r r' (put_back i r' x))"
    using w(1) assms(3) by (simp add: account_def e)
qed

lemma start_step:
  assumes s: "starts k c (in_context i x r) r'" and "may_post i x" "waiting_total r \<le> external x"
  shows "\<exists>l. sched_step x l (account r r' (put_back i r' x)) \<and> control l = NoControl"
    "pool_ok r'" "waiting_total r' \<le> external (account r r' (put_back i r' x))"
proof -
  let ?f = "post_immediate_completion (Completion k) c"
  show "pool_ok r'" using s by (simp add: starts_def)
  from s consider
    (decided) "waiting_total r' = waiting_total r" "ctx r' = ?f (ctx (in_context i x r))"
  | (waits) "waiting_total r' = waiting_total r + 1"
      "ctx r' = (map_option (nth (sched_threads x)) i, work_started (sched x))"
    by (auto simp: starts_def)
  then have "(\<exists>l. sched_step x l (account r r' (put_back i r' x)) \<and> control l = NoControl) \<and>
    waiting_total r' \<le> external (account r r' (put_back i r' x))"
  proof cases
    case decided
    have b: "put_back i r' x = post_from i ?f x" by (rule put_back_post_from) (simp add: decided(2))
    have e: "external (put_back i r' x) = external x"
      unfolding b using stopped_post_from [OF posting_post_immediate_completion] by blast
    have a: "account r r' (put_back i r' x) = post_from i ?f x"
      using e by (simp add: account_def decided(1) b)
    have "list_all is_completion [Completion k]" by simp
    from posts [OF assms(2) this disjI2 refl, of ?f c] have "\<exists>l. sched_step x l (post_from i ?f x) \<and> control l = NoControl"
      by fastforce
    then show ?thesis using assms(3) e by (simp add: a decided(1)) (simp add: b)
  next
    case waits
    have "put_back i r' x = x\<lparr>sched := work_started (sched x)\<rparr>"
      using waits(2) by (cases i) (auto simp: put_back_def ctx_def put_thread_def)
    then have a: "account r r' (put_back i r' x) = x\<lparr>sched := work_started (sched x), external := external x + 1\<rparr>"
      by (simp add: account_def waits(1))
    show ?thesis unfolding a using work_starts [of x] assms(3) waits(1) by fastforce
  qed
  then show "\<exists>l. sched_step x l (account r r' (put_back i r' x)) \<and> control l = NoControl"
    "waiting_total r' \<le> external (account r r' (put_back i r' x))" by blast+
qed

lemma io_call_step:
  assumes m: "may_post i x" and u: "user_call c" and d: "do_call os c (in_context i x r) = Some r'"
    and p: "pool_ok r" and w: "waiting_total r \<le> external x"
  shows "(\<exists>l. sched_step x l (account r r' (put_back i r' x)) \<and> control l = NoControl) \<and>
    pool_ok r' \<and> waiting_total r' \<le> external (account r r' (put_back i r' x))"
proof -
  let ?r = "in_context i x r"
  have p': "pool_ok ?r" using p by simp
  have "posts_settled ?r r' \<or> (\<exists>k c. starts k c ?r r')"
  proof (cases c)
    case (StartOp t s data o' cont spec)
    then show ?thesis using start_op_starts [OF p', of data os t s o' cont spec r'] d by (auto split: if_splits)
  next
    case (CancelOps data)
    then show ?thesis using cancel_ops_settles [OF p', of data] d by (auto split: if_splits)
  next
    case (CancelOpsByKey data t key)
    then show ?thesis using cancel_ops_by_key_settles [OF p', of data] d by (auto split: if_splits)
  next
    case (Register s)
    then show ?thesis using register_settles [OF p', of os s] d by auto
  next
    case (Deregister s data closing)
    then show ?thesis using deregister_settles [OF p', of data os s closing] d by (auto split: if_splits)
  next
    case (Cleanup data)
    then show ?thesis using cleanup_settles [OF p', of data] d by (auto split: if_splits)
  qed (use u in auto)
  then show ?thesis using settled_step [OF _ m w] start_step [OF _ m w] by blast
qed

lemma io_ready_step:
  assumes i: "i < length (sched_threads x)" "sched_threads x ! i = t" "place t = InHandler c (DescriptorState d)"
    and d: "d < created r" "descriptor_do_complete (do_perform os) d (in_context (Some i) x r) = Some (res, r')"
    and t': "this_thread r' = Some t'" and p: "pool_ok r" and w: "waiting_total r \<le> external x"
    and x': "x' = (case res of
         None \<Rightarrow> put_thread i (after_handler c (t', the_scheduler r')) x
       | Some o' \<Rightarrow> put_thread i (t'\<lparr>place := InHandler c (Completion (op_name o'))\<rparr>, the_scheduler r') x)"
  shows "(\<exists>l. sched_step x l (account r r' x') \<and> control l = NoControl) \<and> pool_ok r' \<and>
    waiting_total r' \<le> external (account r r' x')"
proof -
  have s: "case res of
      None \<Rightarrow> settles 0 (in_context (Some i) x r) r' \<and> ctx r' = (Some (compensating_work_started t), sched x)
    | Some o' \<Rightarrow> \<exists>ops. settles (Suc (length ops)) (in_context (Some i) x r) r' \<and>
        ctx r' = post_deferred_completions (map Completion ops) (Some t, sched x)"
    using descriptor_do_complete_settles [OF d(2)] p d(1) i(2) by (cases res) simp_all
  show ?thesis
  proof (cases res)
    case None
    then have r': "pool_ok r'" "waiting_total r' = waiting_total r" "t' = compensating_work_started t" "the_scheduler r' = sched x"
      using s t' by (simp_all add: settles_def ctx_def)
    have "account r r' x' = put_thread i (after_handler c (compensating_work_started t, sched x)) x"
      by (simp add: account_def r'(2) x' None r'(3,4) put_thread_def)
    with descriptor_idle [OF i] show ?thesis using r' w by (fastforce simp: put_thread_def)
  next
    case (Some o')
    then obtain ops where "settles (Suc (length ops)) (in_context (Some i) x r) r'"
      and c: "post_deferred_completions (map Completion ops) (Some t, sched x) = (Some t', the_scheduler r')"
      using s t' by (auto simp: ctx_def)
    then have r': "pool_ok r'" "waiting_total r' + Suc (length ops) = waiting_total r" by (simp_all add: settles_def)
    have e: "Suc (length (map Completion ops)) \<le> external x" using r' w by simp
    have "account r r' x' = put_thread i (t'\<lparr>place := InHandler c (Completion (op_name o'))\<rparr>, the_scheduler r') x
        \<lparr>external := external x - Suc (length (map Completion ops))\<rparr>"
      using r'(2) w by (simp add: account_def x' Some put_thread_def)
    with descriptor_completes [OF i list_all_completion e c] show ?thesis using r' w by (fastforce simp: put_thread_def)
  qed
qed

lemma io_step_is_scheduler_step:
  assumes "io_step os (x, r) e (x', r')" "pool_ok r" "waiting_total r \<le> external x"
  shows "(x' = x \<or> (\<exists>l. sched_step x l x' \<and> (control l = NoControl \<or> e = ByOthers l))) \<and>
    pool_ok r' \<and> waiting_total r' \<le> external x'"
  using assms(1)
proof cases
  case (io_call i c)
  then show ?thesis using io_call_step [OF io_call(3,4,5) assms(2,3)] by blast
next
  case (io_ready i t c d res t' x'')
  then show ?thesis using io_ready_step [OF io_ready(3,4,5,6,7,8) assms(2,3)] by blast
next
  case (io_run i t c b events ready_timers ops ts)
  note s = reactor_run_settles [OF assms(2) io_run(6)]
  have "completions ops \<le> external x" using io_run(7) by simp
  note step = task_done [OF io_run(3,4,5) s(3) this io_run(8)]
  have "waiting_total r' \<le> external x - completions ops" "pool_ok r'" using s(1) io_run(7) by (simp_all add: settles_def)
  then show ?thesis using step io_run(2) by fastforce
next
  case (io_system w)
  then show ?thesis using assms(2,3) by (auto simp: pool_ok_def waiting_total_def)
next
  case (io_others l)
  then show ?thesis using assms(2) by blast
qed

definition io_init :: "sched_sys \<Rightarrow> sched_sys \<times> 'w reactor \<Rightarrow> bool" where
  "io_init x0 = (\<lambda>(x, r). x = x0 \<and> sched_init x0 \<and> (\<exists>s w. r = reactor_new s w))"

definition io_inv :: "sched_sys \<Rightarrow> io_label list \<Rightarrow> sched_sys \<times> 'w reactor \<Rightarrow> bool" where
  "io_inv x0 es = (\<lambda>(x, r). sched_init x0 \<and> pool_ok r \<and> waiting_total r \<le> external x \<and> (\<exists>fs. lts_run sched_step x0 fs x))"

lemma waiting_total_new [simp]: "waiting_total (reactor_new s w) = 0"
  by (simp add: waiting_total_def reactor_new_def)

lemma pool_ok_new [simp]: "pool_ok (reactor_new s w)"
  using order_inv_new [of "\<lambda>k. None" s w] by (simp add: order_inv_def)

interpretation reactor_accounts: trace_invariant "io_step os" "io_init x0" "io_inv x0" for os :: "'w os" and x0
proof
  fix y :: "sched_sys \<times> 'w reactor"
  assume "io_init x0 y"
  then show "io_inv x0 [] y" by (auto simp: io_init_def io_inv_def intro: lts_nil)
next
  fix es e and y z :: "sched_sys \<times> 'w reactor"
  assume y: "io_inv x0 es y" and step: "io_step os y e z"
  from y obtain fs where fs: "sched_init x0" "lts_run sched_step x0 fs (fst y)" "pool_ok (snd y)"
      "waiting_total (snd y) \<le> external (fst y)"
    by (auto simp: io_inv_def)
  have s: "fst z = fst y \<or> (\<exists>l. sched_step (fst y) l (fst z))" "pool_ok (snd z)" "waiting_total (snd z) \<le> external (fst z)"
    using io_step_is_scheduler_step [of os "fst y" "snd y" e "fst z" "snd z"] step fs by auto
  have "\<exists>fs. lts_run sched_step x0 fs (fst z)" using s(1) fs(2) by (metis lts_snoc)
  then show "io_inv x0 (es @ [e]) z" using fs(1) s by (simp add: io_inv_def case_prod_beta)
qed

lemma nothing_waits:
  assumes "waiting_total r = 0" "pool_ok r"
  shows "op_queues (descriptors r d) t = []"
proof -
  have "waiting_names r d t = []"
  proof (cases "d < created r")
    case True
    then have "waiting_on (waiting_names r) d = 0" using assms(1) by (simp add: waiting_total_def sum_list_eq_0_iff)
    then show ?thesis by (cases t) (simp_all add: waiting_on_def)
  qed (use assms(2) in \<open>simp add: pool_ok_def\<close>)
  then show ?thesis by (simp add: waiting_names_def)
qed

section \<open>Properties\<close>

text \<open>
  C26: refinement. The reactor keeps the scheduler's books: every run of threads that run the scheduler,
  handlers that start, cancel and close operations and the reactor that performs them is a run of the
  scheduler's transition system, in which the operations that wait on descriptors are all counted as
  outstanding work.
\<close>

theorem reactor_runs_are_scheduler_runs:
  assumes "io_init x0 y0" "lts_run (io_step os) y0 es y"
  shows "\<exists>fs. lts_run sched_step x0 fs (fst y) \<and> waiting_total (snd y) \<le> external (fst y)"
  using reactor_accounts.inv_run [OF assms(2,1)] by (auto simp: io_inv_def)


section \<open>Witnesses\<close>

definition demo_reactor :: "u8 list list reactor" where
  "demo_reactor = reactor_new (scheduler_new (- 1)) []"

definition demo_registered :: "u8 list list reactor" where
  "demo_registered = the (do_call demo_os (Register 3) (in_context None demo_start demo_reactor))"

definition demo_registered_sys :: sched_sys where
  "demo_registered_sys = account demo_reactor demo_registered (put_back None demo_registered demo_start)"

definition demo_waits :: "u8 list list reactor" where
  "demo_waits = the (do_call demo_os (StartOp read_op 3 (Some 0) (demo_read 1) False True)
     (in_context None demo_registered_sys demo_registered))"

definition demo_waits_sys :: sched_sys where
  "demo_waits_sys = account demo_registered demo_waits (put_back None demo_waits demo_registered_sys)"

lemma demo_io_init: "io_init demo_start (demo_start, demo_reactor)"
  using demo_init by (auto simp: io_init_def demo_reactor_def)

lemma demo_register_step:
  "io_step demo_os (demo_start, demo_reactor) ByReactor (demo_registered_sys, demo_registered)"
  unfolding demo_registered_sys_def
  by (rule io_call [of None _ "Register 3"]) (simp_all add: may_post_def demo_registered_def)

lemma demo_register_run:
  "lts_run (io_step demo_os) (demo_start, demo_reactor) [ByReactor] (demo_registered_sys, demo_registered)"
  by (rule lts_one) (rule demo_register_step)

lemma demo_start_step:
  "io_step demo_os (demo_registered_sys, demo_registered) ByReactor (demo_waits_sys, demo_waits)"
proof -
  let ?c = "StartOp read_op 3 (Some 0) (demo_read 1) False True"
  have "do_call demo_os ?c (in_context None demo_registered_sys demo_registered) \<noteq> None" by code_simp
  then have "do_call demo_os ?c (in_context None demo_registered_sys demo_registered) = Some demo_waits"
    by (auto simp: demo_waits_def)
  from io_call [OF _ _ this] show ?thesis by (simp add: may_post_def demo_waits_sys_def)
qed

theorem reactor_runs_are_scheduler_runs_witness:
  "\<exists>fs. lts_run sched_step demo_start fs demo_waits_sys \<and> waiting_total demo_waits = 1 \<and> 1 \<le> external demo_waits_sys"
proof -
  have "lts_run (io_step demo_os) (demo_start, demo_reactor) [ByReactor, ByReactor] (demo_waits_sys, demo_waits)"
    using lts_snoc [OF demo_register_run demo_start_step] by simp
  from reactor_runs_are_scheduler_runs [OF demo_io_init this]
  obtain fs where "lts_run sched_step demo_start fs demo_waits_sys" "waiting_total demo_waits \<le> external demo_waits_sys"
    by auto
  moreover have "waiting_total demo_waits = 1" by code_simp
  ultimately show ?thesis by auto
qed


end
