(* ===== verification/HandlerMemory.thy ===== *)
theory HandlerMemory
  imports Prelude "HOL-Library.Multiset"
begin

text \<open>
  The memory of handlers, \<^verbatim>\<open>asio/detail/thread_info_base.hpp\<close>: every thread keeps a few freed blocks for
  reuse. A block holds its capacity in chunks in its first byte while it is kept, and in the byte behind
  the client's part while it is in use. The heap maps addresses to the bytes of their blocks; an access
  outside a block or to a freed one is a fault.
\<close>

section \<open>The heap\<close>

type_synonym heap = "nat \<rightharpoonup> u8 list"

definition heap_load :: "heap \<Rightarrow> nat \<Rightarrow> nat \<Rightarrow> u8 res" where
  "heap_load h p i = (case h p of None \<Rightarrow> Inl UseAfterFree | Some b \<Rightarrow> if i < length b then Inr (b ! i) else Inl OutOfBounds)"

definition heap_store :: "heap \<Rightarrow> nat \<Rightarrow> nat \<Rightarrow> u8 \<Rightarrow> heap res" where
  "heap_store h p i x =
     (case h p of None \<Rightarrow> Inl UseAfterFree | Some b \<Rightarrow> if i < length b then Inr (h(p \<mapsto> b[i := x])) else Inl OutOfBounds)"

text \<open>
  \<open>std::aligned_alloc\<close> is a parameter: for the heap, an alignment and a size it gives a new block with the
  bytes it happens to hold, or nothing. The size is rounded up to the alignment first.
\<close>

type_synonym allocator = "heap \<Rightarrow> nat \<Rightarrow> nat \<Rightarrow> (nat \<times> u8 list) option"

definition allocator_ok :: "allocator \<Rightarrow> bool" where
  "allocator_ok al \<longleftrightarrow> (\<forall>h align bytes p b. al h align bytes = Some (p, b) \<longrightarrow> h p = None \<and> p mod align = 0 \<and> length b = bytes)"

definition aligned_new :: "allocator \<Rightarrow> nat \<Rightarrow> nat \<Rightarrow> heap \<Rightarrow> (nat \<times> heap) res" where
  "aligned_new al align bytes h =
     (let bytes = (if bytes mod align = 0 then bytes else bytes + (align - bytes mod align))
      in case al h align bytes of None \<Rightarrow> Inl BadAlloc | Some (p, b) \<Rightarrow> Inr (p, h(p \<mapsto> b)))"

definition aligned_delete :: "nat \<Rightarrow> heap \<Rightarrow> heap res" where
  "aligned_delete p h = (if h p = None then Inl UseAfterFree else Inr (h(p := None)))"

section \<open>The memory of a thread\<close>

datatype purpose = DefaultTag | AwaitableFrameTag | ExecutorFunctionTag | CancellationSignalTag | ParallelGroupTag

text \<open>The indices of a purpose begin where those of the one before end.\<close>

definition cache_size :: nat where "cache_size = 2"

fun begin_mem_index :: "purpose \<Rightarrow> nat" where
  "begin_mem_index DefaultTag = 0"
| "begin_mem_index AwaitableFrameTag = cache_size"
| "begin_mem_index ExecutorFunctionTag = 2 * cache_size"
| "begin_mem_index CancellationSignalTag = 3 * cache_size"
| "begin_mem_index ParallelGroupTag = 4 * cache_size"

definition end_mem_index :: "purpose \<Rightarrow> nat" where
  "end_mem_index t = begin_mem_index t + cache_size"

definition max_mem_index :: nat where "max_mem_index = end_mem_index ParallelGroupTag"

definition chunk_size :: nat where "chunk_size = 4"

definition UCHAR_MAX :: nat where "UCHAR_MAX = 255"

text \<open>The exceptions thrown by handlers are of any type \<open>'x\<close>; a second one is bundled with the first.\<close>

datatype 'x pending = Thrown 'x | MultipleExceptions 'x

record 'x thread_memory =
  reusable_memory :: "nat option list"
  has_pending_exception :: nat
  pending_exception :: "'x pending option"

definition thread_memory_new :: "'x thread_memory" where
  "thread_memory_new = \<lparr>reusable_memory = replicate max_mem_index None, has_pending_exception = 0, pending_exception = None\<rparr>"

fun delete_all :: "nat option list \<Rightarrow> heap \<Rightarrow> heap res" where
  "delete_all [] h = Inr h"
| "delete_all (m # ms) h =
     (case m of Some p \<Rightarrow> rbind (aligned_delete p h) (delete_all ms) | None \<Rightarrow> delete_all ms h)"

definition thread_memory_destroy :: "'x thread_memory \<Rightarrow> heap \<Rightarrow> heap res" where
  "thread_memory_destroy t h = delete_all (reusable_memory t) h"

text \<open>The two loops of \<open>allocate\<close>: a kept block that is large enough and aligned, or else one to give up.\<close>

fun reuse_loop :: "nat \<Rightarrow> nat \<Rightarrow> nat list \<Rightarrow> nat option list \<Rightarrow> heap \<Rightarrow> (nat \<times> nat \<times> u8) option res" where
  "reuse_loop chunks align [] ms h = Inr None"
| "reuse_loop chunks align (i # js) ms h =
     (case ms ! i of
        None \<Rightarrow> reuse_loop chunks align js ms h
      | Some p \<Rightarrow> rbind (heap_load h p 0) (\<lambda>m0.
          if unat m0 \<ge> chunks \<and> p mod align = 0 then Inr (Some (i, p, m0)) else reuse_loop chunks align js ms h))"

fun drop_loop :: "nat list \<Rightarrow> nat option list \<Rightarrow> heap \<Rightarrow> (nat option list \<times> heap) res" where
  "drop_loop [] ms h = Inr (ms, h)"
| "drop_loop (i # js) ms h =
     (case ms ! i of
        None \<Rightarrow> drop_loop js ms h
      | Some p \<Rightarrow> rbind (aligned_delete p h) (\<lambda>h. Inr (ms[i := None], h)))"

definition mem_indices :: "purpose \<Rightarrow> nat list" where
  "mem_indices t = [begin_mem_index t..<end_mem_index t]"

definition new_block :: "allocator \<Rightarrow> nat \<Rightarrow> nat \<Rightarrow> heap \<Rightarrow> (nat \<times> heap) res" where
  "new_block al bytes align h =
     (let chunks = (bytes + chunk_size - 1) div chunk_size
      in rbind (aligned_new al align (chunks * chunk_size + 1) h) (\<lambda>(p, h).
         rbind (heap_store h p bytes (if chunks \<le> UCHAR_MAX then of_nat chunks else 0)) (\<lambda>h. Inr (p, h))))"

definition mem_allocate :: "allocator \<Rightarrow> purpose \<Rightarrow> 'x thread_memory option \<Rightarrow> nat \<Rightarrow> nat \<Rightarrow> heap \<Rightarrow>
    (nat \<times> 'x thread_memory option \<times> heap) res" where
  "mem_allocate al purpose this_thread bytes align h =
     (let chunks = (bytes + chunk_size - 1) div chunk_size
      in case this_thread of
           None \<Rightarrow> rbind (new_block al bytes align h) (\<lambda>(p, h). Inr (p, None, h))
         | Some t \<Rightarrow>
             rbind (reuse_loop chunks align (mem_indices purpose) (reusable_memory t) h) (\<lambda>r. case r of
               Some (i, p, m0) \<Rightarrow>
                 rbind (heap_store h p bytes m0) (\<lambda>h.
                 Inr (p, Some (t\<lparr>reusable_memory := (reusable_memory t)[i := None]\<rparr>), h))
             | None \<Rightarrow>
                 rbind (drop_loop (mem_indices purpose) (reusable_memory t) h) (\<lambda>(ms, h).
                 rbind (new_block al bytes align h) (\<lambda>(p, h). Inr (p, Some (t\<lparr>reusable_memory := ms\<rparr>), h)))))"

fun keep_loop :: "nat list \<Rightarrow> nat option list \<Rightarrow> nat option" where
  "keep_loop [] ms = None"
| "keep_loop (i # js) ms = (if ms ! i = None then Some i else keep_loop js ms)"

definition mem_deallocate :: "purpose \<Rightarrow> 'x thread_memory option \<Rightarrow> nat \<Rightarrow> nat \<Rightarrow> heap \<Rightarrow>
    ('x thread_memory option \<times> heap) res" where
  "mem_deallocate purpose this_thread p bytes h =
     (let slot = (if bytes \<le> chunk_size * UCHAR_MAX
                  then Option.bind this_thread (\<lambda>t. keep_loop (mem_indices purpose) (reusable_memory t)) else None)
      in case slot of
           Some i \<Rightarrow>
             rbind (heap_load h p bytes) (\<lambda>m. rbind (heap_store h p 0 m) (\<lambda>h.
             Inr (map_option (\<lambda>t. t\<lparr>reusable_memory := (reusable_memory t)[i := Some p]\<rparr>) this_thread, h)))
         | None \<Rightarrow> rbind (aligned_delete p h) (\<lambda>h. Inr (this_thread, h)))"

definition capture_current_exception :: "'x \<Rightarrow> 'x thread_memory \<Rightarrow> 'x thread_memory" where
  "capture_current_exception x t =
     (if has_pending_exception t = 0 then t\<lparr>has_pending_exception := 1, pending_exception := Some (Thrown x)\<rparr>
      else if has_pending_exception t = 1
      then t\<lparr>has_pending_exception := 2,
             pending_exception := map_option (\<lambda>e. case e of Thrown y \<Rightarrow> MultipleExceptions y | MultipleExceptions y \<Rightarrow> e)
               (pending_exception t)\<rparr>
      else t)"

definition rethrow_pending_exception :: "'x thread_memory \<Rightarrow> 'x pending option \<times> 'x thread_memory" where
  "rethrow_pending_exception t =
     (if has_pending_exception t > 0
      then (pending_exception t, t\<lparr>has_pending_exception := 0, pending_exception := None\<rparr>)
      else (None, t))"

section \<open>Nothing is lost and nothing is shared\<close>

text \<open>The pointers in a list of slots, and in the memories of all threads.\<close>

definition slot :: "'a option \<Rightarrow> 'a multiset" where
  "slot m = (case m of None \<Rightarrow> {#} | Some p \<Rightarrow> {#p#})"

definition kept :: "nat option list \<Rightarrow> nat multiset" where
  "kept ms = sum_list (map slot ms)"

lemma slot_simps [simp]: "slot None = {#}" "slot (Some p) = {#p#}"
  by (simp_all add: slot_def)

lemma sum_list_upd:
  "i < length xs \<Longrightarrow> sum_list (map f (xs[i := y])) + f (xs ! i) = sum_list (map f xs) + (f y :: 'a::comm_monoid_add)"
proof (induction xs arbitrary: i)
  case (Cons x xs)
  show ?case
  proof (cases i)
    case (Suc j)
    then have "sum_list (map f (xs[j := y])) + f (xs ! j) = sum_list (map f xs) + f y" using Cons by simp
    then show ?thesis using Suc by (simp add: add.assoc)
  qed (simp add: add.assoc add.commute add.left_commute)
qed simp

lemma kept_take: "i < length ms \<Longrightarrow> ms ! i = Some p \<Longrightarrow> kept ms = add_mset p (kept (ms[i := None]))"
  using sum_list_upd [of i ms slot None] by (simp add: kept_def)

lemma kept_put: "i < length ms \<Longrightarrow> ms ! i = None \<Longrightarrow> kept (ms[i := Some p]) = add_mset p (kept ms)"
  using sum_list_upd [of i ms slot "Some p"] by (simp add: kept_def)

text \<open>A block whose count of chunks at index \<open>i\<close> is not more than it has, and has room for that byte.\<close>

definition counted :: "heap \<Rightarrow> nat \<Rightarrow> nat \<Rightarrow> bool" where
  "counted h i p \<longleftrightarrow> (\<exists>b. h p = Some b \<and> i < length b \<and> chunk_size * unat (b ! i) < length b)"

lemma chunks_enough: "n \<le> (n + chunk_size - 1) div chunk_size * chunk_size"
  by (simp add: chunk_size_def)

lemma counted_store:
  assumes "heap_store h p i x = Inr h'" "h p = Some b" "chunk_size * unat x < length b"
  shows "counted h' i p" "dom h' = dom h" "\<And>q. q \<noteq> p \<Longrightarrow> h' q = h q" "map_option length (h' p) = Some (length b)"
  using assms by (auto simp: heap_store_def counted_def split: if_splits)

lemma mem_indices_bound: "i \<in> set (mem_indices t) \<Longrightarrow> i < max_mem_index"
  by (cases t) (auto simp: mem_indices_def end_mem_index_def max_mem_index_def)

lemma reuse_loop_correct:
  assumes "set js \<subseteq> {..<length ms}" "\<And>p. p \<in># kept ms \<Longrightarrow> counted h 0 p"
  shows "\<exists>r. reuse_loop chunks align js ms h = Inr r \<and> (\<forall>i p m0. r = Some (i, p, m0) \<longrightarrow> i < length ms \<and> ms ! i = Some p \<and>
    chunks \<le> unat m0 \<and> p mod align = 0 \<and> (\<exists>b. h p = Some b \<and> chunk_size * unat m0 < length b))"
  using assms(1)
proof (induction js)
  case (Cons i js)
  show ?case
  proof (cases "ms ! i")
    case None
    then show ?thesis using Cons by simp
  next
    case (Some p)
    have "p \<in># kept ms" using kept_take [of i ms p] Some Cons.prems by simp
    then obtain b where "h p = Some b" "0 < length b" "chunk_size * unat (b ! 0) < length b"
      using assms(2) unfolding counted_def by blast
    then show ?thesis using Cons Some by (auto simp: heap_load_def)
  qed
qed simp

lemma drop_loop_correct:
  assumes "set js \<subseteq> {..<length ms}" "\<And>p. p \<in># kept ms \<Longrightarrow> p \<in> dom h" "finite (dom h)"
  shows "\<exists>ms' h'. drop_loop js ms h = Inr (ms', h') \<and> length ms' = length ms \<and>
    kept ms' + mset_set (dom h) = kept ms + mset_set (dom h') \<and> (\<forall>q. h' q = h q \<or> h' q = None)"
  using assms(1)
proof (induction js)
  case (Cons i js)
  show ?case
  proof (cases "ms ! i")
    case None
    then show ?thesis using Cons by simp
  next
    case (Some p)
    have k: "kept ms = add_mset p (kept (ms[i := None]))" using kept_take [of i ms p] Some Cons.prems by simp
    then have "p \<in> dom h" using assms(2) by simp
    then have "mset_set (dom h) = add_mset p (mset_set (dom h - {p}))" using assms(3) by (simp add: mset_set.remove)
    then show ?thesis using Some k \<open>p \<in> dom h\<close> by (auto simp: aligned_delete_def)
  qed
qed simp

lemma aligned_new_correct:
  assumes "allocator_ok al"
  shows "aligned_new al align n h = Inl BadAlloc \<or>
    (\<exists>p b. aligned_new al align n h = Inr (p, h(p \<mapsto> b)) \<and> h p = None \<and> p mod align = 0 \<and> n \<le> length b)"
proof -
  define m where "m = (if n mod align = 0 then n else n + (align - n mod align))"
  have e: "aligned_new al align n h = (case al h align m of None \<Rightarrow> Inl BadAlloc | Some (p, b) \<Rightarrow> Inr (p, h(p \<mapsto> b)))"
    by (simp add: aligned_new_def m_def)
  have "n \<le> m" by (simp add: m_def)
  show ?thesis
  proof (cases "al h align m")
    case (Some pb)
    obtain p b where "pb = (p, b)" by fastforce
    then have "h p = None" "p mod align = 0" "length b = m" using assms Some unfolding allocator_ok_def by blast+
    then show ?thesis using \<open>n \<le> m\<close> Some \<open>pb = (p, b)\<close> unfolding e by auto
  qed (simp add: e)
qed

lemma new_block_correct:
  assumes al: "allocator_ok al" and fin: "finite (dom h)"
  obtains (bad) "new_block al n align h = Inl BadAlloc"
    | (new) p h' where "new_block al n align h = Inr (p, h')" "p \<notin> dom h" "p mod align = 0" "counted h' n p"
        "dom h' = insert p (dom h)" "\<And>q. q \<noteq> p \<Longrightarrow> h' q = h q"
proof -
  define c where "c = (n + chunk_size - 1) div chunk_size"
  define x :: u8 where "x = (if c \<le> UCHAR_MAX then of_nat c else 0)"
  have e: "new_block al n align h = rbind (aligned_new al align (c * chunk_size + 1) h) (\<lambda>(p, h).
      rbind (heap_store h p n x) (\<lambda>h. Inr (p, h)))"
    by (simp add: new_block_def c_def x_def Let_def)
  have "unat x \<le> c" by (simp add: x_def UCHAR_MAX_def unat_of_nat_small)
  then have x: "chunk_size * unat x \<le> c * chunk_size" using mult_le_mono2 by (simp add: mult.commute)
  consider "aligned_new al align (c * chunk_size + 1) h = Inl BadAlloc"
    | p b where "aligned_new al align (c * chunk_size + 1) h = Inr (p, h(p \<mapsto> b))" "h p = None" "p mod align = 0"
        "c * chunk_size + 1 \<le> length b"
    using aligned_new_correct [OF al, of align "c * chunk_size + 1" h] by (elim disjE exE conjE) assumption+
  then show ?thesis
  proof cases
    case 2
    have n: "n < length b" using chunks_enough [of n] 2(4) unfolding c_def by linarith
    have "new_block al n align h = Inr (p, h(p \<mapsto> b[n := x]))" unfolding e 2(1) using n by (simp add: heap_store_def)
    moreover have "chunk_size * unat x < length b" using x 2(4) by linarith
    then have "counted (h(p \<mapsto> b[n := x])) n p" using n by (simp add: counted_def)
    ultimately show ?thesis using 2(2,3) by (intro new [of p "h(p \<mapsto> b[n := x])"]) auto
  next
    case 1
    then show ?thesis by (intro bad) (simp only: e rbind.simps)
  qed
qed

text \<open>What a thread keeps: blocks of the heap whose first byte counts their chunks.\<close>

definition memory_ok :: "heap \<Rightarrow> 'x thread_memory \<Rightarrow> bool" where
  "memory_ok h t \<longleftrightarrow> length (reusable_memory t) = max_mem_index \<and> (\<forall>p \<in># kept (reusable_memory t). counted h 0 p)"

definition kept_by :: "'x thread_memory option \<Rightarrow> nat multiset" where
  "kept_by t = (case t of None \<Rightarrow> {#} | Some t \<Rightarrow> kept (reusable_memory t))"

lemma kept_by_simps [simp]: "kept_by None = {#}" "kept_by (Some t) = kept (reusable_memory t)"
  by (simp_all add: kept_by_def)

text \<open>What an allocation gives: a block for the client that was kept or is new, other blocks left as they are or freed.\<close>

definition allocated :: "nat \<Rightarrow> nat \<Rightarrow> 'x thread_memory option \<Rightarrow> heap \<Rightarrow> (nat \<times> 'x thread_memory option \<times> heap) res \<Rightarrow> bool" where
  "allocated n align t h r \<longleftrightarrow> r = Inl BadAlloc \<or> (\<exists>p t' h'. r = Inr (p, t', h') \<and>
     (t' = None \<longleftrightarrow> t = None) \<and> (\<forall>u. t' = Some u \<longrightarrow> length (reusable_memory u) = max_mem_index) \<and> finite (dom h') \<and>
     add_mset p (kept_by t') + mset_set (dom h) = kept_by t + mset_set (dom h') \<and>
     (\<forall>q. q \<noteq> p \<longrightarrow> h' q = h q \<or> h' q = None) \<and> counted h' n p \<and> p mod align = 0)"

lemma allocatedI:
  assumes "r = Inr (p, t', h')" "t' = None \<longleftrightarrow> t = None" "\<And>u. t' = Some u \<Longrightarrow> length (reusable_memory u) = max_mem_index"
    "finite (dom h')" "add_mset p (kept_by t') + mset_set (dom h) = kept_by t + mset_set (dom h')"
    "\<And>q. q \<noteq> p \<Longrightarrow> h' q = h q \<or> h' q = None" "counted h' n p" "p mod align = 0"
  shows "allocated n align t h r"
  unfolding allocated_def
proof (rule disjI2, intro exI conjI allI impI)
  show "r = Inr (p, t', h')" by (rule assms)
qed (fact assms | erule assms)+

lemma mem_allocate_correct:
  fixes t :: "'x thread_memory option"
  assumes al: "allocator_ok al" and fin: "finite (dom h)" and t: "\<And>u. t = Some u \<Longrightarrow> memory_ok h u"
  shows "allocated n align t h (mem_allocate al pur t n align h)"
proof (cases t)
  case None
  have e: "mem_allocate al pur t n align h = rbind (new_block al n align h) (\<lambda>(p, h). Inr (p, None, h))"
    by (simp add: None mem_allocate_def Let_def)
  show ?thesis
  proof (rule new_block_correct [OF al fin, of n align])
    assume "new_block al n align h = Inl BadAlloc"
    then show ?thesis by (simp add: allocated_def e)
  next
    fix p h' assume p: "new_block al n align h = Inr (p, h')" "p \<notin> dom h" "p mod align = 0" "counted h' n p"
        "dom h' = insert p (dom h)" "\<And>q. q \<noteq> p \<Longrightarrow> h' q = h q"
    moreover have "mset_set (dom h') = add_mset p (mset_set (dom h))" using p(2,5) fin by simp
    moreover have "mem_allocate al pur t n align h = Inr (p, None, h')" unfolding e p(1) by simp
    ultimately show ?thesis using fin by (intro allocatedI [of _ p None h']) (simp_all add: None)
  qed
next
  case (Some u)
  let ?ms = "reusable_memory u" and ?c = "(n + chunk_size - 1) div chunk_size"
  have u: "length ?ms = max_mem_index" "\<And>p. p \<in># kept ?ms \<Longrightarrow> counted h 0 p" using t [OF Some] by (auto simp: memory_ok_def)
  have js: "set (mem_indices pur) \<subseteq> {..<length ?ms}" using u(1) mem_indices_bound by auto
  obtain r where r: "reuse_loop ?c align (mem_indices pur) ?ms h = Inr r"
    "\<And>i p m0. r = Some (i, p, m0) \<Longrightarrow> i < length ?ms \<and> ?ms ! i = Some p \<and> ?c \<le> unat m0 \<and> p mod align = 0 \<and>
      (\<exists>b. h p = Some b \<and> chunk_size * unat m0 < length b)"
    using reuse_loop_correct [OF js u(2), of ?c align] by blast
  show ?thesis
  proof (cases r)
    case None
    obtain ms h1 where d: "drop_loop (mem_indices pur) ?ms h = Inr (ms, h1)" "length ms = length ?ms"
        "kept ms + mset_set (dom h) = kept ?ms + mset_set (dom h1)" "\<And>q. h1 q = h q \<or> h1 q = None"
      using drop_loop_correct [OF js _ fin] u(2) unfolding counted_def by blast
    have "dom h1 \<subseteq> dom h" using d(4) by (metis domIff subsetI)
    then have fin1: "finite (dom h1)" using fin by (rule finite_subset)
    have e: "mem_allocate al pur t n align h =
        rbind (new_block al n align h1) (\<lambda>(p, h). Inr (p, Some (u\<lparr>reusable_memory := ms\<rparr>), h))"
      using Some r(1) None d(1) by (simp add: mem_allocate_def Let_def)
    show ?thesis
    proof (rule new_block_correct [OF al fin1, of n align])
      assume "new_block al n align h1 = Inl BadAlloc"
      then show ?thesis by (simp add: allocated_def e)
    next
      fix p h2 assume p: "new_block al n align h1 = Inr (p, h2)" "p \<notin> dom h1" "p mod align = 0" "counted h2 n p"
          "dom h2 = insert p (dom h1)" "\<And>q. q \<noteq> p \<Longrightarrow> h2 q = h1 q"
      have "mset_set (dom h2) = add_mset p (mset_set (dom h1))" using p(2,5) fin1 by simp
      then have "add_mset p (kept ms) + mset_set (dom h) = kept ?ms + mset_set (dom h2)" using d(3) by simp
      moreover have "h2 q = h q \<or> h2 q = None" if "q \<noteq> p" for q using p(6) [OF that] d(4) [of q] by metis
      ultimately show ?thesis using e p d(2) u fin1 Some
        by (intro allocatedI [of _ p "Some (u\<lparr>reusable_memory := ms\<rparr>)" h2]) (simp; fail | force)+
    qed
  next
    case (Some a)
    obtain i p m0 where a: "a = (i, p, m0)" by (metis prod_cases3)
    obtain b where i: "i < length ?ms" "?ms ! i = Some p" "?c \<le> unat m0" "p mod align = 0" "h p = Some b"
      "chunk_size * unat m0 < length b" using r(2) [OF Some [unfolded a]] by (elim conjE exE)
    have n: "n < length b" using chunks_enough [of n] mult_le_mono1 [OF i(3), of chunk_size] i(6)
      unfolding mult.commute [of chunk_size] by linarith
    then have st: "heap_store h p n m0 = Inr (h(p \<mapsto> b[n := m0]))" using i(5) by (simp add: heap_store_def)
    have "mem_allocate al pur t n align h = Inr (p, Some (u\<lparr>reusable_memory := ?ms[i := None]\<rparr>), h(p \<mapsto> b[n := m0]))"
      using \<open>t = Some u\<close> r(1) Some a st by (simp add: mem_allocate_def Let_def)
    moreover have "counted (h(p \<mapsto> b[n := m0])) n p" using n i(6) by (simp add: counted_def)
    moreover have "insert p (dom h) = dom h" using i(5) by blast
    ultimately show ?thesis using \<open>t = Some u\<close> u(1) i(4) fin kept_take [OF i(1,2)]
      by (intro allocatedI [of _ p "Some (u\<lparr>reusable_memory := ?ms[i := None]\<rparr>)" "h(p \<mapsto> b[n := m0])"]) (simp; fail | force)+
  qed
qed

text \<open>What giving a block back does: it is kept or freed.\<close>

definition released :: "nat \<Rightarrow> 'x thread_memory option \<Rightarrow> heap \<Rightarrow> ('x thread_memory option \<times> heap) res \<Rightarrow> bool" where
  "released p t h r \<longleftrightarrow> (\<exists>t' h'. r = Inr (t', h') \<and> (t' = None \<longleftrightarrow> t = None) \<and>
     (\<forall>u. t' = Some u \<longrightarrow> length (reusable_memory u) = max_mem_index) \<and> finite (dom h') \<and>
     kept_by t' + mset_set (dom h) = add_mset p (kept_by t + mset_set (dom h')) \<and>
     (\<forall>q. q \<noteq> p \<longrightarrow> h' q = h q) \<and> (p \<in> dom h' \<longrightarrow> counted h' 0 p))"

lemma releasedI:
  assumes "r = Inr (t', h')" "t' = None \<longleftrightarrow> t = None" "\<And>u. t' = Some u \<Longrightarrow> length (reusable_memory u) = max_mem_index"
    "finite (dom h')" "kept_by t' + mset_set (dom h) = add_mset p (kept_by t + mset_set (dom h'))"
    "\<And>q. q \<noteq> p \<Longrightarrow> h' q = h q" "p \<in> dom h' \<Longrightarrow> counted h' 0 p"
  shows "released p t h r"
  unfolding released_def
proof (intro exI conjI allI impI)
  show "r = Inr (t', h')" by (rule assms)
qed (fact assms | erule assms)+

lemma keep_loop_Some:
  "keep_loop js ms = Some i \<Longrightarrow> i \<in> set js \<and> ms ! i = None"
  by (induction js) (auto split: if_splits)

lemma mset_dom_delete: "p \<in> dom h \<Longrightarrow> finite (dom h) \<Longrightarrow> mset_set (dom h) = add_mset p (mset_set (dom (h(p := None))))"
  by (simp add: mset_set.remove)

lemma mem_deallocate_correct:
  fixes t :: "'x thread_memory option"
  assumes fin: "finite (dom h)" and t: "\<And>u. t = Some u \<Longrightarrow> memory_ok h u" and p: "counted h n p"
  shows "released p t h (mem_deallocate pur t p n h)"
proof -
  let ?slot = "if n \<le> chunk_size * UCHAR_MAX then Option.bind t (\<lambda>t. keep_loop (mem_indices pur) (reusable_memory t)) else None"
  obtain b where b: "h p = Some b" "n < length b" "chunk_size * unat (b ! n) < length b" using p unfolding counted_def by blast
  have l: "length (reusable_memory u) = max_mem_index" if "t = Some u" for u using t [OF that] by (simp add: memory_ok_def)
  show ?thesis
  proof (cases ?slot)
    case None
    then have "mem_deallocate pur t p n h = Inr (t, h(p := None))"
      unfolding mem_deallocate_def Let_def None using b(1) by (simp add: aligned_delete_def)
    then show ?thesis
      using fin l mset_dom_delete [of p h] b(1) by (intro releasedI [of _ t "h(p := None)"]) auto
  next
    case (Some i)
    then obtain u where u: "t = Some u" "keep_loop (mem_indices pur) (reusable_memory u) = Some i"
      by (auto split: if_splits simp: bind_eq_Some_conv)
    then have i: "i < length (reusable_memory u)" "reusable_memory u ! i = None"
      using keep_loop_Some mem_indices_bound l [OF u(1)] by metis+
    let ?h = "h(p \<mapsto> b[0 := b ! n])"
    have "mem_deallocate pur t p n h = Inr (Some (u\<lparr>reusable_memory := (reusable_memory u)[i := Some p]\<rparr>), ?h)"
      unfolding mem_deallocate_def Let_def Some using b u(1) by (auto simp: heap_load_def heap_store_def)
    moreover have "insert p (dom h) = dom h" using b(1) by blast
    moreover have "counted ?h 0 p" using b(2,3) by (cases b) (auto simp: counted_def)
    ultimately show ?thesis using u(1) l fin kept_put [OF i]
      by (intro releasedI [of _ "Some (u\<lparr>reusable_memory := (reusable_memory u)[i := Some p]\<rparr>)" ?h]) (simp; fail | force)+
  qed
qed

lemma delete_all_correct:
  "finite (dom h) \<Longrightarrow> kept ms \<subseteq># mset_set (dom h) \<Longrightarrow> \<exists>h'. delete_all ms h = Inr h' \<and> finite (dom h') \<and>
    mset_set (dom h) = kept ms + mset_set (dom h') \<and> (\<forall>q. h' q = h q \<or> h' q = None)"
proof (induction ms arbitrary: h)
  case (Cons m ms)
  show ?case
  proof (cases m)
    case None
    then show ?thesis using Cons by (simp add: kept_def)
  next
    case (Some p)
    have k: "kept (m # ms) = add_mset p (kept ms)" by (simp add: kept_def Some)
    have "p \<in># mset_set (dom h)" using Cons.prems(2) unfolding k by (meson insert_subset_eq_iff)
    then have p: "p \<in> dom h" using Cons.prems(1) by (metis finite_set_mset_mset_set)
    let ?h = "h(p := None)"
    note d = mset_dom_delete [OF p Cons.prems(1)]
    have "kept ms \<subseteq># mset_set (dom ?h)" using Cons.prems(2) unfolding k d by simp
    moreover have "finite (dom ?h)" using Cons.prems(1) by simp
    ultimately obtain h' where h': "delete_all ms ?h = Inr h'" "finite (dom h')" "mset_set (dom ?h) = kept ms + mset_set (dom h')"
        "\<And>q. h' q = ?h q \<or> h' q = None" using Cons.IH [of ?h] by blast
    have "delete_all (m # ms) h = Inr h'" using p h'(1) Some by (auto simp: aligned_delete_def)
    moreover have "h' q = h q \<or> h' q = None" for q using h'(4) [of q] by (auto split: if_splits)
    ultimately show ?thesis using h'(2,3) d k by simp
  qed
qed (simp add: kept_def)

section \<open>Runs\<close>

text \<open>
  The threads of a scheduler with the heap, and the blocks that are in use with their sizes and alignments.
  A thread outside the scheduler has no memory of its own. A client gives back a block it has, with its
  size, and writes to the bytes of its block.
\<close>

record 'x memory_system =
  mem_threads :: "'x thread_memory list"
  mem_heap :: heap
  mem_live :: "(nat \<times> nat \<times> nat) list"

datatype mem_call =
    Allocate "nat option" purpose nat nat
  | Deallocate "nat option" purpose nat
  | ClientWrite nat nat u8
  | ThreadEnds nat

definition get_thread :: "nat option \<Rightarrow> 'x thread_memory list \<Rightarrow> 'x thread_memory option" where
  "get_thread t ts = Option.bind t (\<lambda>i. if i < length ts then Some (ts ! i) else None)"

definition put_thread :: "nat option \<Rightarrow> 'x thread_memory option \<Rightarrow> 'x thread_memory list \<Rightarrow> 'x thread_memory list" where
  "put_thread t m ts = (case (t, m) of (Some i, Some m) \<Rightarrow> ts[i := m] | _ \<Rightarrow> ts)"

fun mem_step :: "allocator \<Rightarrow> mem_call \<Rightarrow> 'x memory_system \<Rightarrow> 'x memory_system res" where
  "mem_step al (Allocate t pur n align) s =
     rbind (mem_allocate al pur (get_thread t (mem_threads s)) n align (mem_heap s)) (\<lambda>(p, m, h).
     Inr (s\<lparr>mem_threads := put_thread t m (mem_threads s), mem_heap := h, mem_live := (p, n, align) # mem_live s\<rparr>))"
| "mem_step al (Deallocate t pur k) s =
     (if k < length (mem_live s)
      then
        let (p, n, align) = mem_live s ! k
        in rbind (mem_deallocate pur (get_thread t (mem_threads s)) p n (mem_heap s)) (\<lambda>(m, h).
           Inr (s\<lparr>mem_threads := put_thread t m (mem_threads s), mem_heap := h,
                  mem_live := take k (mem_live s) @ drop (Suc k) (mem_live s)\<rparr>))
      else Inr s)"
| "mem_step al (ClientWrite k i x) s =
     (if k < length (mem_live s)
      then
        let (p, n, align) = mem_live s ! k
        in if i < n then rbind (heap_store (mem_heap s) p i x) (\<lambda>h. Inr (s\<lparr>mem_heap := h\<rparr>)) else Inr s
      else Inr s)"
| "mem_step al (ThreadEnds t) s =
     (if t < length (mem_threads s)
      then rbind (thread_memory_destroy (mem_threads s ! t) (mem_heap s)) (\<lambda>h.
           Inr (s\<lparr>mem_threads := (mem_threads s)[t := thread_memory_new], mem_heap := h\<rparr>))
      else Inr s)"

definition memory_system_new :: "nat \<Rightarrow> 'x memory_system" where
  "memory_system_new n = \<lparr>mem_threads = replicate n thread_memory_new, mem_heap = Map.empty, mem_live = []\<rparr>"

definition kept_all :: "'x thread_memory list \<Rightarrow> nat multiset" where
  "kept_all ts = sum_list (map (\<lambda>t. kept (reusable_memory t)) ts)"

definition live_ok :: "heap \<Rightarrow> (nat \<times> nat \<times> nat) list \<Rightarrow> bool" where
  "live_ok h l \<longleftrightarrow> (\<forall>(p, n, align) \<in> set l. counted h n p \<and> p mod align = 0)"

definition mem_inv :: "'x memory_system \<Rightarrow> bool" where
  "mem_inv s \<longleftrightarrow> finite (dom (mem_heap s)) \<and>
     mset (map fst (mem_live s)) + kept_all (mem_threads s) = mset_set (dom (mem_heap s)) \<and>
     (\<forall>t \<in> set (mem_threads s). length (reusable_memory t) = max_mem_index) \<and>
     (\<forall>p \<in># kept_all (mem_threads s). counted (mem_heap s) 0 p) \<and> live_ok (mem_heap s) (mem_live s)"

lemma no_slots [simp]: "sum_list (replicate n {#}) = {#}"
  by (induction n) simp_all

lemma kept_new: "kept (reusable_memory thread_memory_new) = {#}"
  by (simp add: thread_memory_new_def kept_def)

lemma mem_inv_new: "mem_inv (memory_system_new n)"
  by (simp add: mem_inv_def memory_system_new_def kept_all_def kept_new live_ok_def)
    (simp add: thread_memory_new_def)

lemma kept_all_member: "t \<in> set ts \<Longrightarrow> kept (reusable_memory t) \<subseteq># kept_all ts"
proof -
  assume "t \<in> set ts"
  then obtain xs ys where "ts = xs @ t # ys" by (meson split_list)
  then have "kept_all ts = kept (reusable_memory t) + (kept_all xs + kept_all ys)" by (simp add: kept_all_def ac_simps)
  then show ?thesis by simp
qed

lemma get_thread_ok:
  assumes "mem_inv s" "get_thread t (mem_threads s) = Some u"
  shows "memory_ok (mem_heap s) u"
proof -
  have u: "u \<in> set (mem_threads s)" using assms(2) by (auto simp: get_thread_def bind_eq_Some_conv split: if_splits)
  note k = mset_subset_eqD [OF kept_all_member [OF u]]
  show ?thesis using assms(1) u k by (simp add: mem_inv_def memory_ok_def)
qed

lemma put_thread_kept:
  assumes "m = None \<longleftrightarrow> get_thread t ts = None"
  shows "kept_all (put_thread t m ts) + kept_by (get_thread t ts) = kept_all ts + kept_by m"
proof (cases m)
  case None
  then show ?thesis using assms by (simp add: put_thread_def split: option.splits)
next
  case (Some u)
  then obtain i where i: "t = Some i" "i < length ts" "get_thread t ts = Some (ts ! i)"
    using assms by (auto simp: get_thread_def bind_eq_None_conv split: if_splits)
  then show ?thesis using sum_list_upd [OF i(2), of "\<lambda>t. kept (reusable_memory t)" u] Some
    by (simp add: put_thread_def kept_all_def)
qed

lemma put_thread_length:
  assumes "\<And>u. m = Some u \<Longrightarrow> length (reusable_memory u) = max_mem_index"
    "\<forall>u \<in> set ts. length (reusable_memory u) = max_mem_index"
  shows "\<forall>u \<in> set (put_thread t m ts). length (reusable_memory u) = max_mem_index"
  using assms set_update_subset_insert by (fastforce simp: put_thread_def split: option.splits)

lemma mem_inv_ops:
  assumes "mem_inv s"
  shows "finite (dom (mem_heap s))" "mset (map fst (mem_live s)) + kept_all (mem_threads s) = mset_set (dom (mem_heap s))"
    "\<forall>t \<in> set (mem_threads s). length (reusable_memory t) = max_mem_index"
    "p \<in># kept_all (mem_threads s) \<Longrightarrow> counted (mem_heap s) 0 p"
    "(p, n, align) \<in> set (mem_live s) \<Longrightarrow> counted (mem_heap s) n p"
    "(p, n, align) \<in> set (mem_live s) \<Longrightarrow> p mod align = 0"
  using assms unfolding mem_inv_def live_ok_def by fast+

lemma mem_invI:
  assumes "finite (dom h)" "mset (map fst l) + kept_all ts = mset_set (dom h)"
    "\<forall>t \<in> set ts. length (reusable_memory t) = max_mem_index"
    "\<And>p. p \<in># kept_all ts \<Longrightarrow> counted h 0 p"
    "\<And>p n align. (p, n, align) \<in> set l \<Longrightarrow> counted h n p \<and> p mod align = 0"
  shows "mem_inv (s\<lparr>mem_threads := ts, mem_heap := h, mem_live := l\<rparr>)"
  using assms by (auto simp: mem_inv_def live_ok_def)

lemma counted_same: "counted h i p \<Longrightarrow> h' p = h p \<Longrightarrow> counted h' i p"
  by (simp add: counted_def)

text \<open>Multisets of addresses that together are a set of blocks.\<close>

lemma blocks_once:
  assumes "A + B = mset_set D" "finite D"
  shows "count A p + count B p = (if p \<in> D then 1 else 0)"
  using assms by (metis count_mset_set(1,3) count_union)

lemma exchange_out:
  assumes "K' + k = K + k'" "add_mset p k' + D = k + D'" "l + K = D"
  shows "add_mset p l + K' = (D' :: 'a multiset)"
proof (rule multiset_eqI)
  fix x
  have "count K' x + count k x = count K x + count k' x" using arg_cong [OF assms(1), of "\<lambda>M. count M x"] by simp
  moreover have "count (add_mset p k') x + count D x = count k x + count D' x"
    using arg_cong [OF assms(2), of "\<lambda>M. count M x"] by (cases "p = x") simp_all
  moreover have "count l x + count K x = count D x" using arg_cong [OF assms(3), of "\<lambda>M. count M x"] by simp
  ultimately show "count (add_mset p l + K') x = count D' x" by (simp split: if_splits)
qed

lemma exchange_in:
  assumes "K' + k = K + k'" "k' + D = add_mset p (k + D')" "add_mset p l + K = D"
  shows "l + K' = (D' :: 'a multiset)"
proof (rule multiset_eqI)
  fix x
  have "count K' x + count k x = count K x + count k' x" using arg_cong [OF assms(1), of "\<lambda>M. count M x"] by simp
  moreover have "count k' x + count D x = count (add_mset p (k + D')) x"
    using arg_cong [OF assms(2), of "\<lambda>M. count M x"] by simp
  moreover have "count (add_mset p l) x + count K x = count D x"
    using arg_cong [OF assms(3), of "\<lambda>M. count M x"] by (cases "p = x") simp_all
  ultimately show "count (l + K') x = count D' x" by (simp split: if_splits)
qed

lemma allocate_inv:
  assumes inv: "mem_inv s" and al: "allocator_ok al"
  shows "mem_step al (Allocate t pur n align) s = Inl BadAlloc \<or>
    (\<exists>s'. mem_step al (Allocate t pur n align) s = Inr s' \<and> mem_inv s')"
proof -
  note f = mem_inv_ops [OF inv]
  let ?t = "get_thread t (mem_threads s)" and ?h = "mem_heap s" and ?l = "mset (map fst (mem_live s))"
    and ?K = "kept_all (mem_threads s)"
  have "allocated n align ?t ?h (mem_allocate al pur ?t n align ?h)"
    using mem_allocate_correct [OF al f(1)] get_thread_ok [OF inv] by blast
  then consider "mem_allocate al pur ?t n align ?h = Inl BadAlloc"
    | p m h where "mem_allocate al pur ?t n align ?h = Inr (p, m, h)" "m = None \<longleftrightarrow> ?t = None"
      "\<And>u. m = Some u \<Longrightarrow> length (reusable_memory u) = max_mem_index" "finite (dom h)"
      "add_mset p (kept_by m) + mset_set (dom ?h) = kept_by ?t + mset_set (dom h)"
      "\<And>q. q \<noteq> p \<Longrightarrow> h q = ?h q \<or> h q = None" "counted h n p" "p mod align = 0"
    unfolding allocated_def by (elim disjE exE conjE) metis+
  then show ?thesis
  proof cases
    case 2
    let ?ts = "put_thread t m (mem_threads s)"
    have k: "kept_all ?ts + kept_by ?t = ?K + kept_by m" using put_thread_kept [OF 2(2)] .
    have e: "add_mset p ?l + kept_all ?ts = mset_set (dom h)" by (rule exchange_out [OF k 2(5) f(2)])
    have "count (?l + kept_all ?ts) p = 0" using blocks_once [OF e 2(4), of p] by (simp split: if_splits)
    then have np: "q \<noteq> p" if "q \<in># ?l + kept_all ?ts" for q using that by (metis not_in_iff)
    have old: "h q = ?h q \<and> q \<in> dom ?h \<and> q \<in> dom h" if "q \<in># ?l + kept_all ?ts" for q
    proof -
      have "q \<in># mset_set (dom h)" unfolding e [symmetric] using that by simp
      then have d: "q \<in> dom h" using 2(4) by simp
      then show ?thesis using 2(6) [OF np [OF that]] by fastforce
    qed
    have "counted h 0 q" if q: "q \<in># kept_all ?ts" for q
    proof -
      note o = old [of q]
      have "q \<noteq> p" using np [of q] q by simp
      then have "count (kept_by m) q = count (kept_by ?t) q"
        using arg_cong [OF 2(5), of "\<lambda>M. count M q"] o q 2(4) f(1) by simp
      then have "q \<in># ?K" using arg_cong [OF k, of "\<lambda>M. count M q"] q by (simp flip: count_greater_zero_iff)
      then show ?thesis using f(4) o q counted_same by (metis union_iff)
    qed
    moreover have "counted h a q \<and> q mod b = 0" if "(q, a, b) \<in> set ((p, n, align) # mem_live s)" for q a b
    proof (cases "(q, a, b) = (p, n, align)")
      case False
      then have i: "(q, a, b) \<in> set (mem_live s)" using that by auto
      then have "q \<in># ?l" by force
      then show ?thesis using old [of q] counted_same [OF f(5) [OF i]] f(6) [OF i] by simp
    qed (use 2(7,8) in simp)
    ultimately have "mem_inv (s\<lparr>mem_threads := ?ts, mem_heap := h, mem_live := (p, n, align) # mem_live s\<rparr>)"
      using put_thread_length [OF 2(3) f(3)] 2(4) e by (intro mem_invI) simp_all
    then show ?thesis using 2(1) by simp
  qed simp
qed

lemma drop_nth: "k < length l \<Longrightarrow> mset l = add_mset (l ! k) (mset (take k l @ drop (Suc k) l))"
  by (metis id_take_nth_drop mset_append mset.simps(2) union_mset_add_mset_right)

lemma deallocate_inv:
  assumes inv: "mem_inv s"
  shows "\<exists>s'. mem_step al (Deallocate t pur k) s = Inr s' \<and> mem_inv s'"
proof (cases "k < length (mem_live s)")
  case False
  then show ?thesis using inv by simp
next
  case True
  note f = mem_inv_ops [OF inv]
  obtain p n align where k: "mem_live s ! k = (p, n, align)" by (metis prod_cases3)
  let ?rest = "take k (mem_live s) @ drop (Suc k) (mem_live s)"
  let ?t = "get_thread t (mem_threads s)" and ?h = "mem_heap s" and ?l = "mset (map fst ?rest)"
    and ?K = "kept_all (mem_threads s)"
  have live: "(p, n, align) \<in> set (mem_live s)" using True k by (metis nth_mem)
  have l: "mset (map fst (mem_live s)) = add_mset p ?l"
    using arg_cong [OF drop_nth [OF True], of "image_mset fst"] k by simp
  have "released p ?t ?h (mem_deallocate pur ?t p n ?h)"
    using mem_deallocate_correct [OF f(1) _ f(5) [OF live]] get_thread_ok [OF inv] by blast
  then obtain m h where r: "mem_deallocate pur ?t p n ?h = Inr (m, h)" "m = None \<longleftrightarrow> ?t = None"
      "\<And>u. m = Some u \<Longrightarrow> length (reusable_memory u) = max_mem_index" "finite (dom h)"
      "kept_by m + mset_set (dom ?h) = add_mset p (kept_by ?t + mset_set (dom h))"
      "\<And>q. q \<noteq> p \<Longrightarrow> h q = ?h q" "p \<in> dom h \<Longrightarrow> counted h 0 p"
    unfolding released_def by (elim exE conjE) metis
  let ?ts = "put_thread t m (mem_threads s)"
  have kk: "kept_all ?ts + kept_by ?t = ?K + kept_by m" using put_thread_kept [OF r(2)] .
  have b: "add_mset p ?l + ?K = mset_set (dom ?h)" using f(2) l by simp
  have e: "?l + kept_all ?ts = mset_set (dom h)" by (rule exchange_in [OF kk r(5) b])
  have "count ?l p = 0" using blocks_once [OF b f(1), of p] by (simp split: if_splits)
  then have np: "q \<noteq> p" if "q \<in># ?l" for q using that by (metis not_in_iff)
  have "counted h 0 q" if q: "q \<in># kept_all ?ts" for q
  proof (cases "q = p")
    case True
    have "p \<in># mset_set (dom h)" unfolding e [symmetric] using q True by simp
    then show ?thesis using r(4,7) True by simp
  next
    case False
    have "q \<in> dom h \<longleftrightarrow> q \<in> dom ?h" using r(6) [OF False] by (simp add: domIff)
    then have "count (kept_by m) q = count (kept_by ?t) q"
      using arg_cong [OF r(5), of "\<lambda>M. count M q"] False r(4) f(1) by (cases "q \<in> dom h") simp_all
    then have "q \<in># ?K" using arg_cong [OF kk, of "\<lambda>M. count M q"] q by (simp flip: count_greater_zero_iff)
    then show ?thesis using f(4) counted_same r(6) [OF False] by blast
  qed
  moreover have "counted h a q \<and> q mod b = 0" if "(q, a, b) \<in> set ?rest" for q a b
  proof -
    have "q \<in># ?l" using that by force
    then have "h q = ?h q" using r(6) np by blast
    moreover have i: "(q, a, b) \<in> set (mem_live s)" using that by (auto dest: in_set_takeD in_set_dropD)
    ultimately show ?thesis using f(5,6) [OF i] by (simp add: counted_def)
  qed
  ultimately have "mem_inv (s\<lparr>mem_threads := ?ts, mem_heap := h, mem_live := ?rest\<rparr>)"
    using put_thread_length [OF r(3) f(3)] r(4) e by (intro mem_invI) simp_all
  then show ?thesis using True k r(1) by simp
qed

lemma thread_ends_inv:
  assumes inv: "mem_inv s"
  shows "\<exists>s'. mem_step al (ThreadEnds t) s = Inr s' \<and> mem_inv s'"
proof (cases "t < length (mem_threads s)")
  case False
  then show ?thesis using inv by simp
next
  case True
  note f = mem_inv_ops [OF inv]
  let ?h = "mem_heap s" and ?m = "reusable_memory (mem_threads s ! t)" and ?l = "mset (map fst (mem_live s))"
    and ?ts = "(mem_threads s)[t := thread_memory_new]"
  have k: "kept_all ?ts + kept ?m = kept_all (mem_threads s)"
    using sum_list_upd [OF True, of "\<lambda>t. kept (reusable_memory t)" thread_memory_new] by (simp add: kept_all_def kept_new)
  have "kept ?m \<subseteq># mset_set (dom ?h)" unfolding f(2) [symmetric] k [symmetric] by simp
  then obtain h where h: "delete_all ?m ?h = Inr h" "finite (dom h)" "mset_set (dom ?h) = kept ?m + mset_set (dom h)"
      "\<And>q. h q = ?h q \<or> h q = None" using delete_all_correct [OF f(1)] by blast
  have "kept ?m + (?l + kept_all ?ts) = kept ?m + mset_set (dom h)"
    unfolding h(3) [symmetric] f(2) [symmetric] k [symmetric] by (simp only: ac_simps)
  then have e: "?l + kept_all ?ts = mset_set (dom h)" by (rule add_left_imp_eq)
  have same: "h q = ?h q" if "q \<in># ?l + kept_all ?ts" for q
    using that h(2) h(4) [of q] unfolding e by auto
  have "counted h 0 q" if "q \<in># kept_all ?ts" for q
    using same [of q] f(4) [of q] counted_same that unfolding k [symmetric] by simp
  moreover have "counted h a q \<and> q mod b = 0" if i: "(q, a, b) \<in> set (mem_live s)" for q a b
  proof -
    have "q \<in># ?l" using i by force
    then show ?thesis using same [of q] counted_same [OF f(5) [OF i]] f(6) [OF i] by simp
  qed
  moreover have "\<forall>t \<in> set ?ts. length (reusable_memory t) = max_mem_index"
    using f(3) set_update_subset_insert [of "mem_threads s" t thread_memory_new] by (auto simp: thread_memory_new_def)
  ultimately have "mem_inv (s\<lparr>mem_threads := ?ts, mem_heap := h, mem_live := mem_live s\<rparr>)"
    using h(2) e by (intro mem_invI) simp_all
  then show ?thesis using True h(1) by (simp add: thread_memory_destroy_def)
qed

lemma client_write_inv:
  assumes inv: "mem_inv s"
  shows "\<exists>s'. mem_step al (ClientWrite k i x) s = Inr s' \<and> mem_inv s'"
proof (cases "k < length (mem_live s) \<and> i < fst (snd (mem_live s ! k))")
  case False
  then show ?thesis using inv by (auto simp: case_prod_beta)
next
  case True
  note f = mem_inv_ops [OF inv]
  obtain p n align where k: "mem_live s ! k = (p, n, align)" by (metis prod_cases3)
  let ?h = "mem_heap s" and ?l = "mset (map fst (mem_live s))"
  have live: "(p, n, align) \<in> set (mem_live s)" using True k by (metis nth_mem)
  obtain b where b: "?h p = Some b" "n < length b" "chunk_size * unat (b ! n) < length b"
    using f(5) [OF live] unfolding counted_def by blast
  let ?h' = "?h(p \<mapsto> b[i := x])"
  have p: "count ?l p + count (kept_all (mem_threads s)) p = 1" using blocks_once [OF f(2,1), of p] b(1) by auto
  have "p \<in># ?l" using live by force
  then have "0 < count ?l p" unfolding count_greater_zero_iff .
  then have once: "count ?l p = 1" "count (kept_all (mem_threads s)) p = 0" using p by linarith+
  have "counted ?h' 0 q" if "q \<in># kept_all (mem_threads s)" for q
  proof -
    have "q \<noteq> p" using that once(2) by (metis not_in_iff)
    then show ?thesis using f(4) [OF that] by (simp add: counted_def)
  qed
  moreover have "counted ?h' a q \<and> q mod c = 0" if j: "(q, a, c) \<in> set (mem_live s)" for q a c
  proof (cases "(q, a, c) = (p, n, align)")
    case True
    then show ?thesis using b \<open>k < length (mem_live s) \<and> i < fst (snd (mem_live s ! k))\<close> k f(6) [OF live]
      by (simp add: counted_def)
  next
    case False
    have "q \<noteq> p"
    proof
      assume "q = p"
      then have "{#(q, a, c), (p, n, align)#} \<subseteq># mset (mem_live s)"
        using False live j by (auto simp: insert_subset_eq_iff in_diff_count)
      then have "{#q, p#} \<subseteq># ?l" using image_mset_subseteq_mono [of _ _ fst] by fastforce
      then have "count {#q, p#} p \<le> count ?l p" by (rule mset_subset_eq_count)
      then show False using \<open>q = p\<close> once(1) by simp
    qed
    then show ?thesis using f(5,6) [OF j] by (simp add: counted_def)
  qed
  moreover have "dom ?h' = dom ?h" using b(1) by auto
  ultimately have "mem_inv (s\<lparr>mem_threads := mem_threads s, mem_heap := ?h', mem_live := mem_live s\<rparr>)"
    using f(1-3) by (intro mem_invI) simp_all
  then show ?thesis using True k b by (auto simp: heap_store_def)
qed

fun mem_run :: "allocator \<Rightarrow> mem_call list \<Rightarrow> 'x memory_system \<Rightarrow> 'x memory_system res" where
  "mem_run al [] s = Inr s"
| "mem_run al (c # cs) s = rbind (mem_step al c s) (mem_run al cs)"

lemma mem_run_inv:
  assumes al: "allocator_ok al"
  shows "mem_inv s \<Longrightarrow> mem_run al cs s = Inl BadAlloc \<or> (\<exists>s'. mem_run al cs s = Inr s' \<and> mem_inv s')"
proof (induction cs arbitrary: s)
  case (Cons c cs)
  have "mem_step al c s = Inl BadAlloc \<or> (\<exists>s'. mem_step al c s = Inr s' \<and> mem_inv s')"
    using allocate_inv [OF Cons.prems al] deallocate_inv [OF Cons.prems] client_write_inv [OF Cons.prems]
      thread_ends_inv [OF Cons.prems] by (cases c) blast+
  then show ?case using Cons.IH by fastforce
qed simp


text \<open>An allocator that has a hundred places and takes the first free one.\<close>

definition demo_allocator :: allocator where
  "demo_allocator h align n =
     map_option (\<lambda>p. (p, replicate n 0)) (find (\<lambda>p. h p = None) (map (\<lambda>k. k * align) [1..<100]))"

lemma demo_allocator_ok: "allocator_ok demo_allocator"
  by (auto simp: allocator_ok_def demo_allocator_def find_Some_iff)

definition demo_mem_calls :: "mem_call list" where
  "demo_mem_calls = [Allocate (Some 0) DefaultTag 10 8, ClientWrite 0 9 255, Deallocate (Some 0) DefaultTag 0,
     Allocate (Some 0) DefaultTag 6 8, Allocate (Some 1) DefaultTag 40 16, Deallocate None DefaultTag 1]"

lemma demo_mem_run: "is_ok (mem_run demo_allocator demo_mem_calls (memory_system_new 2 :: unit memory_system))"
  by code_simp


end
