(* ===== verification/DynamicBuffers.thy ===== *)
theory DynamicBuffers
  imports Prelude
begin

text \<open>
  Buffers that grow as data is read: \<open>dynamic_string_buffer\<close> of \<^verbatim>\<open>asio/buffer.hpp\<close> over a string, and
  \<open>basic_streambuf\<close> of \<^verbatim>\<open>asio/basic_streambuf.hpp\<close> with a get and a put area in one vector. Pointers into
  the vector are offsets. A template parameter \<open>DynamicBuffer_v1\<close> is a record of its operations, and the
  locale \<open>growing_buffer\<close> states what algorithms over it rely on.
\<close>

section \<open>Strings\<close>

text \<open>\<open>size_\<close> has its greatest value until \<open>prepare\<close> makes the buffer one of the first kind.\<close>

record dynamic_string =
  ds_string :: "u8 list"
  ds_size :: nat
  ds_max_size :: nat

definition dynamic_string_new :: "u8 list \<Rightarrow> nat \<Rightarrow> dynamic_string" where
  "dynamic_string_new s maximum_size = \<lparr>ds_string = s, ds_size = SIZE_T_MAX, ds_max_size = maximum_size\<rparr>"

definition dynamic_size :: "dynamic_string \<Rightarrow> nat" where
  "dynamic_size b = (if ds_size b \<noteq> SIZE_T_MAX then ds_size b else min (length (ds_string b)) (ds_max_size b))"

text \<open>The capacity of a string is a function \<open>cap\<close>, at least its length.\<close>

definition dynamic_capacity :: "(u8 list \<Rightarrow> nat) \<Rightarrow> dynamic_string \<Rightarrow> nat" where
  "dynamic_capacity cap b = min (cap (ds_string b)) (ds_max_size b)"

definition dynamic_data :: "dynamic_string \<Rightarrow> u8 list" where
  "dynamic_data b = take (ds_size b) (ds_string b)"

definition dynamic_data_at :: "nat \<Rightarrow> nat \<Rightarrow> dynamic_string \<Rightarrow> u8 list" where
  "dynamic_data_at pos n b = take n (drop pos (take (ds_max_size b) (ds_string b)))"

definition dynamic_prepare :: "nat \<Rightarrow> dynamic_string \<Rightarrow> dynamic_string res" where
  "dynamic_prepare n b =
     (if dynamic_size b > ds_max_size b \<or> ds_max_size b - dynamic_size b < n then Inl LengthError
      else
        let b = (if ds_size b = SIZE_T_MAX then b\<lparr>ds_size := length (ds_string b)\<rparr> else b)
        in Inr (b\<lparr>ds_string := vec_resize (ds_size b + n) (ds_string b)\<rparr>))"

text \<open>Bytes that a read puts at the front of the prepared part, and those put at a position.\<close>

definition dynamic_fill :: "u8 list \<Rightarrow> dynamic_string \<Rightarrow> dynamic_string" where
  "dynamic_fill xs b = b\<lparr>ds_string := poke (ds_size b) xs (ds_string b)\<rparr>"

definition dynamic_fill_at :: "nat \<Rightarrow> u8 list \<Rightarrow> dynamic_string \<Rightarrow> dynamic_string" where
  "dynamic_fill_at pos xs b = b\<lparr>ds_string := poke pos xs (ds_string b)\<rparr>"

definition dynamic_commit :: "nat \<Rightarrow> dynamic_string \<Rightarrow> dynamic_string" where
  "dynamic_commit n b =
     (let b = b\<lparr>ds_size := ds_size b + min n (length (ds_string b) - ds_size b)\<rparr>
      in b\<lparr>ds_string := vec_resize (ds_size b) (ds_string b)\<rparr>)"

definition dynamic_grow :: "nat \<Rightarrow> dynamic_string \<Rightarrow> dynamic_string res" where
  "dynamic_grow n b =
     (if dynamic_size b > ds_max_size b \<or> ds_max_size b - dynamic_size b < n then Inl LengthError
      else Inr (b\<lparr>ds_string := vec_resize (dynamic_size b + n) (ds_string b)\<rparr>))"

definition dynamic_shrink :: "nat \<Rightarrow> dynamic_string \<Rightarrow> dynamic_string" where
  "dynamic_shrink n b =
     b\<lparr>ds_string := vec_resize (if n > dynamic_size b then 0 else dynamic_size b - n) (ds_string b)\<rparr>"

definition dynamic_consume :: "nat \<Rightarrow> dynamic_string \<Rightarrow> dynamic_string" where
  "dynamic_consume n b =
     (if ds_size b \<noteq> SIZE_T_MAX
      then
        let consume_length = min n (ds_size b)
        in b\<lparr>ds_string := drop consume_length (ds_string b), ds_size := ds_size b - consume_length\<rparr>
      else b\<lparr>ds_string := drop n (ds_string b)\<rparr>)"

section \<open>Stream buffers\<close>

text \<open>\<open>eback\<close> is always the start of the vector, and the put area starts where it was set last.\<close>

record streambuf =
  sb_max_size :: nat
  sb_buffer :: "u8 list"
  sb_gptr :: nat
  sb_egptr :: nat
  sb_pptr :: nat
  sb_epptr :: nat

definition buffer_delta :: nat where "buffer_delta = 128"

definition streambuf_new :: "nat \<Rightarrow> streambuf" where
  "streambuf_new maximum_size =
     (let pend = min maximum_size buffer_delta
      in \<lparr>sb_max_size = maximum_size, sb_buffer = replicate (max pend 1) 0, sb_gptr = 0, sb_egptr = 0, sb_pptr = 0,
          sb_epptr = pend\<rparr>)"

definition sb_size :: "streambuf \<Rightarrow> nat" where
  "sb_size s = sb_pptr s - sb_gptr s"

definition sb_data :: "streambuf \<Rightarrow> u8 list" where
  "sb_data s = take (sb_pptr s - sb_gptr s) (drop (sb_gptr s) (sb_buffer s))"

definition sb_capacity :: "(u8 list \<Rightarrow> nat) \<Rightarrow> streambuf \<Rightarrow> nat" where
  "sb_capacity cap s = cap (sb_buffer s)"

text \<open>\<open>pbump\<close> and \<open>gbump\<close> of the standard library take an \<open>int\<close>, to which the code converts a \<open>size_t\<close>.\<close>

definition as_int :: "nat \<Rightarrow> int" where
  "as_int n = sint (of_nat n :: 32 word)"

definition pbump :: "int \<Rightarrow> streambuf \<Rightarrow> streambuf" where
  "pbump n s = s\<lparr>sb_pptr := nat (int (sb_pptr s) + n)\<rparr>"

definition gbump :: "int \<Rightarrow> streambuf \<Rightarrow> streambuf" where
  "gbump n s = s\<lparr>sb_gptr := nat (int (sb_gptr s) + n)\<rparr>"

text \<open>\<open>reserve\<close> gives the exception it throws, if it does, with the state it leaves.\<close>

definition sb_reserve :: "nat \<Rightarrow> streambuf \<Rightarrow> fault option \<times> streambuf" where
  "sb_reserve n s =
     (let gnext = sb_gptr s; pnext = sb_pptr s; pend = sb_epptr s
      in if n \<le> pend - pnext then (None, s)
         else
           let (pnext, s) =
                 (if gnext > 0
                  then let pnext = pnext - gnext
                       in (pnext, s\<lparr>sb_buffer := take pnext (drop gnext (sb_buffer s)) @ drop pnext (sb_buffer s)\<rparr>)
                  else (pnext, s));
               (thrown, pend, s) =
                 (if n > pend - pnext
                  then
                    if n \<le> sb_max_size s \<and> pnext \<le> sb_max_size s - n
                    then (None, pnext + n, s\<lparr>sb_buffer := vec_resize (max (pnext + n) 1) (sb_buffer s)\<rparr>)
                    else (Some LengthError, pend, s)
                  else (None, pend, s))
           in case thrown of
                Some e \<Rightarrow> (Some e, s)
              | None \<Rightarrow> (None, s\<lparr>sb_gptr := 0, sb_egptr := pnext, sb_pptr := pnext, sb_epptr := pend\<rparr>))"

definition sb_prepare :: "nat \<Rightarrow> streambuf \<Rightarrow> fault option \<times> streambuf" where
  "sb_prepare n s = sb_reserve n s"

definition sb_fill :: "u8 list \<Rightarrow> streambuf \<Rightarrow> streambuf" where
  "sb_fill xs s = s\<lparr>sb_buffer := poke (sb_pptr s) xs (sb_buffer s)\<rparr>"

definition sb_commit :: "nat \<Rightarrow> streambuf \<Rightarrow> streambuf" where
  "sb_commit n s =
     (let n = min n (sb_epptr s - sb_pptr s);
          s = pbump (as_int n) s
      in s\<lparr>sb_egptr := sb_pptr s\<rparr>)"

definition sb_consume :: "nat \<Rightarrow> streambuf \<Rightarrow> streambuf" where
  "sb_consume n s =
     (let s = (if sb_egptr s < sb_pptr s then s\<lparr>sb_egptr := sb_pptr s\<rparr> else s);
          n = (if sb_gptr s + n > sb_pptr s then sb_pptr s - sb_gptr s else n)
      in gbump (as_int n) s)"

definition sb_underflow :: "streambuf \<Rightarrow> u8 option \<times> streambuf" where
  "sb_underflow s =
     (if sb_gptr s < sb_pptr s then (Some (sb_buffer s ! sb_gptr s), s\<lparr>sb_egptr := sb_pptr s\<rparr>) else (None, s))"

text \<open>\<open>overflow\<close> of a character; the end-of-file value, which does nothing, is \<open>None\<close>.\<close>

definition sb_overflow :: "u8 option \<Rightarrow> streambuf \<Rightarrow> fault option \<times> streambuf" where
  "sb_overflow c s =
     (case c of
        None \<Rightarrow> (None, s)
      | Some c \<Rightarrow>
          let (thrown, s) =
            (if sb_pptr s = sb_epptr s
             then
               let buffer_size = sb_pptr s - sb_gptr s
               in if buffer_size < sb_max_size s \<and> sb_max_size s - buffer_size < buffer_delta
                  then sb_reserve (sb_max_size s - buffer_size) s
                  else sb_reserve buffer_delta s
             else (None, s))
          in case thrown of
               Some e \<Rightarrow> (Some e, s)
             | None \<Rightarrow> (None, pbump 1 (s\<lparr>sb_buffer := (sb_buffer s)[sb_pptr s := c]\<rparr>)))"

section \<open>The interface\<close>

record 'b dynamic_buffer =
  db_data :: "'b \<Rightarrow> u8 list"
  db_size :: "'b \<Rightarrow> nat"
  db_max_size :: "'b \<Rightarrow> nat"
  db_capacity :: "'b \<Rightarrow> nat"
  db_prepare :: "nat \<Rightarrow> 'b \<Rightarrow> 'b res"
  db_fill :: "u8 list \<Rightarrow> 'b \<Rightarrow> 'b"
  db_commit :: "nat \<Rightarrow> 'b \<Rightarrow> 'b"

definition string_ops :: "(u8 list \<Rightarrow> nat) \<Rightarrow> dynamic_string dynamic_buffer" where
  "string_ops cap = \<lparr>db_data = dynamic_data, db_size = dynamic_size, db_max_size = ds_max_size,
     db_capacity = dynamic_capacity cap, db_prepare = dynamic_prepare, db_fill = dynamic_fill, db_commit = dynamic_commit\<rparr>"

definition streambuf_ops :: "(u8 list \<Rightarrow> nat) \<Rightarrow> streambuf dynamic_buffer" where
  "streambuf_ops cap = \<lparr>db_data = sb_data, db_size = sb_size, db_max_size = sb_max_size,
     db_capacity = sb_capacity cap, db_prepare = (\<lambda>n s. case sb_prepare n s of (None, s) \<Rightarrow> Inr s | (Some e, s) \<Rightarrow> Inl e),
     db_fill = sb_fill, db_commit = sb_commit\<rparr>"

text \<open>
  What a read relies on: preparing room that is left succeeds, and the bytes put there and committed come
  behind the data. A read asks for less than 2 GiB at a time.
\<close>

locale growing_buffer =
  fixes ops :: "'b dynamic_buffer" and inv :: "'b \<Rightarrow> bool"
  assumes size_data: "inv b \<Longrightarrow> db_size ops b = length (db_data ops b)"
    and size_max: "inv b \<Longrightarrow> db_size ops b \<le> db_max_size ops b"
    and fill_correct: "inv b \<Longrightarrow> db_size ops b + n \<le> db_max_size ops b \<Longrightarrow> n < 2 ^ 31 \<Longrightarrow> length xs \<le> n \<Longrightarrow>
      \<exists>b'. db_prepare ops n b = Inr b' \<and> inv (db_commit ops (length xs) (db_fill ops xs b')) \<and>
        db_data ops (db_commit ops (length xs) (db_fill ops xs b')) = db_data ops b @ xs \<and>
        db_max_size ops (db_commit ops (length xs) (db_fill ops xs b')) = db_max_size ops b"

section \<open>Strings provide it\<close>

definition string_inv :: "dynamic_string \<Rightarrow> bool" where
  "string_inv b \<longleftrightarrow> length (ds_string b) \<le> ds_max_size b \<and> ds_max_size b < SIZE_T_MAX \<and>
     (ds_size b = SIZE_T_MAX \<or> ds_size b = length (ds_string b))"

lemma string_inv_simps:
  assumes "string_inv b"
  shows "dynamic_size b = length (ds_string b)" "dynamic_data b = ds_string b"
  using assms by (auto simp: string_inv_def dynamic_size_def dynamic_data_def)

lemma vec_resize_more: "length v \<le> n \<Longrightarrow> vec_resize n v = v @ replicate (n - length v) 0"
  by (simp add: vec_resize_def)

lemma string_fill:
  assumes inv: "string_inv b" and n: "length (ds_string b) + n \<le> ds_max_size b" "length xs \<le> n"
  shows "\<exists>b'. dynamic_prepare n b = Inr b' \<and>
    dynamic_commit (length xs) (dynamic_fill xs b') = b\<lparr>ds_string := ds_string b @ xs, ds_size := length (ds_string b @ xs)\<rparr>"
proof -
  let ?s = "ds_string b"
  let ?b = "b\<lparr>ds_size := length ?s, ds_string := ?s @ replicate n 0\<rparr>"
  have "dynamic_prepare n b = Inr ?b"
    using n inv string_inv_simps(1) [OF inv] by (auto simp: dynamic_prepare_def string_inv_def Let_def vec_resize_more)
  moreover have "dynamic_fill xs ?b = ?b\<lparr>ds_string := ?s @ xs @ replicate (n - length xs) 0\<rparr>"
    using n by (simp add: dynamic_fill_def poke_def drop_replicate)
  then have "dynamic_commit (length xs) (dynamic_fill xs ?b) = b\<lparr>ds_string := ?s @ xs, ds_size := length (?s @ xs)\<rparr>"
    using n by (simp add: dynamic_commit_def Let_def vec_resize_def min_absorb1)
  ultimately show ?thesis by blast
qed

interpretation strings: growing_buffer "string_ops cap" string_inv for cap
proof
  fix b :: dynamic_string and n and xs :: "u8 list"
  assume b: "string_inv b"
  show "db_size (string_ops cap) b = length (db_data (string_ops cap) b)"
    using string_inv_simps [OF b] by (simp add: string_ops_def)
  show "db_size (string_ops cap) b \<le> db_max_size (string_ops cap) b"
    using string_inv_simps [OF b] b by (simp add: string_ops_def string_inv_def)
  assume n: "db_size (string_ops cap) b + n \<le> db_max_size (string_ops cap) b" "n < 2 ^ 31" "length xs \<le> n"
  then have "length (ds_string b) + n \<le> ds_max_size b" using string_inv_simps [OF b] by (simp add: string_ops_def)
  from string_fill [OF b this n(3)] show "\<exists>b'. db_prepare (string_ops cap) n b = Inr b' \<and>
      string_inv (db_commit (string_ops cap) (length xs) (db_fill (string_ops cap) xs b')) \<and>
      db_data (string_ops cap) (db_commit (string_ops cap) (length xs) (db_fill (string_ops cap) xs b')) =
        db_data (string_ops cap) b @ xs \<and>
      db_max_size (string_ops cap) (db_commit (string_ops cap) (length xs) (db_fill (string_ops cap) xs b')) =
        db_max_size (string_ops cap) b"
    using b \<open>length (ds_string b) + n \<le> ds_max_size b\<close> n(3) string_inv_simps [OF b]
    by (auto simp: string_ops_def string_inv_def dynamic_data_def)
qed

text \<open>
  A buffer of the second kind is grown, read into from a position and shrunk; the position and the number of
  bytes are local variables of the algorithm, here kept with the buffer.
\<close>

definition string_ops_v2 :: "(u8 list \<Rightarrow> nat) \<Rightarrow> (dynamic_string \<times> nat \<times> nat) dynamic_buffer" where
  "string_ops_v2 cap = \<lparr>db_data = (\<lambda>(b, pos, n). dynamic_data_at 0 (dynamic_size b) b),
     db_size = (\<lambda>(b, pos, n). dynamic_size b), db_max_size = (\<lambda>(b, pos, n). ds_max_size b),
     db_capacity = (\<lambda>(b, pos, n). dynamic_capacity cap b),
     db_prepare = (\<lambda>n (b, p, k). let pos = dynamic_size b in rbind (dynamic_grow n b) (\<lambda>b. Inr (b, pos, n))),
     db_fill = (\<lambda>xs (b, pos, n). (dynamic_fill_at pos xs b, pos, n)),
     db_commit = (\<lambda>k (b, pos, n). (dynamic_shrink (n - k) b, pos, n))\<rparr>"

definition string_inv_v2 :: "dynamic_string \<times> nat \<times> nat \<Rightarrow> bool" where
  "string_inv_v2 x \<longleftrightarrow> (case x of (b, pos, n) \<Rightarrow> length (ds_string b) \<le> ds_max_size b \<and> ds_size b = SIZE_T_MAX)"

lemma string_fill_v2:
  assumes b: "length (ds_string b) \<le> ds_max_size b" "ds_size b = SIZE_T_MAX"
    and n: "length (ds_string b) + n \<le> ds_max_size b" "length xs \<le> n"
  shows "\<exists>b'. dynamic_grow n b = Inr b' \<and>
    dynamic_shrink (n - length xs) (dynamic_fill_at (dynamic_size b) xs b') = b\<lparr>ds_string := ds_string b @ xs\<rparr>"
proof -
  let ?s = "ds_string b"
  have d: "dynamic_size b = length ?s" using b by (simp add: dynamic_size_def)
  have "dynamic_grow n b = Inr (b\<lparr>ds_string := ?s @ replicate n 0\<rparr>)"
    using n b by (auto simp: dynamic_grow_def d vec_resize_more)
  moreover have "dynamic_fill_at (dynamic_size b) xs (b\<lparr>ds_string := ?s @ replicate n 0\<rparr>) =
      b\<lparr>ds_string := ?s @ xs @ replicate (n - length xs) 0\<rparr>"
    using n by (simp add: dynamic_fill_at_def poke_def d drop_replicate)
  moreover have "dynamic_shrink (n - length xs) (b\<lparr>ds_string := ?s @ xs @ replicate (n - length xs) 0\<rparr>) =
      b\<lparr>ds_string := ?s @ xs\<rparr>"
    using n b by (simp add: dynamic_shrink_def dynamic_size_def min_absorb1 vec_resize_def)
  ultimately show ?thesis by simp
qed

interpretation strings_v2: growing_buffer "string_ops_v2 cap" string_inv_v2 for cap
proof
  fix x :: "dynamic_string \<times> nat \<times> nat" and n and xs :: "u8 list"
  assume inv: "string_inv_v2 x"
  obtain b pos k where x: "x = (b, pos, k)" by (metis prod_cases3)
  have b: "length (ds_string b) \<le> ds_max_size b" "ds_size b = SIZE_T_MAX" using inv by (simp_all add: x string_inv_v2_def)
  have d: "dynamic_size b = length (ds_string b)" "dynamic_data_at 0 (length (ds_string b)) b = ds_string b"
    using b by (simp_all add: dynamic_size_def dynamic_data_at_def)
  show "db_size (string_ops_v2 cap) x = length (db_data (string_ops_v2 cap) x)"
    "db_size (string_ops_v2 cap) x \<le> db_max_size (string_ops_v2 cap) x"
    using b d by (simp_all add: string_ops_v2_def x)
  assume n: "db_size (string_ops_v2 cap) x + n \<le> db_max_size (string_ops_v2 cap) x" "length xs \<le> n"
  then have "length (ds_string b) + n \<le> ds_max_size b" by (simp add: string_ops_v2_def x d)
  from string_fill_v2 [OF b this n(2)] obtain b' where b': "dynamic_grow n b = Inr b'"
    "dynamic_shrink (n - length xs) (dynamic_fill_at (dynamic_size b) xs b') = b\<lparr>ds_string := ds_string b @ xs\<rparr>" by blast
  show "\<exists>b'. db_prepare (string_ops_v2 cap) n x = Inr b' \<and>
      string_inv_v2 (db_commit (string_ops_v2 cap) (length xs) (db_fill (string_ops_v2 cap) xs b')) \<and>
      db_data (string_ops_v2 cap) (db_commit (string_ops_v2 cap) (length xs) (db_fill (string_ops_v2 cap) xs b')) =
        db_data (string_ops_v2 cap) x @ xs \<and>
      db_max_size (string_ops_v2 cap) (db_commit (string_ops_v2 cap) (length xs) (db_fill (string_ops_v2 cap) xs b')) =
        db_max_size (string_ops_v2 cap) x"
    using b b' d n(2) \<open>length (ds_string b) + n \<le> ds_max_size b\<close>
    by (intro exI [of _ "(b', dynamic_size b, n)"])
      (simp add: string_ops_v2_def string_inv_v2_def x dynamic_size_def dynamic_data_at_def)
qed

section \<open>Stream buffers provide it\<close>

definition sb_inv :: "streambuf \<Rightarrow> bool" where
  "sb_inv s \<longleftrightarrow> sb_gptr s \<le> sb_pptr s \<and> sb_pptr s \<le> sb_epptr s \<and> sb_epptr s \<le> sb_max_size s \<and>
     sb_epptr s \<le> length (sb_buffer s) \<and> sb_egptr s \<le> sb_pptr s \<and> sb_buffer s \<noteq> []"

lemma sb_inv_new: "sb_inv (streambuf_new n)" "sb_data (streambuf_new n) = []"
  by (simp_all add: sb_inv_def streambuf_new_def sb_data_def Let_def)

lemma sb_size_data: "sb_inv s \<Longrightarrow> sb_size s = length (sb_data s)"
  by (auto simp: sb_inv_def sb_size_def sb_data_def min_def)

lemma as_int_small: "n < 2 ^ 31 \<Longrightarrow> as_int n = int n"
  by (simp add: as_int_def signed_of_nat signed_take_bit_int_eq_self)

lemma take_vec_resize: "z \<le> m \<Longrightarrow> z \<le> length v \<Longrightarrow> take z (vec_resize m v) = take z v"
  by (simp add: vec_resize_def min_absorb1)

text \<open>The state after the shift of the data to the start of the vector, before the positions are set.\<close>

definition shifted :: "streambuf \<Rightarrow> streambuf" where
  "shifted s = s\<lparr>sb_buffer := sb_data s @ drop (sb_size s) (sb_buffer s)\<rparr>"

lemma sb_inv_facts:
  assumes "sb_inv s"
  shows "sb_gptr s \<le> sb_pptr s" "sb_pptr s \<le> sb_epptr s" "sb_epptr s \<le> length (sb_buffer s)" "sb_epptr s \<le> sb_max_size s"
    "sb_buffer s \<noteq> []" "sb_size s \<le> sb_epptr s" "length (sb_data s) = sb_size s" "length (sb_buffer (shifted s)) = length (sb_buffer s)"
  using assms by (auto simp: sb_inv_def sb_size_def sb_data_def shifted_def min_def)

lemma sb_reserve_eq:
  assumes inv: "sb_inv s"
  shows "sb_reserve n s =
    (if n \<le> sb_epptr s - sb_pptr s then (None, s)
     else if n \<le> sb_epptr s - sb_size s
     then (None, (shifted s)\<lparr>sb_gptr := 0, sb_egptr := sb_size s, sb_pptr := sb_size s\<rparr>)
     else if sb_size s + n \<le> sb_max_size s
     then (None, (shifted s)\<lparr>sb_buffer := vec_resize (max (sb_size s + n) 1) (sb_buffer (shifted s)), sb_gptr := 0,
       sb_egptr := sb_size s, sb_pptr := sb_size s, sb_epptr := sb_size s + n\<rparr>)
     else (Some LengthError, shifted s))"
proof -
  have "(if sb_gptr s > 0 then let pnext = sb_pptr s - sb_gptr s
            in (pnext, s\<lparr>sb_buffer := take pnext (drop (sb_gptr s) (sb_buffer s)) @ drop pnext (sb_buffer s)\<rparr>)
          else (sb_pptr s, s)) = (sb_size s, shifted s)"
    by (simp add: sb_size_def shifted_def sb_data_def Let_def)
  moreover have "sb_epptr (shifted s) = sb_epptr s" "sb_max_size (shifted s) = sb_max_size s" by (simp_all add: shifted_def)
  moreover have "n \<le> sb_max_size s \<and> sb_size s \<le> sb_max_size s - n \<longleftrightarrow> sb_size s + n \<le> sb_max_size s"
    if "\<not> n \<le> sb_epptr s - sb_pptr s" using that by auto
  ultimately show ?thesis by (simp add: sb_reserve_def Let_def)
qed

lemma sb_reserve_correct:
  assumes inv: "sb_inv s" and n: "sb_size s + n \<le> sb_max_size s"
  shows "\<exists>s'. sb_reserve n s = (None, s') \<and> sb_inv s' \<and> sb_data s' = sb_data s \<and> sb_pptr s' + n \<le> sb_epptr s' \<and>
    sb_max_size s' = sb_max_size s"
proof -
  note i = sb_inv_facts [OF inv]
  note e = sb_reserve_eq [OF inv, of n]
  have front: "take (sb_size s) (sb_buffer (shifted s)) = sb_data s" using i(7) by (simp add: shifted_def)
  consider "n \<le> sb_epptr s - sb_pptr s" | "\<not> n \<le> sb_epptr s - sb_pptr s" "n \<le> sb_epptr s - sb_size s"
    | "\<not> n \<le> sb_epptr s - sb_pptr s" "\<not> n \<le> sb_epptr s - sb_size s" by blast
  then show ?thesis
  proof cases
    case 1
    then show ?thesis using inv i e by auto
  next
    case 2
    let ?s = "(shifted s)\<lparr>sb_gptr := 0, sb_egptr := sb_size s, sb_pptr := sb_size s\<rparr>"
    have "sb_data ?s = take (sb_size s) (sb_buffer (shifted s))" by (simp add: sb_data_def)
    then have "sb_data ?s = sb_data s" using front by simp
    moreover have "sb_buffer (shifted s) \<noteq> []" using i(5,8) by (metis length_0_conv)
    then have "sb_inv ?s" using i by (simp add: sb_inv_def) (simp add: shifted_def)
    ultimately show ?thesis using 2 e i(6) by (intro exI [of _ ?s]) (simp add: shifted_def)
  next
    case 3
    let ?b = "vec_resize (max (sb_size s + n) 1) (sb_buffer (shifted s))"
    let ?s = "(shifted s)\<lparr>sb_buffer := ?b, sb_gptr := 0, sb_egptr := sb_size s, sb_pptr := sb_size s, sb_epptr := sb_size s + n\<rparr>"
    have "take (sb_size s) ?b = take (sb_size s) (sb_buffer (shifted s))" using i by (intro take_vec_resize) auto
    moreover have "sb_data ?s = take (sb_size s) ?b" by (simp add: sb_data_def)
    ultimately have d: "sb_data ?s = sb_data s" using front by simp
    have "length ?b = max (sb_size s + n) 1" by (rule length_vec_resize)
    then have "sb_inv ?s" unfolding sb_inv_def using n by (auto simp flip: length_greater_0_conv simp: shifted_def)
    then show ?thesis using 3 e n d by (intro exI [of _ ?s]) (simp add: shifted_def)
  qed
qed

lemma sb_fill_commit:
  assumes inv: "sb_inv s" and n: "sb_pptr s + n \<le> sb_epptr s" "length xs \<le> n" "n < 2 ^ 31"
  shows "sb_inv (sb_commit (length xs) (sb_fill xs s))" "sb_data (sb_commit (length xs) (sb_fill xs s)) = sb_data s @ xs"
    "sb_max_size (sb_commit (length xs) (sb_fill xs s)) = sb_max_size s"
proof -
  have i: "sb_gptr s \<le> sb_pptr s" "sb_pptr s \<le> sb_epptr s" "sb_epptr s \<le> length (sb_buffer s)" "sb_epptr s \<le> sb_max_size s"
    "sb_buffer s \<noteq> []" using inv by (simp_all add: sb_inv_def)
  let ?b = "poke (sb_pptr s) xs (sb_buffer s)"
  have l: "length ?b = length (sb_buffer s)" using i n by (intro length_poke) simp
  have c: "sb_commit (length xs) (sb_fill xs s) =
      s\<lparr>sb_buffer := ?b, sb_pptr := sb_pptr s + length xs, sb_egptr := sb_pptr s + length xs\<rparr>"
    using n by (simp add: sb_commit_def sb_fill_def pbump_def as_int_small Let_def min_absorb1 flip: of_nat_add)
  have "?b \<noteq> []" using l i(5) by (metis length_0_conv)
  then show "sb_inv (sb_commit (length xs) (sb_fill xs s))" unfolding c using i n l by (simp add: sb_inv_def)
  have "take (sb_pptr s + length xs - sb_gptr s) (drop (sb_gptr s) ?b) = drop (sb_gptr s) (take (sb_pptr s + length xs) ?b)"
    by (simp add: drop_take)
  also have "take (sb_pptr s + length xs) ?b = take (sb_pptr s) (sb_buffer s) @ xs" using i by (simp add: poke_def)
  finally show "sb_data (sb_commit (length xs) (sb_fill xs s)) = sb_data s @ xs"
    unfolding c using i by (simp add: sb_data_def drop_take)
  show "sb_max_size (sb_commit (length xs) (sb_fill xs s)) = sb_max_size s" unfolding c by simp
qed

interpretation streambufs: growing_buffer "streambuf_ops cap" sb_inv for cap
proof
  fix s :: streambuf and n and xs :: "u8 list"
  assume s: "sb_inv s"
  show "db_size (streambuf_ops cap) s = length (db_data (streambuf_ops cap) s)"
    using sb_size_data [OF s] by (simp add: streambuf_ops_def)
  show "db_size (streambuf_ops cap) s \<le> db_max_size (streambuf_ops cap) s"
    using s by (auto simp: streambuf_ops_def sb_inv_def sb_size_def)
  assume n: "db_size (streambuf_ops cap) s + n \<le> db_max_size (streambuf_ops cap) s" "n < 2 ^ 31" "length xs \<le> n"
  then have "sb_size s + n \<le> sb_max_size s" by (simp add: streambuf_ops_def)
  then obtain s' where "sb_reserve n s = (None, s')" "sb_inv s'" "sb_data s' = sb_data s" "sb_pptr s' + n \<le> sb_epptr s'"
    "sb_max_size s' = sb_max_size s" using sb_reserve_correct [OF s] by blast
  then show "\<exists>b'. db_prepare (streambuf_ops cap) n s = Inr b' \<and>
      sb_inv (db_commit (streambuf_ops cap) (length xs) (db_fill (streambuf_ops cap) xs b')) \<and>
      db_data (streambuf_ops cap) (db_commit (streambuf_ops cap) (length xs) (db_fill (streambuf_ops cap) xs b')) =
        db_data (streambuf_ops cap) s @ xs \<and>
      db_max_size (streambuf_ops cap) (db_commit (streambuf_ops cap) (length xs) (db_fill (streambuf_ops cap) xs b')) =
        db_max_size (streambuf_ops cap) s"
    using sb_fill_commit [of s' n xs] n by (intro exI [of _ s']) (simp add: streambuf_ops_def sb_prepare_def)
qed

lemma as_int_code [code]: "as_int n = (int n + 2147483648) mod 4294967296 - 2147483648"
  by (simp add: as_int_def signed_of_nat signed_take_bit_eq_take_bit_shift take_bit_eq_mod)

section \<open>A stream buffer is a queue of bytes\<close>

text \<open>The calls of a client, and what they give.\<close>

datatype sb_call =
    Write nat "u8 list"
  | Consume nat
  | Put u8
  | Peek

datatype sb_result = Nothing | Character "u8 option" | Throws fault

fun throws :: "sb_result \<Rightarrow> bool" where
  "throws (Throws e) = True"
| "throws r = False"

fun sb_step :: "sb_call \<Rightarrow> streambuf \<Rightarrow> sb_result \<times> streambuf" where
  "sb_step (Write n xs) s =
     (case sb_prepare n s of
        (Some e, s) \<Rightarrow> (Throws e, s)
      | (None, s) \<Rightarrow> (Nothing, sb_commit (length (take n xs)) (sb_fill (take n xs) s)))"
| "sb_step (Consume n) s = (Nothing, sb_consume n s)"
| "sb_step (Put c) s = (case sb_overflow (Some c) s of (Some e, s) \<Rightarrow> (Throws e, s) | (None, s) \<Rightarrow> (Nothing, s))"
| "sb_step Peek s = (let (c, s) = sb_underflow s in (Character c, s))"

text \<open>The same calls on a queue that holds at most \<open>m\<close> bytes.\<close>

fun queue_step :: "nat \<Rightarrow> sb_call \<Rightarrow> u8 list \<Rightarrow> sb_result \<times> u8 list" where
  "queue_step m (Write n xs) q = (if length q + n \<le> m then (Nothing, q @ take n xs) else (Throws LengthError, q))"
| "queue_step m (Consume n) q = (Nothing, drop n q)"
| "queue_step m (Put c) q = (if length q < m then (Nothing, q @ [c]) else (Throws LengthError, q))"
| "queue_step m Peek q = (Character (if q = [] then None else Some (hd q)), q)"

lemma gbump_small: "n < 2 ^ 31 \<Longrightarrow> gbump (as_int n) s = s\<lparr>sb_gptr := sb_gptr s + n\<rparr>"
  by (simp add: gbump_def as_int_small flip: of_nat_add)

lemma sb_consume_correct:
  assumes inv: "sb_inv s" and m: "sb_max_size s < 2 ^ 31"
  shows "sb_inv (sb_consume n s)" "sb_data (sb_consume n s) = drop n (sb_data s)" "sb_max_size (sb_consume n s) = sb_max_size s"
proof -
  note i = sb_inv_facts [OF inv]
  let ?n = "if sb_gptr s + n > sb_pptr s then sb_pptr s - sb_gptr s else n"
  have "?n < 2 ^ 31" using i(1,2,4) m by auto
  then have e: "sb_consume n s =
      (if sb_egptr s < sb_pptr s then s\<lparr>sb_egptr := sb_pptr s\<rparr> else s)\<lparr>sb_gptr := sb_gptr s + ?n\<rparr>"
    by (cases "sb_egptr s < sb_pptr s"; cases "sb_pptr s < sb_gptr s + n") (simp_all add: sb_consume_def Let_def gbump_small)
  show "sb_inv (sb_consume n s)" unfolding e using inv by (auto simp: sb_inv_def)
  show "sb_data (sb_consume n s) = drop n (sb_data s)" unfolding e using i(1)
    by (auto simp: sb_data_def drop_take add.commute)
  show "sb_max_size (sb_consume n s) = sb_max_size s" unfolding e by simp
qed

lemma sb_put_correct:
  assumes inv: "sb_inv s" and room: "sb_size s < sb_max_size s"
  shows "\<exists>s'. sb_overflow (Some c) s = (None, s') \<and> sb_inv s' \<and> sb_data s' = sb_data s @ [c] \<and> sb_max_size s' = sb_max_size s"
proof -
  let ?r = "if sb_pptr s = sb_epptr s
    then let buffer_size = sb_pptr s - sb_gptr s
      in if buffer_size < sb_max_size s \<and> sb_max_size s - buffer_size < buffer_delta
         then sb_reserve (sb_max_size s - buffer_size) s else sb_reserve buffer_delta s
    else (None, s)"
  have "\<exists>s'. ?r = (None, s') \<and> sb_inv s' \<and> sb_data s' = sb_data s \<and> sb_pptr s' + 1 \<le> sb_epptr s' \<and> sb_max_size s' = sb_max_size s"
  proof (cases "sb_pptr s = sb_epptr s")
    case True
    define n where "n = (if sb_max_size s - sb_size s < buffer_delta then sb_max_size s - sb_size s else buffer_delta)"
    have "?r = sb_reserve n s" using True room by (simp add: n_def Let_def sb_size_def)
    moreover have "sb_size s + n \<le> sb_max_size s" "1 \<le> n" using room by (auto simp: n_def buffer_delta_def)
    ultimately show ?thesis using sb_reserve_correct [OF inv, of n] by fastforce
  next
    case False
    then show ?thesis using inv sb_inv_facts(2) [OF inv] by auto
  qed
  then obtain s' where s': "?r = (None, s')" "sb_inv s'" "sb_data s' = sb_data s" "sb_pptr s' + 1 \<le> sb_epptr s'"
      "sb_max_size s' = sb_max_size s" by blast
  have "sb_overflow (Some c) s = (None, pbump 1 (s'\<lparr>sb_buffer := (sb_buffer s')[sb_pptr s' := c]\<rparr>))"
    unfolding sb_overflow_def option.case s'(1) by simp
  moreover have "(sb_buffer s')[sb_pptr s' := c] = poke (sb_pptr s') [c] (sb_buffer s')"
    using s'(4) sb_inv_facts(3) [OF s'(2)] by (simp add: poke_def upd_conv_take_nth_drop)
  ultimately have e: "sb_overflow (Some c) s =
      (None, s'\<lparr>sb_buffer := poke (sb_pptr s') [c] (sb_buffer s'), sb_pptr := sb_pptr s' + 1\<rparr>)"
    by (simp add: pbump_def nat_add_distrib)
  have "sb_inv (s'\<lparr>sb_buffer := poke (sb_pptr s') [c] (sb_buffer s'), sb_pptr := sb_pptr s' + 1\<rparr>)"
    using sb_fill_commit(1) [OF s'(2,4), of "[c]"] s'(4) sb_inv_facts(1-5) [OF s'(2)] s'(2)
    by (auto simp: sb_inv_def poke_def)
  moreover have "Suc 0 \<le> sb_epptr s' - sb_pptr s'" using s'(4) by simp
  then have "sb_data (s'\<lparr>sb_buffer := poke (sb_pptr s') [c] (sb_buffer s'), sb_pptr := sb_pptr s' + 1\<rparr>) = sb_data s @ [c]"
    using sb_fill_commit(2) [OF s'(2,4), of "[c]"] s'(3) \<open>Suc 0 \<le> sb_epptr s' - sb_pptr s'\<close>
    by (simp add: sb_data_def sb_commit_def sb_fill_def pbump_def as_int_small Let_def min_def nat_add_distrib)
  ultimately show ?thesis using e s'(5) by simp
qed

fun sb_run :: "sb_call list \<Rightarrow> streambuf \<Rightarrow> sb_result list \<times> streambuf" where
  "sb_run [] s = ([], s)"
| "sb_run (c # cs) s = (let (r, s) = sb_step c s; (rs, s) = sb_run cs s in (r # rs, s))"

fun queue_run :: "nat \<Rightarrow> sb_call list \<Rightarrow> u8 list \<Rightarrow> sb_result list \<times> u8 list" where
  "queue_run m [] q = ([], q)"
| "queue_run m (c # cs) q = (let (r, q) = queue_step m c q; (rs, q) = queue_run m cs q in (r # rs, q))"

text \<open>A \<open>prepare\<close> or \<open>overflow\<close> beyond the maximum throws, and leaves the data shifted under the old pointers.\<close>

lemma sb_reserve_throws:
  assumes inv: "sb_inv s" and n: "sb_max_size s < sb_size s + n"
  shows "sb_reserve n s = (Some LengthError, shifted s)"
    and "sb_data (shifted s) = take (sb_size s) (drop (sb_gptr s) (sb_data s @ drop (sb_size s) (sb_buffer s)))"
  using sb_reserve_eq [OF inv, of n] n sb_inv_facts [OF inv] by (auto simp: shifted_def sb_data_def sb_size_def)

lemma sb_step_correct:
  assumes inv: "sb_inv s" and m: "sb_max_size s < 2 ^ 31" and r: "sb_step c s = (r, s')"
    and ok: "\<not> throws r"
  shows "queue_step (sb_max_size s) c (sb_data s) = (r, sb_data s') \<and> sb_inv s' \<and> sb_max_size s' = sb_max_size s"
proof (cases c)
  case (Write n xs)
  have "sb_size s + n \<le> sb_max_size s"
    using sb_reserve_throws(1) [OF inv, of n] r ok by (fastforce simp: Write sb_prepare_def not_le)
  from sb_reserve_correct [OF inv this] obtain t where t: "sb_reserve n s = (None, t)" "sb_inv t" "sb_data t = sb_data s"
    "sb_pptr t + n \<le> sb_epptr t" "sb_max_size t = sb_max_size s" by blast
  have "n < 2 ^ 31" using \<open>sb_size s + n \<le> sb_max_size s\<close> m by simp
  then show ?thesis using sb_fill_commit [OF t(2,4), of "take n xs"] t r \<open>sb_size s + n \<le> sb_max_size s\<close> sb_inv_facts(7) [OF inv]
    by (auto simp: Write sb_prepare_def)
next
  case (Consume n)
  then show ?thesis using sb_consume_correct [OF inv m, of n] r by simp
next
  case (Put x)
  have "sb_size s < sb_max_size s"
  proof (rule ccontr)
    assume full: "\<not> sb_size s < sb_max_size s"
    then have "sb_pptr s = sb_epptr s" using sb_inv_facts(1,2,4) [OF inv] by (auto simp: sb_size_def)
    then have "sb_overflow (Some x) s = (Some LengthError, shifted s)"
      using full sb_reserve_throws(1) [OF inv, of buffer_delta] by (simp add: sb_overflow_def Let_def sb_size_def buffer_delta_def)
    then show False using r ok by (auto simp: Put)
  qed
  then show ?thesis using sb_put_correct [OF inv, of x] sb_inv_facts(7) [OF inv] r by (auto simp: Put)
next
  case Peek
  note i = sb_inv_facts [OF inv]
  have "sb_data s = [] \<longleftrightarrow> \<not> sb_gptr s < sb_pptr s" using i(7) by (auto simp: sb_size_def simp flip: length_0_conv)
  moreover have "sb_gptr s < sb_pptr s \<Longrightarrow> hd (sb_data s) = sb_buffer s ! sb_gptr s"
    using i(1-3) by (simp add: sb_data_def hd_drop_conv_nth)
  moreover have "sb_data (s\<lparr>sb_egptr := sb_pptr s\<rparr>) = sb_data s" "sb_inv (s\<lparr>sb_egptr := sb_pptr s\<rparr>)"
    using inv by (simp_all add: sb_data_def sb_inv_def)
  ultimately show ?thesis using r inv by (auto simp: Peek sb_underflow_def split: if_splits)
qed


definition demo_sb_calls :: "sb_call list" where
  "demo_sb_calls = [Write 3 [1, 2, 3], Consume 1, Put 4, Peek]"


text \<open>
  Without room the call throws, but only after it has moved the data over: a stream buffer that
  has been read from keeps its old pointers and loses its first bytes. For every stream buffer whose data
  begins behind the start of its vector, a \<open>prepare\<close> beyond the maximum leaves, of \<open>n\<close> bytes of data of
  which \<open>k\<close> were consumed before, those from the \<open>k\<close>-th on, and behind them old contents of the vector.
\<close>

lemma failed_prepare_loses_data:
  assumes inv: "sb_inv s" and n: "sb_max_size s < sb_size s + n"
  shows "\<exists>s'. sb_prepare n s = (Some LengthError, s') \<and> length (sb_data s') = length (sb_data s) \<and>
    sb_data s' = take (length (sb_data s)) (drop (sb_gptr s) (sb_data s @ drop (length (sb_data s)) (sb_buffer s)))"
proof -
  note i = sb_inv_facts [OF inv]
  have "sb_gptr (shifted s) = sb_gptr s" "sb_pptr (shifted s) = sb_pptr s" by (simp_all add: shifted_def)
  then have "length (sb_data (shifted s)) = sb_size s"
    using i(1-3) unfolding sb_data_def [of "shifted s"] by (simp add: i(8) sb_size_def)
  then show ?thesis using sb_reserve_throws [OF inv n] i(7) by (simp add: sb_prepare_def)
qed

lemma failed_prepare_example:
  "\<exists>s s'. snd (sb_run [Write 4 [1, 2, 3, 4], Consume 1] (streambuf_new 4)) = s \<and> sb_data s = [2, 3, 4] \<and>
    sb_prepare 2 s = (Some LengthError, s') \<and> sb_data s' = [3, 4, 4]"
proof -
  let ?s = "snd (sb_run [Write 4 [1, 2, 3, 4], Consume 1] (streambuf_new 4))"
  have s: "sb_inv ?s" "sb_max_size ?s = 4" "sb_size ?s = 3" "sb_data ?s = [2, 3, 4]" "sb_gptr ?s = 1" "sb_buffer ?s = [1, 2, 3, 4]"
    by code_simp+
  have "sb_max_size ?s < sb_size ?s + 2" using s(2,3) by simp
  from failed_prepare_loses_data [OF s(1) this] show ?thesis using s(4,5,6) by (auto simp: numeral_eq_Suc)
qed

end
