(* ===== verification/ReadUntil.thy ===== *)
theory ReadUntil
  imports DynamicBuffers "HOL-Library.Sublist"
begin

text \<open>
  Reading up to a delimiter, \<^verbatim>\<open>asio/impl/read_until.hpp\<close>: data is read into a growing buffer until a match is
  found, the buffer is full or the stream fails. The search goes on where the last one left off, at a match
  that may still be completed. A stream is a parameter: in a state and for a size it gives the bytes read,
  an error if there was one, and its new state.
\<close>

section \<open>Searching\<close>

text \<open>
  The inner loop of \<open>partial_search\<close> compares the rest of the data with the delimiter; \<open>advanced\<close> tells
  that it has passed the first character of the delimiter. Iterators are offsets into the data searched.
\<close>

datatype comparison = FullMatch | PartialMatch | NoMatch

fun compare_at :: "'a list \<Rightarrow> 'a list \<Rightarrow> bool \<Rightarrow> comparison" where
  "compare_at xs [] advanced = FullMatch"
| "compare_at [] (y # ys) advanced = (if advanced then PartialMatch else NoMatch)"
| "compare_at (x # xs) (y # ys) advanced = (if x \<noteq> y then NoMatch else compare_at xs ys True)"

fun partial_search :: "'a list \<Rightarrow> 'a list \<Rightarrow> nat \<times> bool" where
  "partial_search [] ys = (0, False)"
| "partial_search (x # xs) ys =
     (case compare_at (x # xs) ys False of
        FullMatch \<Rightarrow> (0, True)
      | PartialMatch \<Rightarrow> (0, False)
      | NoMatch \<Rightarrow> let (k, b) = partial_search xs ys in (Suc k, b))"

text \<open>
  What a search of the data from a position tells: the end of the match, or where to search next. The
  delimiter is a character, a string, or a match condition on the characters from the position on.
\<close>

datatype found = Found nat | SearchFrom nat

definition find_char :: "u8 \<Rightarrow> u8 list \<Rightarrow> nat \<Rightarrow> found" where
  "find_char delim data start_pos =
     (let iter = start_pos + length (takeWhile (\<lambda>c. c \<noteq> delim) (drop start_pos data))
      in if iter \<noteq> length data then Found (iter + 1) else SearchFrom (length data))"

definition find_string :: "u8 list \<Rightarrow> u8 list \<Rightarrow> nat \<Rightarrow> found" where
  "find_string delim data start_pos =
     (let (k, full) = partial_search (drop start_pos data) delim; iter = start_pos + k
      in if iter \<noteq> length data
         then if full then Found (iter + length delim) else SearchFrom iter
         else SearchFrom (length data))"

definition find_match :: "(u8 list \<Rightarrow> nat \<times> bool) \<Rightarrow> u8 list \<Rightarrow> nat \<Rightarrow> found" where
  "find_match match_condition data start_pos =
     (let (k, full) = match_condition (drop start_pos data); iter = start_pos + k
      in if full then Found iter else if iter \<noteq> length data then SearchFrom iter else SearchFrom (length data))"

section \<open>The loop\<close>

type_synonym ('w, 'e) stream = "'w \<Rightarrow> nat \<Rightarrow> u8 list \<times> 'e option \<times> 'w"

datatype 'e until_error = NotFound | StreamError 'e | Aborted

definition bytes_to_read :: "'b dynamic_buffer \<Rightarrow> 'b \<Rightarrow> nat" where
  "bytes_to_read ops b =
     min (max 512 (db_capacity ops b - db_size ops b)) (min 65536 (db_max_size ops b - db_size ops b))"

partial_function (option) until_loop :: "'b dynamic_buffer \<Rightarrow> (u8 list \<Rightarrow> nat \<Rightarrow> found) \<Rightarrow> ('w, 'e) stream \<Rightarrow> nat \<Rightarrow> 'b \<Rightarrow> 'w \<Rightarrow>
    (nat \<times> 'e until_error option \<times> 'b \<times> 'w) res option" where
  "until_loop ops search read_some search_position b w =
     (case search (db_data ops b) search_position of
        Found n \<Rightarrow> Some (Inr (n, None, b, w))
      | SearchFrom search_position \<Rightarrow>
          if db_size ops b = db_max_size ops b then Some (Inr (0, Some NotFound, b, w))
          else
            (case db_prepare ops (bytes_to_read ops b) b of
               Inl e \<Rightarrow> Some (Inl e)
             | Inr p \<Rightarrow>
                 let (xs, ec, w) = read_some w (bytes_to_read ops b); b = db_commit ops (length xs) (db_fill ops xs p)
                 in (case ec of
                       Some e \<Rightarrow> Some (Inr (0, Some (StreamError e), b, w))
                     | None \<Rightarrow> until_loop ops search read_some search_position b w)))"

declare until_loop.simps [code]

definition read_until_char :: "'b dynamic_buffer \<Rightarrow> ('w, 'e) stream \<Rightarrow> u8 \<Rightarrow> 'b \<Rightarrow> 'w \<Rightarrow>
    (nat \<times> 'e until_error option \<times> 'b \<times> 'w) res option" where
  "read_until_char ops read_some delim b w = until_loop ops (find_char delim) read_some 0 b w"

definition read_until_string :: "'b dynamic_buffer \<Rightarrow> ('w, 'e) stream \<Rightarrow> u8 list \<Rightarrow> 'b \<Rightarrow> 'w \<Rightarrow>
    (nat \<times> 'e until_error option \<times> 'b \<times> 'w) res option" where
  "read_until_string ops read_some delim b w = until_loop ops (find_string delim) read_some 0 b w"

definition read_until_match :: "'b dynamic_buffer \<Rightarrow> ('w, 'e) stream \<Rightarrow> (u8 list \<Rightarrow> nat \<times> bool) \<Rightarrow> 'b \<Rightarrow> 'w \<Rightarrow>
    (nat \<times> 'e until_error option \<times> 'b \<times> 'w) res option" where
  "read_until_match ops read_some match_condition b w = until_loop ops (find_match match_condition) read_some 0 b w"

text \<open>The overloads for buffers of the second kind are the same with \<open>grow\<close> and \<open>shrink\<close>; the caller passes a copy.\<close>

definition read_until_char_v2 :: "(u8 list \<Rightarrow> nat) \<Rightarrow> ('w, 'e) stream \<Rightarrow> u8 \<Rightarrow> dynamic_string \<Rightarrow> 'w \<Rightarrow>
    (nat \<times> 'e until_error option \<times> (dynamic_string \<times> nat \<times> nat) \<times> 'w) res option" where
  "read_until_char_v2 cap read_some delim b w = until_loop (string_ops_v2 cap) (find_char delim) read_some 0 (b, 0, 0) w"

definition read_until_string_v2 :: "(u8 list \<Rightarrow> nat) \<Rightarrow> ('w, 'e) stream \<Rightarrow> u8 list \<Rightarrow> dynamic_string \<Rightarrow> 'w \<Rightarrow>
    (nat \<times> 'e until_error option \<times> (dynamic_string \<times> nat \<times> nat) \<times> 'w) res option" where
  "read_until_string_v2 cap read_some delim b w = until_loop (string_ops_v2 cap) (find_string delim) read_some 0 (b, 0, 0) w"

definition read_until_match_v2 :: "(u8 list \<Rightarrow> nat) \<Rightarrow> ('w, 'e) stream \<Rightarrow> (u8 list \<Rightarrow> nat \<times> bool) \<Rightarrow> dynamic_string \<Rightarrow> 'w \<Rightarrow>
    (nat \<times> 'e until_error option \<times> (dynamic_string \<times> nat \<times> nat) \<times> 'w) res option" where
  "read_until_match_v2 cap read_some match_condition b w =
     until_loop (string_ops_v2 cap) (find_match match_condition) read_some 0 (b, 0, 0) w"

section \<open>The asynchronous operation\<close>

text \<open>
  \<open>operator()\<close> of the operation objects. A call either starts a read into the prepared buffer, or is the last
  one and gives the result. \<open>not_found\<close> is the greatest \<open>size_t\<close>.
\<close>

definition not_found :: nat where "not_found = SIZE_T_MAX"

datatype ('b, 'e) op_action =
    StartRead nat nat 'b
  | Complete "'e until_error option" nat 'b
  | Throw fault

definition op_done :: "'e until_error option \<Rightarrow> nat \<Rightarrow> 'b \<Rightarrow> ('b, 'e) op_action" where
  "op_done ec search_position b =
     Complete (if search_position = not_found then Some NotFound else ec)
       (if ec \<noteq> None \<or> search_position = not_found then 0 else search_position) b"

definition op_search :: "'b dynamic_buffer \<Rightarrow> (u8 list \<Rightarrow> nat \<Rightarrow> found) \<Rightarrow> bool \<Rightarrow> nat \<Rightarrow> 'b \<Rightarrow> ('b, 'e) op_action" where
  "op_search ops search start search_position b =
     (let (search_position, n) =
        (case search (db_data ops b) search_position of
           Found p \<Rightarrow> (p, 0)
         | SearchFrom p \<Rightarrow>
             if db_size ops b = db_max_size ops b then (not_found, 0) else (p, bytes_to_read ops b))
      in if \<not> start \<and> n = 0 then op_done None search_position b
         else case db_prepare ops n b of Inl e \<Rightarrow> Throw e | Inr b \<Rightarrow> StartRead n search_position b)"

definition op_resume :: "'b dynamic_buffer \<Rightarrow> (u8 list \<Rightarrow> nat \<Rightarrow> found) \<Rightarrow> bool \<Rightarrow> 'e option \<Rightarrow> nat \<Rightarrow> nat \<Rightarrow> 'b \<Rightarrow>
    ('b, 'e) op_action" where
  "op_resume ops search cancelled ec bytes_transferred search_position b =
     (let b = db_commit ops bytes_transferred b
      in if ec \<noteq> None \<or> bytes_transferred = 0 then op_done (map_option StreamError ec) search_position b
         else if cancelled then op_done (Some Aborted) search_position b
         else op_search ops search False search_position b)"

text \<open>The operation run against a stream, each read completing before the next call; it is not cancelled.\<close>

partial_function (option) async_until_loop :: "'b dynamic_buffer \<Rightarrow> (u8 list \<Rightarrow> nat \<Rightarrow> found) \<Rightarrow> ('w, 'e) stream \<Rightarrow>
    ('b, 'e) op_action \<Rightarrow> 'w \<Rightarrow> (nat \<times> 'e until_error option \<times> 'b \<times> 'w) res option" where
  "async_until_loop ops search read_some a w =
     (case a of
        Throw e \<Rightarrow> Some (Inl e)
      | Complete ec n b \<Rightarrow> Some (Inr (n, ec, b, w))
      | StartRead n search_position p \<Rightarrow>
          let (xs, ec, w) = read_some w n
          in async_until_loop ops search read_some
               (op_resume ops search False ec (length xs) search_position (db_fill ops xs p)) w)"

declare async_until_loop.simps [code]

definition async_read_until_string :: "'b dynamic_buffer \<Rightarrow> ('w, 'e) stream \<Rightarrow> u8 list \<Rightarrow> 'b \<Rightarrow> 'w \<Rightarrow>
    (nat \<times> 'e until_error option \<times> 'b \<times> 'w) res option" where
  "async_read_until_string ops read_some delim b w =
     async_until_loop ops (find_string delim) read_some (op_search ops (find_string delim) True 0 b) w"

definition async_read_until_char :: "'b dynamic_buffer \<Rightarrow> ('w, 'e) stream \<Rightarrow> u8 \<Rightarrow> 'b \<Rightarrow> 'w \<Rightarrow>
    (nat \<times> 'e until_error option \<times> 'b \<times> 'w) res option" where
  "async_read_until_char ops read_some delim b w =
     async_until_loop ops (find_char delim) read_some (op_search ops (find_char delim) True 0 b) w"

definition async_read_until_match :: "'b dynamic_buffer \<Rightarrow> ('w, 'e) stream \<Rightarrow> (u8 list \<Rightarrow> nat \<times> bool) \<Rightarrow> 'b \<Rightarrow> 'w \<Rightarrow>
    (nat \<times> 'e until_error option \<times> 'b \<times> 'w) res option" where
  "async_read_until_match ops read_some match_condition b w =
     async_until_loop ops (find_match match_condition) read_some (op_search ops (find_match match_condition) True 0 b) w"

definition async_read_until_char_v2 :: "(u8 list \<Rightarrow> nat) \<Rightarrow> ('w, 'e) stream \<Rightarrow> u8 \<Rightarrow> dynamic_string \<Rightarrow> 'w \<Rightarrow>
    (nat \<times> 'e until_error option \<times> (dynamic_string \<times> nat \<times> nat) \<times> 'w) res option" where
  "async_read_until_char_v2 cap read_some delim b w =
     async_until_loop (string_ops_v2 cap) (find_char delim) read_some (op_search (string_ops_v2 cap) (find_char delim) True 0 (b, 0, 0)) w"

definition async_read_until_string_v2 :: "(u8 list \<Rightarrow> nat) \<Rightarrow> ('w, 'e) stream \<Rightarrow> u8 list \<Rightarrow> dynamic_string \<Rightarrow> 'w \<Rightarrow>
    (nat \<times> 'e until_error option \<times> (dynamic_string \<times> nat \<times> nat) \<times> 'w) res option" where
  "async_read_until_string_v2 cap read_some delim b w =
     async_until_loop (string_ops_v2 cap) (find_string delim) read_some
       (op_search (string_ops_v2 cap) (find_string delim) True 0 (b, 0, 0)) w"

definition async_read_until_match_v2 :: "(u8 list \<Rightarrow> nat) \<Rightarrow> ('w, 'e) stream \<Rightarrow> (u8 list \<Rightarrow> nat \<times> bool) \<Rightarrow> dynamic_string \<Rightarrow> 'w \<Rightarrow>
    (nat \<times> 'e until_error option \<times> (dynamic_string \<times> nat \<times> nat) \<times> 'w) res option" where
  "async_read_until_match_v2 cap read_some match_condition b w =
     async_until_loop (string_ops_v2 cap) (find_match match_condition) read_some
       (op_search (string_ops_v2 cap) (find_match match_condition) True 0 (b, 0, 0)) w"

section \<open>Searches that can be resumed\<close>

text \<open>The first place where the delimiter occurs.\<close>

definition first_match :: "'a list \<Rightarrow> 'a list \<Rightarrow> nat option" where
  "first_match delim xs = find (\<lambda>i. prefix delim (drop i xs)) [0..<length xs]"

lemma first_match_None: "first_match d xs = None \<longleftrightarrow> (\<forall>i < length xs. \<not> prefix d (drop i xs))"
  by (auto simp: first_match_def find_None_iff)

lemma first_match_Some: "first_match d xs = Some i \<longleftrightarrow>
    i < length xs \<and> prefix d (drop i xs) \<and> (\<forall>j < i. \<not> prefix d (drop j xs))"
  by (auto simp: first_match_def find_Some_iff)

lemma compare_at_eq: "compare_at xs ys advanced =
    (if prefix ys xs then FullMatch else if prefix xs ys \<and> (advanced \<or> xs \<noteq> []) then PartialMatch else NoMatch)"
  by (induction xs ys advanced rule: compare_at.induct) auto

text \<open>What the search says about the data, and about any data that may follow.\<close>

lemma partial_search_correct:
  "partial_search xs d = (k, b) \<Longrightarrow> k \<le> length xs \<and> (\<forall>j < k. \<forall>zs. \<not> prefix d (drop j xs @ zs)) \<and>
    (if b then k < length xs \<and> prefix d (drop k xs) else \<forall>j < length xs. \<not> prefix d (drop j xs))"
proof (induction xs d arbitrary: k rule: partial_search.induct)
  case (2 x xs d)
  let ?xs = "x # xs"
  consider "prefix d ?xs" | "\<not> prefix d ?xs" "prefix ?xs d" | "\<not> prefix d ?xs" "\<not> prefix ?xs d" by blast
  then show ?case
  proof cases
    case 1
    then show ?thesis using 2(2) by (auto simp: compare_at_eq)
  next
    case 2
    have "length ?xs < length d" using 2 prefix_order.antisym prefix_length_le
      by (metis le_neq_implies_less not_equal_is_parallel parallelE)
    then have "\<not> prefix d (drop j ?xs)" for j using prefix_length_le [of d "drop j ?xs"] by auto
    then show ?thesis using 2 \<open>partial_search ?xs d = (k, b)\<close> by (auto simp: compare_at_eq)
  next
    case 3
    have no: "\<not> prefix d (?xs @ zs)" for zs using 3 prefix_same_cases [of d "?xs @ zs" ?xs] by auto
    obtain k' where k': "partial_search xs d = (k', b)" "k = Suc k'" using 2(2) 3 by (auto simp: compare_at_eq split: prod.splits)
    have c: "compare_at ?xs d False = NoMatch" using 3 by (simp add: compare_at_eq)
    note IH = 2(1) [OF c k'(1)]
    have "\<not> prefix d (drop j ?xs @ zs)" if "j < k" for j zs
      using IH no [of zs] that k'(2) by (cases j) auto
    moreover have "\<not> prefix d (drop j ?xs)" if "\<not> b" "j < length ?xs" for j
      using IH no [of "[]"] that by (cases j) auto
    ultimately show ?thesis using IH k'(2) by auto
  qed
qed simp

definition no_match_before :: "'a list \<Rightarrow> nat \<Rightarrow> 'a list \<Rightarrow> bool" where
  "no_match_before d p xs \<longleftrightarrow> p \<le> length xs \<and> (\<forall>j < p. \<forall>zs. \<not> prefix d (drop j xs @ zs))"

lemma find_string_correct:
  assumes p: "no_match_before d p xs"
  shows "find_string d xs p = Found n \<Longrightarrow> map_option (\<lambda>i. i + length d) (first_match d xs) = Some n \<and> n \<le> length xs"
    and "find_string d xs p = SearchFrom q \<Longrightarrow> first_match d xs = None \<and> no_match_before d q xs"
proof -
  obtain k b where k: "partial_search (drop p xs) d = (k, b)" by fastforce
  have c: "k \<le> length xs - p" "\<And>j zs. j < k \<Longrightarrow> \<not> prefix d (drop (p + j) xs @ zs)"
    "b \<Longrightarrow> k < length xs - p \<and> prefix d (drop (p + k) xs)" "\<not> b \<Longrightarrow> j < length xs - p \<Longrightarrow> \<not> prefix d (drop (p + j) xs)" for j
    using partial_search_correct [OF k] by (auto simp: add.commute split: if_splits)
  have before: "\<not> prefix d (drop j xs @ zs)" if "j < p + k" for j zs
    using p c(2) [of "j - p" zs] that unfolding no_match_before_def by (cases "j < p") auto
  have le: "p \<le> length xs" using p by (simp add: no_match_before_def)
  show "map_option (\<lambda>i. i + length d) (first_match d xs) = Some n \<and> n \<le> length xs" if r: "find_string d xs p = Found n"
  proof -
    have b: b "n = p + k + length d" using r k by (auto simp: find_string_def Let_def split: if_splits)
    have f: "first_match d xs = Some (p + k)" unfolding first_match_Some using c(3) [OF b(1)] before [of _ "[]"] by auto
    have "length d \<le> length xs - (p + k)" using prefix_length_le c(3) [OF b(1)] by fastforce
    moreover have "p + k < length xs" using c(3) [OF b(1)] by linarith
    ultimately show ?thesis using f b(2) by simp
  qed
  show "first_match d xs = None \<and> no_match_before d q xs" if r: "find_string d xs p = SearchFrom q"
  proof -
    have q: "q = p + k" "\<not> b" using r k c(1,3) le by (auto simp: find_string_def Let_def split: if_splits)
    have "\<not> prefix d (drop i xs)" if "i < length xs" for i
      using before [of i "[]"] c(4) [OF q(2), of "i - p"] that by (cases "i < p + k") auto
    then show ?thesis unfolding first_match_None no_match_before_def using q(1) before c(1) le by auto
  qed
qed

locale resumable_search =
  fixes search :: "u8 list \<Rightarrow> nat \<Rightarrow> found" and match_end :: "u8 list \<Rightarrow> nat option" and clean :: "nat \<Rightarrow> u8 list \<Rightarrow> bool"
  assumes clean_start: "clean 0 xs"
    and clean_length: "clean p xs \<Longrightarrow> p \<le> length xs"
    and clean_more: "clean p xs \<Longrightarrow> clean p (xs @ ys)"
    and search_found: "clean p xs \<Longrightarrow> search xs p = Found n \<Longrightarrow> match_end xs = Some n \<and> n \<le> length xs"
    and search_missed: "clean p xs \<Longrightarrow> search xs p = SearchFrom q \<Longrightarrow> match_end xs = None \<and> clean q xs"

definition string_end :: "u8 list \<Rightarrow> u8 list \<Rightarrow> nat option" where
  "string_end d xs = map_option (\<lambda>i. i + length d) (first_match d xs)"

interpretation string_search: resumable_search "find_string d" "string_end d" "no_match_before d" for d
proof
  show "no_match_before d 0 xs" for xs by (simp add: no_match_before_def)
  show "no_match_before d p xs \<Longrightarrow> p \<le> length xs" for p xs by (simp add: no_match_before_def)
  show "no_match_before d p xs \<Longrightarrow> no_match_before d p (xs @ ys)" for p xs ys by (auto simp: no_match_before_def)
qed (use find_string_correct in \<open>auto simp: string_end_def\<close>)

definition char_end :: "u8 \<Rightarrow> u8 list \<Rightarrow> nat option" where
  "char_end c xs = map_option Suc (find (\<lambda>i. xs ! i = c) [0..<length xs])"

interpretation char_search: resumable_search "find_char c" "char_end c" "\<lambda>p xs. p \<le> length xs \<and> c \<notin> set (take p xs)" for c
proof
  fix p n q and xs :: "u8 list"
  assume p: "p \<le> length xs \<and> c \<notin> set (take p xs)"
  let ?k = "length (takeWhile (\<lambda>x. x \<noteq> c) (drop p xs))"
  have k: "?k \<le> length xs - p" using length_takeWhile_le [of "\<lambda>x. x \<noteq> c" "drop p xs"] by simp
  have before: "xs ! i \<noteq> c" if "i < p + ?k" for i
  proof (cases "i < p")
    case True
    then show ?thesis using p by (metis in_set_conv_nth length_take min.absorb2 nth_take)
  next
    case False
    then have "i - p < ?k" using that by simp
    from set_takeWhileD [OF nth_mem [OF this]] have "takeWhile (\<lambda>x. x \<noteq> c) (drop p xs) ! (i - p) \<noteq> c" by (rule conjunct2)
    then show ?thesis using takeWhile_nth [OF \<open>i - p < ?k\<close>] False p by simp
  qed
  show "char_end c xs = Some n \<and> n \<le> length xs" if "find_char c xs p = Found n"
  proof -
    have n: "n = p + ?k + 1" "p + ?k < length xs" using that k p by (auto simp: find_char_def Let_def split: if_splits)
    have "xs ! (p + ?k) = c" using nth_length_takeWhile [of "\<lambda>x. x \<noteq> c" "drop p xs"] n(2) by (simp add: add.commute)
    then have "find (\<lambda>i. xs ! i = c) [0..<length xs] = Some (p + ?k)"
      unfolding find_Some_iff
    proof (intro exI [of _ "p + ?k"] conjI allI impI)
      show "xs ! ([0..<length xs] ! j) \<noteq> c" if "j < p + ?k" for j using before [OF that] that n(2) by simp
    qed (use n(2) \<open>xs ! (p + ?k) = c\<close> in simp_all)
    then show ?thesis using n by (simp add: char_end_def)
  qed
  show "char_end c xs = None \<and> q \<le> length xs \<and> c \<notin> set (take q xs)" if "find_char c xs p = SearchFrom q"
  proof -
    have "q = length xs" "p + ?k = length xs" using that k p by (auto simp: find_char_def Let_def split: if_splits)
    then show ?thesis using before by (auto simp: char_end_def find_None_iff in_set_conv_nth)
  qed
qed auto

section \<open>The result\<close>

text \<open>
  A read puts at most what was asked for, something if it was asked for something and there was no error,
  and nothing with an error. Reads that are made only while there is no match.
\<close>

definition stream_ok :: "('w, 'e) stream \<Rightarrow> bool" where
  "stream_ok read_some \<longleftrightarrow> (\<forall>w n xs ec w'. read_some w n = (xs, ec, w') \<longrightarrow> length xs \<le> n \<and>
     (ec \<noteq> None \<longrightarrow> xs = []) \<and> (ec = None \<longrightarrow> 0 < n \<longrightarrow> xs \<noteq> []))"

inductive reads_while :: "('w, 'e) stream \<Rightarrow> (u8 list \<Rightarrow> nat option) \<Rightarrow> u8 list \<Rightarrow> 'w \<Rightarrow> u8 list \<Rightarrow> 'w \<Rightarrow> bool"
  for read_some match_end where
  stop: "reads_while read_some match_end d w [] w"
| more: "match_end d = None \<Longrightarrow> read_some w n = (xs, ec, w') \<Longrightarrow> reads_while read_some match_end (d @ xs) w' ys w'' \<Longrightarrow>
    reads_while read_some match_end d w (xs @ ys) w''"

definition until_result :: "'b dynamic_buffer \<Rightarrow> (u8 list \<Rightarrow> nat option) \<Rightarrow> ('w, 'e) stream \<Rightarrow> 'b \<Rightarrow> 'w \<Rightarrow>
    (nat \<times> 'e until_error option \<times> 'b \<times> 'w) res option \<Rightarrow> bool" where
  "until_result ops match_end read_some b w r \<longleftrightarrow> (\<exists>n ec b' w' got. r = Some (Inr (n, ec, b', w')) \<and>
     db_data ops b' = db_data ops b @ got \<and> reads_while read_some match_end (db_data ops b) w got w' \<and>
     (case match_end (db_data ops b') of
        Some m \<Rightarrow> ec = None \<and> n = m
      | None \<Rightarrow> n = 0 \<and>
          (ec = Some NotFound \<and> length (db_data ops b') = db_max_size ops b \<or> (\<exists>e. ec = Some (StreamError e)))))"

lemma reads_one: "match_end d = None \<Longrightarrow> read_some w n = (xs, ec, w') \<Longrightarrow> reads_while read_some match_end d w xs w'"
  using reads_while.more [OF _ _ reads_while.stop, of match_end d read_some w n xs ec w'] by simp

locale until_reading = growing_buffer ops inv + resumable_search search match_end clean
  for ops :: "'b dynamic_buffer" and inv :: "'b \<Rightarrow> bool" and search match_end clean
begin

lemma bytes_to_read_bounds:
  assumes "inv b" "db_size ops b \<noteq> db_max_size ops b"
  shows "0 < bytes_to_read ops b" "db_size ops b + bytes_to_read ops b \<le> db_max_size ops b" "bytes_to_read ops b < 2 ^ 31"
  using size_max [OF assms(1)] assms(2) by (auto simp: bytes_to_read_def)

text \<open>One read into the buffer.\<close>

lemma one_read:
  assumes b: "inv b" and full: "db_size ops b \<noteq> db_max_size ops b" and ok: "stream_ok read_some"
    and r: "read_some w (bytes_to_read ops b) = (xs, ec, w')"
  obtains p where "db_prepare ops (bytes_to_read ops b) b = Inr p"
    "inv (db_commit ops (length xs) (db_fill ops xs p))"
    "db_data ops (db_commit ops (length xs) (db_fill ops xs p)) = db_data ops b @ xs"
    "db_max_size ops (db_commit ops (length xs) (db_fill ops xs p)) = db_max_size ops b"
    "ec = None \<Longrightarrow> db_size ops b < db_size ops (db_commit ops (length xs) (db_fill ops xs p))"
    "ec \<noteq> None \<Longrightarrow> xs = []" "ec = None \<Longrightarrow> xs \<noteq> []"
proof -
  note n = bytes_to_read_bounds [OF b full]
  have x: "length xs \<le> bytes_to_read ops b" "ec \<noteq> None \<Longrightarrow> xs = []" "ec = None \<Longrightarrow> xs \<noteq> []"
    using ok r n(1) unfolding stream_ok_def by blast+
  from fill_correct [OF b n(2,3) x(1)] obtain p where p: "db_prepare ops (bytes_to_read ops b) b = Inr p"
    "inv (db_commit ops (length xs) (db_fill ops xs p))"
    "db_data ops (db_commit ops (length xs) (db_fill ops xs p)) = db_data ops b @ xs"
    "db_max_size ops (db_commit ops (length xs) (db_fill ops xs p)) = db_max_size ops b" by blast
  then show ?thesis using that x(2,3) size_data [OF b] size_data [OF p(2)] by simp
qed

lemma until_correct:
  assumes ok: "stream_ok read_some"
  shows "inv b \<Longrightarrow> clean p (db_data ops b) \<Longrightarrow>
    until_result ops match_end read_some b w (until_loop ops search read_some p b w)"
proof (induction "db_max_size ops b - db_size ops b" arbitrary: b p w rule: less_induct)
  case less
  let ?d = "db_data ops b"
  show ?case
  proof (cases "search ?d p")
    case (Found n)
    then have "match_end ?d = Some n" using search_found [OF less.prems(2)] by blast
    moreover have "until_loop ops search read_some p b w = Some (Inr (n, None, b, w))"
      by (subst until_loop.simps) (simp add: Found)
    ultimately show ?thesis unfolding until_result_def by (auto intro: reads_while.stop)
  next
    case (SearchFrom q)
    have miss: "match_end ?d = None" and q: "clean q ?d" using search_missed [OF less.prems(2) SearchFrom] by simp_all
    show ?thesis
    proof (cases "db_size ops b = db_max_size ops b")
      case True
      then have "until_loop ops search read_some p b w = Some (Inr (0, Some NotFound, b, w))"
        by (subst until_loop.simps) (simp add: SearchFrom)
      then show ?thesis using miss True size_data [OF less.prems(1)]
        unfolding until_result_def by (auto intro: reads_while.stop)
    next
      case False
      obtain xs ec w' where r: "read_some w (bytes_to_read ops b) = (xs, ec, w')" by (metis prod_cases3)
      obtain b1 where b1: "db_prepare ops (bytes_to_read ops b) b = Inr b1"
          "inv (db_commit ops (length xs) (db_fill ops xs b1))"
          "db_data ops (db_commit ops (length xs) (db_fill ops xs b1)) = ?d @ xs"
          "db_max_size ops (db_commit ops (length xs) (db_fill ops xs b1)) = db_max_size ops b"
          "ec = None \<Longrightarrow> db_size ops b < db_size ops (db_commit ops (length xs) (db_fill ops xs b1))"
          "ec \<noteq> None \<Longrightarrow> xs = []" "ec = None \<Longrightarrow> xs \<noteq> []"
        by (rule one_read [OF less.prems(1) False ok r]) (rule that; blast)
      let ?b = "db_commit ops (length xs) (db_fill ops xs b1)"
      have e: "until_loop ops search read_some p b w =
          (case ec of Some e \<Rightarrow> Some (Inr (0, Some (StreamError e), ?b, w')) | None \<Rightarrow> until_loop ops search read_some q ?b w')"
        by (subst until_loop.simps) (simp add: SearchFrom False b1(1) r Let_def)
      show ?thesis
      proof (cases ec)
        case (Some e)
        then have "xs = []" using b1(6) by simp
        then show ?thesis using miss b1(3) Some reads_one [of match_end ?d read_some, OF miss r] unfolding until_result_def e by auto
      next
        case None
        have "db_max_size ops ?b - db_size ops ?b < db_max_size ops b - db_size ops b"
          using b1(4,5) None size_max [OF less.prems(1)] False by simp
        then have "until_result ops match_end read_some ?b w' (until_loop ops search read_some q ?b w')"
          using less.hyps b1(2,3) clean_more [OF q, of xs] by simp
        then obtain n ec' b' w'' got where i: "until_loop ops search read_some q ?b w' = Some (Inr (n, ec', b', w''))"
            "db_data ops b' = (?d @ xs) @ got" "reads_while read_some match_end (?d @ xs) w' got w''"
            "case match_end (db_data ops b') of Some m \<Rightarrow> ec' = None \<and> n = m
             | None \<Rightarrow> n = 0 \<and> (ec' = Some NotFound \<and> length (db_data ops b') = db_max_size ops b \<or> (\<exists>e. ec' = Some (StreamError e)))"
          unfolding until_result_def b1(3,4) by blast
        have "until_loop ops search read_some p b w = Some (Inr (n, ec', b', w''))" by (simp add: e None i(1))
        moreover have "db_data ops b' = ?d @ (xs @ got)" using i(2) by simp
        ultimately show ?thesis using reads_while.more [where match_end = match_end and d = ?d and read_some = read_some, OF miss r i(3)] i(4) unfolding until_result_def by blast
      qed
    qed
  qed
qed

text \<open>Once it has searched new data, the asynchronous operation goes on as the loop does.\<close>

lemma op_search_correct:
  fixes read_some :: "('w, 'e) stream"
  assumes ok: "stream_ok read_some"
  shows "inv b \<Longrightarrow> clean p (db_data ops b) \<Longrightarrow> db_max_size ops b < SIZE_T_MAX \<Longrightarrow>
    async_until_loop ops search read_some (op_search ops search False p b) w = until_loop ops search read_some p b w"
proof (induction "db_max_size ops b - db_size ops b" arbitrary: b p w rule: less_induct)
  case less
  let ?d = "db_data ops b"
  have small: "n \<le> length ?d \<Longrightarrow> n \<noteq> not_found" for n
    using size_max [OF less.prems(1)] size_data [OF less.prems(1)] less.prems(3) by (simp add: not_found_def)
  show ?case
  proof (cases "search ?d p")
    case (Found n)
    have "op_search ops search False p b = (Complete None n b :: ('b, 'e) op_action)"
      using Found small search_found [OF less.prems(2) Found] by (simp add: op_search_def op_done_def)
    then show ?thesis by (subst until_loop.simps) (simp add: Found async_until_loop.simps)
  next
    case (SearchFrom q)
    have q: "clean q ?d" using search_missed [OF less.prems(2) SearchFrom] by simp
    show ?thesis
    proof (cases "db_size ops b = db_max_size ops b")
      case True
      then have "op_search ops search False p b = (Complete (Some NotFound) 0 b :: ('b, 'e) op_action)"
        using SearchFrom by (simp add: op_search_def op_done_def)
      then show ?thesis using True by (subst until_loop.simps) (simp add: SearchFrom async_until_loop.simps)
    next
      case False
      let ?n = "bytes_to_read ops b"
      obtain xs ec w' where r: "read_some w ?n = (xs, ec, w')" by (metis prod_cases3)
      obtain b1 where b1: "db_prepare ops ?n b = Inr b1"
          "inv (db_commit ops (length xs) (db_fill ops xs b1))"
          "db_data ops (db_commit ops (length xs) (db_fill ops xs b1)) = ?d @ xs"
          "db_max_size ops (db_commit ops (length xs) (db_fill ops xs b1)) = db_max_size ops b"
          "ec = None \<Longrightarrow> db_size ops b < db_size ops (db_commit ops (length xs) (db_fill ops xs b1))"
          "ec \<noteq> None \<Longrightarrow> xs = []" "ec = None \<Longrightarrow> xs \<noteq> []"
        by (rule one_read [OF less.prems(1) False ok r]) (rule that; blast)
      let ?b = "db_commit ops (length xs) (db_fill ops xs b1)"
      have "op_search ops search False p b = (StartRead ?n q b1 :: ('b, 'e) op_action)"
        using SearchFrom False bytes_to_read_bounds(1) [OF less.prems(1) False] b1(1) by (simp add: op_search_def)
      then have a: "async_until_loop ops search read_some (op_search ops search False p b) w =
          async_until_loop ops search read_some (op_resume ops search False ec (length xs) q (db_fill ops xs b1)) w'"
        by (subst async_until_loop.simps) (simp add: r)
      have u: "until_loop ops search read_some p b w =
          (case ec of Some e \<Rightarrow> Some (Inr (0, Some (StreamError e), ?b, w')) | None \<Rightarrow> until_loop ops search read_some q ?b w')"
        by (subst until_loop.simps) (simp add: SearchFrom False b1(1) r Let_def)
      show ?thesis
      proof (cases ec)
        case (Some e)
        have "op_resume ops search False ec (length xs) q (db_fill ops xs b1) = Complete (Some (StreamError e)) 0 ?b"
          using small [OF clean_length [OF q]] Some by (simp add: op_resume_def op_done_def Let_def)
        then show ?thesis unfolding a u by (simp add: Some async_until_loop.simps)
      next
        case None
        have "op_resume ops search False ec (length xs) q (db_fill ops xs b1) = op_search ops search False q ?b"
          using None b1(7) by (simp add: op_resume_def Let_def)
        moreover have "db_max_size ops ?b - db_size ops ?b < db_max_size ops b - db_size ops b"
          using b1(4,5) None size_max [OF less.prems(1)] False by simp
        then have "async_until_loop ops search read_some (op_search ops search False q ?b) w' = until_loop ops search read_some q ?b w'"
          using less.hyps b1(2-4) clean_more [OF q, of xs] less.prems(3) by simp
        ultimately show ?thesis unfolding a u by (simp add: None)
      qed
    qed
  qed
qed

text \<open>Its first call always starts a read, of no bytes if there is nothing to wait for.\<close>

lemma async_until_correct:
  fixes read_some :: "('w, 'e) stream"
  assumes ok: "stream_ok read_some" and zero: "\<And>w. read_some w 0 = ([], None, w)"
    and b: "inv b" "clean p (db_data ops b)" "db_max_size ops b < SIZE_T_MAX"
  shows "\<exists>n ec b1 b2 w'. until_loop ops search read_some p b w = Some (Inr (n, ec, b1, w')) \<and>
    async_until_loop ops search read_some (op_search ops search True p b) w = Some (Inr (n, ec, b2, w')) \<and>
    db_data ops b1 = db_data ops b2"
proof (cases "(\<exists>n. search (db_data ops b) p = Found n) \<or> db_size ops b = db_max_size ops b")
  case False
  then obtain q where q: "search (db_data ops b) p = SearchFrom q" "db_size ops b \<noteq> db_max_size ops b"
    by (cases "search (db_data ops b) p") auto
  have "op_search ops search True p b = (op_search ops search False p b :: ('b, 'e) op_action)"
    using q bytes_to_read_bounds(1) [OF b(1) q(2)] by (simp add: op_search_def)
  then show ?thesis using op_search_correct [OF ok b, of w] until_correct [OF ok b(1,2), of w] by (auto simp: until_result_def)
next
  case True
  obtain n ec where s: "until_loop ops search read_some p b w = Some (Inr (n, ec, b, w))"
    "op_done None (case search (db_data ops b) p of Found n \<Rightarrow> n | SearchFrom q \<Rightarrow> not_found) x = (Complete ec n x :: ('b, 'e) op_action)" for x
  proof (cases "search (db_data ops b) p")
    case (Found n)
    then have "n \<noteq> not_found" using search_found [OF b(2)] size_max [OF b(1)] size_data [OF b(1)] b(3) by (fastforce simp: not_found_def)
    moreover have "until_loop ops search read_some p b w = Some (Inr (n, None, b, w))"
      by (subst until_loop.simps) (simp add: Found)
    ultimately show ?thesis using that [of n None] by (simp add: Found op_done_def)
  next
    case (SearchFrom q)
    then have "until_loop ops search read_some p b w = Some (Inr (0, Some NotFound, b, w))"
      using True by (subst until_loop.simps) simp
    then show ?thesis using that [of 0 "Some NotFound"] by (simp add: SearchFrom op_done_def)
  qed
  obtain b1 where b1: "db_prepare ops 0 b = Inr b1" "db_data ops (db_commit ops 0 (db_fill ops [] b1)) = db_data ops b"
    using fill_correct [OF b(1), of 0 "[]"] size_max [OF b(1)] by auto
  let ?p = "case search (db_data ops b) p of Found n \<Rightarrow> n | SearchFrom q \<Rightarrow> not_found"
  have "op_search ops search True p b = (StartRead 0 ?p b1 :: ('b, 'e) op_action)"
    using True b1(1) by (cases "search (db_data ops b) p") (simp_all add: op_search_def)
  then have "async_until_loop ops search read_some (op_search ops search True p b) w =
      async_until_loop ops search read_some (op_done None ?p (db_commit ops 0 (db_fill ops [] b1))) w"
    by (subst async_until_loop.simps) (simp add: zero op_resume_def Let_def)
  also have "\<dots> = Some (Inr (n, ec, db_commit ops 0 (db_fill ops [] b1), w))"
    unfolding s(2) by (subst async_until_loop.simps) simp
  finally show ?thesis using s(1) b1(2) by auto
qed

end

interpretation string_by_string: until_reading "string_ops cap" string_inv "find_string d" "string_end d" "no_match_before d"
  for cap d ..

interpretation string_by_char: until_reading "string_ops cap" string_inv "find_char c" "char_end c"
  "\<lambda>p xs. p \<le> length xs \<and> c \<notin> set (take p xs)" for cap c ..

interpretation streambuf_by_string: until_reading "streambuf_ops cap" sb_inv "find_string d" "string_end d" "no_match_before d"
  for cap d ..

interpretation streambuf_by_char: until_reading "streambuf_ops cap" sb_inv "find_char c" "char_end c"
  "\<lambda>p xs. p \<le> length xs \<and> c \<notin> set (take p xs)" for cap c ..

interpretation v2_by_string: until_reading "string_ops_v2 cap" string_inv_v2 "find_string d" "string_end d" "no_match_before d"
  for cap d ..

interpretation v2_by_char: until_reading "string_ops_v2 cap" string_inv_v2 "find_char c" "char_end c"
  "\<lambda>p xs. p \<le> length xs \<and> c \<notin> set (take p xs)" for cap c ..

text \<open>
  C32: functional. Reading up to a delimiter returns, and stops at its first occurrence, however the stream cuts
  the data: for a string, used as either kind of buffer, or a stream buffer, and any well-behaved stream, what was read is appended to the data
  and no more was read than needed; if the data has the delimiter, the result is the number of bytes up to
  the end of its first occurrence, also if it came in pieces that were searched separately, and else there is
  an error, which is that the buffer is full or the one of the stream.
\<close>

theorem read_until_stops_at_first_match:
  assumes ok: "stream_ok read_some" and b: "string_inv b" and s: "sb_inv s" and v: "string_inv_v2 (v, 0, 0)"
  shows "until_result (string_ops cap) (string_end delim) read_some b w (read_until_string (string_ops cap) read_some delim b w) \<and>
    until_result (string_ops cap) (char_end c) read_some b w (read_until_char (string_ops cap) read_some c b w) \<and>
    until_result (streambuf_ops cap) (string_end delim) read_some s w
      (read_until_string (streambuf_ops cap) read_some delim s w) \<and>
    until_result (streambuf_ops cap) (char_end c) read_some s w (read_until_char (streambuf_ops cap) read_some c s w) \<and>
    until_result (string_ops_v2 cap) (string_end delim) read_some (v, 0, 0) w (read_until_string_v2 cap read_some delim v w) \<and>
    until_result (string_ops_v2 cap) (char_end c) read_some (v, 0, 0) w (read_until_char_v2 cap read_some c v w)"
  unfolding read_until_string_def read_until_char_def read_until_string_v2_def read_until_char_v2_def
  using string_by_string.until_correct [OF ok b string_search.clean_start] streambuf_by_string.until_correct [OF ok s string_search.clean_start]
    string_by_char.until_correct [OF ok b char_search.clean_start] streambuf_by_char.until_correct [OF ok s char_search.clean_start]
    v2_by_string.until_correct [OF ok v string_search.clean_start] v2_by_char.until_correct [OF ok v char_search.clean_start]
  by blast

text \<open>A stream that gives two bytes at a time, and then its end.\<close>

definition demo_stream :: "(u8 list, unit) stream" where
  "demo_stream w n =
     (if n = 0 then ([], None, w) else if w = [] then ([], Some (), w) else (take (min n 2) w, None, drop (min n 2) w))"

lemma demo_stream_ok: "stream_ok demo_stream"
  by (auto simp: stream_ok_def demo_stream_def split: if_splits)

theorem read_until_stops_at_first_match_witness:
  "until_result (streambuf_ops length) (string_end [13, 10]) demo_stream (streambuf_new 100) [1, 2, 13, 13, 10, 7]
     (read_until_string (streambuf_ops length) demo_stream [13, 10] (streambuf_new 100) [1, 2, 13, 13, 10, 7])"
proof -
  have "string_inv (dynamic_string_new [] 100)" by (simp add: string_inv_def dynamic_string_new_def SIZE_T_MAX_def)
  moreover have "string_inv_v2 (dynamic_string_new [] 100, 0, 0)" by (simp add: string_inv_v2_def dynamic_string_new_def)
  ultimately show ?thesis using read_until_stops_at_first_match [OF demo_stream_ok _ sb_inv_new(1)] by blast
qed

text \<open>
  equivalence. The asynchronous operation completes as the call that blocks would return: with the same
  error, number of bytes, data and rest of the stream, although it makes one more read, of no bytes, when
  there is nothing to wait for. (The stream is well-behaved and not cancelled; the maximum size of the
  buffer is not the number that stands for not found.)
\<close>

theorem async_read_until_is_read_until:
  fixes read_some :: "('w, 'e) stream"
  assumes ok: "stream_ok read_some" and zero: "\<And>w. read_some w 0 = ([], None, w)"
    and b: "string_inv b" and s: "sb_inv s" "sb_max_size s < SIZE_T_MAX" and v: "string_inv_v2 (v, 0, 0)" "ds_max_size v < SIZE_T_MAX"
  shows "(\<exists>n ec b1 b2 w'. read_until_string (string_ops cap) read_some delim b w = Some (Inr (n, ec, b1, w')) \<and>
      async_read_until_string (string_ops cap) read_some delim b w = Some (Inr (n, ec, b2, w')) \<and>
      dynamic_data b1 = dynamic_data b2) \<and>
    (\<exists>n ec s1 s2 w'. read_until_string (streambuf_ops cap) read_some delim s w = Some (Inr (n, ec, s1, w')) \<and>
      async_read_until_string (streambuf_ops cap) read_some delim s w = Some (Inr (n, ec, s2, w')) \<and> sb_data s1 = sb_data s2) \<and>
    (\<exists>n ec s1 s2 w'. read_until_char (streambuf_ops cap) read_some c s w = Some (Inr (n, ec, s1, w')) \<and>
      async_read_until_char (streambuf_ops cap) read_some c s w = Some (Inr (n, ec, s2, w')) \<and> sb_data s1 = sb_data s2) \<and>
    (\<exists>n ec b1 b2 w'. read_until_string_v2 cap read_some delim v w = Some (Inr (n, ec, b1, w')) \<and>
      async_read_until_string_v2 cap read_some delim v w = Some (Inr (n, ec, b2, w')) \<and>
      db_data (string_ops_v2 cap) b1 = db_data (string_ops_v2 cap) b2)"
proof -
  have m: "db_max_size (string_ops cap) b < SIZE_T_MAX" "db_max_size (streambuf_ops cap) s < SIZE_T_MAX"
      "db_max_size (string_ops_v2 cap) (v, 0, 0) < SIZE_T_MAX"
    using b s(2) v(2) by (simp_all add: string_ops_def streambuf_ops_def string_ops_v2_def string_inv_def)
  have d: "db_data (string_ops cap) = dynamic_data" "db_data (streambuf_ops cap) = sb_data"
    by (simp_all add: string_ops_def streambuf_ops_def)
  have one: "\<exists>n ec b1 b2 w'. read_until_string (string_ops cap) read_some delim b w = Some (Inr (n, ec, b1, w')) \<and>
      async_read_until_string (string_ops cap) read_some delim b w = Some (Inr (n, ec, b2, w')) \<and>
      dynamic_data b1 = dynamic_data b2"
    using string_by_string.async_until_correct [OF ok zero b string_search.clean_start m(1)]
    unfolding read_until_string_def async_read_until_string_def d .
  have two: "\<exists>n ec s1 s2 w'. read_until_string (streambuf_ops cap) read_some delim s w = Some (Inr (n, ec, s1, w')) \<and>
      async_read_until_string (streambuf_ops cap) read_some delim s w = Some (Inr (n, ec, s2, w')) \<and> sb_data s1 = sb_data s2"
    using streambuf_by_string.async_until_correct [OF ok zero s(1) string_search.clean_start m(2)]
    unfolding read_until_string_def async_read_until_string_def d .
  have three: "\<exists>n ec s1 s2 w'. read_until_char (streambuf_ops cap) read_some c s w = Some (Inr (n, ec, s1, w')) \<and>
      async_read_until_char (streambuf_ops cap) read_some c s w = Some (Inr (n, ec, s2, w')) \<and> sb_data s1 = sb_data s2"
    using streambuf_by_char.async_until_correct [OF ok zero s(1) char_search.clean_start m(2)]
    unfolding read_until_char_def async_read_until_char_def d .
  have four: "\<exists>n ec b1 b2 w'. read_until_string_v2 cap read_some delim v w = Some (Inr (n, ec, b1, w')) \<and>
      async_read_until_string_v2 cap read_some delim v w = Some (Inr (n, ec, b2, w')) \<and>
      db_data (string_ops_v2 cap) b1 = db_data (string_ops_v2 cap) b2"
    using v2_by_string.async_until_correct [OF ok zero v(1) string_search.clean_start m(3)]
    unfolding read_until_string_v2_def async_read_until_string_v2_def .
  show ?thesis by (intro conjI one two three four)
qed

theorem async_read_until_is_read_until_witness:
  "\<exists>n ec s1 s2 w'. read_until_string (streambuf_ops length) demo_stream [13, 10] (streambuf_new 100) [1, 13, 10] =
      Some (Inr (n, ec, s1, w')) \<and>
    async_read_until_string (streambuf_ops length) demo_stream [13, 10] (streambuf_new 100) [1, 13, 10] =
      Some (Inr (n, ec, s2, w')) \<and> sb_data s1 = sb_data s2"
proof -
  have "string_inv (dynamic_string_new [] 100)" by (simp add: string_inv_def dynamic_string_new_def SIZE_T_MAX_def)
  moreover have "string_inv_v2 (dynamic_string_new [] 100, 0, 0)" "ds_max_size (dynamic_string_new [] 100) < SIZE_T_MAX"
    by (simp_all add: string_inv_v2_def dynamic_string_new_def SIZE_T_MAX_def)
  moreover have "sb_max_size (streambuf_new 100) < SIZE_T_MAX" by (simp add: streambuf_new_def Let_def SIZE_T_MAX_def)
  moreover have "demo_stream w 0 = ([], None, w)" for w by (simp add: demo_stream_def)
  ultimately show ?thesis
    by (intro async_read_until_is_read_until [OF demo_stream_ok _ _ sb_inv_new(1), THEN conjunct2, THEN conjunct1])
qed

end
