(* ===== verification/IpAddresses.thy ===== *)
theory IpAddresses
  imports ByteOrder SocketOps Logging "HOL-Library.While_Combinator"
begin

text \<open>
  Internet addresses, \<^verbatim>\<open>asio/ip/\<close>: \<open>address_v4\<close> is a word in network order, \<open>address_v6\<close> sixteen bytes
  and a scope, \<open>address\<close> one of the two and \<open>detail::endpoint\<close> a socket address of the system. Every function
  that reads a word in network order has the byte order of the host as its argument. An address is seen as
  a number, so that its order, its iterators and its ranges are those of numbers.
\<close>

unbundle bit_operations_syntax

type_synonym u16 = "16 word"

section \<open>Bytes as numbers\<close>

definition be_value :: "u8 list \<Rightarrow> nat" where
  "be_value bs = foldl (\<lambda>n b. 256 * n + unat b) 0 bs"

lemma unat_u8: "unat (b :: u8) < 256"
  using unsigned_less [of b, where 'a = nat] by simp

lemma be_value_simps [simp]:
  "be_value [] = 0" "be_value (bs @ [b]) = 256 * be_value bs + unat b"
  by (simp_all add: be_value_def)

lemma be_value_append: "be_value (xs @ ys) = be_value xs * 256 ^ length ys + be_value ys"
  by (induction ys rule: rev_induct) (simp_all flip: append_assoc add: algebra_simps)

lemma be_value_Cons: "be_value (b # bs) = unat b * 256 ^ length bs + be_value bs"
  using be_value_append [of "[b]" bs] be_value_simps(2) [of "[]" b] by simp

lemma be_value_less: "be_value bs < 256 ^ length bs"
proof (induction bs rule: rev_induct)
  case (snoc b bs)
  then show ?case using unat_u8 [of b] by simp
qed simp

lemma digit_inject:
  assumes "(x :: nat) < 256" "z < 256"
  shows "256 * a + x = 256 * b + z \<longleftrightarrow> a = b \<and> x = z"
proof -
  have "(256 * a + x) mod 256 = x" "(256 * b + z) mod 256 = z" using assms by simp_all
  then show ?thesis by (metis add_right_cancel mult_cancel1 zero_neq_numeral)
qed

lemma be_value_inject:
  "length xs = length ys \<Longrightarrow> be_value xs = be_value ys \<longleftrightarrow> xs = ys"
proof (induction xs arbitrary: ys rule: rev_induct)
  case (snoc x xs)
  then obtain zs z where z: "ys = zs @ [z]" "length xs = length zs" by (cases ys rule: rev_cases) auto
  show ?case using snoc.IH [OF z(2)] z by (auto simp: digit_inject [OF unat_u8 unat_u8] unsigned_word_eqI)
qed simp

lemma be_bytes_u32: "be_bytes (w :: u32) = [ucast (drop_bit 24 w), ucast (drop_bit 16 w), ucast (drop_bit 8 w), ucast w]"
  by (simp add: be_bytes_def le_bytes_def numeral_eq_Suc upt_rec)

lemma unat_byte: "unat (ucast (drop_bit k (w :: 'a::len word)) :: u8) = unat w div 2 ^ k mod 256"
proof -
  have "unat (drop_bit k w) = unat w div 2 ^ k"
    using unsigned_drop_bit_eq [of k w, where 'a = nat] unsigned_less [of w, where 'a = nat]
    by (simp only: take_bit_nat_eq_self drop_bit_eq_div)
  then show ?thesis by (simp only: unsigned_ucast_eq take_bit_eq_mod) simp
qed

lemma be_value_u32 [simp]: "be_value (be_bytes (w :: u32)) = unat w"
proof -
  define n where "n = unat w"
  have n: "n < 4294967296" using unsigned_less [of w, where 'a = nat] by (simp add: n_def)
  have d: "n div 2 ^ 24 = n div 256 div 256 div 256" "n div 2 ^ 16 = n div 256 div 256" "n div 2 ^ 8 = n div 256"
    by (simp_all flip: div_mult2_eq)
  have "unat (ucast w :: u8) = n mod 256" using unat_byte [of 0 w] by (simp add: n_def)
  moreover have "n div 256 div 256 div 256 mod 256 = n div 256 div 256 div 256" using n by (simp flip: div_mult2_eq)
  ultimately have "be_value (be_bytes w) = n"
    unfolding be_bytes_u32 be_value_def foldl_Cons foldl_Nil unat_byte n_def [symmetric] d by simp
  then show ?thesis by (simp add: n_def)
qed

lemma be_value_of_be [simp]: "length bs = 4 \<Longrightarrow> unat (of_be_bytes bs :: u32) = be_value bs"
  using be_value_u32 [of "of_be_bytes bs"] be_of_be_bytes [of bs, where 'a = 32] by simp

section \<open>Version 4\<close>

text \<open>\<open>htonl\<close> and \<open>ntohl\<close>: a word in network order has its bytes in memory from the highest to the lowest.\<close>

definition host_to_network :: "endian \<Rightarrow> 'a::len word \<Rightarrow> 'a word" where
  "host_to_network h w = of_mem h (be_bytes w)"

definition network_to_host :: "endian \<Rightarrow> 'a::len word \<Rightarrow> 'a word" where
  "network_to_host h w = of_be_bytes (mem_of h w)"

record address_v4 =
  s_addr :: u32

definition v4_any :: address_v4 where
  "v4_any = \<lparr>s_addr = 0\<rparr>"

definition v4_of_bytes :: "endian \<Rightarrow> u8 list \<Rightarrow> address_v4" where
  "v4_of_bytes h bytes = \<lparr>s_addr = of_mem h bytes\<rparr>"

definition v4_of_uint :: "endian \<Rightarrow> u32 \<Rightarrow> address_v4" where
  "v4_of_uint h addr = \<lparr>s_addr = host_to_network h addr\<rparr>"

definition v4_to_bytes :: "endian \<Rightarrow> address_v4 \<Rightarrow> u8 list" where
  "v4_to_bytes h a = mem_of h (s_addr a)"

definition v4_to_uint :: "endian \<Rightarrow> address_v4 \<Rightarrow> u32" where
  "v4_to_uint h a = network_to_host h (s_addr a)"

definition v4_is_loopback :: "endian \<Rightarrow> address_v4 \<Rightarrow> bool" where
  "v4_is_loopback h a \<longleftrightarrow> v4_to_uint h a AND 0xFF000000 = 0x7F000000"

definition v4_is_unspecified :: "endian \<Rightarrow> address_v4 \<Rightarrow> bool" where
  "v4_is_unspecified h a \<longleftrightarrow> v4_to_uint h a = 0"

definition v4_is_class_a :: "endian \<Rightarrow> address_v4 \<Rightarrow> bool" where
  "v4_is_class_a h a \<longleftrightarrow> v4_to_uint h a AND 0x80000000 = 0"

definition v4_is_class_b :: "endian \<Rightarrow> address_v4 \<Rightarrow> bool" where
  "v4_is_class_b h a \<longleftrightarrow> v4_to_uint h a AND 0xC0000000 = 0x80000000"

definition v4_is_class_c :: "endian \<Rightarrow> address_v4 \<Rightarrow> bool" where
  "v4_is_class_c h a \<longleftrightarrow> v4_to_uint h a AND 0xE0000000 = 0xC0000000"

definition v4_is_multicast :: "endian \<Rightarrow> address_v4 \<Rightarrow> bool" where
  "v4_is_multicast h a \<longleftrightarrow> v4_to_uint h a AND 0xF0000000 = 0xE0000000"

definition v4_less :: "endian \<Rightarrow> address_v4 \<Rightarrow> address_v4 \<Rightarrow> bool" where
  "v4_less h a1 a2 \<longleftrightarrow> v4_to_uint h a1 < v4_to_uint h a2"

definition v4_loopback :: "endian \<Rightarrow> address_v4" where
  "v4_loopback h = v4_of_uint h 0x7F000001"

definition v4_broadcast :: "endian \<Rightarrow> address_v4" where
  "v4_broadcast h = v4_of_uint h 0xFFFFFFFF"

definition v4_broadcast_of :: "endian \<Rightarrow> address_v4 \<Rightarrow> address_v4 \<Rightarrow> address_v4" where
  "v4_broadcast_of h addr msk = v4_of_uint h (v4_to_uint h addr OR (v4_to_uint h msk XOR 0xFFFFFFFF))"

definition v4_netmask_of :: "endian \<Rightarrow> address_v4 \<Rightarrow> address_v4" where
  "v4_netmask_of h addr =
     (if v4_is_class_a h addr then v4_of_uint h 0xFF000000
      else if v4_is_class_b h addr then v4_of_uint h 0xFFFF0000
      else if v4_is_class_c h addr then v4_of_uint h 0xFFFFFF00
      else v4_of_uint h 0xFFFFFFFF)"

lemma network_host [simp]:
  "whole_bytes TYPE('a::len) \<Longrightarrow> network_to_host h (host_to_network h (w :: 'a word)) = w"
  "whole_bytes TYPE('a) \<Longrightarrow> host_to_network h (network_to_host h w) = w"
  by (simp_all add: host_to_network_def network_to_host_def)

lemma v4_uint [simp]: "v4_to_uint h (v4_of_uint h w) = w" "v4_of_uint h (v4_to_uint h a) = a"
  by (simp_all add: v4_to_uint_def v4_of_uint_def)

lemma v4_uint_inject: "v4_to_uint h a = v4_to_uint h b \<longleftrightarrow> a = b"
  by (metis v4_uint(2))

lemma v4_bytes [simp]:
  "length (v4_to_bytes h a) = 4" "length bs = 4 \<Longrightarrow> v4_to_bytes h (v4_of_bytes h bs) = bs"
  "v4_of_bytes h (v4_to_bytes h a) = a" "v4_to_bytes h (v4_of_uint h w) = be_bytes w"
  by (simp_all add: v4_to_bytes_def v4_of_bytes_def v4_of_uint_def host_to_network_def)

lemma be_value_v4 [simp]: "be_value (v4_to_bytes h a) = unat (v4_to_uint h a)"
  by (metis be_value_u32 v4_bytes(4) v4_uint(2))

section \<open>Version 6\<close>

record address_v6 =
  s6_addr :: "u8 list"
  scope_id :: u32

text \<open>The array has sixteen bytes.\<close>

definition v6_ok :: "address_v6 \<Rightarrow> bool" where
  "v6_ok a \<longleftrightarrow> length (s6_addr a) = 16"

definition v6_any :: address_v6 where
  "v6_any = \<lparr>s6_addr = replicate 16 0, scope_id = 0\<rparr>"

definition v6_of_bytes :: "u8 list \<Rightarrow> u32 \<Rightarrow> address_v6" where
  "v6_of_bytes bytes scope = \<lparr>s6_addr = bytes, scope_id = scope\<rparr>"

definition v6_is_loopback :: "address_v6 \<Rightarrow> bool" where
  "v6_is_loopback a \<longleftrightarrow> (\<forall>i \<in> set [0..<15]. s6_addr a ! i = 0) \<and> s6_addr a ! 15 = 1"

definition v6_is_unspecified :: "address_v6 \<Rightarrow> bool" where
  "v6_is_unspecified a \<longleftrightarrow> (\<forall>i \<in> set [0..<16]. s6_addr a ! i = 0)"

definition v6_is_link_local :: "address_v6 \<Rightarrow> bool" where
  "v6_is_link_local a \<longleftrightarrow> s6_addr a ! 0 = 0xfe \<and> s6_addr a ! 1 AND 0xc0 = 0x80"

definition v6_is_site_local :: "address_v6 \<Rightarrow> bool" where
  "v6_is_site_local a \<longleftrightarrow> s6_addr a ! 0 = 0xfe \<and> s6_addr a ! 1 AND 0xc0 = 0xc0"

definition v6_is_v4_mapped :: "address_v6 \<Rightarrow> bool" where
  "v6_is_v4_mapped a \<longleftrightarrow>
     (\<forall>i \<in> set [0..<10]. s6_addr a ! i = 0) \<and> s6_addr a ! 10 = 0xff \<and> s6_addr a ! 11 = 0xff"

definition v6_is_v4_compatible :: "address_v6 \<Rightarrow> bool" where
  "v6_is_v4_compatible a \<longleftrightarrow>
     (\<forall>i \<in> set [0..<12]. s6_addr a ! i = 0) \<and>
     \<not> (s6_addr a ! 12 = 0 \<and> s6_addr a ! 13 = 0 \<and> s6_addr a ! 14 = 0 \<and> (s6_addr a ! 15 = 0 \<or> s6_addr a ! 15 = 1))"

definition v6_is_multicast :: "address_v6 \<Rightarrow> bool" where
  "v6_is_multicast a \<longleftrightarrow> s6_addr a ! 0 = 0xff"

definition v6_is_multicast_global :: "address_v6 \<Rightarrow> bool" where
  "v6_is_multicast_global a \<longleftrightarrow> s6_addr a ! 0 = 0xff \<and> s6_addr a ! 1 AND 0x0f = 0x0e"

definition v6_is_multicast_link_local :: "address_v6 \<Rightarrow> bool" where
  "v6_is_multicast_link_local a \<longleftrightarrow> s6_addr a ! 0 = 0xff \<and> s6_addr a ! 1 AND 0x0f = 0x02"

definition v6_is_multicast_node_local :: "address_v6 \<Rightarrow> bool" where
  "v6_is_multicast_node_local a \<longleftrightarrow> s6_addr a ! 0 = 0xff \<and> s6_addr a ! 1 AND 0x0f = 0x01"

definition v6_is_multicast_org_local :: "address_v6 \<Rightarrow> bool" where
  "v6_is_multicast_org_local a \<longleftrightarrow> s6_addr a ! 0 = 0xff \<and> s6_addr a ! 1 AND 0x0f = 0x08"

definition v6_is_multicast_site_local :: "address_v6 \<Rightarrow> bool" where
  "v6_is_multicast_site_local a \<longleftrightarrow> s6_addr a ! 0 = 0xff \<and> s6_addr a ! 1 AND 0x0f = 0x05"

text \<open>\<open>memcmp\<close> gives the sign of the first difference.\<close>

fun memcmp :: "u8 list \<Rightarrow> u8 list \<Rightarrow> int" where
  "memcmp (x # xs) (y # ys) = (if x < y then -1 else if y < x then 1 else memcmp xs ys)"
| "memcmp xs ys = 0"

definition v6_eq :: "address_v6 \<Rightarrow> address_v6 \<Rightarrow> bool" where
  "v6_eq a1 a2 \<longleftrightarrow> memcmp (s6_addr a1) (s6_addr a2) = 0 \<and> scope_id a1 = scope_id a2"

definition v6_less :: "address_v6 \<Rightarrow> address_v6 \<Rightarrow> bool" where
  "v6_less a1 a2 =
     (let memcmp_result = memcmp (s6_addr a1) (s6_addr a2) in
      if memcmp_result < 0 then True
      else if memcmp_result > 0 then False
      else scope_id a1 < scope_id a2)"

definition v6_loopback :: address_v6 where
  "v6_loopback = v6_any\<lparr>s6_addr := (s6_addr v6_any)[15 := 1]\<rparr>"

definition v6_to_v4 :: "endian \<Rightarrow> address_v6 \<Rightarrow> address_v4 res" where
  "v6_to_v4 h a =
     (if \<not> v6_is_v4_mapped a \<and> \<not> v6_is_v4_compatible a then Inl BadCast
      else Inr (v4_of_bytes h [s6_addr a ! 12, s6_addr a ! 13, s6_addr a ! 14, s6_addr a ! 15]))"

definition v4_of_mapped :: "endian \<Rightarrow> address_v6 \<Rightarrow> address_v4 res" where
  "v4_of_mapped h a =
     (if \<not> v6_is_v4_mapped a then Inl BadCast
      else Inr (v4_of_bytes h [s6_addr a ! 12, s6_addr a ! 13, s6_addr a ! 14, s6_addr a ! 15]))"

definition v4_mapped :: "endian \<Rightarrow> address_v4 \<Rightarrow> address_v6" where
  "v4_mapped h addr = v6_of_bytes ([0, 0, 0, 0, 0, 0, 0, 0, 0, 0, 0xFF, 0xFF] @ v4_to_bytes h addr) 0"

definition v4_compatible :: "endian \<Rightarrow> address_v4 \<Rightarrow> address_v6" where
  "v4_compatible h addr = v6_of_bytes ([0, 0, 0, 0, 0, 0, 0, 0, 0, 0, 0, 0] @ v4_to_bytes h addr) 0"

lemma v6_ok_simps [simp]:
  "v6_ok v6_any" "v6_ok v6_loopback" "v6_ok (v6_of_bytes bs sc) \<longleftrightarrow> length bs = 16"
  "v6_ok (v4_mapped h a)" "v6_ok (v4_compatible h a)"
  by (simp_all add: v6_ok_def v6_any_def v6_loopback_def v6_of_bytes_def v4_mapped_def v4_compatible_def)

lemma memcmp_value:
  assumes "length xs = length ys"
  shows "memcmp xs ys = (if be_value xs < be_value ys then -1 else if be_value ys < be_value xs then 1 else 0)"
  using assms
proof (induction xs ys rule: memcmp.induct)
  case (1 x xs y ys)
  have less: "be_value (x # xs) < be_value (y # ys)" if "x < y" "length xs = length ys" for x y xs ys
  proof -
    have "(unat x + 1) * 256 ^ length xs \<le> unat y * 256 ^ length xs"
      using that(1) by (intro mult_right_mono) (simp_all add: word_less_nat_alt)
    then show ?thesis using be_value_less [of xs] that(2) by (simp add: be_value_Cons)
  qed
  show ?case using 1 less [of x y xs ys] less [of y x ys xs] by (auto simp: be_value_Cons not_less antisym)
qed auto

lemma v6_eq_iff: "v6_ok a \<Longrightarrow> v6_ok b \<Longrightarrow> v6_eq a b \<longleftrightarrow> a = b"
  using be_value_inject [of "s6_addr a" "s6_addr b"]
  by (auto simp: v6_eq_def v6_ok_def memcmp_value split: if_splits)

lemma v6_less_iff:
  "v6_ok a \<Longrightarrow> v6_ok b \<Longrightarrow> v6_less a b \<longleftrightarrow>
     be_value (s6_addr a) < be_value (s6_addr b) \<or> be_value (s6_addr a) = be_value (s6_addr b) \<and> scope_id a < scope_id b"
  by (simp add: v6_less_def v6_ok_def memcmp_value)

section \<open>Iterators\<close>

text \<open>
  The loops of the iterators run from the last byte to the first, and end at one that does not overflow.
  The first argument is the number of bytes left.
\<close>

fun v6_carry :: "nat \<Rightarrow> u8 list \<Rightarrow> u8 list" where
  "v6_carry 0 bs = bs"
| "v6_carry (Suc i) bs = (if bs ! i < 0xFF then bs[i := bs ! i + 1] else v6_carry i (bs[i := 0]))"

fun v6_borrow :: "nat \<Rightarrow> u8 list \<Rightarrow> u8 list" where
  "v6_borrow 0 bs = bs"
| "v6_borrow (Suc i) bs = (if bs ! i > 0 then bs[i := bs ! i - 1] else v6_borrow i (bs[i := 0xFF]))"

definition v6_next :: "address_v6 \<Rightarrow> address_v6" where
  "v6_next a = a\<lparr>s6_addr := v6_carry 16 (s6_addr a)\<rparr>"

definition v6_prev :: "address_v6 \<Rightarrow> address_v6" where
  "v6_prev a = a\<lparr>s6_addr := v6_borrow 16 (s6_addr a)\<rparr>"

definition v4_next :: "endian \<Rightarrow> address_v4 \<Rightarrow> address_v4" where
  "v4_next h a = v4_of_uint h ((v4_to_uint h a + 1) AND 0xFFFFFFFF)"

definition v4_prev :: "endian \<Rightarrow> address_v4 \<Rightarrow> address_v4" where
  "v4_prev h a = v4_of_uint h ((v4_to_uint h a - 1) AND 0xFFFFFFFF)"

lemma u8_max: "b < (0xFF :: u8) \<longleftrightarrow> unat b < 255" "\<not> b < (0xFF :: u8) \<Longrightarrow> unat b = 255"
  using unat_u8 [of b] by (simp_all add: word_less_nat_alt)

lemma v6_carry_value:
  assumes "i \<le> length bs"
  shows "length (v6_carry i bs) = length bs \<and> drop i (v6_carry i bs) = drop i bs \<and>
    be_value (take i (v6_carry i bs)) = (be_value (take i bs) + 1) mod 256 ^ i"
  using assms
proof (induction i arbitrary: bs)
  case (Suc i)
  then have i: "i < length bs" by simp
  have t: "be_value (take (Suc i) ys) = 256 * be_value (take i ys) + unat (ys ! i)" if "i < length ys" for ys
    using that by (simp add: take_Suc_conv_app_nth)
  have m: "be_value (take i bs) < 256 ^ i" using be_value_less [of "take i bs"] i by simp
  show ?case
  proof (cases "bs ! i < 0xFF")
    case True
    then have "unat (bs ! i + 1) = unat (bs ! i) + 1" by (simp add: u8_max(1) unat_add_small)
    moreover have "256 * be_value (take i bs) + unat (bs ! i) + 1 < 256 * 256 ^ i"
      using m True unfolding u8_max(1) by linarith
    ultimately show ?thesis using True i by (simp add: t)
  next
    case False
    let ?bs = "bs[i := 0]"
    note IH = Suc.IH [of ?bs]
    have n: "v6_carry i ?bs ! i = 0"
      using IH i by (metis Suc.prems Suc_leD drop_update_swap hd_drop_conv_nth length_list_update nth_list_update_eq)
    have d: "drop (Suc i) (v6_carry i ?bs) = drop (Suc i) bs"
      using IH i by (metis Suc_leD Suc.prems drop_Suc drop_update_cancel length_list_update lessI tl_drop)
    have "256 * ((v + 1) mod 256 ^ i) = (256 * v + 255 + 1) mod 256 ^ Suc i" for v :: nat
      using mult_mod_right [of 256 "v + 1" "256 ^ i"] by simp
    then show ?thesis using IH False i n d by (simp add: t u8_max(2) del: power_Suc)
  qed
qed simp

lemma v6_borrow_value:
  assumes "i \<le> length bs"
  shows "length (v6_borrow i bs) = length bs \<and> drop i (v6_borrow i bs) = drop i bs \<and>
    be_value (take i (v6_borrow i bs)) = (be_value (take i bs) + 256 ^ i - 1) mod 256 ^ i"
  using assms
proof (induction i arbitrary: bs)
  case (Suc i)
  then have i: "i < length bs" by simp
  have t: "be_value (take (Suc i) ys) = 256 * be_value (take i ys) + unat (ys ! i)" if "i < length ys" for ys
    using that by (simp add: take_Suc_conv_app_nth)
  have m: "be_value (take i bs) < 256 ^ i" using be_value_less [of "take i bs"] i by simp
  show ?case
  proof (cases "bs ! i > 0")
    case True
    then have u: "unat (bs ! i) > 0" "unat (bs ! i - 1) = unat (bs ! i) - 1" by (simp_all add: unat_gt_0 unat_minus_one)
    let ?n = "256 * be_value (take i bs) + unat (bs ! i) - 1"
    have "?n < 256 * 256 ^ i" using m unat_u8 [of "bs ! i"] by linarith
    moreover have "?n + 256 * 256 ^ i = 256 * be_value (take i bs) + unat (bs ! i) + 256 * 256 ^ i - 1" using u by simp
    ultimately have "(256 * be_value (take i bs) + unat (bs ! i) + 256 * 256 ^ i - 1) mod (256 * 256 ^ i) = ?n"
      by (metis mod_add_self2 mod_less)
    then show ?thesis using True i u by (simp add: t)
  next
    case False
    let ?bs = "bs[i := 0xFF]"
    note IH = Suc.IH [of ?bs]
    have z: "unat (bs ! i) = 0" using False by (simp add: word_gt_0)
    have n: "v6_borrow i ?bs ! i = 0xFF"
      using IH i by (metis Suc.prems Suc_leD drop_update_swap hd_drop_conv_nth length_list_update nth_list_update_eq)
    have d: "drop (Suc i) (v6_borrow i ?bs) = drop (Suc i) bs"
      using IH i by (metis Suc_leD Suc.prems drop_Suc drop_update_cancel length_list_update lessI tl_drop)
    have "256 * ((v + 256 ^ i - 1) mod 256 ^ i) + 255 = (256 * v + 256 ^ Suc i - 1) mod 256 ^ Suc i" if "v < 256 ^ i" for v :: nat
    proof (cases "v = 0")
      case False
      then have "(v + 256 ^ i - 1) mod 256 ^ i = v - 1" "(256 * v + 256 * 256 ^ i - 1) mod (256 * 256 ^ i) = 256 * v - 1"
        using that mod_add_self2 [of "v - 1" "256 ^ i"] mod_add_self2 [of "256 * v - 1" "256 * 256 ^ i"] by simp_all
      then show ?thesis using False by simp
    next
      case True
      obtain m where "(256 :: nat) ^ i = Suc m" by (metis not0_implies_Suc power_not_zero zero_neq_numeral)
      then show ?thesis using True by simp
    qed
    then show ?thesis using IH False i n d z m by (simp add: t del: power_Suc)
  qed
qed simp

lemma v6_next_value:
  "v6_ok a \<Longrightarrow> be_value (s6_addr (v6_next a)) = (be_value (s6_addr a) + 1) mod 2 ^ 128"
  "v6_ok a \<Longrightarrow> be_value (s6_addr (v6_prev a)) = (be_value (s6_addr a) + 2 ^ 128 - 1) mod 2 ^ 128"
  "v6_ok a \<Longrightarrow> v6_ok (v6_next a)" "v6_ok a \<Longrightarrow> v6_ok (v6_prev a)"
  "scope_id (v6_next a) = scope_id a" "scope_id (v6_prev a) = scope_id a"
proof -
  show "be_value (s6_addr (v6_next a)) = (be_value (s6_addr a) + 1) mod 2 ^ 128" if "v6_ok a"
    using v6_carry_value [of 16 "s6_addr a"] that by (auto simp: v6_next_def v6_ok_def)
  show "be_value (s6_addr (v6_prev a)) = (be_value (s6_addr a) + 2 ^ 128 - 1) mod 2 ^ 128" if "v6_ok a"
    using v6_borrow_value [of 16 "s6_addr a"] that by (auto simp: v6_prev_def v6_ok_def)
  show "v6_ok (v6_next a)" "v6_ok (v6_prev a)" if "v6_ok a"
    using v6_carry_value [of 16 "s6_addr a"] v6_borrow_value [of 16 "s6_addr a"] that
    by (simp_all add: v6_next_def v6_prev_def v6_ok_def)
qed (simp_all add: v6_next_def v6_prev_def)

lemma v4_next_value:
  "unat (v4_to_uint h (v4_next h a)) = (unat (v4_to_uint h a) + 1) mod 2 ^ 32"
  "unat (v4_to_uint h (v4_prev h a)) = (unat (v4_to_uint h a) + 2 ^ 32 - 1) mod 2 ^ 32"
proof -
  have "(0xFFFFFFFF :: u32) = - 1" by simp
  then have m: "x AND 0xFFFFFFFF = x" for x :: u32 using and.right_neutral [of x] by metis
  show "unat (v4_to_uint h (v4_next h a)) = (unat (v4_to_uint h a) + 1) mod 2 ^ 32"
    by (simp add: v4_next_def m unat_word_ariths)
  have "v4_to_uint h a - 1 = v4_to_uint h a + (- 1)" "unat (- 1 :: u32) = 2 ^ 32 - 1"
    by (simp_all add: unsigned_minus_1_eq_mask mask_eq_exp_minus_1)
  then have "unat (v4_to_uint h a - 1) = (unat (v4_to_uint h a) + (2 ^ 32 - 1)) mod 2 ^ 32"
    using unat_word_ariths(1) [of "v4_to_uint h a" "- 1"] by (simp only:) simp
  then show "unat (v4_to_uint h (v4_prev h a)) = (unat (v4_to_uint h a) + 2 ^ 32 - 1) mod 2 ^ 32"
    by (simp add: v4_prev_def m add.commute)
qed

text \<open>The loop \<open>for (it = start; it != stop; ++it)\<close>, with the addresses it visits.\<close>

definition visits :: "('a \<Rightarrow> 'a) \<Rightarrow> 'a \<Rightarrow> 'a \<Rightarrow> 'a list option" where
  "visits next start stop =
     map_option snd (while_option (\<lambda>(it, seen). it \<noteq> stop) (\<lambda>(it, seen). (next it, seen @ [it])) (start, []))"

lemma visits_steps:
  assumes "\<forall>k < n. (next ^^ k) start \<noteq> stop" "(next ^^ n) start = stop"
  shows "visits next start stop = Some (map (\<lambda>k. (next ^^ k) start) [0..<n])"
proof -
  have "while_option (\<lambda>(it, seen). it \<noteq> stop) (\<lambda>(it, seen). (next it, seen @ [it])) (it, seen) =
      Some (stop, seen @ map (\<lambda>k. (next ^^ k) it) [0..<n])"
    if "\<forall>k < n. (next ^^ k) it \<noteq> stop" "(next ^^ n) it = stop" for it seen
    using that
  proof (induction n arbitrary: it seen)
    case (Suc n)
    have "it \<noteq> stop" using Suc.prems(1) by (metis funpow_0 zero_less_Suc)
    moreover have s: "(next ^^ k) (next it) = (next ^^ Suc k) it" for k by (simp add: funpow_swap1)
    moreover have "\<forall>k < n. (next ^^ k) (next it) \<noteq> stop" "(next ^^ n) (next it) = stop"
      unfolding s using Suc.prems by blast+
    moreover have "map (\<lambda>k. (next ^^ k) it) [0..<Suc n] = it # map (\<lambda>k. (next ^^ k) (next it)) [0..<n]"
      unfolding s by (simp add: upt_conv_Cons del: upt_Suc flip: map_Suc_upt)
    ultimately show ?case using Suc.IH [of "next it" "seen @ [it]"] by (subst while_option_unfold) simp
  qed (simp add: while_option_unfold)
  from this [OF assms, of "[]"] show ?thesis by (simp add: visits_def)
qed

text \<open>
  The contract of an iterator over addresses: an address is determined by its number and its zone, and
  the next one has the next number, with a wrap-around.
\<close>

locale address_counter =
  fixes val :: "'a \<Rightarrow> nat" and zone :: "'a \<Rightarrow> 'z" and ok :: "'a \<Rightarrow> bool" and width :: nat
    and next_addr prev_addr :: "'a \<Rightarrow> 'a"
  assumes val_less: "ok a \<Longrightarrow> val a < 2 ^ width"
    and val_inject: "ok a \<Longrightarrow> ok b \<Longrightarrow> val a = val b \<Longrightarrow> zone a = zone b \<Longrightarrow> a = b"
    and next_val: "ok a \<Longrightarrow> val (next_addr a) = (val a + 1) mod 2 ^ width"
    and prev_val: "ok a \<Longrightarrow> val (prev_addr a) = (val a + 2 ^ width - 1) mod 2 ^ width"
    and kept: "ok a \<Longrightarrow> ok (next_addr a)" "ok a \<Longrightarrow> ok (prev_addr a)"
      "zone (next_addr a) = zone a" "zone (prev_addr a) = zone a"
begin

lemma prev_next:
  assumes "ok a"
  shows "prev_addr (next_addr a) = a"
proof (rule val_inject)
  let ?m = "2 ^ width :: nat"
  have "(val a + 1) mod ?m + ?m - 1 = (val a + 1) mod ?m + (?m - 1)" by simp
  then have "((val a + 1) mod ?m + ?m - 1) mod ?m = (val a + 1 + (?m - 1)) mod ?m" by (simp only: mod_add_left_eq)
  also have "\<dots> = val a" using val_less [OF assms] by simp
  finally show "val (prev_addr (next_addr a)) = val a" using assms kept by (simp add: next_val prev_val)
qed (simp_all add: assms kept)

lemma next_steps:
  assumes "ok a"
  shows "ok ((next_addr ^^ k) a)" "zone ((next_addr ^^ k) a) = zone a" "val ((next_addr ^^ k) a) = (val a + k) mod 2 ^ width"
proof (induction k)
  case (Suc k)
  { case 1 show ?case using Suc by (simp add: kept) }
  { case 2 show ?case using Suc by (simp add: kept) }
  { case 3 show ?case using Suc by (simp add: next_val mod_Suc_eq) }
qed (simp_all add: assms val_less)

text \<open>A list of addresses with consecutive numbers is in order and has all addresses between its ends.\<close>

lemma numbered_list:
  assumes xs: "map val xs = [v..<w]" "list_all (\<lambda>x. ok x \<and> zone x = z) xs"
  shows "sorted_wrt (\<lambda>x y. val x < val y) xs \<and> set xs = {x. ok x \<and> zone x = z \<and> v \<le> val x \<and> val x < w}"
proof
  have "sorted_wrt (<) (map val xs)" unfolding xs(1) by simp
  then show "sorted_wrt (\<lambda>x y. val x < val y) xs" by (simp add: sorted_wrt_map)
  have s: "val ` set xs = {v..<w}" using xs(1) by (metis set_map set_upt)
  have "x \<in> set xs" if x: "ok x" "zone x = z" "v \<le> val x" "val x < w" for x
  proof -
    have "val x \<in> val ` set xs" using x(3,4) by (simp add: s)
    then obtain y where y: "y \<in> set xs" "val x = val y" by blast
    then have "x = y" using x(1,2) xs(2) by (intro val_inject) (auto simp: list_all_iff)
    then show ?thesis using y(1) by simp
  qed
  moreover have "v \<le> val x \<and> val x < w" if "x \<in> set xs" for x using s that by (metis atLeastLessThan_iff imageI)
  ultimately show "set xs = {x. ok x \<and> zone x = z \<and> v \<le> val x \<and> val x < w}" using xs(2) by (auto simp: list_all_iff)
qed

text \<open>A loop from an address to a greater or equal one visits the addresses between them in order.\<close>

lemma visits_between:
  assumes a: "ok a" and b: "ok b" "zone a = zone b" and le: "val a \<le> val b"
  shows "\<exists>xs. visits next_addr a b = Some xs \<and> sorted_wrt (\<lambda>x y. val x < val y) xs \<and>
    set xs = {x. ok x \<and> zone x = zone a \<and> val a \<le> val x \<and> val x < val b}"
proof -
  have v: "val ((next_addr ^^ k) a) = val a + k" if "k \<le> val b - val a" for k
  proof -
    have "val a + k < 2 ^ width" using that le val_less [OF b(1)] by linarith
    then show ?thesis using next_steps(3) [OF a, of k] by simp
  qed
  have "(next_addr ^^ k) a \<noteq> b" if "k < val b - val a" for k using v [of k] that by auto
  then have "\<forall>k < val b - val a. (next_addr ^^ k) a \<noteq> b" by blast
  moreover have "(next_addr ^^ (val b - val a)) a = b"
    using v [of "val b - val a"] le b(2) by (intro val_inject) (simp_all add: next_steps a b(1))
  ultimately have "visits next_addr a b = Some (map (\<lambda>k. (next_addr ^^ k) a) [0..<val b - val a])"
    by (rule visits_steps)
  moreover have "map (val \<circ> (\<lambda>k. (next_addr ^^ k) a)) [0..<val b - val a] = [val a..<val b]"
    by (intro nth_equalityI) (simp_all add: v)
  then have "map val (map (\<lambda>k. (next_addr ^^ k) a) [0..<val b - val a]) = [val a..<val b]" by simp
  from numbered_list [OF this, of "zone a"] have "sorted_wrt (\<lambda>x y. val x < val y) (map (\<lambda>k. (next_addr ^^ k) a) [0..<val b - val a]) \<and>
    set (map (\<lambda>k. (next_addr ^^ k) a) [0..<val b - val a]) = {x. ok x \<and> zone x = zone a \<and> val a \<le> val x \<and> val x < val b}"
    using next_steps(1,2) [OF a] by (simp only: list_all_iff set_map) blast
  ultimately show ?thesis by blast
qed

text \<open>A loop to the address behind the last one visits everything from its start on.\<close>

lemma visits_to_end:
  assumes a: "ok a" and b: "ok b" "zone a = zone b" and le: "val b = 0" "val a > 0"
  shows "\<exists>xs. visits next_addr a b = Some xs \<and> sorted_wrt (\<lambda>x y. val x < val y) xs \<and>
    set xs = {x. ok x \<and> zone x = zone a \<and> val a \<le> val x}"
proof -
  let ?n = "2 ^ width - val a"
  note less = val_less [OF a]
  have v: "val ((next_addr ^^ k) a) = val a + k" if "k < ?n" for k
  proof -
    have "val a + k < 2 ^ width" using that by linarith
    then show ?thesis using next_steps(3) [OF a, of k] by simp
  qed
  have "(next_addr ^^ k) a \<noteq> b" if "k < ?n" for k using v [of k] that le by auto
  then have "\<forall>k < ?n. (next_addr ^^ k) a \<noteq> b" by blast
  moreover have "(next_addr ^^ ?n) a = b"
    using next_steps(3) [OF a, of ?n] le less b(2) by (intro val_inject) (simp_all add: next_steps a b(1))
  ultimately have "visits next_addr a b = Some (map (\<lambda>k. (next_addr ^^ k) a) [0..<?n])"
    by (rule visits_steps)
  moreover have "map (val \<circ> (\<lambda>k. (next_addr ^^ k) a)) [0..<?n] = [val a..<2 ^ width]"
    by (intro nth_equalityI) (simp_all add: v)
  then have "map val (map (\<lambda>k. (next_addr ^^ k) a) [0..<?n]) = [val a..<2 ^ width]" by simp
  from numbered_list [OF this, of "zone a"] have "sorted_wrt (\<lambda>x y. val x < val y) (map (\<lambda>k. (next_addr ^^ k) a) [0..<?n]) \<and>
    set (map (\<lambda>k. (next_addr ^^ k) a) [0..<?n]) = {x. ok x \<and> zone x = zone a \<and> val a \<le> val x \<and> val x < 2 ^ width}"
    using next_steps(1,2) [OF a] by (simp only: list_all_iff set_map) blast
  ultimately show ?thesis using val_less by blast
qed

end

interpretation v4_counter: address_counter "\<lambda>a. unat (v4_to_uint h a)" "\<lambda>a. ()" "\<lambda>a. True" 32 "v4_next h" "v4_prev h" for h
proof
  fix a b :: address_v4
  show "unat (v4_to_uint h a) < 2 ^ 32" using unsigned_less [of "v4_to_uint h a", where 'a = nat] by simp
  show "a = b" if "unat (v4_to_uint h a) = unat (v4_to_uint h b)" using that v4_uint_inject unsigned_word_eqI by blast
qed (simp_all only: v4_next_value)

interpretation v6_counter: address_counter "\<lambda>a. be_value (s6_addr a)" scope_id v6_ok 128 v6_next v6_prev
proof
  fix a b
  show "be_value (s6_addr a) < 2 ^ 128" if "v6_ok a" using be_value_less [of "s6_addr a"] that by (simp add: v6_ok_def)
  show "a = b" if "v6_ok a" "v6_ok b" "be_value (s6_addr a) = be_value (s6_addr b)" "scope_id a = scope_id b"
    using that be_value_inject [of "s6_addr a" "s6_addr b"] by (simp add: v6_ok_def)
qed (simp_all only: v6_next_value)

section \<open>Ranges\<close>

record 'a address_range =
  range_begin :: 'a
  range_end :: 'a

definition v4_range_size :: "endian \<Rightarrow> address_v4 address_range \<Rightarrow> u64" where
  "v4_range_size h r = ucast (v4_to_uint h (range_end r) - v4_to_uint h (range_begin r))"

definition v4_range_empty :: "endian \<Rightarrow> address_v4 address_range \<Rightarrow> bool" where
  "v4_range_empty h r \<longleftrightarrow> v4_range_size h r = 0"

definition v4_range_find :: "endian \<Rightarrow> address_v4 \<Rightarrow> address_v4 address_range \<Rightarrow> address_v4" where
  "v4_range_find h addr r =
     (if v4_to_uint h addr \<ge> v4_to_uint h (range_begin r) \<and> v4_less h addr (range_end r) then addr else range_end r)"

definition v6_range_empty :: "address_v6 address_range \<Rightarrow> bool" where
  "v6_range_empty r \<longleftrightarrow> v6_eq (range_begin r) (range_end r)"

definition v6_range_find :: "address_v6 \<Rightarrow> address_v6 address_range \<Rightarrow> address_v6" where
  "v6_range_find addr r =
     (if \<not> v6_less addr (range_begin r) \<and> v6_less addr (range_end r) then addr else range_end r)"

end
