(* ===== verification/IpNetworks.thy ===== *)
theory IpNetworks
  imports IpAddresses
begin

text \<open>
  Networks, \<^verbatim>\<open>asio/ip/network_v4.hpp\<close>, \<^verbatim>\<open>network_v6.hpp\<close> and their implementation files: an address with the
  length of its prefix. A network stands for the set of addresses with the same prefix; the locale
  \<open>prefix_network\<close> relates its operations to these sets for both versions.
\<close>

unbundle bit_operations_syntax

section \<open>Version 4\<close>

record network_v4 =
  net4_address :: address_v4
  net4_prefix_length :: u16

definition network_v4_default :: network_v4 where
  "network_v4_default = \<lparr>net4_address = v4_any, net4_prefix_length = 0\<rparr>"

definition network_v4_of_length :: "address_v4 \<Rightarrow> u16 \<Rightarrow> network_v4 res" where
  "network_v4_of_length addr prefix_len =
     (if prefix_len > 32 then Inl OutOfRange else Inr \<lparr>net4_address = addr, net4_prefix_length = prefix_len\<rparr>)"

text \<open>The cases of the \<open>switch\<close> fall through, so that each adds one for every case from it on.\<close>

fun v4_mask_loop :: "u8 list \<Rightarrow> bool \<Rightarrow> u16 \<Rightarrow> u16 res" where
  "v4_mask_loop [] finished len = Inr len"
| "v4_mask_loop (b # bs) finished len =
     (if finished then (if b \<noteq> 0 then Inl InvalidArgument else v4_mask_loop bs finished len)
      else if b = 255 then v4_mask_loop bs finished (len + 8)
      else if b = 254 then v4_mask_loop bs True (len + 7)
      else if b = 252 then v4_mask_loop bs True (len + 6)
      else if b = 248 then v4_mask_loop bs True (len + 5)
      else if b = 240 then v4_mask_loop bs True (len + 4)
      else if b = 224 then v4_mask_loop bs True (len + 3)
      else if b = 192 then v4_mask_loop bs True (len + 2)
      else if b = 128 then v4_mask_loop bs True (len + 1)
      else if b = 0 then v4_mask_loop bs True len
      else Inl OutOfRange)"

definition network_v4_of_mask :: "endian \<Rightarrow> address_v4 \<Rightarrow> address_v4 \<Rightarrow> network_v4 res" where
  "network_v4_of_mask h addr msk =
     rbind (v4_mask_loop (v4_to_bytes h msk) False 0) (\<lambda>len. Inr \<lparr>net4_address = addr, net4_prefix_length = len\<rparr>)"

definition v4_netmask :: "endian \<Rightarrow> network_v4 \<Rightarrow> address_v4" where
  "v4_netmask h n =
     (let nmbits = 0xffffffff;
          nmbits = if net4_prefix_length n = 0 then 0 else push_bit (32 - unat (net4_prefix_length n)) nmbits
      in v4_of_uint h nmbits)"

definition v4_network :: "endian \<Rightarrow> network_v4 \<Rightarrow> address_v4" where
  "v4_network h n = v4_of_uint h (v4_to_uint h (net4_address n) AND v4_to_uint h (v4_netmask h n))"

definition v4_net_broadcast :: "endian \<Rightarrow> network_v4 \<Rightarrow> address_v4" where
  "v4_net_broadcast h n =
     v4_of_uint h (v4_to_uint h (v4_network h n) OR (v4_to_uint h (v4_netmask h n) XOR 0xFFFFFFFF))"

definition v4_is_host :: "network_v4 \<Rightarrow> bool" where
  "v4_is_host n \<longleftrightarrow> net4_prefix_length n = 32"

definition v4_hosts :: "endian \<Rightarrow> network_v4 \<Rightarrow> address_v4 address_range" where
  "v4_hosts h n =
     (if v4_is_host n
      then \<lparr>range_begin = net4_address n, range_end = v4_of_uint h (v4_to_uint h (net4_address n) + 1)\<rparr>
      else \<lparr>range_begin = v4_of_uint h (v4_to_uint h (v4_network h n) + 1), range_end = v4_net_broadcast h n\<rparr>)"

definition v4_canonical :: "endian \<Rightarrow> network_v4 \<Rightarrow> network_v4 res" where
  "v4_canonical h n = network_v4_of_mask h (v4_network h n) (v4_netmask h n)"

definition v4_is_subnet_of :: "endian \<Rightarrow> network_v4 \<Rightarrow> network_v4 \<Rightarrow> bool res" where
  "v4_is_subnet_of h n other =
     (if net4_prefix_length other \<ge> net4_prefix_length n then Inr False
      else
        rbind (network_v4_of_length (net4_address n) (net4_prefix_length other)) (\<lambda>me.
        rbind (v4_canonical h other) (\<lambda>c1.
        rbind (v4_canonical h me) (\<lambda>c2.
        Inr (c1 = c2)))))"

section \<open>Version 6\<close>

record network_v6 =
  net6_address :: address_v6
  net6_prefix_length :: u16

definition network_v6_default :: network_v6 where
  "network_v6_default = \<lparr>net6_address = v6_any, net6_prefix_length = 0\<rparr>"

definition network_v6_of_length :: "address_v6 \<Rightarrow> u16 \<Rightarrow> network_v6 res" where
  "network_v6_of_length addr prefix_len =
     (if prefix_len > 128 then Inl OutOfRange else Inr \<lparr>net6_address = addr, net6_prefix_length = prefix_len\<rparr>)"

text \<open>The loops over the bytes; byte \<open>i\<close> depends on the old byte \<open>i\<close> only.\<close>

definition v6_clear_host :: "nat \<Rightarrow> u8 list \<Rightarrow> u8 list" where
  "v6_clear_host len bytes =
     map (\<lambda>i. if len \<le> i * 8 then 0
              else if len < (i + 1) * 8 then bytes ! i AND ucast (drop_bit (len mod 8) (0xFF00 :: u32))
              else bytes ! i) [0..<length bytes]"

definition v6_fill_host :: "nat \<Rightarrow> u8 list \<Rightarrow> u8 list" where
  "v6_fill_host len bytes =
     map (\<lambda>i. if len \<le> i * 8 then 0xFF
              else if len < (i + 1) * 8 then bytes ! i OR ucast (drop_bit (len mod 8) (0xFF :: u32))
              else bytes ! i) [0..<length bytes]"

definition v6_network :: "network_v6 \<Rightarrow> address_v6" where
  "v6_network n =
     v6_of_bytes (v6_clear_host (unat (net6_prefix_length n)) (s6_addr (net6_address n))) (scope_id (net6_address n))"

definition v6_hosts :: "network_v6 \<Rightarrow> address_v6 address_range" where
  "v6_hosts n =
     (let begin_bytes = v6_clear_host (unat (net6_prefix_length n)) (s6_addr (net6_address n));
          end_bytes = v6_fill_host (unat (net6_prefix_length n)) (s6_addr (net6_address n))
      in \<lparr>range_begin = v6_of_bytes begin_bytes (scope_id (net6_address n)),
          range_end = v6_next (v6_of_bytes end_bytes (scope_id (net6_address n)))\<rparr>)"

definition v6_canonical :: "network_v6 \<Rightarrow> network_v6 res" where
  "v6_canonical n = network_v6_of_length (v6_network n) (net6_prefix_length n)"

definition v6_is_host :: "network_v6 \<Rightarrow> bool" where
  "v6_is_host n \<longleftrightarrow> net6_prefix_length n = 128"

definition v6_net_eq :: "network_v6 \<Rightarrow> network_v6 \<Rightarrow> bool" where
  "v6_net_eq a b \<longleftrightarrow> v6_eq (net6_address a) (net6_address b) \<and> net6_prefix_length a = net6_prefix_length b"

definition v6_is_subnet_of :: "network_v6 \<Rightarrow> network_v6 \<Rightarrow> bool res" where
  "v6_is_subnet_of n other =
     (if net6_prefix_length other \<ge> net6_prefix_length n then Inr False
      else
        rbind (network_v6_of_length (net6_address n) (net6_prefix_length other)) (\<lambda>me.
        rbind (v6_canonical other) (\<lambda>c1.
        rbind (v6_canonical me) (\<lambda>c2.
        Inr (v6_net_eq c1 c2)))))"

section \<open>Prefixes as numbers\<close>

lemma unat_clear_low: "unat (a AND push_bit k (- 1) :: 'a::len word) = unat a div 2 ^ k * 2 ^ k"
proof -
  have "a AND push_bit k (- 1) = push_bit k (drop_bit k a)"
    by (rule bit_word_eqI) (auto simp: bit_simps)
  moreover have "unat a div 2 ^ k * 2 ^ k < 2 ^ LENGTH('a)"
    using unsigned_less [of a, where 'a = nat] div_times_less_eq_dividend [of "unat a" "2 ^ k"] by linarith
  ultimately show ?thesis
    by (simp only: unsigned_push_bit_eq unsigned_drop_bit_eq) (simp add: push_bit_eq_mult drop_bit_eq_div take_bit_eq_mod)
qed

lemma unat_set_low: "k \<le> LENGTH('a) \<Longrightarrow> unat (a OR mask k :: 'a::len word) = unat a div 2 ^ k * 2 ^ k + (2 ^ k - 1)"
proof -
  assume k: "k \<le> LENGTH('a)"
  let ?n = "unat a OR mask k"
  have "?n div 2 ^ k = unat a div 2 ^ k"
    by (simp add: drop_bit_mask_eq flip: drop_bit_eq_div)
  moreover have "?n mod 2 ^ k = 2 ^ k - 1"
  proof -
    have "take_bit k ?n = mask k" by (rule bit_eqI) (auto simp: bit_simps)
    then show ?thesis by (simp add: take_bit_eq_mod mask_eq_exp_minus_1)
  qed
  ultimately have n: "?n = unat a div 2 ^ k * 2 ^ k + (2 ^ k - 1)"
    using div_mult_mod_eq [of ?n "2 ^ k"] by simp
  have "unat (mask k :: 'a word) = mask k"
  proof -
    have "(2 :: nat) ^ k \<le> 2 ^ LENGTH('a)" using k by (rule power_increasing) simp
    moreover have "(2 :: nat) ^ k > 0" by simp
    ultimately have "(mask k :: nat) < 2 ^ LENGTH('a)" unfolding mask_eq_exp_minus_1 by linarith
    then show ?thesis using unat_of_nat_small [of "mask k", where 'a = 'a] by (simp add: of_nat_mask_eq)
  qed
  then show ?thesis using n by (simp only: unsigned_or_eq)
qed

text \<open>Clearing or setting the bits behind a prefix, byte by byte.\<close>

lemma v6_host_Cons:
  "v6_clear_host len (b # bs) =
     (if len = 0 then 0 else if len < 8 then b AND ucast (drop_bit len (0xFF00 :: u32)) else b) # v6_clear_host (len - 8) bs"
  "v6_fill_host len (b # bs) =
     (if len = 0 then 0xFF else if len < 8 then b OR ucast (drop_bit len (0xFF :: u32)) else b) # v6_fill_host (len - 8) bs"
proof -
  have s: "[0..<length (b # bs)] = 0 # map Suc [0..<length bs]" by (simp add: upt_conv_Cons map_Suc_upt del: upt_Suc)
  have m: "(len - 8) mod 8 = len mod 8" if "\<not> len < 8" using that by (simp add: le_mod_geq)
  show "v6_clear_host len (b # bs) =
     (if len = 0 then 0 else if len < 8 then b AND ucast (drop_bit len (0xFF00 :: u32)) else b) # v6_clear_host (len - 8) bs"
    unfolding v6_clear_host_def s using m by auto
  show "v6_fill_host len (b # bs) =
     (if len = 0 then 0xFF else if len < 8 then b OR ucast (drop_bit len (0xFF :: u32)) else b) # v6_fill_host (len - 8) bs"
    unfolding v6_fill_host_def s using m by auto
qed

lemma byte_masks:
  assumes "len < 8"
  shows "ucast (drop_bit len (0xFF00 :: u32)) = push_bit (8 - len) (- 1 :: u8)"
    and "ucast (drop_bit len (0xFF :: u32)) = (mask (8 - len) :: u8)"
proof -
  have "\<forall>len \<in> set [0..<8]. ucast (drop_bit len (0xFF00 :: u32)) = push_bit (8 - len) (- 1 :: u8) \<and>
      ucast (drop_bit len (0xFF :: u32)) = (mask (8 - len) :: u8)" by code_simp
  then show "ucast (drop_bit len (0xFF00 :: u32)) = push_bit (8 - len) (- 1 :: u8)"
    "ucast (drop_bit len (0xFF :: u32)) = (mask (8 - len) :: u8)" using assms by simp_all
qed

lemma prefix_of_bytes:
  fixes b v s k :: nat
  assumes v: "v < 2 ^ k" and s: "k \<le> s"
  shows "(b * 2 ^ k + v) div 2 ^ s = b div 2 ^ (s - k)"
proof -
  have "(2 :: nat) ^ s = 2 ^ k * 2 ^ (s - k)" using s by (simp flip: power_add)
  then show ?thesis using v by (simp add: div_mult2_eq)
qed

lemma host_value:
  assumes "len \<le> 8 * length bs"
  shows "be_value (v6_clear_host len bs) = be_value bs div 2 ^ (8 * length bs - len) * 2 ^ (8 * length bs - len) \<and>
    be_value (v6_fill_host len bs) =
      be_value bs div 2 ^ (8 * length bs - len) * 2 ^ (8 * length bs - len) + (2 ^ (8 * length bs - len) - 1)"
  using assms
proof (induction bs arbitrary: len)
  case Nil
  then show ?case by (simp add: v6_clear_host_def v6_fill_host_def)
next
  case (Cons b bs)
  let ?k = "8 * length bs"
  have p: "(256 :: nat) ^ length bs = 2 ^ ?k" by (simp add: power_mult)
  have v: "be_value bs < 2 ^ ?k" using be_value_less [of bs] by (simp only: p)
  have l: "length (v6_clear_host n bs) = length bs" "length (v6_fill_host n bs) = length bs" for n
    by (simp_all add: v6_clear_host_def v6_fill_host_def)
  show ?case
  proof (cases "len < 8")
    case True
    let ?s = "8 * length (b # bs) - len"
    have s: "?s = ?k + (8 - len)" "(2 :: nat) ^ ?s = 2 ^ ?k * 2 ^ (8 - len)" using True by (simp_all flip: power_add)
    have "be_value bs div 2 ^ ?k = 0" using v by simp
    then have tails: "be_value (v6_clear_host (len - 8) bs) = 0" "be_value (v6_fill_host (len - 8) bs) = 2 ^ ?k - 1"
      using Cons.IH [of 0] True by simp_all
    have b: "unat (b AND push_bit (8 - len) (- 1)) = unat b div 2 ^ (8 - len) * 2 ^ (8 - len)"
      "unat (b OR mask (8 - len)) = unat b div 2 ^ (8 - len) * 2 ^ (8 - len) + (2 ^ (8 - len) - 1)"
      by (rule unat_clear_low, rule unat_set_low) simp
    have d: "be_value (b # bs) div 2 ^ ?s = unat b div 2 ^ (8 - len)"
      unfolding be_value_Cons p s(1) using prefix_of_bytes [OF v] by simp
    have fill: "(unat b div 2 ^ (8 - len) * 2 ^ (8 - len) + (2 ^ (8 - len) - 1)) * 2 ^ ?k + (2 ^ ?k - 1) =
        unat b div 2 ^ (8 - len) * 2 ^ ?s + (2 ^ ?s - (1 :: nat))"
    proof -
      obtain m n where "(2 :: nat) ^ (8 - len) = Suc m" "(2 :: nat) ^ ?k = Suc n"
        by (metis not0_implies_Suc power_not_zero zero_neq_numeral)
      then show ?thesis unfolding s(2) by (simp add: algebra_simps)
    qed
    have "b AND push_bit 8 (- 1) = 0" "b OR mask 8 = 0xFF"
    proof -
      have "push_bit 8 (- 1 :: u8) = 0" "(mask 8 :: u8) = - 1" "(0xFF :: u8) = - 1" by code_simp+
      then show "b AND push_bit 8 (- 1) = 0" "b OR mask 8 = 0xFF" by simp_all
    qed
    then have hd: "v6_clear_host len (b # bs) = (b AND push_bit (8 - len) (- 1)) # v6_clear_host (len - 8) bs"
      "v6_fill_host len (b # bs) = (b OR mask (8 - len)) # v6_fill_host (len - 8) bs"
      using True byte_masks [OF True] by (auto simp: v6_host_Cons)
    have "be_value (v6_clear_host len (b # bs)) = unat b div 2 ^ (8 - len) * 2 ^ ?s"
      by (simp only: hd be_value_Cons l p tails b s(2)) simp
    moreover have "be_value (v6_fill_host len (b # bs)) = unat b div 2 ^ (8 - len) * 2 ^ ?s + (2 ^ ?s - 1)"
      by (simp only: hd be_value_Cons l p tails b fill)
    ultimately show ?thesis unfolding d by blast
  next
    case False
    let ?s = "?k - (len - 8)"
    have s: "8 * length (b # bs) - len = ?s" "len - 8 \<le> ?k" using False Cons.prems by simp_all
    have "(2 :: nat) ^ ?k = 2 ^ (?k - ?s) * 2 ^ ?s" by (simp flip: power_add)
    then have d2: "unat b * 2 ^ ?k = unat b * 2 ^ (?k - ?s) * 2 ^ ?s" by simp
    have d: "(unat b * 2 ^ ?k + be_value bs) div 2 ^ ?s = unat b * 2 ^ (?k - ?s) + be_value bs div 2 ^ ?s"
      unfolding d2 by (rule div_mult_self3) simp
    have hd: "v6_clear_host len (b # bs) = b # v6_clear_host (len - 8) bs"
      "v6_fill_host len (b # bs) = b # v6_fill_host (len - 8) bs"
      using False by (simp_all add: v6_host_Cons)
    note IH = Cons.IH [OF s(2), THEN conjunct1] Cons.IH [OF s(2), THEN conjunct2]
    show ?thesis unfolding s(1) hd be_value_Cons l p d IH by (simp only: d2 distrib_right add.assoc simp_thms)
  qed
qed

section \<open>Networks as sets of addresses\<close>

definition net4_ok :: "network_v4 \<Rightarrow> bool" where
  "net4_ok n \<longleftrightarrow> unat (net4_prefix_length n) \<le> 32"

definition net6_ok :: "network_v6 \<Rightarrow> bool" where
  "net6_ok n \<longleftrightarrow> v6_ok (net6_address n) \<and> unat (net6_prefix_length n) \<le> 128"

text \<open>The bits of an address behind the prefix.\<close>

abbreviation host_bits4 :: "network_v4 \<Rightarrow> nat" where
  "host_bits4 n \<equiv> 32 - unat (net4_prefix_length n)"

abbreviation host_bits6 :: "network_v6 \<Rightarrow> nat" where
  "host_bits6 n \<equiv> 128 - unat (net6_prefix_length n)"

lemma v4_netmask_uint:
  assumes "net4_ok n"
  shows "v4_to_uint h (v4_netmask h n) = NOT (mask (host_bits4 n))"
proof -
  have ones: "(0xffffffff :: u32) = - 1" by simp
  have "NOT (mask 32) = (0 :: u32)" by (rule bit_word_eqI) (simp add: bit_simps)
  then show ?thesis unfolding v4_netmask_def Let_def ones by simp
qed

lemma v4_network_value:
  "net4_ok n \<Longrightarrow> unat (v4_to_uint h (v4_network h n)) =
     unat (v4_to_uint h (net4_address n)) div 2 ^ host_bits4 n * 2 ^ host_bits4 n"
  using unat_clear_low [of "v4_to_uint h (net4_address n)" "host_bits4 n"] by (simp add: v4_network_def v4_netmask_uint)

lemma v4_broadcast_value:
  assumes "net4_ok n"
  shows "unat (v4_to_uint h (v4_net_broadcast h n)) = unat (v4_to_uint h (v4_network h n)) + (2 ^ host_bits4 n - 1)"
proof -
  have "NOT (mask k) XOR 0xFFFFFFFF = (mask k :: u32)" for k
  proof -
    have "(0xFFFFFFFF :: u32) = - 1" by simp
    then show ?thesis by (metis bit.xor_one_right bit.double_compl)
  qed
  then show ?thesis
    using assms by (simp add: v4_net_broadcast_def v4_netmask_uint unat_set_low v4_network_value)
qed

lemma v6_host_length [simp]: "length (v6_clear_host k bs) = length bs" "length (v6_fill_host k bs) = length bs"
  by (simp_all add: v6_clear_host_def v6_fill_host_def)

lemma v6_network_value:
  assumes "net6_ok n"
  shows "be_value (s6_addr (v6_network n)) = be_value (s6_addr (net6_address n)) div 2 ^ host_bits6 n * 2 ^ host_bits6 n"
    and "v6_ok (v6_network n)" and "scope_id (v6_network n) = scope_id (net6_address n)"
  using host_value [of "unat (net6_prefix_length n)" "s6_addr (net6_address n)"] assms
  by (simp_all add: v6_network_def v6_of_bytes_def net6_ok_def v6_ok_def)

text \<open>
  What the constructor does with a mask: it accepts the \<open>33\<close> masks of the form ones followed by zeros.
\<close>

lemma v4_mask_loop_finished:
  "v4_mask_loop bs True len = Inr len' \<Longrightarrow> bs = replicate (length bs) 0 \<and> len' = len"
  by (induction bs) (auto split: if_splits)

lemma v4_mask_loop_shape:
  assumes "v4_mask_loop bs False len = Inr len'"
  shows "bs = replicate (length bs) 255 \<or> (\<exists>k < length bs. \<exists>c \<in> set [254, 252, 248, 240, 224, 192, 128, 0].
    bs = replicate k 255 @ c # replicate (length bs - k - 1) 0)"
  using assms
proof (induction bs arbitrary: len)
  case (Cons b bs)
  show ?case
  proof (cases "b = 255")
    case True
    then consider "bs = replicate (length bs) 255" | k c where "k < length bs" "c \<in> set [254, 252, 248, 240, 224, 192, 128, 0]"
        "bs = replicate k 255 @ c # replicate (length bs - k - 1) 0"
      using Cons.IH [of "len + 8"] Cons.prems by auto
    then show ?thesis
    proof cases
      case (2 k c)
      then have "b # bs = replicate (Suc k) 255 @ c # replicate (length (b # bs) - Suc k - 1) 0" using True by simp
      then show ?thesis using 2(1,2) by (metis Suc_less_eq length_Cons)
    qed (use True in simp)
  next
    case False
    then have "b \<in> set [254, 252, 248, 240, 224, 192, 128, 0] \<and> bs = replicate (length bs) 0"
      using Cons.prems v4_mask_loop_finished [of bs] by (auto split: if_splits)
    then show ?thesis by (intro disjI2 exI [of _ 0]) auto
  qed
qed simp

definition netmask_bytes :: "u16 \<Rightarrow> u8 list" where
  "netmask_bytes len = be_bytes (if len = 0 then 0 else push_bit (32 - unat len) 0xffffffff :: u32)"

lemma v4_mask_loop_masks: "unat len \<le> 32 \<Longrightarrow> v4_mask_loop (netmask_bytes len) False 0 = Inr len"
proof -
  have "\<forall>k \<in> set [0..<33]. v4_mask_loop (netmask_bytes (of_nat k)) False 0 = Inr (of_nat k)" by code_simp
  moreover assume "unat len \<le> 32"
  then have "unat len \<in> set [0..<33]" by simp
  ultimately have "v4_mask_loop (netmask_bytes (of_nat (unat len))) False 0 = Inr (of_nat (unat len))" by blast
  then show ?thesis by simp
qed

lemma v4_mask_loop_accepts:
  assumes "v4_mask_loop bs False 0 = Inr len" "length bs = 4"
  shows "unat len \<le> 32 \<and> bs = netmask_bytes len"
proof -
  have "\<forall>k \<in> set [0..<4]. \<forall>c \<in> set [254, 252, 248, 240, 224, 192, 128, 0].
      ok_with (\<lambda>len. unat len \<le> 32 \<and> netmask_bytes len = replicate k 255 @ c # replicate (4 - k - 1) 0)
        (v4_mask_loop (replicate k 255 @ c # replicate (4 - k - 1) 0) False 0)" by code_simp
  moreover have "ok_with (\<lambda>len. unat len \<le> 32 \<and> netmask_bytes len = replicate 4 255)
      (v4_mask_loop (replicate 4 255) False 0)" by code_simp
  moreover have "bs = replicate 4 255 \<or> (\<exists>k \<in> set [0..<4]. \<exists>c \<in> set [254, 252, 248, 240, 224, 192, 128, 0].
      bs = replicate k 255 @ c # replicate (4 - k - 1) 0)"
    using v4_mask_loop_shape [OF assms(1)] assms(2) by auto
  ultimately have "ok_with (\<lambda>len. unat len \<le> 32 \<and> netmask_bytes len = bs) (v4_mask_loop bs False 0)" by blast
  then show ?thesis using assms(1) by simp
qed

lemma v4_netmask_bytes: "v4_to_bytes h (v4_netmask h n) = netmask_bytes (net4_prefix_length n)"
  by (simp add: v4_netmask_def netmask_bytes_def Let_def)

lemma network_v4_of_mask_iff:
  "network_v4_of_mask h a m = Inr n \<longleftrightarrow> net4_address n = a \<and> net4_ok n \<and> v4_netmask h n = m"
proof
  assume "network_v4_of_mask h a m = Inr n"
  then obtain len where len: "v4_mask_loop (v4_to_bytes h m) False 0 = Inr len"
    and n: "n = \<lparr>net4_address = a, net4_prefix_length = len\<rparr>"
    by (auto simp: network_v4_of_mask_def rbind_simps)
  have "unat len \<le> 32" "v4_to_bytes h m = netmask_bytes len" using v4_mask_loop_accepts [OF len] by simp_all
  moreover from this(2) have "v4_to_bytes h (v4_netmask h n) = v4_to_bytes h m" by (simp add: v4_netmask_bytes n)
  then have "v4_netmask h n = m" by (metis v4_bytes(3))
  ultimately show "net4_address n = a \<and> net4_ok n \<and> v4_netmask h n = m" by (simp add: n net4_ok_def)
next
  assume "net4_address n = a \<and> net4_ok n \<and> v4_netmask h n = m"
  then show "network_v4_of_mask h a m = Inr n"
    using v4_mask_loop_masks [of "net4_prefix_length n"]
    by (auto simp: network_v4_of_mask_def v4_netmask_bytes net4_ok_def)
qed

lemma shorter_prefix:
  assumes "s \<le> t" "a div 2 ^ s = b div 2 ^ s"
  shows "a div 2 ^ t = b div (2 ^ t :: nat)"
proof -
  have "c div 2 ^ t = c div 2 ^ s div (2 ^ (t - s) :: nat)" for c
    using assms(1) by (simp flip: div_mult2_eq power_add)
  then show ?thesis using assms(2) by metis
qed

text \<open>A block of numbers with a common prefix has two different blocks of fewer bits.\<close>

lemma two_blocks:
  fixes y :: nat
  assumes st: "s < t" and t: "t \<le> w" and y: "y < 2 ^ w"
  obtains v1 v2 where "v1 < 2 ^ w" "v2 < 2 ^ w" "v1 div 2 ^ s \<noteq> v2 div 2 ^ s" "v1 div 2 ^ t = y div 2 ^ t" "v2 div 2 ^ t = y div 2 ^ t"
proof -
  define c d :: nat where "c = y div 2 ^ t" and "d = 2 ^ (t - s)"
  have p: "(2 :: nat) ^ t = 2 ^ s * d" using st by (simp add: d_def flip: power_add)
  have w: "(2 :: nat) ^ w = 2 ^ t * 2 ^ (w - t)" using t by (simp flip: power_add)
  have "c < 2 ^ (w - t)" using y unfolding w c_def by (simp add: less_mult_imp_div_less mult.commute)
  then have "(c + 1) * 2 ^ t \<le> 2 ^ (w - t) * 2 ^ t" by (intro mult_right_mono) simp_all
  then have top: "c * 2 ^ t + 2 ^ t \<le> 2 ^ w" by (simp add: w mult.commute)
  have less: "(2 :: nat) ^ s < 2 ^ t" using st by simp
  have "c * 2 ^ t < 2 ^ w" "c * 2 ^ t + 2 ^ s < 2 ^ w" using top less by linarith+
  moreover have "(c * 2 ^ t + 2 ^ s) div 2 ^ t = c" "c * 2 ^ t div 2 ^ t = c" using less by simp_all
  moreover have "c * 2 ^ t = c * d * 2 ^ s" "c * 2 ^ t + 2 ^ s = (c * d + 1) * 2 ^ s"
    unfolding p by (simp_all add: algebra_simps)
  then have "c * 2 ^ t div 2 ^ s = c * d" "(c * 2 ^ t + 2 ^ s) div 2 ^ s = c * d + 1"
    by (metis nonzero_mult_div_cancel_right power_not_zero zero_neq_numeral)+
  ultimately show ?thesis using that [of "c * 2 ^ t" "c * 2 ^ t + 2 ^ s"] by (simp only: c_def)
qed

text \<open>The addresses of a network: those that have its network address under its prefix.\<close>

definition v4_members :: "endian \<Rightarrow> network_v4 \<Rightarrow> address_v4 set" where
  "v4_members h n = {a. v4_network h (n\<lparr>net4_address := a\<rparr>) = v4_network h n}"

definition v6_members :: "network_v6 \<Rightarrow> address_v6 set" where
  "v6_members n = {a. v6_ok a \<and> v6_network (n\<lparr>net6_address := a\<rparr>) = v6_network n}"

text \<open>
  The contract between a network and its addresses. A test for subnets that compares the prefixes as
  numbers decides inclusion of the sets of addresses.
\<close>

locale prefix_network = address_counter val zone ok width next_addr prev_addr
  for val :: "'a \<Rightarrow> nat" and zone :: "'a \<Rightarrow> 'z" and ok :: "'a \<Rightarrow> bool" and width :: nat
    and next_addr prev_addr :: "'a \<Rightarrow> 'a" +
  fixes addr :: "'n \<Rightarrow> 'a" and host_bits :: "'n \<Rightarrow> nat" and net_ok :: "'n \<Rightarrow> bool"
    and members :: "'n \<Rightarrow> 'a set" and is_subnet :: "'n \<Rightarrow> 'n \<Rightarrow> bool res"
  assumes val_onto: "v < 2 ^ width \<Longrightarrow> \<exists>a. ok a \<and> val a = v \<and> zone a = z"
    and addr_ok: "net_ok n \<Longrightarrow> ok (addr n)"
    and host_bits: "net_ok n \<Longrightarrow> host_bits n \<le> width"
    and members: "net_ok n \<Longrightarrow> a \<in> members n \<longleftrightarrow>
      ok a \<and> zone a = zone (addr n) \<and> val a div 2 ^ host_bits n = val (addr n) div 2 ^ host_bits n"
    and is_subnet: "net_ok n \<Longrightarrow> net_ok m \<Longrightarrow> is_subnet n m = Inr (host_bits n < host_bits m \<and>
      val (addr n) div 2 ^ host_bits m = val (addr m) div 2 ^ host_bits m \<and> zone (addr n) = zone (addr m))"
begin

lemma member_outside:
  assumes m: "net_ok m" and s: "s < host_bits m"
  shows "\<exists>a \<in> members m. val a div 2 ^ s \<noteq> x"
proof -
  obtain v1 v2 where v: "v1 < 2 ^ width" "v2 < 2 ^ width" "v1 div 2 ^ s \<noteq> v2 div 2 ^ s"
    "v1 div 2 ^ host_bits m = val (addr m) div 2 ^ host_bits m" "v2 div 2 ^ host_bits m = val (addr m) div 2 ^ host_bits m"
    by (rule two_blocks [OF s host_bits [OF m] val_less [OF addr_ok [OF m]]])
  obtain a b where ab: "ok a" "val a = v1" "zone a = zone (addr m)" "ok b" "val b = v2" "zone b = zone (addr m)"
    using val_onto [OF v(1), of "zone (addr m)"] val_onto [OF v(2), of "zone (addr m)"] by blast
  then have "a \<in> members m" "b \<in> members m" using v(4,5) by (simp_all add: members [OF m])
  then show ?thesis using v(3) ab(2,5) by metis
qed

lemma subnet_iff_strict_subset:
  assumes n: "net_ok n" and m: "net_ok m"
  shows "is_subnet n m = Inr (members n \<subset> members m)"
proof -
  let ?s = "host_bits n" and ?t = "host_bits m"
  have self: "addr n \<in> members n" "addr m \<in> members m" using addr_ok n m by (simp_all add: members)
  have "members n \<subset> members m"
    if st: "?s < ?t" and eq: "val (addr n) div 2 ^ ?t = val (addr m) div 2 ^ ?t" "zone (addr n) = zone (addr m)"
  proof -
    have "members n \<subseteq> members m"
    proof
      fix a assume a: "a \<in> members n"
      then have "val a div 2 ^ ?t = val (addr n) div 2 ^ ?t"
        by (intro shorter_prefix [OF less_imp_le [OF st]]) (simp add: members n)
      then show "a \<in> members m" using a eq by (simp add: members n m)
    qed
    moreover have "\<exists>a \<in> members m. a \<notin> members n"
      using member_outside [OF m st] by (auto simp: members n)
    ultimately show ?thesis by blast
  qed
  moreover have "?s < ?t \<and> val (addr n) div 2 ^ ?t = val (addr m) div 2 ^ ?t \<and> zone (addr n) = zone (addr m)"
    if sub: "members n \<subset> members m"
  proof -
    have eq: "val (addr n) div 2 ^ ?t = val (addr m) div 2 ^ ?t" "zone (addr n) = zone (addr m)"
      using sub self(1) by (auto simp: members m)
    have "members m \<subseteq> members n" if ts: "?t \<le> ?s"
    proof
      fix a assume a: "a \<in> members m"
      then have "val a div 2 ^ ?t = val (addr n) div 2 ^ ?t" using eq by (simp add: members m)
      then have "val a div 2 ^ ?s = val (addr n) div 2 ^ ?s" by (rule shorter_prefix [OF ts])
      then show "a \<in> members n" using a eq by (simp add: members n m)
    qed
    then show ?thesis using sub eq by (metis less_imp_not_less linorder_not_le psubset_subset_trans)
  qed
  ultimately show ?thesis by (auto simp: is_subnet n m)
qed

end

lemma v4_canonical_ok:
  assumes "net4_ok n"
  shows "v4_canonical h n = Inr \<lparr>net4_address = v4_network h n, net4_prefix_length = net4_prefix_length n\<rparr>"
  using assms by (simp add: v4_canonical_def network_v4_of_mask_iff net4_ok_def v4_netmask_def)

lemma v6_canonical_ok:
  "net6_ok n \<Longrightarrow> v6_canonical n = Inr \<lparr>net6_address = v6_network n, net6_prefix_length = net6_prefix_length n\<rparr>"
  by (simp add: v6_canonical_def network_v6_of_length_def net6_ok_def word_less_nat_alt)

lemma same_network: "x div 2 ^ k * 2 ^ k = y div 2 ^ k * 2 ^ k \<longleftrightarrow> x div 2 ^ k = y div (2 ^ k :: nat)"
  by simp

lemma v4_same_network:
  assumes "net4_ok m" "net4_ok n" "net4_prefix_length m = net4_prefix_length n"
  shows "v4_network h m = v4_network h n \<longleftrightarrow>
    unat (v4_to_uint h (net4_address m)) div 2 ^ host_bits4 n = unat (v4_to_uint h (net4_address n)) div 2 ^ host_bits4 n"
proof -
  have "v4_network h m = v4_network h n \<longleftrightarrow> unat (v4_to_uint h (v4_network h m)) = unat (v4_to_uint h (v4_network h n))"
    by (rule iffI) (simp_all only: v4_uint_inject flip: word_unat_eq_iff)
  then show ?thesis unfolding v4_network_value [OF assms(1)] v4_network_value [OF assms(2)] assms(3) same_network .
qed

lemma v6_same_network:
  assumes "net6_ok m" "net6_ok n" "net6_prefix_length m = net6_prefix_length n"
  shows "v6_network m = v6_network n \<longleftrightarrow> scope_id (net6_address m) = scope_id (net6_address n) \<and>
    be_value (s6_addr (net6_address m)) div 2 ^ host_bits6 n = be_value (s6_addr (net6_address n)) div 2 ^ host_bits6 n"
proof -
  have "v6_network m = v6_network n \<longleftrightarrow> scope_id (v6_network m) = scope_id (v6_network n) \<and>
      be_value (s6_addr (v6_network m)) = be_value (s6_addr (v6_network n))"
    using v6_network_value(2) [OF assms(1)] v6_network_value(2) [OF assms(2)] v6_counter.val_inject by metis
  then show ?thesis
    unfolding v6_network_value(1,3) [OF assms(1)] v6_network_value(1,3) [OF assms(2)] assms(3) same_network .
qed

lemma v4_subnet_law:
  assumes n: "net4_ok n" and m: "net4_ok m"
  shows "v4_is_subnet_of h n m = Inr (host_bits4 n < host_bits4 m \<and>
    unat (v4_to_uint h (net4_address n)) div 2 ^ host_bits4 m = unat (v4_to_uint h (net4_address m)) div 2 ^ host_bits4 m)"
proof (cases "net4_prefix_length m \<ge> net4_prefix_length n")
  case True
  then have "\<not> host_bits4 n < host_bits4 m" by (simp add: word_le_nat_alt)
  then show ?thesis using True by (simp only: v4_is_subnet_of_def) simp
next
  case False
  let ?me = "\<lparr>net4_address = net4_address n, net4_prefix_length = net4_prefix_length m\<rparr>"
  have me: "net4_ok ?me" using m by (simp add: net4_ok_def)
  have "network_v4_of_length (net4_address n) (net4_prefix_length m) = Inr ?me"
    using m by (simp add: network_v4_of_length_def net4_ok_def word_less_nat_alt)
  moreover have "host_bits4 n < host_bits4 m" using False n m by (auto simp: word_le_nat_alt net4_ok_def)
  ultimately show ?thesis
    using False v4_same_network [OF m me, of h]
    by (auto simp: v4_is_subnet_of_def v4_canonical_ok [OF m] v4_canonical_ok [OF me])
qed

lemma v6_subnet_law:
  assumes n: "net6_ok n" and m: "net6_ok m"
  shows "v6_is_subnet_of n m = Inr (host_bits6 n < host_bits6 m \<and>
    be_value (s6_addr (net6_address n)) div 2 ^ host_bits6 m = be_value (s6_addr (net6_address m)) div 2 ^ host_bits6 m \<and>
    scope_id (net6_address n) = scope_id (net6_address m))"
proof (cases "net6_prefix_length m \<ge> net6_prefix_length n")
  case True
  then have "\<not> host_bits6 n < host_bits6 m" by (simp add: word_le_nat_alt)
  then show ?thesis using True by (simp only: v6_is_subnet_of_def) simp
next
  case False
  let ?me = "\<lparr>net6_address = net6_address n, net6_prefix_length = net6_prefix_length m\<rparr>"
  have me: "net6_ok ?me" using m n by (simp add: net6_ok_def)
  have "network_v6_of_length (net6_address n) (net6_prefix_length m) = Inr ?me"
    using m by (simp add: network_v6_of_length_def net6_ok_def word_less_nat_alt)
  moreover have "host_bits6 n < host_bits6 m" using False n m by (auto simp: word_le_nat_alt net6_ok_def)
  ultimately show ?thesis
    using False v6_same_network [OF m me]
    by (auto simp: v6_is_subnet_of_def v6_canonical_ok [OF m] v6_canonical_ok [OF me] v6_net_eq_def
        v6_eq_iff [OF v6_network_value(2) [OF m] v6_network_value(2) [OF me]])
qed

lemma length_v4_onto: "v < 2 ^ 32 \<Longrightarrow> \<exists>a. unat (v4_to_uint h a) = v"
  by (intro exI [of _ "v4_of_uint h (of_nat v)"]) (simp add: unat_of_nat_small)

lemma be_value_onto: "v < 256 ^ n \<Longrightarrow> \<exists>bs. length bs = n \<and> be_value bs = v"
proof (induction n arbitrary: v)
  case (Suc n)
  have "v div 256 < 256 ^ n" using Suc.prems by (simp add: less_mult_imp_div_less mult.commute)
  then obtain bs where bs: "length bs = n" "be_value bs = v div 256" using Suc.IH by blast
  have "unat (of_nat (v mod 256) :: u8) = v mod 256" by (rule unat_of_nat_small) simp
  then show ?case using bs by (intro exI [of _ "bs @ [of_nat (v mod 256)]"]) simp
qed simp

interpretation v4_networks: prefix_network "\<lambda>a. unat (v4_to_uint h a)" "\<lambda>a. ()" "\<lambda>a. True" 32 "v4_next h" "v4_prev h"
  net4_address host_bits4 net4_ok "v4_members h" "v4_is_subnet_of h" for h
proof
  show "\<exists>a. True \<and> unat (v4_to_uint h a) = v \<and> () = z" if "v < 2 ^ 32" for v z
    using length_v4_onto [OF that] by simp
  show "a \<in> v4_members h n \<longleftrightarrow> True \<and> () = () \<and>
      unat (v4_to_uint h a) div 2 ^ host_bits4 n = unat (v4_to_uint h (net4_address n)) div 2 ^ host_bits4 n"
    if "net4_ok n" for n a
    using v4_same_network [of "n\<lparr>net4_address := a\<rparr>" n h] that by (simp add: v4_members_def net4_ok_def)
qed (simp_all add: v4_subnet_law)

interpretation v6_networks: prefix_network "\<lambda>a. be_value (s6_addr a)" scope_id v6_ok 128 v6_next v6_prev
  net6_address host_bits6 net6_ok v6_members v6_is_subnet_of
proof
  show "\<exists>a. v6_ok a \<and> be_value (s6_addr a) = v \<and> scope_id a = z" if v: "v < 2 ^ 128" for v z
  proof -
    have "(256 :: nat) ^ 16 = 2 ^ 128" by simp
    then obtain bs where "length bs = 16" "be_value bs = v" using be_value_onto [of v 16] v by (auto simp only:)
    then show ?thesis by (intro exI [of _ "v6_of_bytes bs z"]) (simp add: v6_of_bytes_def v6_ok_def)
  qed
  show "a \<in> v6_members n \<longleftrightarrow> v6_ok a \<and> scope_id a = scope_id (net6_address n) \<and>
      be_value (s6_addr a) div 2 ^ host_bits6 n = be_value (s6_addr (net6_address n)) div 2 ^ host_bits6 n"
    if "net6_ok n" for n a
    using v6_same_network [of "n\<lparr>net6_address := a\<rparr>" n] that by (auto simp: v6_members_def net6_ok_def)
qed (simp_all add: v6_subnet_law net6_ok_def)

section \<open>Loops over hosts\<close>

lemma between_multiples: "x div 2 ^ k = c \<longleftrightarrow> c * 2 ^ k \<le> x \<and> x < c * 2 ^ k + (2 :: nat) ^ k"
proof -
  have "x div 2 ^ k = c \<longleftrightarrow> c \<le> x div 2 ^ k \<and> x div 2 ^ k < c + 1" by auto
  also have "\<dots> \<longleftrightarrow> c * 2 ^ k \<le> x \<and> x < (c + 1) * 2 ^ k"
    by (simp only: less_eq_div_iff_mult_less_eq div_less_iff_less_mult zero_less_power zero_less_numeral)
  finally show ?thesis by (simp add: add.commute)
qed

lemma v4_members_between:
  assumes "net4_ok n"
  shows "v4_members h n = {x. unat (v4_to_uint h (v4_network h n)) \<le> unat (v4_to_uint h x) \<and>
    unat (v4_to_uint h x) \<le> unat (v4_to_uint h (v4_net_broadcast h n))}"
proof -
  have p: "(2 :: nat) ^ host_bits4 n > 0" by simp
  have "x \<in> v4_members h n \<longleftrightarrow> unat (v4_to_uint h (v4_network h n)) \<le> unat (v4_to_uint h x) \<and>
      unat (v4_to_uint h x) < unat (v4_to_uint h (v4_network h n)) + 2 ^ host_bits4 n" for x
    unfolding v4_networks.members [OF assms] between_multiples v4_network_value [OF assms] by (simp only: simp_thms)
  then show ?thesis unfolding v4_broadcast_value [OF assms] using p by (intro set_eqI) (simp only: mem_Collect_eq, linarith)
qed

lemma v4_single_host:
  "\<exists>xs. visits (v4_next h) a (v4_of_uint h (v4_to_uint h a + 1)) = Some xs \<and>
    sorted_wrt (\<lambda>x y. unat (v4_to_uint h x) < unat (v4_to_uint h y)) xs \<and> set xs = {a}"
proof -
  let ?v = "\<lambda>x. unat (v4_to_uint h x)" and ?b = "v4_of_uint h (v4_to_uint h a + 1)"
  have inj: "?v x = ?v a \<longleftrightarrow> x = a" for x by (metis unsigned_word_eqI v4_uint_inject)
  have b: "?v ?b = (?v a + 1) mod 2 ^ 32" by (simp add: unat_word_ariths)
  have a: "?v a < 2 ^ 32" by (rule v4_counter.val_less) simp
  show ?thesis
  proof (cases "?v a + 1 < 2 ^ 32")
    case True
    then have vb: "?v ?b = ?v a + 1" unfolding b by (rule mod_less)
    have "{x. ?v a \<le> ?v x \<and> ?v x < ?v a + 1} = {a}" by (auto simp flip: inj)
    then show ?thesis using v4_counter.visits_between [where h = h and a = a and b = ?b] unfolding vb by simp
  next
    case False
    then have va: "?v a = 2 ^ 32 - 1" using a by linarith
    have "?v x < 2 ^ 32" for x by (rule v4_counter.val_less) simp
    then have "?v a \<le> ?v x \<longleftrightarrow> ?v x = ?v a" for x unfolding va by (metis One_nat_def Suc_pred eq_iff less_Suc_eq_le zero_less_numeral zero_less_power)
    then have "{x. ?v a \<le> ?v x} = {a}" by (simp add: inj)
    moreover have "?v ?b = 0" "?v a > 0" unfolding b va by simp_all
    ultimately show ?thesis using v4_counter.visits_to_end [where h = h and a = a and b = ?b, OF TrueI TrueI refl] by (simp only: simp_thms)
  qed
qed

lemma v4_hosts_visited:
  assumes n: "net4_ok n"
  shows "\<exists>xs. visits (v4_next h) (range_begin (v4_hosts h n)) (range_end (v4_hosts h n)) = Some xs \<and>
    sorted_wrt (\<lambda>x y. unat (v4_to_uint h x) < unat (v4_to_uint h y)) xs \<and> set xs =
      (if v4_is_host n then {net4_address n} else v4_members h n - {v4_network h n, v4_net_broadcast h n})"
proof (cases "v4_is_host n")
  case True
  then show ?thesis using v4_single_host [of h "net4_address n"] by (simp add: v4_hosts_def)
next
  case False
  let ?v = "\<lambda>x. unat (v4_to_uint h x)"
  let ?first = "v4_of_uint h (v4_to_uint h (v4_network h n) + 1)" and ?last = "v4_net_broadcast h n"
  have inj: "?v x = ?v y \<longleftrightarrow> x = y" for x y by (metis unsigned_word_eqI v4_uint_inject)
  have "unat (net4_prefix_length n) \<noteq> 32" using False by (simp add: v4_is_host_def word_unat_eq_iff)
  then have "(2 :: nat) ^ host_bits4 n \<ge> 2" using n self_le_power [of "2 :: nat" "host_bits4 n"] by (simp add: net4_ok_def)
  then have le: "?v (v4_network h n) + 1 \<le> ?v ?last" unfolding v4_broadcast_value [OF n] by linarith
  have "?v ?last < 2 ^ 32" by (rule v4_counter.val_less) simp
  then have "?v (v4_network h n) + 1 < 2 ^ 32" using le by linarith
  then have first: "?v ?first = ?v (v4_network h n) + 1" by (simp add: unat_add_small)
  have "{x. ?v (v4_network h n) + 1 \<le> ?v x \<and> ?v x < ?v ?last} = v4_members h n - {v4_network h n, ?last}"
  proof (intro set_eqI)
    fix x
    have "?v (v4_network h n) + 1 \<le> ?v x \<and> ?v x < ?v ?last \<longleftrightarrow>
        (?v (v4_network h n) \<le> ?v x \<and> ?v x \<le> ?v ?last) \<and> ?v x \<noteq> ?v (v4_network h n) \<and> ?v x \<noteq> ?v ?last"
      by linarith
    then show "x \<in> {x. ?v (v4_network h n) + 1 \<le> ?v x \<and> ?v x < ?v ?last} \<longleftrightarrow> x \<in> v4_members h n - {v4_network h n, ?last}"
      unfolding v4_members_between [OF n] inj by simp
  qed
  moreover have "v4_hosts h n = \<lparr>range_begin = ?first, range_end = ?last\<rparr>" using False by (simp add: v4_hosts_def)
  ultimately show ?thesis
    using v4_counter.visits_between [where h = h and a = ?first and b = ?last, OF TrueI TrueI refl] le False
    unfolding first by simp
qed

lemma v6_members_between:
  assumes "net6_ok n"
  shows "v6_members n = {x. v6_ok x \<and> scope_id x = scope_id (net6_address n) \<and>
    be_value (s6_addr (v6_network n)) \<le> be_value (s6_addr x) \<and>
    be_value (s6_addr x) < be_value (s6_addr (v6_network n)) + 2 ^ host_bits6 n}"
  by (intro set_eqI) (simp only: v6_networks.members [OF assms] between_multiples v6_network_value(1) [OF assms] mem_Collect_eq)

text \<open>The end of the hosts is the address behind the last one, which may be zero.\<close>

lemma v6_hosts_range:
  assumes n: "net6_ok n"
  shows "range_begin (v6_hosts n) = v6_network n" and "v6_ok (range_end (v6_hosts n))"
    and "scope_id (range_end (v6_hosts n)) = scope_id (net6_address n)"
    and "be_value (s6_addr (range_end (v6_hosts n))) = (be_value (s6_addr (v6_network n)) + 2 ^ host_bits6 n) mod 2 ^ 128"
proof -
  let ?l = "v6_of_bytes (v6_fill_host (unat (net6_prefix_length n)) (s6_addr (net6_address n))) (scope_id (net6_address n))"
  have len: "length (s6_addr (net6_address n)) = 16" "unat (net6_prefix_length n) \<le> 8 * length (s6_addr (net6_address n))"
    using n by (simp_all add: net6_ok_def v6_ok_def)
  have l: "v6_ok ?l" using len(1) by simp
  show "range_begin (v6_hosts n) = v6_network n" by (simp add: v6_hosts_def v6_network_def Let_def)
  have e: "range_end (v6_hosts n) = v6_next ?l" by (simp add: v6_hosts_def Let_def)
  show "v6_ok (range_end (v6_hosts n))" "scope_id (range_end (v6_hosts n)) = scope_id (net6_address n)"
    unfolding e v6_next_value(5) using v6_next_value(3) [OF l] by (simp_all add: v6_of_bytes_def)
  have "(2 :: nat) ^ host_bits6 n > 0" by simp
  moreover have "be_value (s6_addr ?l) = be_value (s6_addr (v6_network n)) + (2 ^ host_bits6 n - 1)"
    using host_value [OF len(2), THEN conjunct2] unfolding v6_network_value(1) [OF n] by (simp add: v6_of_bytes_def len(1))
  ultimately have "be_value (s6_addr ?l) + 1 = be_value (s6_addr (v6_network n)) + 2 ^ host_bits6 n" by linarith
  then show "be_value (s6_addr (range_end (v6_hosts n))) = (be_value (s6_addr (v6_network n)) + 2 ^ host_bits6 n) mod 2 ^ 128"
    unfolding e v6_next_value(1) [OF l] by (rule arg_cong)
qed

lemma v6_network_top:
  assumes n: "net6_ok n"
  shows "be_value (s6_addr (v6_network n)) + 2 ^ host_bits6 n \<le> 2 ^ 128"
proof -
  let ?k = "host_bits6 n" and ?c = "be_value (s6_addr (net6_address n)) div 2 ^ host_bits6 n"
  have w: "(2 :: nat) ^ 128 = 2 ^ ?k * 2 ^ (128 - ?k)" by (simp flip: power_add)
  have "v6_ok (net6_address n)" using n by (simp add: net6_ok_def)
  from v6_counter.val_less [OF this] have "?c < 2 ^ (128 - ?k)"
    unfolding w by (simp add: less_mult_imp_div_less mult.commute)
  then have "(?c + 1) * 2 ^ ?k \<le> 2 ^ (128 - ?k) * 2 ^ ?k" by (intro mult_right_mono) simp_all
  then show ?thesis unfolding v6_network_value(1) [OF n] w by (simp add: mult.commute)
qed

lemma v6_hosts_visited:
  assumes n: "net6_ok n"
  shows "\<exists>xs. visits v6_next (range_begin (v6_hosts n)) (range_end (v6_hosts n)) = Some xs \<and>
    sorted_wrt (\<lambda>x y. be_value (s6_addr x) < be_value (s6_addr y)) xs \<and>
    set xs = (if net6_prefix_length n = 0 then {} else v6_members n)"
proof -
  let ?v = "\<lambda>x. be_value (s6_addr x)"
  let ?b = "v6_network n" and ?e = "range_end (v6_hosts n)"
  note ok = v6_network_value(2) [OF n] v6_hosts_range(2) [OF n]
  have z: "scope_id ?b = scope_id ?e" unfolding v6_hosts_range(3) [OF n] v6_network_value(3) [OF n] ..
  note e = v6_hosts_range(4) [OF n] and top = v6_network_top [OF n]
  have p: "(2 :: nat) ^ host_bits6 n > 0" by simp
  note members = v6_members_between [OF n, folded v6_network_value(3) [OF n]]
  show ?thesis
  proof (cases "?v ?b + 2 ^ host_bits6 n = 2 ^ 128")
    case True
    then have e0: "?v ?e = 0" unfolding e by simp
    show ?thesis
    proof (cases "net6_prefix_length n = 0")
      case len: True
      then have "?v ?b = 0" using True by simp
      then have "visits v6_next ?b ?e = Some []"
        using v6_counter.visits_between [OF ok z] e0 by auto
      then show ?thesis using len unfolding v6_hosts_range(1) [OF n] by simp
    next
      case len: False
      then have "unat (net6_prefix_length n) > 0" by (simp add: unat_gt_0)
      then have "(2 :: nat) ^ host_bits6 n < 2 ^ 128" using n by (intro power_strict_increasing) (simp_all add: net6_ok_def)
      then have "?v ?b > 0" using True by linarith
      moreover have "v6_members n = {x. v6_ok x \<and> scope_id x = scope_id ?b \<and> ?v ?b \<le> ?v x}"
        unfolding members True using v6_counter.val_less by blast
      ultimately show ?thesis
        using v6_counter.visits_to_end [OF ok z e0] len unfolding v6_hosts_range(1) [OF n] by simp
    qed
  next
    case False
    then have e1: "?v ?e = ?v ?b + 2 ^ host_bits6 n" unfolding e using top by (intro mod_less) linarith
    have "net6_prefix_length n \<noteq> 0"
    proof
      assume "net6_prefix_length n = 0"
      then have "?v ?b + 2 ^ host_bits6 n \<ge> 2 ^ 128" by simp
      then show False using False top by linarith
    qed
    then show ?thesis using v6_counter.visits_between [OF ok z] unfolding e1 v6_hosts_range(1) [OF n] members by simp
  qed
qed

text \<open>
  The other way to use the hosts, \<open>find\<close>, compares with the end of the range. For a network at the end of the
  address space this is zero, and no address is found, although the loop visits all of them.
\<close>

lemma v6_find_misses_top:
  assumes n: "net6_ok n" and top: "be_value (s6_addr (v6_network n)) + 2 ^ host_bits6 n = 2 ^ 128"
    and scope: "scope_id (net6_address n) = 0" and x: "v6_ok x"
  shows "v6_range_find x (v6_hosts n) = range_end (v6_hosts n)"
proof -
  have "be_value (s6_addr (range_end (v6_hosts n))) = 0" unfolding v6_hosts_range(4) [OF n] top by simp
  then have "\<not> v6_less x (range_end (v6_hosts n))"
    using v6_less_iff [OF x v6_hosts_range(2) [OF n]] v6_hosts_range(3) [OF n] scope by simp
  then show ?thesis by (simp add: v6_range_find_def)
qed

section \<open>Properties\<close>

text \<open>
  A network can be given by its mask: the constructor from an address and a mask accepts
  a mask if and only if it is the netmask of some prefix, and gives the network with this prefix; the mask
  of every network is accepted and gives the network back.
\<close>

theorem netmask_roundtrip:
  "(network_v4_of_mask h a m = Inr n \<longleftrightarrow> net4_address n = a \<and> net4_ok n \<and> v4_netmask h n = m) \<and>
   (net4_ok k \<longrightarrow> network_v4_of_mask h (net4_address k) (v4_netmask h k) = Inr k)"
  by (simp add: network_v4_of_mask_iff)

theorem netmask_roundtrip_witness:
  "network_v4_of_mask LittleEndian v4_any (v4_of_uint LittleEndian 0xFFFFF000) =
     Inr \<lparr>net4_address = v4_any, net4_prefix_length = 20\<rparr>"
proof -
  let ?n = "\<lparr>net4_address = v4_any, net4_prefix_length = 20\<rparr> :: network_v4"
  have "net4_ok ?n" by (simp add: net4_ok_def)
  moreover have "v4_netmask LittleEndian ?n = v4_of_uint LittleEndian 0xFFFFF000" by code_simp
  ultimately show ?thesis using netmask_roundtrip [of LittleEndian v4_any _ ?n ?n] by simp
qed

text \<open>
  C33: equivalence. The test for a subnet, which compares canonical networks, decides strict inclusion of
  the sets of addresses, for both versions; for version 6 these are addresses with the same scope.
\<close>

theorem subnet_test_is_inclusion:
  assumes "net4_ok n" "net4_ok m" "net6_ok n'" "net6_ok m'"
  shows "v4_is_subnet_of h n m = Inr (v4_members h n \<subset> v4_members h m) \<and>
    v6_is_subnet_of n' m' = Inr (v6_members n' \<subset> v6_members m')"
  using assms by (simp only: v4_networks.subnet_iff_strict_subset v6_networks.subnet_iff_strict_subset)

definition demo_net4 :: "u32 \<Rightarrow> u16 \<Rightarrow> network_v4" where
  "demo_net4 w len = \<lparr>net4_address = v4_of_uint BigEndian w, net4_prefix_length = len\<rparr>"

definition demo_net6 :: "u8 \<Rightarrow> u16 \<Rightarrow> network_v6" where
  "demo_net6 b len = \<lparr>net6_address = v6_of_bytes (b # replicate 15 0) 0, net6_prefix_length = len\<rparr>"

lemma demo_net_ok: "unat len \<le> 32 \<Longrightarrow> net4_ok (demo_net4 w len)" "unat len \<le> 128 \<Longrightarrow> net6_ok (demo_net6 b len)"
  by (simp_all add: demo_net4_def demo_net6_def net4_ok_def net6_ok_def v6_ok_def v6_of_bytes_def)

theorem subnet_test_is_inclusion_witness:
  "v4_members BigEndian (demo_net4 0x0A010203 24) \<subset> v4_members BigEndian (demo_net4 0x0A000000 8)"
proof -
  have ok: "net4_ok (demo_net4 0x0A010203 24)" "net4_ok (demo_net4 0x0A000000 8)" "net6_ok (demo_net6 0xFE 16)"
    by (simp_all add: demo_net_ok)
  have "v4_is_subnet_of BigEndian (demo_net4 0x0A010203 24) (demo_net4 0x0A000000 8) = Inr True" by code_simp
  then show ?thesis
    using subnet_test_is_inclusion [OF ok(1,2) ok(3,3), of BigEndian] by simp
qed

text \<open>
  C34: functional. A loop over the hosts of a network returns; it visits in order, each once, the addresses
  of the network, for version 4 without the address of the network and the broadcast address, unless
  the prefix is the whole address. For version 6 it visits nothing if the prefix is empty.
\<close>

theorem hosts_are_visited_once:
  assumes n: "net4_ok n" and m: "net6_ok m"
  shows "(\<exists>xs. visits (v4_next h) (range_begin (v4_hosts h n)) (range_end (v4_hosts h n)) = Some xs \<and>
      sorted_wrt (v4_less h) xs \<and> set xs =
        (if v4_is_host n then {net4_address n} else v4_members h n - {v4_network h n, v4_net_broadcast h n})) \<and>
    (\<exists>ys. visits v6_next (range_begin (v6_hosts m)) (range_end (v6_hosts m)) = Some ys \<and>
      sorted_wrt v6_less ys \<and> set ys = (if net6_prefix_length m = 0 then {} else v6_members m))"
proof
  have "v4_less h = (\<lambda>x y. unat (v4_to_uint h x) < unat (v4_to_uint h y))"
    by (intro ext) (simp add: v4_less_def word_less_nat_alt)
  then show "\<exists>xs. visits (v4_next h) (range_begin (v4_hosts h n)) (range_end (v4_hosts h n)) = Some xs \<and>
      sorted_wrt (v4_less h) xs \<and> set xs =
        (if v4_is_host n then {net4_address n} else v4_members h n - {v4_network h n, v4_net_broadcast h n})"
    using v4_hosts_visited [OF n, of h] by simp
  from v6_hosts_visited [OF m] obtain ys where ys: "visits v6_next (range_begin (v6_hosts m)) (range_end (v6_hosts m)) = Some ys"
    "sorted_wrt (\<lambda>x y. be_value (s6_addr x) < be_value (s6_addr y)) ys"
    "set ys = (if net6_prefix_length m = 0 then {} else v6_members m)" by blast
  then have "list_all v6_ok ys" by (auto simp: v6_members_def list_all_iff split: if_splits)
  then have "sorted_wrt v6_less ys"
    using ys(2) by (intro sorted_wrt_mono_rel [OF _ ys(2)]) (simp add: list_all_iff v6_less_iff)
  then show "\<exists>ys. visits v6_next (range_begin (v6_hosts m)) (range_end (v6_hosts m)) = Some ys \<and>
      sorted_wrt v6_less ys \<and> set ys = (if net6_prefix_length m = 0 then {} else v6_members m)"
    using ys by blast
qed

theorem hosts_are_visited_once_witness:
  "(\<exists>xs. visits (v4_next BigEndian) (range_begin (v4_hosts BigEndian (demo_net4 0x0A000004 30)))
      (range_end (v4_hosts BigEndian (demo_net4 0x0A000004 30))) = Some xs \<and>
     set xs = v4_members BigEndian (demo_net4 0x0A000004 30) - {v4_of_uint BigEndian 0x0A000004, v4_of_uint BigEndian 0x0A000007}) \<and>
   (\<exists>ys. visits v6_next (range_begin (v6_hosts (demo_net6 0xFF 8))) (range_end (v6_hosts (demo_net6 0xFF 8))) = Some ys \<and>
     set ys = v6_members (demo_net6 0xFF 8))"
proof -
  have ok: "net4_ok (demo_net4 0x0A000004 30)" "net6_ok (demo_net6 0xFF 8)" by (simp_all add: demo_net_ok)
  have "\<not> v4_is_host (demo_net4 0x0A000004 30)" "net6_prefix_length (demo_net6 0xFF 8) \<noteq> 0"
    by (simp_all add: v4_is_host_def demo_net4_def demo_net6_def)
  moreover have "v4_network BigEndian (demo_net4 0x0A000004 30) = v4_of_uint BigEndian 0x0A000004"
    "v4_net_broadcast BigEndian (demo_net4 0x0A000004 30) = v4_of_uint BigEndian 0x0A000007" by code_simp+
  ultimately show ?thesis using hosts_are_visited_once [OF ok, of BigEndian] by auto
qed

text \<open>
  Both kinds of \<open>find\<close> fail when the range ends at the highest address: for the multicast addresses of
  version 6, and for the one host of the network of the broadcast address of version 4.
\<close>

lemma find_misses_examples:
  "v6_ok (v6_of_bytes (replicate 15 0xFF @ [1]) 0) \<and>
   v6_range_find (v6_of_bytes (replicate 15 0xFF @ [1]) 0) (v6_hosts (demo_net6 0xFF 8)) = v6_any \<and>
   v4_range_find BigEndian (v4_broadcast BigEndian) (v4_hosts BigEndian (demo_net4 0xFFFFFFFF 32)) = v4_any"
  by code_simp

end
