(* ===== verification/IpText.thy ===== *)
theory IpText
  imports IpNetworks
begin

text \<open>
  The texts of addresses and networks: \<open>inet_ntop\<close> and \<open>inet_pton\<close> of \<^verbatim>\<open>asio/detail/impl/socket_ops.ipp\<close>, the
  \<open>to_string\<close> and \<open>make_...\<close> functions of \<^verbatim>\<open>asio/ip/\<close>. The functions of the C library of the same names and
  the names of network interfaces are the parameter \<open>inet_library\<close>; \<open>atoi\<close> is modelled.
\<close>

section \<open>The C library\<close>

text \<open>
  \<open>lib_ntop\<close> gets the family (whether it is version 6), the bytes and the size of the destination, and gives
  the text and \<open>errno\<close>; \<open>lib_pton\<close> gives its result, the bytes written and \<open>errno\<close>.
\<close>

record inet_library =
  lib_ntop :: "bool \<Rightarrow> u8 list \<Rightarrow> nat \<Rightarrow> string option \<times> int"
  lib_pton :: "bool \<Rightarrow> string \<Rightarrow> int \<times> u8 list \<times> int"
  lib_indextoname :: "u32 \<Rightarrow> string option"
  lib_nametoindex :: "string \<Rightarrow> u32"

definition is_digit :: "char \<Rightarrow> bool" where
  "is_digit c \<longleftrightarrow> 48 \<le> (of_char c :: nat) \<and> (of_char c :: nat) \<le> 57"

definition is_space :: "char \<Rightarrow> bool" where
  "is_space c \<longleftrightarrow> (of_char c :: nat) = 32 \<or> 9 \<le> (of_char c :: nat) \<and> (of_char c :: nat) \<le> 13"

text \<open>A number that is no \<open>int\<close> is undefined behaviour.\<close>

definition atoi :: "string \<Rightarrow> int res" where
  "atoi s =
     (let s = dropWhile is_space s;
          (negative, s) = (case s of c # cs \<Rightarrow> if c = CHR ''-'' then (True, cs) else if c = CHR ''+'' then (False, cs) else (False, s)
                           | [] \<Rightarrow> (False, s));
          v = int (undec 0 (takeWhile is_digit s));
          v = (if negative then - v else v)
      in if - (2 ^ 31) \<le> v \<and> v < 2 ^ 31 then Inr v else Inl UndefinedValue)"

section \<open>socket_ops\<close>

definition max_addr_v4_str_len :: nat where "max_addr_v4_str_len = 16"
definition max_addr_v6_str_len :: nat where "max_addr_v6_str_len = 46 + 1 + 16"

text \<open>Addresses whose scope is an interface.\<close>

definition is_link_local_bytes :: "u8 list \<Rightarrow> bool" where
  "is_link_local_bytes bytes \<longleftrightarrow> bytes ! 0 = 0xfe \<and> bytes ! 1 AND 0xc0 = 0x80"

definition is_multicast_link_local_bytes :: "u8 list \<Rightarrow> bool" where
  "is_multicast_link_local_bytes bytes \<longleftrightarrow> bytes ! 0 = 0xff \<and> bytes ! 1 AND 0x0f = 0x02"

text \<open>The name is written behind the percent sign of an array of \<open>22\<close> characters and appended to \<open>dest\<close>.\<close>

definition inet_ntop :: "inet_library \<Rightarrow> bool \<Rightarrow> u8 list \<Rightarrow> nat \<Rightarrow> u32 \<Rightarrow> (string option \<times> sys_error) res" where
  "inet_ntop L is_v6 src len scope =
     (let (result, errno) = lib_ntop L is_v6 src len;
          ec = get_last_error no_error errno True;
          ec = (if result = None \<and> ec_value ec = 0 then invalid_argument else ec)
      in case result of
        None \<Rightarrow> Inr (None, ec)
      | Some dest \<Rightarrow>
          if is_v6 \<and> scope \<noteq> 0 then
            let name =
              (if \<not> is_link_local_bytes src \<and> \<not> is_multicast_link_local_bytes src then to_string_u32 scope
               else case lib_indextoname L scope of None \<Rightarrow> to_string_u32 scope | Some n \<Rightarrow> n)
            in rbind (check (1 + length name + 1 \<le> 22) OutOfBounds) (\<lambda>_.
               rbind (check (length dest + 1 + length name + 1 \<le> len) OutOfBounds) (\<lambda>_.
               Inr (Some (dest @ ''%'' @ name), ec)))
          else Inr (Some dest, ec))"

text \<open>The result, the bytes, the scope and the error.\<close>

definition inet_pton :: "inet_library \<Rightarrow> bool \<Rightarrow> string \<Rightarrow> (int \<times> u8 list \<times> u64 \<times> sys_error) res" where
  "inet_pton L is_v6 src =
     (let src_buf = takeWhile (\<lambda>c. c \<noteq> CHR ''%'') src;
          if_name = (if is_v6 then dropWhile (\<lambda>c. c \<noteq> CHR ''%'') src else [])
      in if if_name \<noteq> [] \<and> length src_buf > max_addr_v6_str_len then Inr (0, [], 0, invalid_argument)
         else
           let (result, dest, errno) = lib_pton L is_v6 (if if_name \<noteq> [] then src_buf else src);
               ec = get_last_error no_error errno True;
               ec = (if result \<le> 0 \<and> ec_value ec = 0 then invalid_argument else ec)
           in if result > 0 \<and> if_name \<noteq> [] then
                let scope = (if is_link_local_bytes dest \<or> is_multicast_link_local_bytes dest
                             then ucast (lib_nametoindex L (tl if_name)) else 0)
                in if scope = 0 then rbind (atoi (tl if_name)) (\<lambda>n. Inr (result, dest, word_of_int n, ec))
                   else Inr (result, dest, scope, ec)
              else Inr (result, dest, 0, ec))"

section \<open>Addresses\<close>

definition throw_error :: "sys_error \<Rightarrow> unit res" where
  "throw_error ec = check (ec_value ec = 0) SystemError"

text \<open>A null pointer that is returned as a string is undefined.\<close>

definition text_or_throw :: "string option \<times> sys_error \<Rightarrow> string res" where
  "text_or_throw r = (case r of (Some s, ec) \<Rightarrow> Inr s | (None, ec) \<Rightarrow> rbind (throw_error ec) (\<lambda>_. Inl NullDeref))"

definition v4_to_string :: "inet_library \<Rightarrow> endian \<Rightarrow> address_v4 \<Rightarrow> string res" where
  "v4_to_string L h a = rbind (inet_ntop L False (mem_of h (s_addr a)) max_addr_v4_str_len 0) text_or_throw"

definition v6_to_string :: "inet_library \<Rightarrow> address_v6 \<Rightarrow> string res" where
  "v6_to_string L a = rbind (inet_ntop L True (s6_addr a) max_addr_v6_str_len (scope_id a)) text_or_throw"

definition make_address_v4_ec :: "inet_library \<Rightarrow> endian \<Rightarrow> string \<Rightarrow> (address_v4 \<times> sys_error) res" where
  "make_address_v4_ec L h str =
     rbind (inet_pton L False (c_str str)) (\<lambda>(result, bytes, scope, ec).
     Inr (if result \<le> 0 then (v4_any, ec) else (v4_of_bytes h bytes, ec)))"

definition make_address_v4 :: "inet_library \<Rightarrow> endian \<Rightarrow> string \<Rightarrow> address_v4 res" where
  "make_address_v4 L h str = rbind (make_address_v4_ec L h str) (\<lambda>(addr, ec). rbind (throw_error ec) (\<lambda>_. Inr addr))"

definition make_address_v6_ec :: "inet_library \<Rightarrow> string \<Rightarrow> (address_v6 \<times> sys_error) res" where
  "make_address_v6_ec L str =
     rbind (inet_pton L True (c_str str)) (\<lambda>(result, bytes, scope, ec).
     Inr (if result \<le> 0 then (v6_any, ec) else (v6_of_bytes bytes (ucast scope), ec)))"

definition make_address_v6 :: "inet_library \<Rightarrow> string \<Rightarrow> address_v6 res" where
  "make_address_v6 L str = rbind (make_address_v6_ec L str) (\<lambda>(addr, ec). rbind (throw_error ec) (\<lambda>_. Inr addr))"

section \<open>Networks\<close>

definition network_v4_to_string :: "inet_library \<Rightarrow> endian \<Rightarrow> network_v4 \<Rightarrow> string res" where
  "network_v4_to_string L h n =
     rbind (v4_to_string L h (net4_address n)) (\<lambda>s. Inr (s @ ''/'' @ dec_nat (unat (net4_prefix_length n))))"

definition network_v6_to_string :: "inet_library \<Rightarrow> network_v6 \<Rightarrow> string res" where
  "network_v6_to_string L n =
     rbind (v6_to_string L (net6_address n)) (\<lambda>s. Inr (s @ ''/'' @ dec_nat (unat (net6_prefix_length n))))"

definition make_network_v4_ec :: "inet_library \<Rightarrow> endian \<Rightarrow> string \<Rightarrow> (network_v4 \<times> sys_error) res" where
  "make_network_v4_ec L h str =
     (let name = takeWhile (\<lambda>c. c \<noteq> CHR ''/'') str;
          rest = dropWhile (\<lambda>c. c \<noteq> CHR ''/'') str
      in if rest = [] then Inr (network_v4_default, invalid_argument)
         else if length rest = 1 then Inr (network_v4_default, invalid_argument)
         else if \<not> list_all is_digit (tl rest) then Inr (network_v4_default, invalid_argument)
         else
           rbind (make_address_v4_ec L h name) (\<lambda>(addr, ec).
           if ec_value ec \<noteq> 0 then Inr (network_v4_default, ec)
           else
             rbind (atoi (c_str (tl rest))) (\<lambda>prefix_len.
             if prefix_len < 0 \<or> prefix_len > 32 then Inr (network_v4_default, invalid_argument)
             else rbind (network_v4_of_length addr (word_of_int prefix_len)) (\<lambda>n. Inr (n, ec)))))"

definition make_network_v4 :: "inet_library \<Rightarrow> endian \<Rightarrow> string \<Rightarrow> network_v4 res" where
  "make_network_v4 L h str = rbind (make_network_v4_ec L h str) (\<lambda>(n, ec). rbind (throw_error ec) (\<lambda>_. Inr n))"

definition make_network_v6_ec :: "inet_library \<Rightarrow> string \<Rightarrow> (network_v6 \<times> sys_error) res" where
  "make_network_v6_ec L str =
     (let name = takeWhile (\<lambda>c. c \<noteq> CHR ''/'') str;
          rest = dropWhile (\<lambda>c. c \<noteq> CHR ''/'') str
      in if rest = [] then Inr (network_v6_default, invalid_argument)
         else if length rest = 1 then Inr (network_v6_default, invalid_argument)
         else if \<not> list_all is_digit (tl rest) then Inr (network_v6_default, invalid_argument)
         else
           rbind (make_address_v6_ec L name) (\<lambda>(addr, ec).
           if ec_value ec \<noteq> 0 then Inr (network_v6_default, ec)
           else
             rbind (atoi (c_str (tl rest))) (\<lambda>prefix_len.
             if prefix_len < 0 \<or> prefix_len > 128 then Inr (network_v6_default, invalid_argument)
             else rbind (network_v6_of_length addr (word_of_int prefix_len)) (\<lambda>n. Inr (n, ec)))))"

definition make_network_v6 :: "inet_library \<Rightarrow> string \<Rightarrow> network_v6 res" where
  "make_network_v6 L str = rbind (make_network_v6_ec L str) (\<lambda>(n, ec). rbind (throw_error ec) (\<lambda>_. Inr n))"

section \<open>What the library promises\<close>

text \<open>
  The text of an address fits into the buffers that the standard gives sizes for, has none of the characters that are
  added to it, and is read back as the address; the bytes read are as many as the family has. The name of
  an interface fits its buffer, has no slash and leads back to the interface.
\<close>

definition inet_library_ok :: "inet_library \<Rightarrow> bool" where
  "inet_library_ok L \<longleftrightarrow>
     (\<forall>v6 bytes. length bytes = (if v6 then 16 else 4) \<longrightarrow>
        (\<exists>s. lib_ntop L v6 bytes (if v6 then max_addr_v6_str_len else max_addr_v4_str_len) = (Some s, 0) \<and>
           length s < 46 \<and> CHR ''/'' \<notin> set s \<and> CHR ''%'' \<notin> set s \<and> CHR 0x00 \<notin> set s \<and> lib_pton L v6 s = (1, bytes, 0))) \<and>
     (\<forall>v6 s result bytes errno. lib_pton L v6 s = (result, bytes, errno) \<longrightarrow> result > 0 \<longrightarrow>
        length bytes = (if v6 then 16 else 4)) \<and>
     (\<forall>i n. lib_indextoname L i = Some n \<longrightarrow>
        lib_nametoindex L n = i \<and> length n < 16 \<and> CHR ''/'' \<notin> set n \<and> CHR 0x00 \<notin> set n)"

section \<open>Lemmas\<close>

lemma digits_not_special: "is_digit c \<Longrightarrow> c \<noteq> CHR ''-'' \<and> c \<noteq> CHR ''+'' \<and> c \<noteq> CHR 0x00 \<and> c \<noteq> CHR ''/'' \<and> \<not> is_space c"
  by (auto simp: is_digit_def is_space_def)

lemma dec_nat_is_digit: "list_all is_digit (dec_nat n)"
  using dec_nat_digits [of _ n] by (auto simp: list_all_iff is_digit_def)

lemma dec_nat_nonempty: "dec_nat n \<noteq> []"
  by (subst dec_nat.simps) simp

lemma atoi_digits:
  assumes "list_all is_digit s" "s \<noteq> []"
  shows "atoi s = (if undec 0 s < 2 ^ 31 then Inr (int (undec 0 s)) else Inl UndefinedValue)"
proof -
  obtain c cs where s: "s = c # cs" "is_digit c" using assms by (cases s) auto
  then have "dropWhile is_space s = s" "c \<noteq> CHR ''-''" "c \<noteq> CHR ''+''" using digits_not_special [of c] by simp_all
  moreover have "takeWhile is_digit s = s" using assms(1) by (simp add: takeWhile_eq_all_conv list_all_iff)
  moreover have "int (undec 0 s) < 2 ^ 31 \<longleftrightarrow> undec 0 s < 2 ^ 31" by simp
  ultimately show ?thesis using s(1) by (simp add: atoi_def)
qed

lemma atoi_dec_nat: "n < 2 ^ 31 \<Longrightarrow> atoi (dec_nat n) = Inr (int n)"
  by (simp add: atoi_digits dec_nat_is_digit dec_nat_nonempty undec_dec_nat)

lemma c_str_id: "CHR 0x00 \<notin> set s \<Longrightarrow> c_str s = s"
proof -
  assume "CHR 0x00 \<notin> set s"
  moreover have "char_of (0 :: nat) = CHR 0x00" by (simp add: char_of_def)
  ultimately have "of_char c \<noteq> (0 :: nat)" if "c \<in> set s" for c using that by (metis char_of_char)
  then show ?thesis by (simp add: c_str_def takeWhile_eq_all_conv)
qed

lemma split_at: "c \<notin> set s \<Longrightarrow> takeWhile (\<lambda>x. x \<noteq> c) (s @ c # t) = s \<and> dropWhile (\<lambda>x. x \<noteq> c) (s @ c # t) = c # t"
  by (induction s) auto

text \<open>Scopes that can be read back: zero, that of an interface with a name, or a number that is an \<open>int\<close> and no such name.\<close>

definition scope_readable :: "inet_library \<Rightarrow> address_v6 \<Rightarrow> bool" where
  "scope_readable L a \<longleftrightarrow> scope_id a = 0 \<or>
     (if is_link_local_bytes (s6_addr a) \<or> is_multicast_link_local_bytes (s6_addr a)
      then lib_indextoname L (scope_id a) \<noteq> None \<or>
        unat (scope_id a) < 2 ^ 31 \<and> lib_nametoindex L (to_string_u32 (scope_id a)) = 0
      else unat (scope_id a) < 2 ^ 31)"

lemma library_v4:
  assumes "inet_library_ok L" "length bytes = 4"
  shows "\<exists>s. lib_ntop L False bytes max_addr_v4_str_len = (Some s, 0) \<and> CHR ''/'' \<notin> set s \<and> CHR 0x00 \<notin> set s \<and>
    lib_pton L False s = (1, bytes, 0)"
proof -
  have "\<exists>s. lib_ntop L False bytes (if False then max_addr_v6_str_len else max_addr_v4_str_len) = (Some s, 0) \<and>
      length s < 46 \<and> CHR ''/'' \<notin> set s \<and> CHR ''%'' \<notin> set s \<and> CHR 0x00 \<notin> set s \<and> lib_pton L False s = (1, bytes, 0)"
    using assms(1) [unfolded inet_library_ok_def, THEN conjunct1, rule_format, of bytes False] assms(2) by simp
  then show ?thesis by auto
qed

lemma library_v6:
  assumes "inet_library_ok L" "length bytes = 16"
  shows "\<exists>s. lib_ntop L True bytes max_addr_v6_str_len = (Some s, 0) \<and> length s < 46 \<and> CHR ''/'' \<notin> set s \<and>
    CHR ''%'' \<notin> set s \<and> CHR 0x00 \<notin> set s \<and> lib_pton L True s = (1, bytes, 0)"
  using assms(1) [unfolded inet_library_ok_def, THEN conjunct1, rule_format, of bytes True] assms(2) by simp

lemma library_name:
  "inet_library_ok L \<Longrightarrow> lib_indextoname L i = Some n \<Longrightarrow>
     lib_nametoindex L n = i \<and> length n < 16 \<and> CHR ''/'' \<notin> set n \<and> CHR 0x00 \<notin> set n"
  by (simp add: inet_library_ok_def)

lemma v4_text:
  assumes "inet_library_ok L"
  shows "\<exists>s. v4_to_string L h a = Inr s \<and> CHR ''/'' \<notin> set s \<and> make_address_v4_ec L h s = Inr (a, no_error)"
proof -
  obtain s where s: "lib_ntop L False (mem_of h (s_addr a)) max_addr_v4_str_len = (Some s, 0)"
    "CHR ''/'' \<notin> set s" "CHR 0x00 \<notin> set s" "lib_pton L False s = (1, mem_of h (s_addr a), 0)"
    using library_v4 [OF assms, of "mem_of h (s_addr a)"] by (auto simp del: mem_of.simps)
  then have "v4_to_string L h a = Inr s" by (simp add: v4_to_string_def inet_ntop_def text_or_throw_def del: mem_of.simps)
  moreover have "make_address_v4_ec L h s = Inr (a, no_error)"
    using s by (simp add: make_address_v4_ec_def inet_pton_def c_str_id get_last_error_def no_error_def v4_of_bytes_def del: mem_of.simps of_mem.simps)
  ultimately show ?thesis using s(2) by blast
qed

lemma u64_u32: "(ucast (ucast w :: u64) :: u32) = w" "(ucast (w :: u32) :: u64) = 0 \<longleftrightarrow> w = 0"
  "(ucast (word_of_int (int (unat w)) :: u64) :: u32) = w"
proof -
  show a: "(ucast (ucast w :: u64) :: u32) = w" for w :: u32 by (rule bit_word_eqI) (simp add: bit_simps)
  show "(ucast (w :: u32) :: u64) = 0 \<longleftrightarrow> w = 0" using a by (metis unsigned_0)
  have "(word_of_int (int (unat w)) :: u64) = ucast w" by (simp add: of_nat_unat)
  then show "(ucast (word_of_int (int (unat w)) :: u64) :: u32) = w" using a by simp
qed

lemma dec_nat_length: "n < 10 ^ Suc k \<Longrightarrow> length (dec_nat n) \<le> Suc k"
proof (induction k arbitrary: n)
  case 0
  then show ?case by (subst dec_nat.simps) simp
next
  case (Suc k)
  then have "n div 10 < 10 ^ Suc k" by (simp add: less_mult_imp_div_less mult.commute)
  then show ?case using Suc.IH [of "n div 10"] by (subst dec_nat.simps) simp
qed

lemma decimal_scope: "length (to_string_u32 w) < 16 \<and> CHR ''/'' \<notin> set (to_string_u32 w) \<and> CHR 0x00 \<notin> set (to_string_u32 w)"
proof -
  have "unat w < 10 ^ Suc 9" using unsigned_less [of w, where 'a = nat] by simp
  then have "length (dec_nat (unat w)) \<le> Suc 9" by (rule dec_nat_length)
  then show ?thesis
    using dec_nat_is_digit [of "unat w"] digits_not_special by (auto simp: to_string_u32_def list_all_iff)
qed

text \<open>The name of a scope is read back.\<close>

definition scope_name :: "inet_library \<Rightarrow> address_v6 \<Rightarrow> string" where
  "scope_name L a =
     (if \<not> is_link_local_bytes (s6_addr a) \<and> \<not> is_multicast_link_local_bytes (s6_addr a) then to_string_u32 (scope_id a)
      else case lib_indextoname L (scope_id a) of None \<Rightarrow> to_string_u32 (scope_id a) | Some n \<Rightarrow> n)"

lemma scope_name_text:
  "inet_library_ok L \<Longrightarrow> length (scope_name L a) < 16 \<and> CHR ''/'' \<notin> set (scope_name L a) \<and> CHR 0x00 \<notin> set (scope_name L a)"
  using decimal_scope library_name by (auto simp: scope_name_def split: option.splits)

lemma scope_name_read:
  assumes L: "inet_library_ok L" and a: "scope_readable L a" "scope_id a \<noteq> 0"
    and scope: "scope = (if is_link_local_bytes (s6_addr a) \<or> is_multicast_link_local_bytes (s6_addr a)
      then ucast (lib_nametoindex L (scope_name L a)) else (0 :: u64))"
  shows "if scope = 0 then \<exists>n. atoi (scope_name L a) = Inr n \<and> (ucast (word_of_int n :: u64) :: u32) = scope_id a
    else (ucast scope :: u32) = scope_id a"
proof -
  have dec: "\<exists>n. atoi (to_string_u32 (scope_id a)) = Inr n \<and> (ucast (word_of_int n :: u64) :: u32) = scope_id a"
    if "unat (scope_id a) < 2 ^ 31"
    using atoi_dec_nat [OF that] u64_u32(3) [of "scope_id a"] by (simp add: to_string_u32_def)
  show ?thesis
  proof (cases "is_link_local_bytes (s6_addr a) \<or> is_multicast_link_local_bytes (s6_addr a)")
    case False
    then show ?thesis using dec a by (auto simp: scope scope_name_def scope_readable_def)
  next
    case True
    show ?thesis
    proof (cases "lib_indextoname L (scope_id a)")
      case None
      then show ?thesis using True dec a by (auto simp: scope scope_name_def scope_readable_def)
    next
      case (Some n)
      then have "scope = ucast (scope_id a)" using True library_name [OF L Some] by (auto simp: scope scope_name_def)
      then show ?thesis using a(2) u64_u32 by simp
    qed
  qed
qed

lemma v6_text:
  assumes L: "inet_library_ok L" and a: "v6_ok a" and readable: "scope_readable L a"
  shows "\<exists>s. v6_to_string L a = Inr s \<and> CHR ''/'' \<notin> set s \<and> make_address_v6_ec L s = Inr (a, no_error)"
proof -
  obtain s where s: "lib_ntop L True (s6_addr a) max_addr_v6_str_len = (Some s, 0)" "length s < 46"
    "CHR ''/'' \<notin> set s" "CHR ''%'' \<notin> set s" "CHR 0x00 \<notin> set s" "lib_pton L True s = (1, s6_addr a, 0)"
    using library_v6 [OF L, of "s6_addr a"] a unfolding v6_ok_def by blast
  have ec: "get_last_error no_error 0 True = no_error" "ec_value no_error = 0" by (simp_all add: get_last_error_def no_error_def)
  show ?thesis
  proof (cases "scope_id a = 0")
    case True
    have "dropWhile (\<lambda>c. c \<noteq> CHR ''%'') s = []" using s(4) by (auto simp: dropWhile_eq_Nil_conv)
    then have "make_address_v6_ec L s = Inr (a, no_error)"
      using s True by (simp add: make_address_v6_ec_def inet_pton_def c_str_id ec v6_of_bytes_def)
    moreover have "v6_to_string L a = Inr s" using s(1) True by (simp add: v6_to_string_def inet_ntop_def text_or_throw_def)
    ultimately show ?thesis using s(3) by blast
  next
    case False
    let ?name = "scope_name L a"
    note name = scope_name_text [OF L, of a]
    have "v6_to_string L a = Inr (s @ ''%'' @ ?name)"
      using s(1,2) name False unfolding scope_name_def
      by (simp add: v6_to_string_def inet_ntop_def text_or_throw_def max_addr_v6_str_len_def Let_def)
    moreover have "make_address_v6_ec L (s @ CHR ''%'' # ?name) = Inr (a, no_error)"
    proof -
      have id: "c_str (s @ CHR ''%'' # ?name) = s @ CHR ''%'' # ?name" using s(5) name by (intro c_str_id) auto
      define scope where "scope = (if is_link_local_bytes (s6_addr a) \<or> is_multicast_link_local_bytes (s6_addr a)
        then ucast (lib_nametoindex L (scope_name L a)) else (0 :: u64))"
      have "a = v6_of_bytes (s6_addr a) (scope_id a)" by (simp add: v6_of_bytes_def)
      moreover have "inet_pton L True (s @ CHR ''%'' # ?name) =
          (if scope = 0 then rbind (atoi ?name) (\<lambda>n. Inr (1, s6_addr a, word_of_int n, no_error))
           else Inr (1, s6_addr a, scope, no_error))"
        using s(2,6) split_at [OF s(4), of ?name] by (simp add: inet_pton_def ec scope_def max_addr_v6_str_len_def Let_def)
      ultimately show ?thesis
        using scope_name_read [OF L readable False scope_def] by (auto simp: make_address_v6_ec_def id split: if_splits)
    qed
    ultimately show ?thesis using s(3) name by (intro exI [of _ "s @ ''%'' @ ?name"]) auto
  qed
qed

lemma prefix_text:
  assumes "CHR ''/'' \<notin> set s"
  shows "takeWhile (\<lambda>c. c \<noteq> CHR ''/'') (s @ ''/'' @ dec_nat n) = s" and "dropWhile (\<lambda>c. c \<noteq> CHR ''/'') (s @ ''/'' @ dec_nat n) = CHR ''/'' # dec_nat n"
    and "n < 2 ^ 31 \<Longrightarrow> atoi (c_str (dec_nat n)) = Inr (int n)"
proof -
  have "CHR 0x00 \<notin> set (dec_nat n)" using dec_nat_is_digit [of n] digits_not_special by (auto simp: list_all_iff)
  then show "n < 2 ^ 31 \<Longrightarrow> atoi (c_str (dec_nat n)) = Inr (int n)" by (simp add: c_str_id atoi_dec_nat)
qed (use split_at [OF assms, of "dec_nat n"] in simp_all)

lemma digits_text: "length (CHR ''/'' # dec_nat n) \<noteq> 1" "list_all is_digit (tl (CHR ''/'' # dec_nat n))"
  by (simp_all add: dec_nat_nonempty dec_nat_is_digit)

lemma network_v4_text:
  assumes L: "inet_library_ok L" and n: "net4_ok n"
  shows "rbind (network_v4_to_string L h n) (make_network_v4 L h) = Inr n"
proof -
  obtain s where s: "v4_to_string L h (net4_address n) = Inr s" "CHR ''/'' \<notin> set s"
    "make_address_v4_ec L h s = Inr (net4_address n, no_error)" using v4_text [OF L] by blast
  have len: "unat (net4_prefix_length n) \<le> 32" using n by (simp add: net4_ok_def)
  then have "int (unat (net4_prefix_length n)) \<le> 32" by linarith
  then have ulen: "uint (net4_prefix_length n) \<le> 32" by simp
  from len have "network_v4_of_length (net4_address n) (word_of_int (int (unat (net4_prefix_length n)))) = Inr n"
    by (simp add: network_v4_of_length_def word_less_nat_alt)
  moreover have "atoi (c_str (dec_nat (unat (net4_prefix_length n)))) = Inr (int (unat (net4_prefix_length n)))"
    using len by (intro prefix_text(3) [OF s(2)]) simp
  ultimately have "make_network_v4_ec L h (s @ ''/'' @ dec_nat (unat (net4_prefix_length n))) = Inr (n, no_error)"
    using s(3) digits_text [of "unat (net4_prefix_length n)"] ulen
    unfolding make_network_v4_ec_def prefix_text(1,2) [OF s(2)] by (simp add: no_error_def)
  then show ?thesis by (simp add: network_v4_to_string_def s(1) make_network_v4_def throw_error_def no_error_def)
qed

lemma network_v6_text:
  assumes L: "inet_library_ok L" and n: "net6_ok n" and readable: "scope_readable L (net6_address n)"
  shows "rbind (network_v6_to_string L n) (make_network_v6 L) = Inr n"
proof -
  obtain s where s: "v6_to_string L (net6_address n) = Inr s" "CHR ''/'' \<notin> set s"
    "make_address_v6_ec L s = Inr (net6_address n, no_error)"
    using v6_text [OF L _ readable] n unfolding net6_ok_def by blast
  have len: "unat (net6_prefix_length n) \<le> 128" using n by (simp add: net6_ok_def)
  then have "int (unat (net6_prefix_length n)) \<le> 128" by linarith
  then have ulen: "uint (net6_prefix_length n) \<le> 128" by simp
  from len have "network_v6_of_length (net6_address n) (word_of_int (int (unat (net6_prefix_length n)))) = Inr n"
    by (simp add: network_v6_of_length_def word_less_nat_alt)
  moreover have "atoi (c_str (dec_nat (unat (net6_prefix_length n)))) = Inr (int (unat (net6_prefix_length n)))"
    using len by (intro prefix_text(3) [OF s(2)]) simp
  ultimately have "make_network_v6_ec L (s @ ''/'' @ dec_nat (unat (net6_prefix_length n))) = Inr (n, no_error)"
    using s(3) digits_text [of "unat (net6_prefix_length n)"] ulen
    unfolding make_network_v6_ec_def prefix_text(1,2) [OF s(2)] by (simp add: no_error_def)
  then show ?thesis by (simp add: network_v6_to_string_def s(1) make_network_v6_def throw_error_def no_error_def)
qed

text \<open>
  The length of a prefix in a text may have any number of digits. One that is no \<open>int\<close> is not rejected:
  \<open>atoi\<close> is undefined for it, although the check behind it expects to see the number.
\<close>

lemma long_prefix_is_undefined:
  assumes L: "inet_library_ok L" and d: "2 ^ 31 \<le> n"
  shows "rbind (v4_to_string L h a) (\<lambda>s. make_network_v4_ec L h (s @ ''/'' @ dec_nat n)) = Inl UndefinedValue"
proof -
  obtain s where s: "v4_to_string L h a = Inr s" "CHR ''/'' \<notin> set s" "make_address_v4_ec L h s = Inr (a, no_error)"
    using v4_text [OF L] by blast
  have "CHR 0x00 \<notin> set (dec_nat n)" using dec_nat_is_digit [of n] digits_not_special by (auto simp: list_all_iff)
  then have "atoi (c_str (dec_nat n)) = Inl UndefinedValue"
    using d by (simp add: c_str_id atoi_digits dec_nat_is_digit dec_nat_nonempty undec_dec_nat)
  then show ?thesis
    using s(1,3) digits_text [of n] unfolding make_network_v4_ec_def
    by (simp add: prefix_text(1,2) [OF s(2), unfolded append.simps] no_error_def)
qed

section \<open>Properties\<close>


text \<open>A library that writes two letters for each byte, and knows one interface.\<close>

fun letter_pairs :: "string \<Rightarrow> u8 list" where
  "letter_pairs (c # d # cs) = of_nat ((of_char c - 97) * 16 + (of_char d - 97)) # letter_pairs cs"
| "letter_pairs cs = []"

definition letter :: "nat \<Rightarrow> char" where
  "letter k = char_of (97 + k)"

definition demo_library :: inet_library where
  "demo_library =
     \<lparr>lib_ntop = (\<lambda>v6 bytes len. (Some (concat (map (\<lambda>b. [letter (unat b div 16), letter (unat b mod 16)]) bytes)), 0)),
      lib_pton = (\<lambda>v6 s. if length s = (if v6 then 32 else 8) then (1, letter_pairs s, 0) else (0, [], 0)),
      lib_indextoname = (\<lambda>i. if i = 2 then Some ''eth0'' else None),
      lib_nametoindex = (\<lambda>n. if n = ''eth0'' then 2 else 0)\<rparr>"

lemma of_char_letter: "k < 16 \<Longrightarrow> of_char (letter k) = 97 + k"
  by (simp add: letter_def)

lemma letter_pairs_text:
  "letter_pairs (concat (map (\<lambda>b. [letter (unat b div 16), letter (unat b mod 16)]) bytes)) = bytes"
proof (induction bytes)
  case (Cons b bytes)
  have "unat b div 16 < 16" using unat_u8 [of b] by (simp add: less_mult_imp_div_less)
  then have "(of_char (letter (unat b div 16)) - 97) * 16 + (of_char (letter (unat b mod 16)) - 97) = unat b"
    by (simp add: of_char_letter)
  then show ?case using Cons by (simp del: of_nat_add of_nat_mult)
qed simp

lemma demo_library_ok: "inet_library_ok demo_library"
proof -
  let ?t = "\<lambda>bytes. concat (map (\<lambda>b :: u8. [letter (unat b div 16), letter (unat b mod 16)]) bytes)"
  have len: "length (?t bytes) = 2 * length bytes" for bytes by (induction bytes) auto
  have pairs: "length (letter_pairs s) = length s div 2" for s by (induction s rule: letter_pairs.induct) auto
  have "97 \<le> (of_char c :: nat)" if c: "c \<in> set (?t bytes)" for c bytes
  proof -
    obtain b :: u8 where "c = letter (unat b div 16) \<or> c = letter (unat b mod 16)" using c by auto
    moreover have "unat b div 16 < 16" using unat_u8 [of b] by (simp add: less_mult_imp_div_less)
    ultimately show ?thesis using of_char_letter by auto
  qed
  then have special: "CHR ''/'' \<notin> set (?t bytes) \<and> CHR ''%'' \<notin> set (?t bytes) \<and> CHR 0x00 \<notin> set (?t bytes)" for bytes
    by fastforce
  show ?thesis
    unfolding inet_library_ok_def demo_library_def
    using special by (auto simp: len pairs letter_pairs_text split: if_splits)
qed


lemma inet_pton_length:
  assumes L: "inet_library_ok L" and r: "inet_pton L True s = Inr (result, bytes, scope, ec)" "result > 0"
  shows "length bytes = 16"
proof -
  obtain src result' bytes' errno where p: "lib_pton L True src = (result', bytes', errno)" "result = result'" "bytes = bytes'"
    using r by (auto simp: inet_pton_def Let_def rbind_simps split: prod.splits if_splits)
  then show ?thesis
    using L r(2) unfolding inet_library_ok_def by (metis (full_types))
qed

text \<open>
  C36: type. A network has a prefix no longer than its address, and an address of version 6 has sixteen bytes: all
  constructors and the readers of texts give such values or fail, the operations keep them, and the functions declared
  not to throw do not: the canonical network exists and is its own canonical network.
\<close>

theorem networks_are_well_formed:
  assumes L: "inet_library_ok L"
  shows "(\<forall>a len n. network_v4_of_length a len = Inr n \<longrightarrow> net4_ok n) \<and>
    (\<forall>a m n. network_v4_of_mask h a m = Inr n \<longrightarrow> net4_ok n) \<and>
    (\<forall>s n ec. make_network_v4_ec L h s = Inr (n, ec) \<longrightarrow> net4_ok n) \<and>
    (\<forall>n. net4_ok n \<longrightarrow> (\<exists>c. v4_canonical h n = Inr c \<and> net4_ok c \<and> v4_canonical h c = Inr c)) \<and>
    (\<forall>a len n. v6_ok a \<longrightarrow> network_v6_of_length a len = Inr n \<longrightarrow> net6_ok n) \<and>
    (\<forall>s n ec. make_network_v6_ec L s = Inr (n, ec) \<longrightarrow> net6_ok n) \<and>
    (\<forall>n. net6_ok n \<longrightarrow> (\<exists>c. v6_canonical n = Inr c \<and> net6_ok c \<and> v6_canonical c = Inr c)) \<and>
    (\<forall>n. net6_ok n \<longrightarrow> v6_ok (v6_network n) \<and> v6_ok (range_begin (v6_hosts n)) \<and> v6_ok (range_end (v6_hosts n)))"
proof (intro conjI allI impI)
  show o4: "net4_ok n" if "network_v4_of_length a len = Inr n" for a len n
    using that by (auto simp: network_v4_of_length_def net4_ok_def word_less_nat_alt split: if_splits)
  show o6: "net6_ok n" if "v6_ok a" "network_v6_of_length a len = Inr n" for a len n
    using that by (auto simp: network_v6_of_length_def net6_ok_def word_less_nat_alt split: if_splits)
  show "net4_ok n" if "network_v4_of_mask h a m = Inr n" for a m n using that by (simp add: network_v4_of_mask_iff)
  have d: "net4_ok network_v4_default" "net6_ok network_v6_default"
    by (simp_all add: network_v4_default_def network_v6_default_def net4_ok_def net6_ok_def)
  show "net4_ok n" if "make_network_v4_ec L h s = Inr (n, ec)" for s n ec
    using that o4 d(1) by (auto simp: make_network_v4_ec_def Let_def rbind_simps split: if_splits prod.splits)
  have a6: "v6_ok a" if "make_address_v6_ec L s = Inr (a, ec)" for s a ec
    using that inet_pton_length [OF L, of "c_str s"] by (auto simp: make_address_v6_ec_def rbind_simps split: if_splits)
  show "net6_ok n" if "make_network_v6_ec L s = Inr (n, ec)" for s n ec
    using that d(2)
    by (auto simp: make_network_v6_ec_def Let_def rbind_simps intro: o6 dest: a6 split: if_splits prod.splits)
  show "\<exists>c. v4_canonical h n = Inr c \<and> net4_ok c \<and> v4_canonical h c = Inr c" if n: "net4_ok n" for n
  proof -
    let ?c = "\<lparr>net4_address = v4_network h n, net4_prefix_length = net4_prefix_length n\<rparr>"
    have c: "net4_ok ?c" using n by (simp add: net4_ok_def)
    have "v4_network h ?c = v4_network h n" using v4_same_network [OF c n, of h] v4_network_value [OF n, of h] by simp
    then show ?thesis using c v4_canonical_ok [OF n] v4_canonical_ok [OF c] by simp
  qed
  show "\<exists>c. v6_canonical n = Inr c \<and> net6_ok c \<and> v6_canonical c = Inr c" if n: "net6_ok n" for n
  proof -
    let ?c = "\<lparr>net6_address = v6_network n, net6_prefix_length = net6_prefix_length n\<rparr>"
    have c: "net6_ok ?c" using n v6_network_value(2) [OF n] by (simp add: net6_ok_def)
    have "v6_network ?c = v6_network n" using v6_same_network [OF c n] v6_network_value [OF n] by simp
    then show ?thesis using c v6_canonical_ok [OF n] v6_canonical_ok [OF c] by simp
  qed
  show "v6_ok (v6_network n)" "v6_ok (range_begin (v6_hosts n))" "v6_ok (range_end (v6_hosts n))" if "net6_ok n" for n
    using v6_network_value(2) [OF that] v6_hosts_range(1,2) [OF that] by simp_all
qed

theorem networks_are_well_formed_witness:
  "\<exists>c. v6_canonical \<lparr>net6_address = v6_loopback, net6_prefix_length = 60\<rparr> = Inr c \<and> net6_ok c \<and> v6_canonical c = Inr c"
proof -
  have "net6_ok \<lparr>net6_address = v6_loopback, net6_prefix_length = 60\<rparr>" by (simp add: net6_ok_def)
  then show ?thesis using networks_are_well_formed [OF demo_library_ok, of LittleEndian] by blast
qed

end
