(* ===== verification/IpEndpoints.thy ===== *)
theory IpEndpoints
  imports IpText "HOL-Library.List_Lexorder"
begin

text \<open>
  \<open>ip::address\<close>, an address of either version, and \<open>ip::detail::endpoint\<close>, a socket address of the system
  with its port in network order. The union of the endpoint is a datatype with a constructor for each family.
\<close>

section \<open>Addresses of either version\<close>

datatype address_type = ipv4 | ipv6

record address =
  addr_type :: address_type
  ipv4_address :: address_v4
  ipv6_address :: address_v6

definition address_default :: address where
  "address_default = \<lparr>addr_type = ipv4, ipv4_address = v4_any, ipv6_address = v6_any\<rparr>"

definition address_of_v4 :: "address_v4 \<Rightarrow> address" where
  "address_of_v4 a = \<lparr>addr_type = ipv4, ipv4_address = a, ipv6_address = v6_any\<rparr>"

definition address_of_v6 :: "address_v6 \<Rightarrow> address" where
  "address_of_v6 a = \<lparr>addr_type = ipv6, ipv4_address = v4_any, ipv6_address = a\<rparr>"

definition assign_v4 :: "address_v4 \<Rightarrow> address \<Rightarrow> address" where
  "assign_v4 v a = a\<lparr>addr_type := ipv4, ipv4_address := v, ipv6_address := v6_any\<rparr>"

definition assign_v6 :: "address_v6 \<Rightarrow> address \<Rightarrow> address" where
  "assign_v6 v a = a\<lparr>addr_type := ipv6, ipv4_address := v4_any, ipv6_address := v\<rparr>"

definition address_is_v4 :: "address \<Rightarrow> bool" where
  "address_is_v4 a \<longleftrightarrow> addr_type a = ipv4"

definition address_is_v6 :: "address \<Rightarrow> bool" where
  "address_is_v6 a \<longleftrightarrow> addr_type a = ipv6"

definition address_to_v4 :: "address \<Rightarrow> address_v4 res" where
  "address_to_v4 a = (if addr_type a \<noteq> ipv4 then Inl BadCast else Inr (ipv4_address a))"

definition address_to_v6 :: "address \<Rightarrow> address_v6 res" where
  "address_to_v6 a = (if addr_type a \<noteq> ipv6 then Inl BadCast else Inr (ipv6_address a))"

definition address_to_string :: "inet_library \<Rightarrow> endian \<Rightarrow> address \<Rightarrow> string res" where
  "address_to_string L h a = (if addr_type a = ipv6 then v6_to_string L (ipv6_address a) else v4_to_string L h (ipv4_address a))"

definition make_address_ec :: "inet_library \<Rightarrow> endian \<Rightarrow> string \<Rightarrow> (address \<times> sys_error) res" where
  "make_address_ec L h str =
     rbind (make_address_v6_ec L str) (\<lambda>(a6, ec).
     if ec_value ec = 0 then Inr (address_of_v6 a6, ec)
     else
       rbind (make_address_v4_ec L h str) (\<lambda>(a4, ec).
       Inr (if ec_value ec = 0 then (address_of_v4 a4, ec) else (address_default, ec))))"

definition make_address :: "inet_library \<Rightarrow> endian \<Rightarrow> string \<Rightarrow> address res" where
  "make_address L h str = rbind (make_address_ec L h str) (\<lambda>(a, ec). rbind (throw_error ec) (\<lambda>_. Inr a))"

definition address_is_loopback :: "endian \<Rightarrow> address \<Rightarrow> bool" where
  "address_is_loopback h a =
     (if addr_type a = ipv4 then v4_is_loopback h (ipv4_address a) else v6_is_loopback (ipv6_address a))"

definition address_is_unspecified :: "endian \<Rightarrow> address \<Rightarrow> bool" where
  "address_is_unspecified h a =
     (if addr_type a = ipv4 then v4_is_unspecified h (ipv4_address a) else v6_is_unspecified (ipv6_address a))"

definition address_is_multicast :: "endian \<Rightarrow> address \<Rightarrow> bool" where
  "address_is_multicast h a =
     (if addr_type a = ipv4 then v4_is_multicast h (ipv4_address a) else v6_is_multicast (ipv6_address a))"

definition address_eq :: "address \<Rightarrow> address \<Rightarrow> bool" where
  "address_eq a1 a2 =
     (if addr_type a1 \<noteq> addr_type a2 then False
      else if addr_type a1 = ipv6 then v6_eq (ipv6_address a1) (ipv6_address a2)
      else ipv4_address a1 = ipv4_address a2)"

text \<open>The enumerators are ordered by their values.\<close>

fun type_value :: "address_type \<Rightarrow> nat" where
  "type_value ipv4 = 0"
| "type_value ipv6 = 1"

definition address_less :: "endian \<Rightarrow> address \<Rightarrow> address \<Rightarrow> bool" where
  "address_less h a1 a2 =
     (if type_value (addr_type a1) < type_value (addr_type a2) then True
      else if type_value (addr_type a1) > type_value (addr_type a2) then False
      else if addr_type a1 = ipv6 then v6_less (ipv6_address a1) (ipv6_address a2)
      else v4_less h (ipv4_address a1) (ipv4_address a2))"

text \<open>Exactly one of the two addresses is in use, the other has its default.\<close>

definition address_ok :: "address \<Rightarrow> bool" where
  "address_ok a \<longleftrightarrow>
     (case addr_type a of ipv4 \<Rightarrow> ipv6_address a = v6_any | ipv6 \<Rightarrow> ipv4_address a = v4_any \<and> v6_ok (ipv6_address a))"

section \<open>Endpoints\<close>

datatype sockaddr =
    SockaddrIn (sin_port: u16) (sin_addr: u32)
  | SockaddrIn6 (sin6_port: u16) (sin6_flowinfo: u32) (sin6_addr: "u8 list") (sin6_scope_id: u32)

definition AF_INET :: int where "AF_INET = 2"
definition AF_INET6 :: int where "AF_INET6 = 10"

definition endpoint_default :: sockaddr where
  "endpoint_default = SockaddrIn 0 0"

definition endpoint_of_family :: "endian \<Rightarrow> int \<Rightarrow> u16 \<Rightarrow> sockaddr" where
  "endpoint_of_family h family port_num =
     (if family = AF_INET then SockaddrIn (host_to_network h port_num) 0
      else SockaddrIn6 (host_to_network h port_num) 0 (replicate 16 0) 0)"

definition endpoint_of :: "endian \<Rightarrow> address \<Rightarrow> u16 \<Rightarrow> sockaddr res" where
  "endpoint_of h addr port_num =
     (if address_is_v4 addr then
        rbind (address_to_v4 addr) (\<lambda>a.
        Inr (SockaddrIn (host_to_network h port_num) (host_to_network h (v4_to_uint h a))))
      else
        rbind (address_to_v6 addr) (\<lambda>v6_addr.
        Inr (SockaddrIn6 (host_to_network h port_num) 0 (s6_addr v6_addr) (scope_id v6_addr))))"

definition endpoint_size :: "sockaddr \<Rightarrow> nat" where
  "endpoint_size e = (case e of SockaddrIn _ _ \<Rightarrow> 16 | SockaddrIn6 _ _ _ _ \<Rightarrow> 28)"

text \<open>\<open>sizeof(sockaddr_storage)\<close> is \<open>128\<close>; the union itself has the size of its largest member.\<close>

definition endpoint_resize :: "nat \<Rightarrow> unit res" where
  "endpoint_resize new_size = (if new_size > 128 then throw_error invalid_argument else Inr ())"

definition endpoint_capacity :: nat where
  "endpoint_capacity = 28"

fun endpoint_port :: "endian \<Rightarrow> sockaddr \<Rightarrow> u16" where
  "endpoint_port h (SockaddrIn p a) = network_to_host h p"
| "endpoint_port h (SockaddrIn6 p f a sc) = network_to_host h p"

fun endpoint_set_port :: "endian \<Rightarrow> u16 \<Rightarrow> sockaddr \<Rightarrow> sockaddr" where
  "endpoint_set_port h port_num (SockaddrIn p a) = SockaddrIn (host_to_network h port_num) a"
| "endpoint_set_port h port_num (SockaddrIn6 p f a sc) = SockaddrIn6 (host_to_network h port_num) f a sc"

fun endpoint_address :: "endian \<Rightarrow> sockaddr \<Rightarrow> address" where
  "endpoint_address h (SockaddrIn p a) = address_of_v4 (v4_of_uint h (network_to_host h a))"
| "endpoint_address h (SockaddrIn6 p f a sc) = address_of_v6 (v6_of_bytes a sc)"

definition endpoint_set_address :: "endian \<Rightarrow> address \<Rightarrow> sockaddr \<Rightarrow> sockaddr res" where
  "endpoint_set_address h addr e = endpoint_of h addr (endpoint_port h e)"

definition endpoint_eq :: "endian \<Rightarrow> sockaddr \<Rightarrow> sockaddr \<Rightarrow> bool" where
  "endpoint_eq h e1 e2 \<longleftrightarrow>
     address_eq (endpoint_address h e1) (endpoint_address h e2) \<and> endpoint_port h e1 = endpoint_port h e2"

definition endpoint_less :: "endian \<Rightarrow> sockaddr \<Rightarrow> sockaddr \<Rightarrow> bool" where
  "endpoint_less h e1 e2 =
     (if address_less h (endpoint_address h e1) (endpoint_address h e2) then True
      else if \<not> address_eq (endpoint_address h e1) (endpoint_address h e2) then False
      else endpoint_port h e1 < endpoint_port h e2)"

definition endpoint_to_string :: "inet_library \<Rightarrow> endian \<Rightarrow> sockaddr \<Rightarrow> string res" where
  "endpoint_to_string L h e =
     rbind (address_to_string L h (endpoint_address h e)) (\<lambda>s.
     Inr ((case e of SockaddrIn _ _ \<Rightarrow> c_str s | SockaddrIn6 _ _ _ _ \<Rightarrow> ''['' @ c_str s @ '']'') @
       '':'' @ dec_nat (unat (endpoint_port h e))))"

section \<open>Lemmas\<close>

lemma whole_bytes_u16 [simp]: "whole_bytes TYPE(16)"
  by (simp add: whole_bytes_def)

lemma address_ok_simps [simp]:
  "address_ok address_default" "address_ok (address_of_v4 a)" "address_ok (address_of_v6 b) \<longleftrightarrow> v6_ok b"
  by (simp_all add: address_ok_def address_default_def address_of_v4_def address_of_v6_def)

lemma address_cases:
  assumes "address_ok a"
  obtains v where "a = address_of_v4 v" | v where "a = address_of_v6 v" "v6_ok v"
proof (cases "addr_type a")
  case ipv4
  then have "a = address_of_v4 (ipv4_address a)" using assms by (simp add: address_ok_def address_of_v4_def)
  then show ?thesis by (rule that(1))
next
  case ipv6
  then have "a = address_of_v6 (ipv6_address a)" "v6_ok (ipv6_address a)"
    using assms by (simp_all add: address_ok_def address_of_v6_def)
  then show ?thesis by (rule that(2))
qed

text \<open>An address as its rank: its version, its number and its scope.\<close>

definition address_rank :: "endian \<Rightarrow> address \<Rightarrow> nat list" where
  "address_rank h a =
     (case addr_type a of ipv4 \<Rightarrow> [0, unat (v4_to_uint h (ipv4_address a)), 0]
      | ipv6 \<Rightarrow> [1, be_value (s6_addr (ipv6_address a)), unat (scope_id (ipv6_address a))])"

lemma address_rank_simps [simp]:
  "address_rank h (address_of_v4 v) = [0, unat (v4_to_uint h v), 0]"
  "address_rank h (address_of_v6 w) = [1, be_value (s6_addr w), unat (scope_id w)]"
  by (simp_all add: address_rank_def address_of_v4_def address_of_v6_def)

lemma address_ranks:
  assumes "address_ok a" "address_ok b"
  shows "address_eq a b \<longleftrightarrow> address_rank h a = address_rank h b" and "address_less h a b \<longleftrightarrow> address_rank h a < address_rank h b"
    and "address_eq a b \<longleftrightarrow> a = b"
proof -
  have u: "unat (v4_to_uint h x) = unat (v4_to_uint h y) \<longleftrightarrow> x = y" for x y by (metis unsigned_word_eqI v4_uint_inject)
  have v: "be_value (s6_addr x) = be_value (s6_addr y) \<and> unat (scope_id x) = unat (scope_id y) \<longleftrightarrow> x = y" if "v6_ok x" "v6_ok y" for x y
    using v6_counter.val_inject [OF that] by (auto simp flip: word_unat_eq_iff)
  have *: "(address_eq a b \<longleftrightarrow> address_rank h a = address_rank h b) \<and> (address_less h a b \<longleftrightarrow> address_rank h a < address_rank h b) \<and>
      (address_eq a b \<longleftrightarrow> a = b)"
    using assms(1)
  proof (cases rule: address_cases)
    case (1 x)
    from assms(2) show ?thesis
      by (cases rule: address_cases) (auto simp: 1 address_eq_def address_less_def u v4_less_def word_less_nat_alt address_of_v4_def address_of_v6_def address_rank_def)
  next
    case (2 x)
    from assms(2) show ?thesis
    proof (cases rule: address_cases)
      case (2 y)
      note y = 2 and xy = \<open>v6_ok x\<close> \<open>v6_ok y\<close>
      show ?thesis unfolding \<open>a = address_of_v6 x\<close> y(1) address_rank_simps
        using v [OF xy] v6_less_iff [OF xy] v6_eq_iff [OF xy]
        by (auto simp: address_eq_def address_less_def address_of_v6_def word_less_nat_alt)
    qed (auto simp: 2 address_eq_def address_less_def address_of_v4_def address_of_v6_def address_rank_def)
  qed
  then show "address_eq a b \<longleftrightarrow> address_rank h a = address_rank h b" "address_less h a b \<longleftrightarrow> address_rank h a < address_rank h b"
    "address_eq a b \<longleftrightarrow> a = b" by blast+
qed

fun endpoint_ok :: "sockaddr \<Rightarrow> bool" where
  "endpoint_ok (SockaddrIn p a) = True"
| "endpoint_ok (SockaddrIn6 p f a sc) = (length a = 16)"

lemma endpoint_address_ok: "endpoint_ok e \<Longrightarrow> address_ok (endpoint_address h e)"
  by (cases e) simp_all

definition endpoint_rank :: "endian \<Rightarrow> sockaddr \<Rightarrow> nat list" where
  "endpoint_rank h e = address_rank h (endpoint_address h e) @ [unat (endpoint_port h e)]"

lemma endpoint_of_address:
  assumes "address_ok a"
  shows "\<exists>e. endpoint_of h a p = Inr e \<and> endpoint_address h e = a \<and> endpoint_port h e = p \<and>
    endpoint_address h (endpoint_set_port h q e) = a \<and> endpoint_port h (endpoint_set_port h q e) = q"
  using assms
proof (cases rule: address_cases)
  case (1 v)
  have "endpoint_of h a p = Inr (SockaddrIn (host_to_network h p) (host_to_network h (v4_to_uint h v)))"
    by (simp add: 1 endpoint_of_def address_is_v4_def address_to_v4_def address_of_v4_def)
  then show ?thesis by (simp add: 1)
next
  case (2 v)
  have "endpoint_of h a p = Inr (SockaddrIn6 (host_to_network h p) 0 (s6_addr v) (scope_id v))"
    by (simp add: 2 endpoint_of_def address_is_v4_def address_to_v6_def address_of_v6_def)
  moreover have "v6_of_bytes (s6_addr v) (scope_id v) = v" by (simp add: v6_of_bytes_def)
  ultimately show ?thesis by (simp add: 2)
qed

lemma address_text:
  assumes a: "address_ok a" and L: "inet_library_ok L"
    and readable: "address_is_v6 a \<Longrightarrow> scope_readable L (ipv6_address a)"
    and first: "\<And>s. v4_to_string L h (ipv4_address a) = Inr s \<Longrightarrow> fst (lib_pton L True s) \<le> 0 \<and> CHR ''%'' \<notin> set s \<and> CHR 0x00 \<notin> set s"
  shows "rbind (address_to_string L h a) (make_address L h) = Inr a"
  using a
proof (cases rule: address_cases)
  case (1 v)
  obtain s where s: "v4_to_string L h v = Inr s" "make_address_v4_ec L h s = Inr (v, no_error)"
    using v4_text [OF L] by blast
  then have f: "fst (lib_pton L True s) \<le> 0" "CHR ''%'' \<notin> set s" "CHR 0x00 \<notin> set s"
    using first [of s] by (simp_all add: 1 address_of_v4_def)
  have "dropWhile (\<lambda>c. c \<noteq> CHR ''%'') s = []" using f(2) by (auto simp: dropWhile_eq_Nil_conv)
  moreover obtain r b e where "lib_pton L True s = (r, b, e)" by (cases "lib_pton L True s")
  ultimately have "make_address_v6_ec L s = Inr (v6_any, if e = 0 then invalid_argument else SysError SystemCategory e)"
    using f(1) by (simp add: make_address_v6_ec_def inet_pton_def c_str_id f(3) get_last_error_def)
  moreover have "ec_value (if e = 0 then invalid_argument else SysError SystemCategory e) \<noteq> 0" by (simp add: invalid_argument_def)
  ultimately have "make_address_ec L h s = Inr (address_of_v4 v, no_error)"
    using s(2) by (simp add: make_address_ec_def no_error_def)
  moreover have "address_to_string L h a = Inr s" using s(1) by (simp add: 1 address_to_string_def address_of_v4_def)
  ultimately show ?thesis by (simp add: 1 make_address_def throw_error_def no_error_def)
next
  case (2 v)
  obtain s where s: "v6_to_string L v = Inr s" "make_address_v6_ec L s = Inr (v, no_error)"
    using v6_text [OF L 2(2)] readable by (auto simp: 2 address_is_v6_def address_of_v6_def)
  then show ?thesis
    by (simp add: 2(1) address_to_string_def make_address_def make_address_ec_def throw_error_def no_error_def address_of_v6_def)
qed

section \<open>Properties\<close>

text \<open>
  Endpoints are ordered by version, number of the address, scope and port, in this order:
  for all endpoints, less-than is a strict total order that fits equality, and equality is that of address and port.
\<close>

theorem endpoints_are_ordered:
  assumes "endpoint_ok e1" "endpoint_ok e2"
  shows "(endpoint_less h e1 e2 \<longleftrightarrow> endpoint_rank h e1 < endpoint_rank h e2) \<and>
    (endpoint_eq h e1 e2 \<longleftrightarrow> endpoint_rank h e1 = endpoint_rank h e2) \<and>
    (endpoint_eq h e1 e2 \<longleftrightarrow> endpoint_address h e1 = endpoint_address h e2 \<and> endpoint_port h e1 = endpoint_port h e2)"
proof -
  note ok = endpoint_address_ok [OF assms(1), of h] endpoint_address_ok [OF assms(2), of h]
  note ranks = address_ranks [OF ok]
  have len: "length (address_rank h a) = 3" for a by (cases "addr_type a") (simp_all add: address_rank_def)
  have lex: "xs @ [x] < ys @ [y] \<longleftrightarrow> xs < ys \<or> xs = ys \<and> x < y" if "length xs = length ys" for xs ys and x y :: nat
    using that by (induction xs ys rule: list_induct2) auto
  show ?thesis
    unfolding endpoint_less_def endpoint_eq_def endpoint_rank_def
    using ranks(1,3) by (auto simp: ranks(2) [of h] lex len word_less_nat_alt simp flip: word_unat_eq_iff)
qed

theorem endpoints_are_ordered_witness:
  "endpoint_less BigEndian (SockaddrIn 80 0x0A000001) (SockaddrIn 443 0x0A000001) \<longleftrightarrow>
    endpoint_rank BigEndian (SockaddrIn 80 0x0A000001) < endpoint_rank BigEndian (SockaddrIn 443 0x0A000001)"
  using endpoints_are_ordered [of "SockaddrIn 80 0x0A000001" "SockaddrIn 443 0x0A000001" BigEndian] by simp

text \<open>
  An endpoint has the address and the port it was made of, and setting one keeps the other;
  the text of an address is read back as the address, although the reader tries version 6 first.
\<close>

theorem endpoint_roundtrip:
  assumes a: "address_ok a" and L: "inet_library_ok L"
    and readable: "address_is_v6 a \<Longrightarrow> scope_readable L (ipv6_address a)"
    and first: "\<And>s. v4_to_string L h (ipv4_address a) = Inr s \<Longrightarrow> fst (lib_pton L True s) \<le> 0 \<and> CHR ''%'' \<notin> set s \<and> CHR 0x00 \<notin> set s"
  shows "(\<exists>e. endpoint_of h a p = Inr e \<and> endpoint_address h e = a \<and> endpoint_port h e = p \<and>
      endpoint_address h (endpoint_set_port h q e) = a \<and> endpoint_port h (endpoint_set_port h q e) = q) \<and>
    rbind (address_to_string L h a) (make_address L h) = Inr a"
  using endpoint_of_address [OF a] address_text [OF a L readable first] by blast

theorem endpoint_roundtrip_witness:
  "rbind (address_to_string demo_library BigEndian (address_of_v4 (v4_loopback BigEndian))) (make_address demo_library BigEndian) =
     Inr (address_of_v4 (v4_loopback BigEndian))"
proof -
  have "v4_to_string demo_library BigEndian (v4_loopback BigEndian) = Inr ''hpaaaaab''" by code_simp
  then show ?thesis
    by (intro endpoint_roundtrip [THEN conjunct2] demo_library_ok)
      (auto simp: address_of_v4_def address_is_v6_def demo_library_def address_ok_def)
qed

end
