(* ===== verification/Strands.thy ===== *)
theory Strands
  imports Prelude
begin

text \<open>
  Strands, \<^verbatim>\<open>asio/detail/impl/strand_executor_service.ipp\<close>, its \<^verbatim>\<open>.hpp\<close> and the older \<^verbatim>\<open>strand_service\<close>: handlers of a
  strand run one at a time, in the order in which they were submitted, on whatever threads call the executor. A
  strand is locked while a handler runs or an invoker for it is scheduled; new handlers wait in a queue
  under the mutex, and those that are ready are in a queue without one. The threads are stacks of frames, and a
  step is a critical section or a piece of code between two of them.
\<close>

unbundle bit_operations_syntax

section \<open>The operations on a strand\<close>

record 'op strand_impl =
  strand_locked :: bool
  strand_shutdown :: bool
  waiting_queue :: "'op list"
  ready_queue :: "'op list"

definition strand_new :: "'op strand_impl" where
  "strand_new = \<lparr>strand_locked = False, strand_shutdown = False, waiting_queue = [], ready_queue = []\<rparr>"

text \<open>
  The outcomes of a submission: the operation is destroyed, it waits, or the caller has the strand and puts it
  into the ready queue after it has left the critical section, or runs it at once.
\<close>

datatype submission = Destroyed | Waits | Claims | RunsNow

definition strand_enqueue :: "'op \<Rightarrow> 'op strand_impl \<Rightarrow> submission \<times> 'op strand_impl" where
  "strand_enqueue oper impl =
     (if strand_shutdown impl then (Destroyed, impl)
      else if strand_locked impl then (Waits, impl\<lparr>waiting_queue := waiting_queue impl @ [oper]\<rparr>)
      else (Claims, impl\<lparr>strand_locked := True\<rparr>))"

definition push_ready :: "'op \<Rightarrow> 'op strand_impl \<Rightarrow> 'op strand_impl" where
  "push_ready oper impl = impl\<lparr>ready_queue := ready_queue impl @ [oper]\<rparr>"

definition push_waiting_to_ready :: "'op strand_impl \<Rightarrow> bool \<times> 'op strand_impl" where
  "push_waiting_to_ready impl =
     (let impl = impl\<lparr>ready_queue := ready_queue impl @ waiting_queue impl, waiting_queue := []\<rparr>;
          more_handlers = (ready_queue impl \<noteq> [])
      in (more_handlers, impl\<lparr>strand_locked := more_handlers\<rparr>))"

text \<open>The older service has no shutdown flag, and its dispatch runs a handler without a queue.\<close>

definition strand_do_post :: "'op \<Rightarrow> 'op strand_impl \<Rightarrow> submission \<times> 'op strand_impl" where
  "strand_do_post oper impl =
     (if strand_locked impl then (Waits, impl\<lparr>waiting_queue := waiting_queue impl @ [oper]\<rparr>)
      else (Claims, impl\<lparr>strand_locked := True\<rparr>))"

definition strand_do_dispatch :: "bool \<Rightarrow> 'op \<Rightarrow> 'op strand_impl \<Rightarrow> submission \<times> 'op strand_impl" where
  "strand_do_dispatch can_dispatch oper impl =
     (if can_dispatch \<and> \<not> strand_locked impl then (RunsNow, impl\<lparr>strand_locked := True\<rparr>)
      else if strand_locked impl then (Waits, impl\<lparr>waiting_queue := waiting_queue impl @ [oper]\<rparr>)
      else (Claims, impl\<lparr>strand_locked := True\<rparr>))"

section \<open>The services\<close>

definition num_mutexes :: nat where "num_mutexes = 193"

text \<open>The index into the pool of mutexes, or of shared strands, from the address of a strand and the salt.\<close>

definition strand_index :: "u64 \<Rightarrow> u64 \<Rightarrow> u64" where
  "strand_index addr salt =
     (let index = addr;
          index = index + drop_bit 3 addr;
          index = index XOR (salt + 0x9e3779b9 + push_bit 6 index + drop_bit 2 index)
      in index mod 193)"

text \<open>
  The executor's service: all strands by their addresses, the addresses in the order of the linked list, and
  the mutexes of the pool that exist.
\<close>

record 'op strand_executor_service =
  strands :: "u64 \<rightharpoonup> 'op strand_impl"
  impl_list :: "u64 list"
  mutex_of :: "u64 \<rightharpoonup> u64"
  mutexes :: "u64 set"
  service_salt :: u64

definition create_implementation :: "u64 \<Rightarrow> 'op strand_executor_service \<Rightarrow> 'op strand_executor_service" where
  "create_implementation addr s =
     (let salt = service_salt s; mutex_index = strand_index addr salt
      in s\<lparr>service_salt := salt + 1, mutexes := insert mutex_index (mutexes s), mutex_of := (mutex_of s)(addr \<mapsto> mutex_index),
           strands := (strands s)(addr \<mapsto> strand_new), impl_list := addr # impl_list s\<rparr>)"

definition destroy_implementation :: "u64 \<Rightarrow> 'op strand_executor_service \<Rightarrow> 'op strand_executor_service" where
  "destroy_implementation addr s =
     s\<lparr>impl_list := removeAll addr (impl_list s), strands := (strands s)(addr := None), mutex_of := (mutex_of s)(addr := None)\<rparr>"

text \<open>The operations of all queues go to a local queue, which destroys them.\<close>

fun strand_shutdown_loop :: "u64 list \<Rightarrow> 'op list \<Rightarrow> 'op strand_executor_service \<Rightarrow> 'op list \<times> 'op strand_executor_service" where
  "strand_shutdown_loop [] ops s = (ops, s)"
| "strand_shutdown_loop (a # as) ops s =
     (case strands s a of
        None \<Rightarrow> strand_shutdown_loop as ops s
      | Some impl \<Rightarrow>
          strand_shutdown_loop as (ops @ waiting_queue impl @ ready_queue impl)
            (s\<lparr>strands := (strands s)(a \<mapsto> impl\<lparr>strand_shutdown := True, waiting_queue := [], ready_queue := []\<rparr>)\<rparr>))"

definition strand_service_shutdown :: "'op strand_executor_service \<Rightarrow> 'op list \<times> 'op strand_executor_service" where
  "strand_service_shutdown s = strand_shutdown_loop (impl_list s) [] s"

text \<open>The older service constructs a strand at its index if there is none yet, and shares it otherwise.\<close>

record 'op strand_service =
  implementations :: "u64 \<rightharpoonup> 'op strand_impl"
  strand_salt :: u64

definition strand_construct :: "u64 \<Rightarrow> 'op strand_service \<Rightarrow> u64 \<times> 'op strand_service" where
  "strand_construct addr s =
     (let salt = strand_salt s; index = strand_index addr salt;
          s = s\<lparr>strand_salt := salt + 1\<rparr>
      in (index, case implementations s index of
                   None \<Rightarrow> s\<lparr>implementations := (implementations s)(index \<mapsto> strand_new)\<rparr>
                 | Some _ \<Rightarrow> s))"

fun shutdown_all :: "u64 list \<Rightarrow> 'op list \<Rightarrow> 'op strand_service \<Rightarrow> 'op list \<times> 'op strand_service" where
  "shutdown_all [] ops s = (ops, s)"
| "shutdown_all (i # is') ops s =
     (case implementations s i of
        None \<Rightarrow> shutdown_all is' ops s
      | Some impl \<Rightarrow>
          shutdown_all is' (ops @ waiting_queue impl @ ready_queue impl)
            (s\<lparr>implementations := (implementations s)(i \<mapsto> impl\<lparr>waiting_queue := [], ready_queue := []\<rparr>)\<rparr>))"

definition old_service_shutdown :: "'op strand_service \<Rightarrow> 'op list \<times> 'op strand_service" where
  "old_service_shutdown s = shutdown_all (map of_nat [0..<num_mutexes]) [] s"

lemma strand_index_bound: "strand_index addr salt < 193"
  by (simp add: strand_index_def Let_def word_mod_less_divisor)

section \<open>Threads\<close>

text \<open>
  A frame of a thread's stack. \<open>Claimed\<close> and \<open>Scheduling\<close>: a submission that has the strand, before it has put
  the operation into the ready queue, and before it has given the invoker to the executor, which may
  run it at once if the flag is set. \<open>InStrand\<close>: the loop of \<open>run_ready_handlers\<close> or \<open>do_complete\<close>;
  \<open>InDispatch\<close>: the direct run of \<open>do_dispatch\<close>; \<open>Running\<close>: a handler, above one of these two or above
  another handler of its strand. \<open>Exiting\<close> and \<open>Rescheduling\<close>: the destructor at the end, before and
  after its critical section.
\<close>

datatype 'op frame =
    Claimed nat 'op bool
  | Scheduling nat bool
  | InStrand nat
  | InDispatch nat
  | Running nat 'op
  | Exiting nat
  | Rescheduling nat

record 'op strand_state =
  strand_at :: "nat \<Rightarrow> 'op strand_impl"
  posted :: "nat list"
  stacks :: "'op frame list list"

text \<open>Calls come from outside the executor or from a handler.\<close>

fun can_call :: "'op frame list \<Rightarrow> bool" where
  "can_call [] = True"
| "can_call (Running s oper # fs) = True"
| "can_call (f # fs) = False"

text \<open>\<open>call_stack<strand_impl>::contains\<close>.\<close>

definition running_in_this_thread :: "nat \<Rightarrow> 'op frame list \<Rightarrow> bool" where
  "running_in_this_thread s fs \<longleftrightarrow> InStrand s \<in> set fs \<or> InDispatch s \<in> set fs"

definition put_stack :: "nat \<Rightarrow> 'op frame list \<Rightarrow> 'op strand_state \<Rightarrow> 'op strand_state" where
  "put_stack t fs st = st\<lparr>stacks := (stacks st)[t := fs]\<rparr>"

definition put_strand :: "nat \<Rightarrow> 'op strand_impl \<Rightarrow> 'op strand_state \<Rightarrow> 'op strand_state" where
  "put_strand s impl st = st\<lparr>strand_at := (strand_at st)(s := impl)\<rparr>"

datatype 'op strand_event =
    Submitted nat 'op
  | Refused nat 'op
  | Started nat 'op
  | StartedNow nat 'op
  | Nested nat 'op
  | Silent

text \<open>What a submission does with its outcome.\<close>

fun submit :: "nat \<Rightarrow> nat \<Rightarrow> 'op \<Rightarrow> bool \<Rightarrow> submission \<times> 'op strand_impl \<Rightarrow> 'op strand_state \<Rightarrow> 'op strand_event \<times> 'op strand_state" where
  "submit t s oper inline (Destroyed, impl) st = (Refused s oper, st)"
| "submit t s oper inline (Waits, impl) st = (Submitted s oper, put_strand s impl st)"
| "submit t s oper inline (Claims, impl) st =
     (Submitted s oper, put_stack t (Claimed s oper inline # stacks st ! t) (put_strand s impl st))"
| "submit t s oper inline (RunsNow, impl) st =
     (StartedNow s oper, put_stack t (Running s oper # InDispatch s # stacks st ! t) (put_strand s impl st))"

text \<open>
  The functions of the executor's service, for any executor that may run the invoker at once, except that
  \<open>post\<close> and \<open>defer\<close> do not let it and \<open>execute\<close> asks whether it is blocking. In the strand itself,
  \<open>dispatch\<close> and \<open>execute\<close> call the handler.
\<close>

definition run_nested :: "nat \<Rightarrow> nat \<Rightarrow> 'op \<Rightarrow> 'op strand_state \<Rightarrow> 'op strand_event \<times> 'op strand_state" where
  "run_nested t s oper st = (Nested s oper, put_stack t (Running s oper # stacks st ! t) st)"

definition strand_execute :: "bool \<Rightarrow> nat \<Rightarrow> nat \<Rightarrow> 'op \<Rightarrow> 'op strand_state \<Rightarrow> 'op strand_event \<times> 'op strand_state" where
  "strand_execute never_blocking t s oper st =
     (if \<not> never_blocking \<and> running_in_this_thread s (stacks st ! t) then run_nested t s oper st
      else submit t s oper (\<not> never_blocking) (strand_enqueue oper (strand_at st s)) st)"

definition strand_dispatch :: "nat \<Rightarrow> nat \<Rightarrow> 'op \<Rightarrow> 'op strand_state \<Rightarrow> 'op strand_event \<times> 'op strand_state" where
  "strand_dispatch t s oper st =
     (if running_in_this_thread s (stacks st ! t) then run_nested t s oper st
      else submit t s oper True (strand_enqueue oper (strand_at st s)) st)"

definition strand_post :: "nat \<Rightarrow> nat \<Rightarrow> 'op \<Rightarrow> 'op strand_state \<Rightarrow> 'op strand_event \<times> 'op strand_state" where
  "strand_post t s oper st = submit t s oper False (strand_enqueue oper (strand_at st s)) st"

definition strand_defer :: "nat \<Rightarrow> nat \<Rightarrow> 'op \<Rightarrow> 'op strand_state \<Rightarrow> 'op strand_event \<times> 'op strand_state" where
  "strand_defer t s oper st = submit t s oper False (strand_enqueue oper (strand_at st s)) st"

text \<open>The older service; \<open>can_dispatch\<close> tells whether the thread runs the scheduler.\<close>

definition old_dispatch :: "bool \<Rightarrow> nat \<Rightarrow> nat \<Rightarrow> 'op \<Rightarrow> 'op strand_state \<Rightarrow> 'op strand_event \<times> 'op strand_state" where
  "old_dispatch can_dispatch t s oper st =
     (if running_in_this_thread s (stacks st ! t) then run_nested t s oper st
      else submit t s oper False (strand_do_dispatch can_dispatch oper (strand_at st s)) st)"

definition old_post :: "nat \<Rightarrow> nat \<Rightarrow> 'op \<Rightarrow> 'op strand_state \<Rightarrow> 'op strand_event \<times> 'op strand_state" where
  "old_post t s oper st = submit t s oper False (strand_do_post oper (strand_at st s)) st"

datatype strand_call = Execute bool | Dispatch | Post | Defer | OldDispatch bool | OldPost

fun make_call :: "strand_call \<Rightarrow> nat \<Rightarrow> nat \<Rightarrow> 'op \<Rightarrow> 'op strand_state \<Rightarrow> 'op strand_event \<times> 'op strand_state" where
  "make_call (Execute never_blocking) = strand_execute never_blocking"
| "make_call Dispatch = strand_dispatch"
| "make_call Post = strand_post"
| "make_call Defer = strand_defer"
| "make_call (OldDispatch can_dispatch) = old_dispatch can_dispatch"
| "make_call OldPost = old_post"

text \<open>The loop of \<open>run_ready_handlers\<close> and \<open>do_complete\<close>: the front of the ready queue, which is removed before it runs.\<close>

definition pop_ready :: "'op strand_impl \<Rightarrow> ('op \<times> 'op strand_impl) option" where
  "pop_ready impl =
     (case ready_queue impl of [] \<Rightarrow> None | oper # ops \<Rightarrow> Some (oper, impl\<lparr>ready_queue := ops\<rparr>))"

inductive strand_step :: "'op strand_state \<Rightarrow> 'op strand_event \<Rightarrow> 'op strand_state \<Rightarrow> bool" where
  call: "t < length (stacks st) \<Longrightarrow> can_call (stacks st ! t) \<Longrightarrow> make_call k t s oper st = (e, st') \<Longrightarrow>
    strand_step st e st'"
| push: "t < length (stacks st) \<Longrightarrow> stacks st ! t = Claimed s oper inline # fs \<Longrightarrow>
    strand_step st Silent (put_stack t (Scheduling s inline # fs) (put_strand s (push_ready oper (strand_at st s)) st))"
| schedule: "t < length (stacks st) \<Longrightarrow> stacks st ! t = Scheduling s inline # fs \<Longrightarrow>
    strand_step st Silent (put_stack t fs (st\<lparr>posted := posted st @ [s]\<rparr>))"
| schedule_inline: "t < length (stacks st) \<Longrightarrow> stacks st ! t = Scheduling s True # fs \<Longrightarrow>
    strand_step st Silent (put_stack t (InStrand s # fs) st)"
| invoke: "t < length (stacks st) \<Longrightarrow> can_call (stacks st ! t) \<Longrightarrow> s \<in> set (posted st) \<Longrightarrow>
    strand_step st Silent (put_stack t (InStrand s # stacks st ! t) (st\<lparr>posted := remove1 s (posted st)\<rparr>))"
| start: "t < length (stacks st) \<Longrightarrow> stacks st ! t = InStrand s # fs \<Longrightarrow> pop_ready (strand_at st s) = Some (oper, impl) \<Longrightarrow>
    strand_step st (Started s oper) (put_stack t (Running s oper # InStrand s # fs) (put_strand s impl st))"
| loop_end: "t < length (stacks st) \<Longrightarrow> stacks st ! t = InStrand s # fs \<Longrightarrow> pop_ready (strand_at st s) = None \<Longrightarrow>
    strand_step st Silent (put_stack t (Exiting s # fs) st)"
| dispatch_end: "t < length (stacks st) \<Longrightarrow> stacks st ! t = InDispatch s # fs \<Longrightarrow>
    strand_step st Silent (put_stack t (Exiting s # fs) st)"
| return: "t < length (stacks st) \<Longrightarrow> stacks st ! t = Running s oper # fs \<Longrightarrow>
    strand_step st Silent (put_stack t fs st)"
| throw: "t < length (stacks st) \<Longrightarrow> stacks st ! t = Running s oper # InStrand s' # fs \<Longrightarrow>
    strand_step st Silent (put_stack t (Exiting s' # fs) st)"
| exit: "t < length (stacks st) \<Longrightarrow> stacks st ! t = Exiting s # fs \<Longrightarrow>
    push_waiting_to_ready (strand_at st s) = (again, impl) \<Longrightarrow>
    strand_step st Silent (put_stack t (if again then Rescheduling s # fs else fs) (put_strand s impl st))"
| reschedule: "t < length (stacks st) \<Longrightarrow> stacks st ! t = Rescheduling s # fs \<Longrightarrow>
    strand_step st Silent (put_stack t fs (st\<lparr>posted := posted st @ [s]\<rparr>))"

definition strands_init :: "nat \<Rightarrow> 'op strand_state" where
  "strands_init n = \<lparr>strand_at = \<lambda>_. strand_new, posted = [], stacks = replicate n []\<rparr>"

inductive strand_run :: "nat \<Rightarrow> 'op strand_event list \<Rightarrow> 'op strand_state \<Rightarrow> bool" where
  run_init: "strand_run n [] (strands_init n)"
| run_step: "strand_run n es st \<Longrightarrow> strand_step st e st' \<Longrightarrow> strand_run n (es @ [e]) st'"

lemma make_call_cases:
  assumes "make_call k t s oper st = (e, st')"
  obtains (nested) "e = Nested s oper" "st' = put_stack t (Running s oper # stacks st ! t) st"
      "running_in_this_thread s (stacks st ! t)"
    | (submit) inline r can where "submit t s oper inline r st = (e, st')"
      "r = strand_enqueue oper (strand_at st s) \<or> r = strand_do_post oper (strand_at st s) \<or>
        r = strand_do_dispatch can oper (strand_at st s)"
proof (cases "e = Nested s oper \<and> st' = put_stack t (Running s oper # stacks st ! t) st \<and> running_in_this_thread s (stacks st ! t)")
  case False
  note defs = strand_execute_def strand_dispatch_def strand_post_def strand_defer_def old_dispatch_def old_post_def run_nested_def
  have "\<exists>inline r can. submit t s oper inline r st = (e, st') \<and> (r = strand_enqueue oper (strand_at st s) \<or>
      r = strand_do_post oper (strand_at st s) \<or> r = strand_do_dispatch can oper (strand_at st s))"
    using assms False by (cases k; simp add: defs del: split_paired_Ex split: if_splits; blast)
  then show thesis using submit by blast
qed (use nested in blast)

lemma pop_ready_simps [simp]:
  "pop_ready impl = None \<longleftrightarrow> ready_queue impl = []"
  "pop_ready impl = Some (oper, impl') \<longleftrightarrow> (\<exists>ops. ready_queue impl = oper # ops \<and> impl' = impl\<lparr>ready_queue := ops\<rparr>)"
  by (auto simp: pop_ready_def split: list.splits)

section \<open>Who has a strand\<close>

text \<open>A frame or a posted invoker that has the strand; there is at most one.\<close>

fun holds :: "nat \<Rightarrow> 'op frame \<Rightarrow> bool" where
  "holds s (Running s' oper) = False"
| "holds s (Claimed s' oper inline) = (s' = s)"
| "holds s (Scheduling s' inline) = (s' = s)"
| "holds s (InStrand s') = (s' = s)"
| "holds s (InDispatch s') = (s' = s)"
| "holds s (Exiting s') = (s' = s)"
| "holds s (Rescheduling s') = (s' = s)"

definition in_stack :: "('op frame \<Rightarrow> bool) \<Rightarrow> 'op frame list \<Rightarrow> nat" where
  "in_stack P fs = length (filter P fs)"

definition in_stacks :: "('op frame \<Rightarrow> bool) \<Rightarrow> 'op strand_state \<Rightarrow> nat" where
  "in_stacks P st = sum_list (map (in_stack P) (stacks st))"

definition holders :: "nat \<Rightarrow> 'op strand_state \<Rightarrow> nat" where
  "holders s st = count_list (posted st) s + in_stacks (holds s) st"

fun claims :: "nat \<Rightarrow> 'op \<Rightarrow> 'op frame \<Rightarrow> bool" where
  "claims s oper (Claimed s' oper' inline) = (s' = s \<and> oper' = oper)"
| "claims s oper f = False"

fun claims_any :: "nat \<Rightarrow> 'op frame \<Rightarrow> bool" where
  "claims_any s (Claimed s' oper' inline) = (s' = s)"
| "claims_any s f = False"

lemma in_stack_simps [simp]: "in_stack P [] = 0" "in_stack P (f # fs) = (if P f then 1 else 0) + in_stack P fs"
  by (simp_all add: in_stack_def)

lemma in_stacks_put:
  assumes "t < length (stacks st)"
  shows "in_stacks P (put_stack t fs st) + in_stack P (stacks st ! t) = in_stacks P st + in_stack P fs"
proof -
  let ?xs = "map (in_stack P) (stacks st)"
  have "sum_list (?xs[t := in_stack P fs]) = sum_list ?xs + in_stack P fs - ?xs ! t" "?xs ! t \<le> sum_list ?xs"
    using assms sum_list_update [of t ?xs] elem_le_sum_list [of t ?xs] by simp_all
  then show ?thesis using assms by (simp add: in_stacks_def put_stack_def map_update)
qed

lemma in_stacks_le:
  assumes "\<And>f. P f \<Longrightarrow> Q f"
  shows "in_stacks P st \<le> in_stacks Q st"
proof -
  have "in_stack P fs \<le> in_stack Q fs" for fs using assms by (induction fs) auto
  then show ?thesis unfolding in_stacks_def by (intro sum_list_mono) simp
qed

lemma in_stacks_at: "t < length (stacks st) \<Longrightarrow> in_stack P (stacks st ! t) \<le> in_stacks P st"
  unfolding in_stacks_def by (metis elem_le_sum_list length_map nth_map)

lemma in_stacks_other [simp]:
  "in_stacks P (put_strand s impl st) = in_stacks P st" "in_stacks P (st\<lparr>posted := ps\<rparr>) = in_stacks P st"
  "stacks (put_strand s impl st) = stacks st" "strand_at (put_stack t fs st) = strand_at st"
  "strand_at (put_strand s impl st) = (strand_at st)(s := impl)" "posted (put_stack t fs st) = posted st"
  "posted (put_strand s impl st) = posted st" "stacks (put_stack t fs st) = (stacks st)[t := fs]"
  by (simp_all add: in_stacks_def put_strand_def put_stack_def)

section \<open>The invariant\<close>

fun submitted_by :: "nat \<Rightarrow> 'op strand_event \<Rightarrow> 'op list" where
  "submitted_by s (Submitted s' oper) = (if s' = s then [oper] else [])"
| "submitted_by s (StartedNow s' oper) = (if s' = s then [oper] else [])"
| "submitted_by s e = []"

fun started_by :: "nat \<Rightarrow> 'op strand_event \<Rightarrow> 'op list" where
  "started_by s (Started s' oper) = (if s' = s then [oper] else [])"
| "started_by s (StartedNow s' oper) = (if s' = s then [oper] else [])"
| "started_by s e = []"

definition submitted :: "nat \<Rightarrow> 'op strand_event list \<Rightarrow> 'op list" where
  "submitted s es = concat (map (submitted_by s) es)"

definition started :: "nat \<Rightarrow> 'op strand_event list \<Rightarrow> 'op list" where
  "started s es = concat (map (started_by s) es)"

lemma events_simps [simp]:
  "submitted s [] = []" "started s [] = []"
  "submitted s (es @ [e]) = submitted s es @ submitted_by s e" "started s (es @ [e]) = started s es @ started_by s e"
  by (simp_all add: submitted_def started_def)

fun stack_ok :: "'op frame list \<Rightarrow> bool" where
  "stack_ok [] = True"
| "stack_ok (Running s oper # fs) = (running_in_this_thread s fs \<and> stack_ok fs)"
| "stack_ok (f # fs) = stack_ok fs"

definition strand_inv :: "nat \<Rightarrow> 'op strand_event list \<Rightarrow> 'op strand_state \<Rightarrow> bool" where
  "strand_inv s es st \<longleftrightarrow>
     holders s st = of_bool (strand_locked (strand_at st s)) \<and>
     (\<not> strand_locked (strand_at st s) \<longrightarrow> ready_queue (strand_at st s) = [] \<and> waiting_queue (strand_at st s) = []) \<and>
     (in_stacks (claims_any s) st > 0 \<longrightarrow> ready_queue (strand_at st s) = []) \<and>
     (in_stacks (claims_any s) st = 0 \<longrightarrow>
        submitted s es = started s es @ ready_queue (strand_at st s) @ waiting_queue (strand_at st s)) \<and>
     (\<forall>oper. in_stacks (claims s oper) st > 0 \<longrightarrow> submitted s es = started s es @ oper # waiting_queue (strand_at st s))"

lemma counts:
  assumes "t < length (stacks st)"
  shows "in_stacks P (put_stack t fs st) = in_stacks P st + in_stack P fs - in_stack P (stacks st ! t)"
    "in_stack P (stacks st ! t) \<le> in_stacks P st"
  using in_stacks_put [OF assms, of P fs] in_stacks_at [OF assms, of P] by simp_all

lemma claims_holds: "in_stacks (claims s oper) st \<le> in_stacks (claims_any s) st" "in_stacks (claims_any s) st \<le> in_stacks (holds s) st"
proof -
  have "claims s oper f \<Longrightarrow> claims_any s f" "claims_any s f \<Longrightarrow> holds s f" for f by (cases f; simp)+
  then show "in_stacks (claims s oper) st \<le> in_stacks (claims_any s) st" "in_stacks (claims_any s) st \<le> in_stacks (holds s) st"
    by (simp_all add: in_stacks_le)
qed

lemma strand_inv_submit:
  assumes inv: "\<forall>s. strand_inv s es st" and t: "t < length (stacks st)"
    and sub: "submit t s oper inline r st = (e, st')"
    and r: "r = strand_enqueue oper (strand_at st s) \<or> r = strand_do_post oper (strand_at st s) \<or>
      r = strand_do_dispatch can oper (strand_at st s)"
  shows "strand_inv s' (es @ [e]) st'"
proof -
  let ?i = "strand_at st s"
  consider "e = Refused s oper" "st' = st"
    | "strand_locked ?i" "e = Submitted s oper" "st' = put_strand s (?i\<lparr>waiting_queue := waiting_queue ?i @ [oper]\<rparr>) st"
    | "\<not> strand_locked ?i" "e = Submitted s oper"
      "st' = put_stack t (Claimed s oper inline # stacks st ! t) (put_strand s (?i\<lparr>strand_locked := True\<rparr>) st)"
    | "\<not> strand_locked ?i" "e = StartedNow s oper"
      "st' = put_stack t (Running s oper # InDispatch s # stacks st ! t) (put_strand s (?i\<lparr>strand_locked := True\<rparr>) st)"
    using sub r by (auto simp: strand_enqueue_def strand_do_post_def strand_do_dispatch_def split: if_splits)
  then show ?thesis
  proof cases
    case 1
    then show ?thesis using inv by (simp add: strand_inv_def)
  next
    case 2
    have "in_stacks (claims_any s) st = 0 \<or> in_stacks (claims_any s) st > 0" by linarith
    then show ?thesis using 2 inv [THEN spec, of s'] by (auto simp: strand_inv_def holders_def)
  next
    case 3
    have "in_stacks (holds s) st = 0" "count_list (posted st) s = 0" using inv [THEN spec, of s] 3(1) by (simp_all add: strand_inv_def holders_def)
    then show ?thesis
      using 3 inv [THEN spec, of s'] claims_holds(1) [of s _ st] claims_holds(2) [of s st]
      by (cases "s' = s") (auto simp: strand_inv_def holders_def counts(1) t)
  next
    case 4
    have "in_stacks (holds s) st = 0" "count_list (posted st) s = 0" using inv [THEN spec, of s] 4(1) by (simp_all add: strand_inv_def holders_def)
    then show ?thesis
      using 4 inv [THEN spec, of s'] claims_holds(1) [of s _ st] claims_holds(2) [of s st]
      by (cases "s' = s") (auto simp: strand_inv_def holders_def counts(1) t)
  qed
qed

lemma count_list_remove1: "count_list (remove1 s xs) s' = count_list xs s' - (if s' = s then 1 else 0)"
  by (induction xs) auto

lemma count_list_pos: "s \<in> set xs \<Longrightarrow> count_list xs s > 0"
  by (induction xs) auto

text \<open>A holder on the stack is the only one.\<close>

lemma sole_holder:
  assumes inv: "strand_inv s es st" and t: "t < length (stacks st)" "stacks st ! t = f # fs" "holds s f"
  shows "strand_locked (strand_at st s) \<and> count_list (posted st) s = 0 \<and> in_stacks (holds s) st = 1 \<and> in_stack (holds s) fs = 0"
proof -
  have "in_stack (holds s) (f # fs) \<le> in_stacks (holds s) st" using in_stacks_at [OF t(1)] t(2) by metis
  then have "1 + in_stack (holds s) fs \<le> in_stacks (holds s) st" using t(3) by simp
  moreover have "holders s st = of_bool (strand_locked (strand_at st s))" using inv by (simp add: strand_inv_def)
  then have "count_list (posted st) s + in_stacks (holds s) st \<le> 1 \<and> (strand_locked (strand_at st s) \<or> in_stacks (holds s) st = 0)"
    by (auto simp: holders_def)
  ultimately show ?thesis by auto
qed

lemma claims_none: "in_stack (holds s) fs = 0 \<Longrightarrow> in_stack (claims_any s) fs = 0 \<and> in_stack (claims s oper) fs = 0"
proof (induction fs)
  case (Cons f fs)
  then show ?case by (cases f) (auto split: if_splits)
qed simp

lemma strand_inv_step:
  assumes "strand_step st e st'" and inv: "\<forall>s. strand_inv s es st"
  shows "strand_inv s (es @ [e]) st'"
  using assms(1)
proof cases
  case (call t k s' oper)
  from call(3) show ?thesis
  proof (cases rule: make_call_cases)
    case nested
    then show ?thesis using inv [THEN spec, of s] call(1) by (simp add: strand_inv_def holders_def counts(1))
  next
    case (submit inline r can)
    then show ?thesis using strand_inv_submit [OF inv call(1)] by blast
  qed
next
  case (push t s' oper inline fs)
  show ?thesis
  proof (cases "s' = s")
    case True
    note h = sole_holder [OF inv [THEN spec] push(3,4), of s, simplified True]
    have "in_stacks (claims s oper) st > 0" using in_stacks_at [OF push(3), of "claims s oper"] push(4) True by simp
    then have "submitted s es = started s es @ oper # waiting_queue (strand_at st s)" using inv [THEN spec, of s] by (simp add: strand_inv_def)
    then have "in_stacks (claims s oper') st = 0" if "oper' \<noteq> oper" for oper'
      using inv [THEN spec, of s] that by (fastforce simp: strand_inv_def)
    with \<open>in_stacks (claims s oper) st > 0\<close> show ?thesis
      using h inv [THEN spec, of s] claims_holds(1) [of s oper st] claims_holds(2) [of s st] push(3,4) True claims_none [of s fs]
      unfolding push(1,2) by (auto simp: strand_inv_def holders_def counts(1) push_ready_def)
  next
    case False
    then show ?thesis using inv [THEN spec, of s] push(3,4) unfolding push(1,2)
      by (simp add: strand_inv_def holders_def counts(1))
  qed
next
  case (schedule t s' inline fs)
  then show ?thesis using inv [THEN spec, of s] sole_holder [OF inv [THEN spec] schedule(3,4), of s]
    by (cases "s' = s") (auto simp: strand_inv_def holders_def counts(1))
next
  case (schedule_inline t s' fs)
  then show ?thesis using inv [THEN spec, of s] by (simp add: strand_inv_def holders_def counts(1))
next
  case (invoke t s')
  then have "count_list (posted st) s' > 0" by (intro count_list_pos)
  moreover from this have "strand_locked (strand_at st s')"
    using inv [THEN spec, of s'] by (cases "strand_locked (strand_at st s')") (auto simp: strand_inv_def holders_def)
  ultimately show ?thesis using inv [THEN spec, of s] invoke
    by (cases "s' = s") (auto simp: strand_inv_def holders_def counts(1) count_list_remove1)
next
  case (start t s' fs oper impl)
  then obtain ops where ops: "ready_queue (strand_at st s') = oper # ops" "impl = (strand_at st s')\<lparr>ready_queue := ops\<rparr>" by auto
  show ?thesis
  proof (cases "s' = s")
    case True
    have "in_stacks (claims_any s) st = 0" using inv [THEN spec, of s] ops True by (auto simp: strand_inv_def)
    then show ?thesis
      using sole_holder [OF inv [THEN spec] start(3,4), of s] inv [THEN spec, of s] start(3,4) ops True claims_holds(1) [of s _ st]
      unfolding start(1,2) by (auto simp: strand_inv_def holders_def counts(1))
  next
    case False
    then show ?thesis using inv [THEN spec, of s] start(3,4) unfolding start(1,2)
      by (simp add: strand_inv_def holders_def counts(1))
  qed
next
  case (loop_end t s' fs)
  then show ?thesis using inv [THEN spec, of s] by (simp add: strand_inv_def holders_def counts(1))
next
  case (dispatch_end t s' fs)
  then show ?thesis using inv [THEN spec, of s] by (simp add: strand_inv_def holders_def counts(1))
next
  case (return t s' oper fs)
  then show ?thesis using inv [THEN spec, of s] by (simp add: strand_inv_def holders_def counts(1))
next
  case (throw t s' oper s'' fs)
  then show ?thesis using inv [THEN spec, of s] by (simp add: strand_inv_def holders_def counts(1))
next
  case (exit t s' fs again impl)
  show ?thesis
  proof (cases "s' = s")
    case True
    note h = sole_holder [OF inv [THEN spec] exit(3,4), of s, simplified True]
    have "in_stacks (claims_any s) st = 0"
      using in_stacks_put [OF exit(3), of "claims_any s" fs] claims_holds(2) [of s "put_stack t fs st"]
        counts(1) [OF exit(3), of "holds s" fs] h exit(4) True claims_none [of s fs] by simp
    then show ?thesis
      using h inv [THEN spec, of s] exit(3-5) True claims_none [of s fs] claims_holds(1) [of s _ st]
      unfolding exit(1,2) by (auto simp: strand_inv_def holders_def counts(1) push_waiting_to_ready_def Let_def)
  next
    case False
    then show ?thesis using inv [THEN spec, of s] exit(3,4) unfolding exit(1,2)
      by (simp add: strand_inv_def holders_def counts(1))
  qed
next
  case (reschedule t s' fs)
  then show ?thesis using inv [THEN spec, of s] sole_holder [OF inv [THEN spec] reschedule(3,4), of s]
    by (cases "s' = s") (auto simp: strand_inv_def holders_def counts(1))
qed

lemma strand_run_inv: "strand_run n es st \<Longrightarrow> strand_inv s es st"
proof (induction arbitrary: s rule: strand_run.induct)
  case (run_init n)
  have "in_stacks P (strands_init n :: 'a strand_state) = 0" for P by (simp add: in_stacks_def strands_init_def sum_list_replicate)
  then show ?case by (simp add: strand_inv_def holders_def) (simp add: strands_init_def strand_new_def)
next
  case (run_step n es st e st')
  then show ?case using strand_inv_step by blast
qed

lemma stacks_step:
  assumes "strand_step st e st'" "\<forall>fs \<in> set (stacks st). stack_ok fs"
  shows "stacks st' = stacks st \<or> (\<exists>t gs. stacks st' = (stacks st)[t := gs] \<and> stack_ok gs)"
proof -
  have at: "stack_ok (stacks st ! t)" if "t < length (stacks st)" for t using assms(2) that by simp
  have sub: ?thesis if s: "submit t s oper inline r st = (e, st')" and t: "t < length (stacks st)" for t s oper inline r
  proof -
    obtain out impl where r: "r = (out, impl)" by fastforce
    have "stack_ok (Claimed s oper inline # stacks st ! t)" "stack_ok (Running s oper # InDispatch s # stacks st ! t)"
      using at [OF t] by (simp_all add: running_in_this_thread_def)
    moreover have "stacks st' = stacks st \<or> stacks st' = (stacks st)[t := Claimed s oper inline # stacks st ! t] \<or>
        stacks st' = (stacks st)[t := Running s oper # InDispatch s # stacks st ! t]"
      using s unfolding r by (cases out) auto
    ultimately show ?thesis by blast
  qed
  have put: ?thesis if "stacks st' = (stacks st)[t := gs]" "stack_ok gs" for t gs using that by blast
  from assms(1) show ?thesis
  proof cases
    case (call t k s oper)
    from call(3) show ?thesis
    proof (cases rule: make_call_cases)
      case nested
      then show ?thesis using at [OF call(1)] by (intro put [of t "stacks st' ! t"]) (simp_all add: call(1))
    next
      case (submit inline r can)
      then show ?thesis using sub call(1) by blast
    qed
  next
    case (throw t s oper s' fs)
    then show ?thesis using at [of t] by (intro put [of t "stacks st' ! t"]) simp_all
  next
    case (exit t s fs again impl)
    then show ?thesis using at [of t] by (intro put [of t "stacks st' ! t"]) (simp_all split: if_splits)
  next
    case (start t s fs oper impl)
    then show ?thesis using at [of t] by (intro put [of t "stacks st' ! t"]) (simp_all add: running_in_this_thread_def)
  next
    case (push t s oper inline fs)
    then show ?thesis using at [of t] by (intro put [of t "stacks st' ! t"]) simp_all
  next
    case (schedule t s inline fs)
    then show ?thesis using at [of t] by (intro put [of t "stacks st' ! t"]) simp_all
  next
    case (schedule_inline t s fs)
    then show ?thesis using at [of t] by (intro put [of t "stacks st' ! t"]) simp_all
  next
    case (invoke t s)
    then show ?thesis using at [of t] by (intro put [of t "stacks st' ! t"]) simp_all
  next
    case (loop_end t s fs)
    then show ?thesis using at [of t] by (intro put [of t "stacks st' ! t"]) simp_all
  next
    case (dispatch_end t s fs)
    then show ?thesis using at [of t] by (intro put [of t "stacks st' ! t"]) simp_all
  next
    case (return t s oper fs)
    then show ?thesis using at [of t] by (intro put [of t "stacks st' ! t"]) simp_all
  next
    case (reschedule t s fs)
    then show ?thesis using at [of t] by (intro put [of t "stacks st' ! t"]) simp_all
  qed
qed

lemma stack_ok_run: "strand_run n es st \<Longrightarrow> \<forall>fs \<in> set (stacks st). stack_ok fs"
proof (induction rule: strand_run.induct)
  case (run_step n es st e st')
  then consider "stacks st' = stacks st" | t gs where "stacks st' = (stacks st)[t := gs]" "stack_ok gs"
    using stacks_step [OF run_step(2)] by blast
  then show ?case
  proof cases
    case (2 t gs)
    then show ?thesis using run_step.IH set_update_subset_insert [of "stacks st" t gs] by auto
  qed (use run_step.IH in simp)
qed (simp add: strands_init_def)

section \<open>Properties\<close>

lemma two_holders:
  assumes "t1 < length (stacks st)" "t2 < length (stacks st)" "t1 \<noteq> t2"
    and "in_stack P (stacks st ! t1) > 0" "in_stack P (stacks st ! t2) > 0"
  shows "in_stacks P st \<ge> 2"
  using in_stacks_put [OF assms(1), of P "[]"] in_stacks_at [of t2 "put_stack t1 [] st" P] assms by simp

lemma running_holds:
  assumes "stack_ok fs" "Running s oper \<in> set fs"
  shows "in_stack (holds s) fs > 0"
proof -
  have "running_in_this_thread s fs"
    using assms by (induction fs rule: stack_ok.induct) (auto simp: running_in_this_thread_def)
  then show ?thesis unfolding running_in_this_thread_def by (induction fs) auto
qed

text \<open>
  C37: safety. However many threads call the executor and whatever the handlers do, handlers of one strand that
  run at the same time are on the stack of one thread, one called by the other, and never is an invoker
  scheduled while one runs; so the queue of ready handlers is used by one thread at a time.
\<close>

theorem strands_run_one_at_a_time:
  assumes run: "strand_run n es st" and t: "t1 < length (stacks st)" "t2 < length (stacks st)"
    and r: "Running s o1 \<in> set (stacks st ! t1)" "Running s o2 \<in> set (stacks st ! t2)"
  shows "t1 = t2 \<and> s \<notin> set (posted st) \<and> holders s st = 1"
proof -
  have ok: "stack_ok (stacks st ! t1)" "stack_ok (stacks st ! t2)" using stack_ok_run [OF run] t by simp_all
  note h = running_holds [OF ok(1) r(1)] running_holds [OF ok(2) r(2)]
  have "holders s st \<le> 1" using strand_run_inv [OF run, of s] by (simp add: strand_inv_def)
  moreover have "in_stacks (holds s) st > 0" using in_stacks_at [OF t(1), of "holds s"] h(1) by linarith
  moreover have "t1 = t2 \<or> in_stacks (holds s) st \<ge> 2" using two_holders [OF t _ h] by blast
  moreover have "s \<notin> set (posted st)" if "count_list (posted st) s = 0" using count_list_pos [of s "posted st"] that by auto
  ultimately show ?thesis by (auto simp: holders_def)
qed


text \<open>A run with two threads: one submits, the other runs.\<close>

lemma demo_strand_run:
  "\<exists>st. strand_run 2 [Submitted 5 ''a'', Silent, Silent, Submitted 5 ''b'', Silent, Started 5 ''a''] st \<and>
     length (stacks st) = 2 \<and> Running 5 ''a'' \<in> set (stacks st ! 1)"
proof -
  let ?s0 = "strands_init 2 :: string strand_state"
  define s1 where "s1 = put_stack 0 [Claimed 5 ''a'' True] (put_strand 5 (strand_new\<lparr>strand_locked := True\<rparr>) ?s0)"
  define s2 where "s2 = put_stack 0 [Scheduling 5 True] (put_strand 5 (push_ready ''a'' (strand_at s1 5)) s1)"
  define s3 where "s3 = put_stack 0 [] (s2\<lparr>posted := posted s2 @ [5]\<rparr>)"
  define s4 where "s4 = put_strand 5 ((strand_at s3 5)\<lparr>waiting_queue := [''b'']\<rparr>) s3"
  define s5 where "s5 = put_stack 1 [InStrand 5] (s4\<lparr>posted := []\<rparr>)"
  define s6 where "s6 = put_stack 1 [Running 5 ''a'', InStrand 5] (put_strand 5 ((strand_at s5 5)\<lparr>ready_queue := []\<rparr>) s5)"
  have r1: "strand_step ?s0 (Submitted 5 ''a'') s1"
    by (rule call [where t = 0 and s = 5 and oper = "''a''" and k = Dispatch])
      (simp_all add: strands_init_def strand_dispatch_def running_in_this_thread_def strand_enqueue_def strand_new_def s1_def)
  have r2: "strand_step s1 Silent s2"
    unfolding s2_def by (rule push) (simp_all add: s1_def strands_init_def)
  have r3: "strand_step s2 Silent s3"
    unfolding s3_def by (rule schedule) (simp_all add: s1_def s2_def strands_init_def)
  have r4: "strand_step s3 (Submitted 5 ''b'') s4"
    by (rule call [where t = 0 and s = 5 and oper = "''b''" and k = Dispatch])
      (simp_all add: s1_def s2_def s3_def s4_def strands_init_def strand_dispatch_def running_in_this_thread_def strand_enqueue_def strand_new_def push_ready_def)
  have r5: "strand_step s4 Silent s5"
    using invoke [of 1 s4 5] by (simp add: s1_def s2_def s3_def s4_def s5_def strands_init_def put_stack_def put_strand_def)
  have r6: "strand_step s5 (Started 5 ''a'') s6"
    unfolding s6_def by (rule start [of 1])
      (simp_all add: s1_def s2_def s3_def s4_def s5_def strands_init_def push_ready_def strand_new_def)
  note run_step [OF run_step [OF run_step [OF run_step [OF run_step [OF run_step [OF run_init r1] r2] r3] r4] r5] r6]
  moreover have "length (stacks s6) = 2" "Running 5 ''a'' \<in> set (stacks s6 ! 1)"
    by (simp_all add: s1_def s2_def s3_def s4_def s5_def s6_def strands_init_def)
  ultimately show ?thesis by (intro exI [of _ s6]) simp
qed

theorem strands_run_one_at_a_time_witness:
  "\<exists>es st. strand_run 2 es (st :: string strand_state) \<and> Running 5 ''a'' \<in> set (stacks st ! 1) \<and> holders 5 st = 1"
proof -
  obtain st :: "string strand_state" and es where run: "strand_run 2 es st" "length (stacks st) = 2" "Running 5 ''a'' \<in> set (stacks st ! 1)"
    using demo_strand_run by blast
  have "1 < length (stacks st)" using run(2) by simp
  from strands_run_one_at_a_time [OF run(1) this this run(3) run(3)] show ?thesis using run by blast
qed


text \<open>
  When the executor's service shuts down, it destroys the operations of all strands, and later submissions
  are refused; the older service has no such flag.
\<close>

definition strand_queued :: "'op strand_impl \<Rightarrow> 'op list" where
  "strand_queued i = waiting_queue i @ ready_queue i"

lemma strand_shutdown_loop_correct:
  assumes "distinct as" "\<forall>a \<in> set as. strands s a \<noteq> None"
  shows "\<exists>s'. strand_shutdown_loop as ops s = (ops @ concat (map (\<lambda>a. strand_queued (the (strands s a))) as), s') \<and> impl_list s' = impl_list s \<and>
    (\<forall>a. a \<notin> set as \<longrightarrow> strands s' a = strands s a) \<and>
    (\<forall>a \<in> set as. \<exists>i. strands s' a = Some i \<and> strand_queued i = [] \<and> fst (strand_enqueue oper i) = Destroyed)"
  using assms
proof (induction as arbitrary: ops s)
  case (Cons a as)
  then obtain i where i: "strands s a = Some i" by auto
  define t where "t = s\<lparr>strands := (strands s)(a \<mapsto> i\<lparr>strand_shutdown := True, waiting_queue := [], ready_queue := []\<rparr>)\<rparr>"
  have same: "strands t b = strands s b" if "b \<noteq> a" for b using that by (simp add: t_def)
  have ta: "strands t a = Some (i\<lparr>strand_shutdown := True, waiting_queue := [], ready_queue := []\<rparr>)" by (simp add: t_def)
  have "concat (map (\<lambda>a. strand_queued (the (strands t a))) as) = concat (map (\<lambda>a. strand_queued (the (strands s a))) as)"
  proof (intro arg_cong [of _ _ concat] map_cong)
    fix b assume "b \<in> set as"
    then have "b \<noteq> a" using Cons.prems(1) by auto
    then show "strand_queued (the (strands t b)) = strand_queued (the (strands s b))" by (simp add: same)
  qed simp
  moreover have "\<forall>b \<in> set as. strands t b \<noteq> None" using Cons.prems same by (metis distinct.simps(2) list.set_intros(2))
  ultimately obtain s' where s': "strand_shutdown_loop as (ops @ strand_queued i) t =
      (ops @ strand_queued i @ concat (map (\<lambda>a. strand_queued (the (strands s a))) as), s')" "impl_list s' = impl_list t"
    "\<forall>b. b \<notin> set as \<longrightarrow> strands s' b = strands t b"
    "\<forall>b \<in> set as. \<exists>i. strands s' b = Some i \<and> strand_queued i = [] \<and> fst (strand_enqueue oper i) = Destroyed"
    using Cons.IH [of t "ops @ strand_queued i"] Cons.prems(1) by auto
  have "strand_shutdown_loop (a # as) ops s = strand_shutdown_loop as (ops @ strand_queued i) t"
    using i by (simp add: t_def strand_queued_def)
  moreover have "strands s' a = strands t a" using s'(3) Cons.prems(1) by simp
  ultimately show ?case
    using i s' same ta Cons.prems(1)
    by (intro exI [of _ s']) (auto simp: t_def strand_queued_def strand_enqueue_def)
qed simp

text \<open>
  The service keeps the strands it created and their mutexes, and when it shuts down, it destroys the operations
  of all of them; submissions are refused from then on.
\<close>

definition service_ok :: "'op strand_executor_service \<Rightarrow> bool" where
  "service_ok s \<longleftrightarrow> distinct (impl_list s) \<and> set (impl_list s) = dom (strands s) \<and> dom (mutex_of s) = dom (strands s) \<and>
     ran (mutex_of s) \<subseteq> mutexes s \<and> (\<forall>m \<in> mutexes s. m < 193)"

lemma service_ok_create: "service_ok s \<Longrightarrow> addr \<notin> dom (strands s) \<Longrightarrow> service_ok (create_implementation addr s)"
  by (auto simp: service_ok_def create_implementation_def Let_def ran_def dom_def strand_index_bound split: if_splits)

lemma service_ok_destroy: "service_ok s \<Longrightarrow> service_ok (destroy_implementation addr s)"
  by (auto simp: service_ok_def destroy_implementation_def ran_def distinct_removeAll split: if_splits)

lemma strand_service_shutdown_correct:
  assumes "service_ok s"
  shows "\<exists>s'. strand_service_shutdown s = (concat (map (\<lambda>a. strand_queued (the (strands s a))) (impl_list s)), s') \<and>
    (\<forall>a \<in> dom (strands s). \<exists>i. strands s' a = Some i \<and> strand_queued i = [] \<and> fst (strand_enqueue oper i) = Destroyed)"
  using strand_shutdown_loop_correct [of "impl_list s" s "[]" oper] assms
  by (auto simp: service_ok_def strand_service_shutdown_def)

end
