(* ===== verification/ServiceRegistry.thy ===== *)
theory ServiceRegistry
  imports Prelude
begin

text \<open>
  The services of an execution context, \<^verbatim>\<open>asio/detail/impl/service_registry.ipp\<close>, \<^verbatim>\<open>asio/detail/service_registry.hpp\<close> and
  \<^verbatim>\<open>asio/execution_context.hpp\<close>: each is created when it is first used, by a constructor that may use others,
  without the registry's lock. Threads are stacks of constructors; a step is a critical section. There is one
  service of a type, and none is destroyed before those whose constructors obtained it.
\<close>

section \<open>Keys\<close>

text \<open>A key is the address of a type's \<open>type_info\<close>, compared by what it describes, or the address of an identifier.\<close>

record skey =
  type_info :: "nat option"
  key_id :: "nat option"

definition no_key :: skey where "no_key = \<lparr>type_info = None, key_id = None\<rparr>"

definition keys_match :: "skey \<Rightarrow> skey \<Rightarrow> bool" where
  "keys_match key1 key2 \<longleftrightarrow>
     (if key_id key1 \<noteq> None \<and> key_id key2 \<noteq> None \<and> key_id key1 = key_id key2 then True
      else if type_info key1 \<noteq> None \<and> type_info key2 \<noteq> None \<and> type_info key1 = type_info key2 then True
      else False)"

text \<open>A class of services has a static identifier of its own, or one that only stands for its type.\<close>

datatype service_class = WithId nat | WithType nat

fun init_key :: "service_class \<Rightarrow> skey" where
  "init_key (WithId i) = \<lparr>type_info = None, key_id = Some i\<rparr>"
| "init_key (WithType t) = \<lparr>type_info = Some t, key_id = None\<rparr>"

lemma keys_match_init [simp]: "keys_match (init_key c) (init_key c') \<longleftrightarrow> c = c'"
  by (cases c; cases c') (auto simp: keys_match_def)

lemma init_key_inject [simp]: "init_key c = init_key c' \<longleftrightarrow> c = c'"
  by (cases c; cases c') auto

section \<open>The registry\<close>

text \<open>
  A service, named by a number, with the context it was constructed for and the services that its
  constructor obtained; the registry holds them as a list linked by \<open>next_\<close>, the newest first.
\<close>

record service =
  service_self :: nat
  service_key :: skey
  service_owner :: nat
  service_uses :: "nat list"

record registry =
  registry_owner :: nat
  first_service :: "service list"

datatype service_error = ServiceAlreadyExists | InvalidServiceOwner

definition registry_new :: "nat \<Rightarrow> registry" where
  "registry_new owner = \<lparr>registry_owner = owner, first_service = []\<rparr>"

fun find_service :: "skey \<Rightarrow> service list \<Rightarrow> service option" where
  "find_service key [] = None"
| "find_service key (s # ss) = (if keys_match (service_key s) key then Some s else find_service key ss)"

definition do_has_service :: "skey \<Rightarrow> registry \<Rightarrow> bool" where
  "do_has_service key r = (find_service key (first_service r) \<noteq> None)"

definition do_add_service :: "skey \<Rightarrow> service \<Rightarrow> registry \<Rightarrow> service_error + registry" where
  "do_add_service key new_service r =
     (if registry_owner r \<noteq> service_owner new_service then Inl InvalidServiceOwner
      else case find_service key (first_service r) of
             Some _ \<Rightarrow> Inl ServiceAlreadyExists
           | None \<Rightarrow> Inr (r\<lparr>first_service := new_service\<lparr>service_key := key\<rparr> # first_service r\<rparr>))"

text \<open>
  The second critical section of \<open>do_use_service\<close>, after the constructor: another thread may have
  been faster, and then its service is returned and the new one is destroyed (the second component).
\<close>

definition enter_service :: "skey \<Rightarrow> service \<Rightarrow> registry \<Rightarrow> service \<times> service option \<times> registry" where
  "enter_service key new_service r =
     (case find_service key (first_service r) of
        Some s \<Rightarrow> (s, Some new_service, r)
      | None \<Rightarrow> (new_service, None, r\<lparr>first_service := new_service # first_service r\<rparr>))"

text \<open>The whole function for one thread; the factory may change the registry, by nested calls.\<close>

definition do_use_service :: "skey \<Rightarrow> (nat \<Rightarrow> registry \<Rightarrow> service \<times> registry) \<Rightarrow> registry \<Rightarrow> service \<times> service option \<times> registry" where
  "do_use_service key factory r =
     (case find_service key (first_service r) of
        Some s \<Rightarrow> (s, None, r)
      | None \<Rightarrow> (let (new_service, r') = factory (registry_owner r) r
                in enter_service key (new_service\<lparr>service_key := key\<rparr>) r'))"

text \<open>\<open>make_service\<close> destroys the service when it cannot be added.\<close>

definition make_service :: "service_class \<Rightarrow> (nat \<Rightarrow> registry \<Rightarrow> service \<times> registry) \<Rightarrow> registry \<Rightarrow>
    (service_error \<times> service \<times> registry) + (service \<times> registry)" where
  "make_service c construct r =
     (let (svc, r') = construct (registry_owner r) r
      in case do_add_service (init_key c) svc r' of
           Inl e \<Rightarrow> Inl (e, svc, r')
         | Inr r'' \<Rightarrow> Inr (svc\<lparr>service_key := init_key c\<rparr>, r''))"

section \<open>The end of a context, and fork\<close>

datatype service_call = Shutdown nat | Delete nat

fun shutdown_services :: "service list \<Rightarrow> service_call list" where
  "shutdown_services [] = []"
| "shutdown_services (s # ss) = Shutdown (service_self s) # shutdown_services ss"

fun destroy_services :: "service list \<Rightarrow> service_call list" where
  "destroy_services [] = []"
| "destroy_services (s # ss) = Delete (service_self s) # destroy_services ss"

definition execution_context_end :: "registry \<Rightarrow> service_call list" where
  "execution_context_end r = shutdown_services (first_service r) @ destroy_services (first_service r)"

datatype fork_event = ForkPrepare | ForkParent | ForkChild

definition notify_fork :: "fork_event \<Rightarrow> registry \<Rightarrow> nat list" where
  "notify_fork fork_ev r =
     (let services = first_service r; num_services = length services
      in if fork_ev = ForkPrepare then map (\<lambda>i. service_self (services ! i)) [0..<num_services]
         else map (\<lambda>i. service_self (services ! (i - 1))) (rev [1..<num_services + 1]))"

lemma calls_map [simp]:
  "shutdown_services ss = map (Shutdown \<circ> service_self) ss" "destroy_services ss = map (Delete \<circ> service_self) ss"
  by (induction ss) auto

lemma notify_fork_order:
  "notify_fork ev r =
     (if ev = ForkPrepare then map service_self (first_service r) else rev (map service_self (first_service r)))"
proof -
  have "map (\<lambda>i. service_self (first_service r ! i)) [0..<length (first_service r)] = map service_self (first_service r)"
    by (intro nth_equalityI) simp_all
  moreover have "map (\<lambda>i. service_self (first_service r ! (i - 1))) [1..<length (first_service r) + 1] = map service_self (first_service r)"
    by (intro nth_equalityI) (simp_all del: upt_Suc)
  ultimately show ?thesis unfolding notify_fork_def Let_def by (simp only: rev_map [symmetric])
qed

section \<open>Threads\<close>

text \<open>
  \<open>Constructing\<close>: the constructor of a service runs, in \<open>do_use_service\<close> or called by the program, with the
  services it has obtained. \<open>Built\<close>: \<open>do_use_service\<close> before its second critical section. Services that the
  program has constructed and not added are in \<open>loose\<close>.
\<close>

datatype frame =
    Constructing service_class bool nat "nat list"
  | Built service_class service

record reg_state =
  reg :: registry
  loose :: "service list"
  objects :: nat
  ctors :: "frame list list"

datatype reg_event =
    Obtained service_class nat
  | Added service_class nat
  | Refused service_error
  | Internal

fun may_call :: "frame list \<Rightarrow> bool" where
  "may_call [] = True"
| "may_call (Constructing c auto owner obtained # fs) = True"
| "may_call (Built c s # fs) = False"

text \<open>A reference to a service is returned to the constructor on top of the stack, if there is one.\<close>

fun give :: "nat \<Rightarrow> frame list \<Rightarrow> frame list" where
  "give i (Constructing c auto owner obtained # fs) = Constructing c auto owner (obtained @ [i]) # fs"
| "give i fs = fs"

definition put_ctors :: "nat \<Rightarrow> frame list \<Rightarrow> reg_state \<Rightarrow> reg_state" where
  "put_ctors t fs st = st\<lparr>ctors := (ctors st)[t := fs]\<rparr>"

inductive reg_step :: "reg_state \<Rightarrow> reg_event \<Rightarrow> reg_state \<Rightarrow> bool" where
  use_found: "t < length (ctors st) \<Longrightarrow> may_call (ctors st ! t) \<Longrightarrow>
    find_service (init_key c) (first_service (reg st)) = Some s \<Longrightarrow>
    reg_step st (Obtained c (service_self s)) (put_ctors t (give (service_self s) (ctors st ! t)) st)"
| use_missing: "t < length (ctors st) \<Longrightarrow> may_call (ctors st ! t) \<Longrightarrow>
    find_service (init_key c) (first_service (reg st)) = None \<Longrightarrow>
    reg_step st Internal (put_ctors t (Constructing c True (registry_owner (reg st)) [] # ctors st ! t) st)"
| construct: "t < length (ctors st) \<Longrightarrow> may_call (ctors st ! t) \<Longrightarrow>
    reg_step st Internal (put_ctors t (Constructing c False owner [] # ctors st ! t) st)"
| ctor_throws: "t < length (ctors st) \<Longrightarrow> ctors st ! t = Constructing c auto owner obtained # fs \<Longrightarrow>
    reg_step st Internal (put_ctors t fs st)"
| built: "t < length (ctors st) \<Longrightarrow> ctors st ! t = Constructing c True owner obtained # fs \<Longrightarrow>
    reg_step st Internal (put_ctors t (Built c \<lparr>service_self = objects st, service_key = init_key c,
      service_owner = owner, service_uses = obtained\<rparr> # fs) (st\<lparr>objects := Suc (objects st)\<rparr>))"
| constructed: "t < length (ctors st) \<Longrightarrow> ctors st ! t = Constructing c False owner obtained # fs \<Longrightarrow>
    reg_step st Internal (put_ctors t fs (st\<lparr>objects := Suc (objects st), loose := \<lparr>service_self = objects st,
      service_key = no_key, service_owner = owner, service_uses = obtained\<rparr> # loose st\<rparr>))"
| enter: "t < length (ctors st) \<Longrightarrow> ctors st ! t = Built c new_service # fs \<Longrightarrow>
    enter_service (init_key c) new_service (reg st) = (s, discarded, r) \<Longrightarrow>
    reg_step st (Obtained c (service_self s)) (put_ctors t (give (service_self s) fs) (st\<lparr>reg := r\<rparr>))"
| add: "s \<in> set (loose st) \<Longrightarrow> do_add_service (init_key c) s (reg st) = Inr r \<Longrightarrow>
    reg_step st (Added c (service_self s)) (st\<lparr>reg := r, loose := remove1 s (loose st)\<rparr>)"
| add_throws: "s \<in> set (loose st) \<Longrightarrow> do_add_service (init_key c) s (reg st) = Inl e \<Longrightarrow>
    reg_step st (Refused e) st"
| drop_loose: "s \<in> set (loose st) \<Longrightarrow> reg_step st Internal (st\<lparr>loose := remove1 s (loose st)\<rparr>)"

definition reg_init :: "nat \<Rightarrow> nat \<Rightarrow> reg_state" where
  "reg_init owner n = \<lparr>reg = registry_new owner, loose = [], objects = 0, ctors = replicate n []\<rparr>"

inductive reg_run :: "nat \<Rightarrow> nat \<Rightarrow> reg_event list \<Rightarrow> reg_state \<Rightarrow> bool" where
  reg_start: "reg_run owner n [] (reg_init owner n)"
| reg_more: "reg_run owner n es st \<Longrightarrow> reg_step st e st' \<Longrightarrow> reg_run owner n (es @ [e]) st'"

section \<open>The invariant\<close>

text \<open>The objects that exist: services in the registry, loose ones, and one that a thread is about to enter.\<close>

fun built_in :: "frame list \<Rightarrow> nat list" where
  "built_in [] = []"
| "built_in (Built c s # fs) = service_self s # built_in fs"
| "built_in (Constructing c auto owner obtained # fs) = built_in fs"

definition stored :: "reg_state \<Rightarrow> nat set" where
  "stored st = service_self ` set (first_service (reg st))"

definition existing :: "reg_state \<Rightarrow> nat \<Rightarrow> nat" where
  "existing st i = count_list (map service_self (first_service (reg st))) i + count_list (map service_self (loose st)) i +
     sum_list (map (\<lambda>fs. count_list (built_in fs) i) (ctors st))"

text \<open>The services a constructor obtained are behind its own in the list.\<close>

fun uses_behind :: "service list \<Rightarrow> bool" where
  "uses_behind [] = True"
| "uses_behind (s # ss) = (set (service_uses s) \<subseteq> service_self ` set ss \<and> uses_behind ss)"

fun frame_ok :: "nat set \<Rightarrow> frame \<Rightarrow> bool" where
  "frame_ok ids (Constructing c auto owner obtained) = (set obtained \<subseteq> ids)"
| "frame_ok ids (Built c s) = (service_key s = init_key c \<and> set (service_uses s) \<subseteq> ids)"

definition reg_inv :: "reg_event list \<Rightarrow> reg_state \<Rightarrow> bool" where
  "reg_inv es st \<longleftrightarrow>
     (\<forall>i. existing st i \<le> of_bool (i < objects st)) \<and>
     distinct (map service_key (first_service (reg st))) \<and>
     (\<forall>s \<in> set (first_service (reg st)). \<exists>c. service_key s = init_key c) \<and>
     uses_behind (first_service (reg st)) \<and>
     (\<forall>fs \<in> set (ctors st). \<forall>f \<in> set fs. frame_ok (stored st) f) \<and>
     (\<forall>s \<in> set (loose st). set (service_uses s) \<subseteq> stored st) \<and>
     (\<forall>c i. Obtained c i \<in> set es \<or> Added c i \<in> set es \<longrightarrow>
        (\<exists>s \<in> set (first_service (reg st)). service_key s = init_key c \<and> service_self s = i))"

lemma find_service_Some:
  assumes "find_service (init_key c) ss = Some s" "\<forall>s \<in> set ss. \<exists>c. service_key s = init_key c"
  shows "s \<in> set ss \<and> service_key s = init_key c"
  using assms by (induction ss) (force split: if_splits)+

lemma find_service_None:
  assumes "find_service (init_key c) ss = None" "\<forall>s \<in> set ss. \<exists>c. service_key s = init_key c"
  shows "\<forall>s \<in> set ss. service_key s \<noteq> init_key c"
  using assms by (induction ss) (force split: if_splits)+

lemma frame_ok_mono: "frame_ok ids f \<Longrightarrow> ids \<subseteq> ids' \<Longrightarrow> frame_ok ids' f"
  by (cases f) auto

lemma give_simps [simp]: "built_in (give i fs) = built_in fs" "give i fs = [] \<longleftrightarrow> fs = []"
  by (cases "(i, fs)" rule: give.cases; simp)+

lemma frames_give: "\<forall>f \<in> set fs. frame_ok ids f \<Longrightarrow> i \<in> ids \<Longrightarrow> \<forall>f \<in> set (give i fs). frame_ok ids f"
  by (cases "(i, fs)" rule: give.cases) auto

lemma built_sum:
  assumes "t < length (ctors st)"
  shows "sum_list (map (\<lambda>fs. count_list (built_in fs) i) ((ctors st)[t := gs])) + count_list (built_in (ctors st ! t)) i =
    sum_list (map (\<lambda>fs. count_list (built_in fs) i) (ctors st)) + count_list (built_in gs) i"
proof -
  let ?xs = "map (\<lambda>fs. count_list (built_in fs) i) (ctors st)"
  have "sum_list (?xs[t := count_list (built_in gs) i]) = sum_list ?xs + count_list (built_in gs) i - ?xs ! t"
    "?xs ! t \<le> sum_list ?xs"
    using assms sum_list_update [of t ?xs] elem_le_sum_list [of t ?xs] by simp_all
  then show ?thesis using assms by (simp add: map_update)
qed

lemma existing_put:
  assumes "t < length (ctors st)"
  shows "existing (put_ctors t gs st) i + count_list (built_in (ctors st ! t)) i = existing st i + count_list (built_in gs) i"
  using built_sum [OF assms, of i gs] by (simp add: existing_def put_ctors_def)

lemma existing_put_same:
  assumes "t < length (ctors st)" "built_in gs = built_in (ctors st ! t)"
  shows "existing (put_ctors t gs st) = existing st"
  using existing_put [OF assms(1), of gs] assms(2) by (intro ext) simp

lemma put_ctors_simps [simp]:
  "reg (put_ctors t gs st) = reg st" "loose (put_ctors t gs st) = loose st" "objects (put_ctors t gs st) = objects st"
  "ctors (put_ctors t gs st) = (ctors st)[t := gs]" "stored (put_ctors t gs st) = stored st"
  "stored (st\<lparr>objects := n\<rparr>) = stored st" "stored (st\<lparr>loose := l\<rparr>) = stored st"
  by (simp_all add: put_ctors_def stored_def)

lemma count_map_remove1:
  "s \<in> set ss \<Longrightarrow> count_list (map f (remove1 s ss)) i + of_bool (f s = i) = count_list (map f ss) i"
  by (induction ss) auto

lemma frames_put:
  assumes "\<forall>gs \<in> set xs. \<forall>f \<in> set gs. P f" "\<forall>f \<in> set new. P f"
  shows "\<forall>gs \<in> set (xs[t := new]). \<forall>f \<in> set gs. P f"
  using assms set_update_subset_insert [of xs t new] by blast

text \<open>A step that leaves the registry alone and puts good frames on a stack.\<close>

lemma reg_inv_keep:
  assumes inv: "reg_inv es st" and t: "t < length (ctors st)" and st': "reg st' = reg st" "ctors st' = (ctors st)[t := gs]"
    and objs: "\<forall>i. existing st' i \<le> of_bool (i < objects st')"
    and ok: "\<forall>f \<in> set gs. frame_ok (stored st) f" and loose: "\<forall>s \<in> set (loose st'). set (service_uses s) \<subseteq> stored st"
    and ev: "\<forall>c i. e = Obtained c i \<or> e = Added c i \<longrightarrow>
      (\<exists>s \<in> set (first_service (reg st)). service_key s = init_key c \<and> service_self s = i)"
  shows "reg_inv (es @ [e]) st'"
proof -
  have "\<forall>fs \<in> set ((ctors st)[t := gs]). \<forall>f \<in> set fs. frame_ok (stored st) f"
    using inv ok by (intro frames_put) (simp_all add: reg_inv_def)
  moreover have "stored st' = stored st" by (simp add: stored_def st')
  ultimately show ?thesis using inv ev objs loose by (auto simp: reg_inv_def st')
qed

lemma reg_inv_put:
  assumes inv: "reg_inv es st" and t: "t < length (ctors st)" and same: "built_in gs = built_in (ctors st ! t)"
    and ok: "\<forall>f \<in> set gs. frame_ok (stored st) f"
    and ev: "\<forall>c i. e = Obtained c i \<or> e = Added c i \<longrightarrow>
      (\<exists>s \<in> set (first_service (reg st)). service_key s = init_key c \<and> service_self s = i)"
  shows "reg_inv (es @ [e]) (put_ctors t gs st)"
  using inv by (intro reg_inv_keep [OF inv t, where gs = gs] ok ev) (simp_all add: existing_put_same [OF t same] reg_inv_def)

lemma existing_below: "reg_inv es st \<Longrightarrow> existing st (objects st) = 0"
  by (force simp: reg_inv_def dest: spec [of _ "objects st"])

text \<open>A service that enters the registry.\<close>

lemma reg_inv_enter:
  assumes inv: "reg_inv es st" and keys: "find_service (init_key c) (first_service (reg st)) = None" "service_key s = init_key c"
    and uses: "set (service_uses s) \<subseteq> stored st"
    and st': "reg st' = (reg st)\<lparr>first_service := s # first_service (reg st)\<rparr>"
    and objs: "\<forall>i. existing st' i \<le> of_bool (i < objects st')"
    and frames: "\<forall>fs \<in> set (ctors st'). \<forall>f \<in> set fs. frame_ok (stored st') f"
    and loose: "set (loose st') \<subseteq> set (loose st)"
    and ev: "e = Obtained c (service_self s) \<or> e = Added c (service_self s)"
  shows "reg_inv (es @ [e]) st'"
proof -
  have more: "stored st \<subseteq> stored st'" by (auto simp: stored_def st')
  have "\<forall>x \<in> set (first_service (reg st)). service_key x \<noteq> init_key c"
    using find_service_None [OF keys(1)] inv by (simp add: reg_inv_def)
  then have "distinct (map service_key (first_service (reg st')))" using inv keys(2) by (auto simp: reg_inv_def st')
  moreover have "uses_behind (first_service (reg st'))" using inv uses by (simp add: reg_inv_def st' stored_def)
  moreover have "\<forall>x \<in> set (loose st'). set (service_uses x) \<subseteq> stored st'" using inv loose more by (fastforce simp: reg_inv_def)
  moreover have "\<forall>c i. Obtained c i \<in> set (es @ [e]) \<or> Added c i \<in> set (es @ [e]) \<longrightarrow>
        (\<exists>s \<in> set (first_service (reg st')). service_key s = init_key c \<and> service_self s = i)"
  proof (intro allI impI)
    fix c' i assume "Obtained c' i \<in> set (es @ [e]) \<or> Added c' i \<in> set (es @ [e])"
    then consider "Obtained c' i \<in> set es \<or> Added c' i \<in> set es" | "c' = c" "i = service_self s" using ev by auto
    then show "\<exists>s \<in> set (first_service (reg st')). service_key s = init_key c' \<and> service_self s = i"
    proof cases
      case 1
      then show ?thesis using inv by (auto simp: reg_inv_def st')
    qed (simp add: st' keys(2))
  qed
  moreover have "\<forall>x \<in> set (first_service (reg st')). \<exists>c. service_key x = init_key c"
    using inv keys(2) by (auto simp: reg_inv_def st')
  ultimately show ?thesis using objs frames by (simp add: reg_inv_def)
qed

lemma reg_inv_enter_service:
  assumes inv: "reg_inv es st" and t: "t < length (ctors st)" and top: "ctors st ! t = Built c new_service # fs"
    and call: "enter_service (init_key c) new_service (reg st) = (s, discarded, r)"
  shows "reg_inv (es @ [Obtained c (service_self s)]) (put_ctors t (give (service_self s) fs) (st\<lparr>reg := r\<rparr>))"
    (is "reg_inv _ ?st'")
proof -
  have at: "\<forall>f \<in> set (ctors st ! t). frame_ok (stored st) f" using inv t by (auto simp: reg_inv_def)
  have wf: "\<forall>s \<in> set (first_service (reg st)). \<exists>c. service_key s = init_key c" using inv by (simp add: reg_inv_def)
  have objs: "existing st i \<le> of_bool (i < objects st)" for i using inv by (simp add: reg_inv_def)
  have new: "service_key new_service = init_key c" "set (service_uses new_service) \<subseteq> stored st"
    and fs: "\<forall>f \<in> set fs. frame_ok (stored st) f"
    using at top by simp_all
  show ?thesis
  proof (cases "find_service (init_key c) (first_service (reg st))")
    case (Some s0)
    then have s: "s = s0" "r = reg st" using call by (simp_all add: enter_service_def)
    have mem: "s0 \<in> set (first_service (reg st)) \<and> service_key s0 = init_key c" using find_service_Some [OF Some wf] .
    have "existing ?st' i \<le> existing st i" for i
      using existing_put [OF t, of "give (service_self s0) fs" i] top by (simp add: s split: if_splits)
    then have "\<forall>i. existing ?st' i \<le> of_bool (i < objects st)" using objs order_trans by blast
    then show ?thesis using inv mem frames_give [OF fs]
      by (intro reg_inv_keep [OF inv t]) (auto simp: s stored_def reg_inv_def)
  next
    case None
    then have s: "s = new_service" "r = (reg st)\<lparr>first_service := new_service # first_service (reg st)\<rparr>"
      using call by (auto simp: enter_service_def)
    have "existing ?st' i = existing st i" for i
      using existing_put [of t "st\<lparr>reg := r\<rparr>" "give (service_self s) fs" i] t top
      by (cases "service_self s = i") (simp_all add: existing_def s)
    then have ob: "\<forall>i. existing ?st' i \<le> of_bool (i < objects ?st')" using objs by simp
    have st: "stored ?st' = insert (service_self s) (stored st)" by (simp add: stored_def s)
    have up: "frame_ok (stored st) f \<Longrightarrow> frame_ok (stored ?st') f" for f using frame_ok_mono st by blast
    then have "\<forall>f \<in> set (give (service_self s) fs). frame_ok (stored ?st') f" using fs frames_give st by blast
    then have "\<forall>gs \<in> set (ctors ?st'). \<forall>f \<in> set gs. frame_ok (stored ?st') f"
      using inv up unfolding put_ctors_simps(4) by (intro frames_put) (auto simp: reg_inv_def)
    then show ?thesis using reg_inv_enter [OF inv None new _ ob] by (simp add: s)
  qed
qed

lemma reg_inv_step:
  assumes "reg_step st e st'" and inv: "reg_inv es st"
  shows "reg_inv (es @ [e]) st'"
proof -
  have at: "\<forall>f \<in> set (ctors st ! t). frame_ok (stored st) f" if "t < length (ctors st)" for t
    using inv that by (auto simp: reg_inv_def)
  have wf: "\<forall>s \<in> set (first_service (reg st)). \<exists>c. service_key s = init_key c" using inv by (simp add: reg_inv_def)
  have objs: "existing st i \<le> of_bool (i < objects st)" for i using inv by (simp add: reg_inv_def)
  from assms(1) show ?thesis
  proof cases
    case (use_found t c s)
    have "s \<in> set (first_service (reg st)) \<and> service_key s = init_key c" using find_service_Some [OF use_found(5) wf] .
    moreover from this have "service_self s \<in> stored st" by (simp add: stored_def)
    ultimately show ?thesis unfolding use_found(1,2)
      using frames_give [OF at [OF use_found(3)]] by (intro reg_inv_put inv use_found(3)) auto
  next
    case (use_missing t c)
    then show ?thesis using at [OF use_missing(3)] by (auto intro!: reg_inv_put inv)
  next
    case (construct t c owner)
    then show ?thesis using at [OF construct(3)] by (auto intro!: reg_inv_put inv)
  next
    case (ctor_throws t c auto owner obtained fs)
    then show ?thesis using at [OF ctor_throws(3)] by (auto intro!: reg_inv_put inv)
  next
    case (built t c owner obtained fs)
    let ?s = "\<lparr>service_self = objects st, service_key = init_key c, service_owner = owner, service_uses = obtained\<rparr>"
    let ?st = "st\<lparr>objects := Suc (objects st)\<rparr>"
    have "existing (put_ctors t (Built c ?s # fs) ?st) i = existing st i + of_bool (i = objects st)" for i
      using existing_put [of t ?st "Built c ?s # fs" i] built(3,4) by (auto simp: existing_def)
    then have "\<forall>i. existing st' i \<le> of_bool (i < objects st')"
      using objs existing_below [OF inv] unfolding built(2) by (auto simp: less_Suc_eq le_Suc_eq)
    then show ?thesis using inv at [OF built(3)]
      by (intro reg_inv_keep [OF inv built(3), where gs = "Built c ?s # fs"]) (auto simp: built(1,2,4) reg_inv_def)
  next
    case (constructed t c owner obtained fs)
    let ?s = "\<lparr>service_self = objects st, service_key = no_key, service_owner = owner, service_uses = obtained\<rparr>"
    let ?st = "st\<lparr>objects := Suc (objects st), loose := ?s # loose st\<rparr>"
    have "existing (put_ctors t fs ?st) i = existing st i + of_bool (i = objects st)" for i
      using existing_put [of t ?st fs i] constructed(3,4) by (auto simp: existing_def)
    then have "\<forall>i. existing st' i \<le> of_bool (i < objects st')"
      using objs existing_below [OF inv] unfolding constructed(2) by (auto simp: less_Suc_eq le_Suc_eq)
    then show ?thesis using inv at [OF constructed(3)]
      by (intro reg_inv_keep [OF inv constructed(3), where gs = fs]) (auto simp: constructed(1,2,4) reg_inv_def)
  next
    case (enter t c new_service fs s discarded r)
    show ?thesis unfolding enter(1,2) by (rule reg_inv_enter_service [OF inv enter(3,4,5)])
  next
    case (add s c r)
    then have None: "find_service (init_key c) (first_service (reg st)) = None"
      and r: "r = (reg st)\<lparr>first_service := s\<lparr>service_key := init_key c\<rparr> # first_service (reg st)\<rparr>"
      by (auto simp: do_add_service_def split: if_splits option.splits)
    have "existing st' i = existing st i" for i
      using count_map_remove1 [OF add(3), of service_self i] unfolding add(2)
      by (cases "service_self s = i") (simp_all add: existing_def r)
    then have ob: "\<forall>i. existing st' i \<le> of_bool (i < objects st')" using objs unfolding add(2) by simp
    have st: "stored st \<subseteq> stored st'" by (auto simp: add(2) stored_def r)
    have "\<forall>gs \<in> set (ctors st). \<forall>f \<in> set gs. frame_ok (stored st') f"
      using inv frame_ok_mono st unfolding reg_inv_def by blast
    moreover have "set (service_uses s) \<subseteq> stored st" using inv add(3) by (simp add: reg_inv_def)
    ultimately show ?thesis
      using reg_inv_enter [OF inv None, of "s\<lparr>service_key := init_key c\<rparr>" st' e] ob set_remove1_subset [of s "loose st"]
      by (simp add: add(1,2) r)
  next
    case (add_throws s c x)
    then show ?thesis using inv by (simp add: reg_inv_def)
  next
    case (drop_loose s)
    have "existing st' i \<le> existing st i" for i
      using count_map_remove1 [OF drop_loose(3), of service_self i] unfolding drop_loose(2) by (simp add: existing_def)
    then have "\<forall>i. existing st' i \<le> of_bool (i < objects st)" using objs order_trans by blast
    then show ?thesis using inv set_remove1_subset [of s "loose st"] unfolding drop_loose(1,2) by (auto simp: reg_inv_def)
  qed
qed

lemma reg_run_inv: "reg_run owner n es st \<Longrightarrow> reg_inv es st"
proof (induction rule: reg_run.induct)
  case (reg_start owner n)
  have "existing (reg_init owner n) i = 0" for i by (simp add: existing_def reg_init_def registry_new_def sum_list_replicate)
  then show ?case by (simp add: reg_inv_def) (simp add: reg_init_def registry_new_def)
next
  case (reg_more owner n es st e st')
  then show ?case using reg_inv_step by blast
qed

section \<open>Properties\<close>

lemma distinct_keys: "distinct (map f xs) \<Longrightarrow> x \<in> set xs \<Longrightarrow> y \<in> set xs \<Longrightarrow> f x = f y \<Longrightarrow> x = y"
  by (auto simp: distinct_map inj_on_def)

lemma uses_behind_split: "uses_behind (as @ s # bs) \<Longrightarrow> set (service_uses s) \<subseteq> service_self ` set bs"
  by (induction as) auto

lemma distinct_selves: "reg_inv es st \<Longrightarrow> distinct (map service_self (first_service (reg st)))"
proof -
  assume inv: "reg_inv es st"
  have "count_list (map service_self (first_service (reg st))) i \<le> existing st i" "existing st i \<le> 1" for i
    using inv by (auto simp: existing_def reg_inv_def intro: order_trans)
  then have le: "count_list (map service_self (first_service (reg st))) i \<le> 1" for i using order_trans by blast
  have "distinct xs" if "\<And>i. count_list xs i \<le> 1" for xs :: "nat list"
    using that
  proof (induction xs)
    case (Cons x xs)
    have "count_list xs x = 0" using Cons.prems [of x] by simp
    moreover have "count_list xs i \<le> 1" for i using Cons.prems [of i] by (simp split: if_splits)
    ultimately show ?case using Cons.IH by (simp add: count_list_0_iff)
  qed simp
  then show ?thesis using le by blast
qed

text \<open>
  C40: safety. Whatever threads use a service, also while another constructs it, and whether it is created by its
  first use or added by the program, all get the same object.
\<close>

theorem one_service_of_a_type:
  assumes run: "reg_run owner n es st"
    and i: "Obtained c i \<in> set es \<or> Added c i \<in> set es" and j: "Obtained c j \<in> set es \<or> Added c j \<in> set es"
  shows "i = j"
proof -
  note inv = reg_run_inv [OF run]
  obtain s where s: "s \<in> set (first_service (reg st))" "service_key s = init_key c" "service_self s = i"
    using inv i unfolding reg_inv_def by blast
  obtain s' where s': "s' \<in> set (first_service (reg st))" "service_key s' = init_key c" "service_self s' = j"
    using inv j unfolding reg_inv_def by blast
  have "s = s'" using distinct_keys [of service_key, OF _ s(1) s'(1)] inv s(2) s'(2) by (simp add: reg_inv_def)
  then show ?thesis using s(3) s'(3) by simp
qed

text \<open>
  C39: safety. When a context ends, each service is shut down and deleted while all the services that its
  constructor obtained still exist: none of them has been deleted before.
\<close>

theorem services_outlive_their_users:
  assumes run: "reg_run owner n es st" and s: "s \<in> set (first_service (reg st))" "u \<in> set (service_uses s)"
    and calls: "execution_context_end (reg st) = before @ call # after" "call \<in> {Shutdown (service_self s), Delete (service_self s)}"
  shows "Delete u \<notin> set before"
proof -
  note inv = reg_run_inv [OF run]
  let ?xs = "first_service (reg st)"
  obtain as bs where xs: "?xs = as @ s # bs" using split_list [OF s(1)] by blast
  have behind: "u \<in> service_self ` set bs" using inv s(2) uses_behind_split [of as s bs] by (auto simp: reg_inv_def xs)
  have dist: "distinct (map service_self ?xs)" using distinct_selves [OF inv] .
  then have once: "distinct (execution_context_end (reg st))"
    by (auto simp: execution_context_end_def distinct_map inj_on_def)
  have eq: "before = pre" if "execution_context_end (reg st) = pre @ call # post" for pre post
  proof -
    have "call \<notin> set before" "call \<notin> set after" using once unfolding calls(1) by simp_all
    then show ?thesis using that calls(1) append_Cons_eq_iff [of call before after pre post] by simp
  qed
  from calls(2) consider "call = Shutdown (service_self s)" | "call = Delete (service_self s)" by blast
  then show ?thesis
  proof cases
    case 1
    then have "before = map (Shutdown \<circ> service_self) as" by (intro eq) (simp add: execution_context_end_def xs)
    then show ?thesis by auto
  next
    case 2
    then have "before = map (Shutdown \<circ> service_self) ?xs @ map (Delete \<circ> service_self) as"
      by (intro eq) (simp add: execution_context_end_def xs)
    then show ?thesis using behind dist by (auto simp: xs)
  qed
qed

text \<open>A service whose constructor uses another, and two threads that use it at once.\<close>

definition demo_a :: service where
  "demo_a = \<lparr>service_self = 0, service_key = init_key (WithType 2), service_owner = 7, service_uses = []\<rparr>"

definition demo_b :: service where
  "demo_b = \<lparr>service_self = 2, service_key = init_key (WithType 1), service_owner = 7, service_uses = [0]\<rparr>"

lemma demo_registry_run:
  "\<exists>st. reg_run 7 2 [Internal, Internal, Internal, Internal, Internal, Obtained (WithType 2) 0, Obtained (WithType 2) 0,
       Internal, Obtained (WithType 1) 2] st \<and> first_service (reg st) = [demo_b, demo_a]"
proof -
  let ?a = "WithType 1" and ?b = "WithType 2"
  define s where "s r n fs gs = \<lparr>reg = \<lparr>registry_owner = 7, first_service = r\<rparr>, loose = [], objects = n, ctors = [fs, gs]\<rparr>" for r n fs gs
  have [simp]: "reg (s r n fs gs) = \<lparr>registry_owner = 7, first_service = r\<rparr>" "loose (s r n fs gs) = []"
    "objects (s r n fs gs) = n" "ctors (s r n fs gs) = [fs, gs]" "put_ctors 0 hs (s r n fs gs) = s r n hs gs"
    "put_ctors (Suc 0) hs (s r n fs gs) = s r n fs hs" "s r n fs gs\<lparr>objects := m\<rparr> = s r m fs gs"
    "s r n fs gs\<lparr>reg := \<lparr>registry_owner = 7, first_service = r'\<rparr>\<rparr> = s r' n fs gs" for r n fs gs hs m r'
    by (simp_all add: s_def put_ctors_def)
  let ?c = "Constructing ?a True 7 []" and ?d = "Constructing ?b True 7 []"
  define a' where "a' = demo_a\<lparr>service_self := 1\<rparr>"
  have "reg_run 7 2 [] (s [] 0 [] [])"
    using reg_start [of 7 2] by (simp add: reg_init_def registry_new_def s_def numeral_2_eq_2)
  note r0 = this
  have r1: "reg_step (s [] 0 [] []) Internal (s [] 0 [?c] [])"
    using use_missing [of 0 "s [] 0 [] []" ?a] by simp
  have r2: "reg_step (s [] 0 [?c] []) Internal (s [] 0 [?d, ?c] [])"
    using use_missing [of 0 "s [] 0 [?c] []" ?b] by simp
  have r3: "reg_step (s [] 0 [?d, ?c] []) Internal (s [] 0 [?d, ?c] [?d])"
    using use_missing [of 1 "s [] 0 [?d, ?c] []" ?b] by simp
  have r4: "reg_step (s [] 0 [?d, ?c] [?d]) Internal (s [] 1 [?d, ?c] [Built ?b demo_a])"
    using built [of 1 "s [] 0 [?d, ?c] [?d]"] by (simp add: demo_a_def)
  have r5: "reg_step (s [] 1 [?d, ?c] [Built ?b demo_a]) Internal (s [] 2 [Built ?b a', ?c] [Built ?b demo_a])"
    using built [of 0 "s [] 1 [?d, ?c] [Built ?b demo_a]"] by (simp add: demo_a_def a'_def numeral_2_eq_2)
  have r6: "reg_step (s [] 2 [Built ?b a', ?c] [Built ?b demo_a]) (Obtained ?b 0) (s [demo_a] 2 [Built ?b a', ?c] [])"
    using enter [of 1 "s [] 2 [Built ?b a', ?c] [Built ?b demo_a]" ?b demo_a "[]"] by (simp add: enter_service_def demo_a_def)
  have r7: "reg_step (s [demo_a] 2 [Built ?b a', ?c] []) (Obtained ?b 0) (s [demo_a] 2 [Constructing ?a True 7 [0]] [])"
    using enter [of 0 "s [demo_a] 2 [Built ?b a', ?c] []" ?b a' "[?c]"] by (simp add: enter_service_def demo_a_def keys_match_def)
  have r8: "reg_step (s [demo_a] 2 [Constructing ?a True 7 [0]] []) Internal (s [demo_a] 3 [Built ?a demo_b] [])"
    using built [of 0 "s [demo_a] 2 [Constructing ?a True 7 [0]] []"] by (simp add: demo_b_def numeral_2_eq_2 numeral_3_eq_3)
  have r9: "reg_step (s [demo_a] 3 [Built ?a demo_b] []) (Obtained ?a 2) (s [demo_b, demo_a] 3 [] [])"
    using enter [of 0 "s [demo_a] 3 [Built ?a demo_b] []" ?a demo_b "[]"] by (simp add: enter_service_def demo_a_def demo_b_def keys_match_def)
  note reg_more [OF reg_more [OF reg_more [OF reg_more [OF reg_more [OF reg_more [OF reg_more [OF reg_more [OF reg_more
    [OF r0 r1] r2] r3] r4] r5] r6] r7] r8] r9]
  then show ?thesis by (intro exI [of _ "s [demo_b, demo_a] 3 [] []"]) simp
qed

theorem one_service_of_a_type_witness:
  "\<exists>es st. reg_run 7 2 es st \<and> Obtained (WithType 2) 0 \<in> set es \<and> (\<forall>j. Obtained (WithType 2) j \<in> set es \<longrightarrow> 0 = j)"
proof -
  obtain es st where run: "reg_run 7 2 es st" "Obtained (WithType 2) 0 \<in> set es"
    using demo_registry_run by (metis list.set_intros)
  have "0 = j" if "Obtained (WithType 2) j \<in> set es" for j
    using one_service_of_a_type [OF run(1), of "WithType 2" 0 j] run(2) that by blast
  then show ?thesis using run by blast
qed

theorem services_outlive_their_users_witness:
  "\<exists>es st. reg_run 7 2 es st \<and> execution_context_end (reg st) = [Shutdown 2, Shutdown 0] @ Delete 2 # [Delete 0] \<and>
     Delete 0 \<notin> set [Shutdown 2, Shutdown 0]"
proof -
  obtain es st where run: "reg_run 7 2 es st" "first_service (reg st) = [demo_b, demo_a]" using demo_registry_run by blast
  have calls: "execution_context_end (reg st) = [Shutdown 2, Shutdown 0] @ Delete 2 # [Delete 0]"
    by (simp add: execution_context_end_def run(2) demo_a_def demo_b_def)
  have "Delete 0 \<notin> set [Shutdown 2, Shutdown 0]"
    by (rule services_outlive_their_users [OF run(1) _ _ calls, where s = demo_b]) (simp_all add: run(2) demo_b_def)
  then show ?thesis using run(1) calls by blast
qed

text \<open>
  The order at the end is that of entering the list. A service that the program constructs first and adds
  last is shut down first, and not in the reverse order of the beginnings of the services' lifetimes.
\<close>

lemma added_late_ends_first:
  assumes "service_owner a = registry_owner r" "find_service (init_key c) (first_service r) = None"
  shows "\<exists>r'. do_add_service (init_key c) a r = Inr r' \<and> hd (execution_context_end r') = Shutdown (service_self a)"
  using assms by (simp add: do_add_service_def execution_context_end_def)

text \<open>With one thread: a second use returns the first one's service and constructs nothing.\<close>

lemma second_use_constructs_nothing:
  assumes "do_use_service (init_key c) factory r = (s, discarded, r')"
  shows "do_use_service (init_key c) other r' = (s, None, r')"
  using assms
  by (auto simp: do_use_service_def enter_service_def Let_def split: option.splits prod.splits)

text \<open>\<open>make_service\<close> fails exactly if the context has a service of the class, and then leaves the registry as it was.\<close>

lemma make_service_fails_iff:
  assumes "construct (registry_owner r) r = (svc, r')" "service_owner svc = registry_owner r'"
  shows "make_service c construct r =
    (if do_has_service (init_key c) r' then Inl (ServiceAlreadyExists, svc, r')
     else Inr (svc\<lparr>service_key := init_key c\<rparr>, r'\<lparr>first_service := svc\<lparr>service_key := init_key c\<rparr> # first_service r'\<rparr>))"
  using assms by (auto simp: make_service_def do_add_service_def do_has_service_def split: option.splits)

end
